(* ===== verification/PRC_Prelude.thy ===== *)
theory PRC_Prelude
  imports Complex_Main "HOL-Library.Word" "HOL-Library.Multiset"
begin

unbundle bit_operations_syntax

text \<open>
  The prelude: the machine types of the Rust sources, panics as values of a sum type with
  its monadic operations, the arithmetic of the two build profiles, little-endian byte
  conversions, and the exclusive-or of a list of Booleans, which is what reconstructs an
  XOR-shared bit. The collections \<open>res_simps\<close> and \<open>xor_simps\<close> carry the
  rewriting the component theories share.
\<close>

named_theorems res_simps \<open>rewriting of panicking computations\<close>
named_theorems xor_simps \<open>linearity of the exclusive-or of shares\<close>
named_theorems wf_simps \<open>well-formedness of the results of operations\<close>

section \<open>Machine types and panics\<close>

type_synonym u8 = "8 word"
type_synonym u32 = "32 word"
type_synonym u64 = "64 word"

text \<open>
  Why a computation stops: an \<open>assert!\<close>, an explicit \<open>panic!\<close>, an index out of
  bounds, an arithmetic overflow (dev profile), a
  division by zero, an \<open>unwrap\<close> or \<open>expect\<close> on
  nothing, a \<open>todo!\<close>. \<open>MemoryFault\<close> stands for an access of an \<open>unsafe\<close> block
  outside its allocation, which Rust leaves undefined.
\<close>

datatype panic =
    AssertionFailed
  | ExplicitPanic
  | IndexOutOfBounds
  | ArithOverflow
  | DivisionByZero
  | NoneUnwrapped
  | NotImplemented
  | MemoryFault

type_synonym 'a res = "panic + 'a"

abbreviation Ok :: "'a \<Rightarrow> 'a res" where
  "Ok \<equiv> Inr"

abbreviation Panic :: "panic \<Rightarrow> 'a res" where
  "Panic \<equiv> Inl"

text \<open>Sequencing: the first panic ends the computation.\<close>

fun rbind :: "'a res \<Rightarrow> ('a \<Rightarrow> 'b res) \<Rightarrow> 'b res" where
  "rbind (Inl e) f = Inl e"
| "rbind (Inr x) f = f x"

definition rassert :: "bool \<Rightarrow> panic \<Rightarrow> unit res" where
  "rassert b e = (if b then Ok () else Panic e)"

text \<open>\<open>Option::expect\<close> and \<open>Option::unwrap\<close>.\<close>

fun expect :: "'a option \<Rightarrow> 'a res" where
  "expect None = Panic NoneUnwrapped"
| "expect (Some x) = Ok x"

text \<open>A \<open>for\<close> loop over a list of items that updates a state.\<close>

fun rfold :: "('i \<Rightarrow> 's \<Rightarrow> 's res) \<Rightarrow> 'i list \<Rightarrow> 's \<Rightarrow> 's res" where
  "rfold f [] s = Ok s"
| "rfold f (x # xs) s = rbind (f x s) (rfold f xs)"

text \<open>A loop that collects one result per item.\<close>

fun rmap :: "('i \<Rightarrow> 'a res) \<Rightarrow> 'i list \<Rightarrow> 'a list res" where
  "rmap f [] = Ok []"
| "rmap f (x # xs) = rbind (f x) (\<lambda>y. rbind (rmap f xs) (\<lambda>ys. Ok (y # ys)))"

text \<open>\<open>(0..n).map(|_| f(rng)).collect()\<close>: a computation repeated on a random source.\<close>

fun rtimes :: "nat \<Rightarrow> ('r \<Rightarrow> ('a \<times> 'r) res) \<Rightarrow> 'r \<Rightarrow> ('a list \<times> 'r) res" where
  "rtimes 0 f s = Ok ([], s)"
| "rtimes (Suc n) f s =
     rbind (f s) (\<lambda>(x, s). rbind (rtimes n f s) (\<lambda>(xs, s). Ok (x # xs, s)))"

text \<open>A sequence of calls on one object, each with its argument and its result.\<close>

fun rscan :: "('s \<Rightarrow> 'i \<Rightarrow> ('a \<times> 's) res) \<Rightarrow> 's \<Rightarrow> 'i list \<Rightarrow> ('a list \<times> 's) res" where
  "rscan f s [] = Ok ([], s)"
| "rscan f s (x # xs) =
     rbind (f s x) (\<lambda>(y, s). rbind (rscan f s xs) (\<lambda>(ys, s). Ok (y # ys, s)))"

text \<open>The slice \<open>xs[a..b]\<close> and the element \<open>xs[i]\<close> of a Rust slice.\<close>

definition slice :: "'a list \<Rightarrow> nat \<Rightarrow> nat \<Rightarrow> 'a list res" where
  "slice xs a b =
     (if a \<le> b \<and> b \<le> length xs then Ok (take (b - a) (drop a xs)) else Panic IndexOutOfBounds)"

definition index :: "'a list \<Rightarrow> nat \<Rightarrow> 'a res" where
  "index xs i = (if i < length xs then Ok (xs ! i) else Panic IndexOutOfBounds)"

lemma rbind_assoc [res_simps]: "rbind (rbind m f) g = rbind m (\<lambda>x. rbind (f x) g)"
  by (cases m) simp_all

lemma rbind_Ok [simp]: "rbind m Inr = m"
  by (cases m) simp_all

lemma rbind_eq_Ok: "rbind m f = Inr y \<longleftrightarrow> (\<exists>x. m = Inr x \<and> f x = Inr y)"
  by (cases m) simp_all

lemma rbind_eq_Panic: "rbind m f = Inl e \<longleftrightarrow> m = Inl e \<or> (\<exists>x. m = Inr x \<and> f x = Inl e)"
  by (cases m) simp_all

lemma rbind_cong [fundef_cong]:
  "m = m' \<Longrightarrow> (\<And>x. m' = Inr x \<Longrightarrow> f x = f' x) \<Longrightarrow> rbind m f = rbind m' f'"
  by (cases m') simp_all

lemma rassert_True [simp]: "rassert True e = Inr ()"
  and rassert_False [simp]: "rassert False e = Inl e"
  by (simp_all add: rassert_def)

lemma rassert_eq_Ok [simp]: "rassert b e = Inr u \<longleftrightarrow> b"
  by (simp add: rassert_def)

lemma rfold_append: "rfold f (xs @ ys) s = rbind (rfold f xs s) (rfold f ys)"
proof (induction xs arbitrary: s)
  case (Cons x xs)
  then show ?case by (cases "f x s") simp_all
qed simp

lemma rfold_map: "rfold f (map g xs) s = rfold (\<lambda>x. f (g x)) xs s"
proof (induction xs arbitrary: s)
  case (Cons x xs)
  then show ?case by (cases "f (g x) s") simp_all
qed simp

lemma rfold_cong:
  "xs = ys \<Longrightarrow> (\<And>x s. x \<in> set ys \<Longrightarrow> f x s = g x s) \<Longrightarrow> rfold f xs s = rfold g ys s"
proof (induction ys arbitrary: xs s)
  case (Cons y ys)
  then show ?case by (auto intro: rbind_cong)
qed simp

text \<open>
  The loop rule: an invariant that every iteration establishes for the next position
  holds at the end, and the loop does not panic.
\<close>

lemma rfold_invariant:
  assumes "I 0 s"
    and "\<And>k s. k < length xs \<Longrightarrow> I k s \<Longrightarrow> \<exists>s'. f (xs ! k) s = Inr s' \<and> I (Suc k) s'"
  shows "\<exists>s'. rfold f xs s = Inr s' \<and> I (length xs) s'"
  using assms
proof (induction xs arbitrary: s rule: rev_induct)
  case Nil
  then show ?case by simp
next
  case (snoc x xs)
  have step: "\<exists>s'. f (xs ! k) s = Inr s' \<and> I (Suc k) s'" if "k < length xs" "I k s" for k s
    using snoc.prems(2) [of k s] that by (simp add: nth_append)
  obtain s1 where s1: "rfold f xs s = Inr s1" "I (length xs) s1"
    using snoc.IH [OF snoc.prems(1) step] by blast
  from snoc.prems(2) [of "length xs" s1] s1(2) obtain s2
    where "f x s1 = Inr s2" "I (Suc (length xs)) s2"
    by auto
  with s1 show ?case by (simp add: rfold_append)
qed

lemma rmap_Ok:
  "(\<And>x. x \<in> set xs \<Longrightarrow> f x = Inr (g x)) \<Longrightarrow> rmap f xs = Inr (map g xs)"
  by (induction xs) simp_all

lemma rmap_map: "rmap f (map g xs) = rmap (\<lambda>x. f (g x)) xs"
  by (induction xs) simp_all

lemma rmap_eq_Ok_length: "rmap f xs = Inr ys \<Longrightarrow> length ys = length xs"
  by (induction xs arbitrary: ys) (auto simp: rbind_eq_Ok)

lemma rmap_eq_Ok_nth:
  "rmap f xs = Inr ys \<Longrightarrow> i < length xs \<Longrightarrow> f (xs ! i) = Inr (ys ! i)"
proof (induction xs arbitrary: ys i)
  case Nil
  then show ?case by simp
next
  case (Cons x xs)
  then show ?case by (cases i) (auto simp: rbind_eq_Ok)
qed

lemma rtimes_Ok:
  assumes "\<And>s. \<exists>x s'. f s = Inr (x, s') \<and> P x"
  shows "\<exists>xs s'. rtimes n f s = Inr (xs, s') \<and> length xs = n \<and> (\<forall>x\<in>set xs. P x)"
proof (induction n arbitrary: s)
  case 0
  then show ?case by simp
next
  case (Suc n)
  obtain x s1 where 1: "f s = Inr (x, s1)" "P x" using assms by blast
  obtain xs s2 where 2: "rtimes n f s1 = Inr (xs, s2)" "length xs = n" "\<forall>x\<in>set xs. P x"
    using Suc.IH [of s1] by blast
  show ?case using 1 2 by simp
qed

lemma rscan_Ok:
  assumes "\<And>s x. x \<in> set xs \<Longrightarrow> \<exists>y s'. f s x = Inr (y, s') \<and> P x y"
  shows "\<exists>ys s'. rscan f s xs = Inr (ys, s') \<and> list_all2 P xs ys"
  using assms
proof (induction xs arbitrary: s)
  case Nil
  then show ?case by simp
next
  case (Cons x xs)
  obtain y s1 where 1: "f s x = Inr (y, s1)" "P x y" using Cons.prems [of x s] by auto
  obtain ys s2 where 2: "rscan f s1 xs = Inr (ys, s2)" "list_all2 P xs ys"
    using Cons.IH [of s1] Cons.prems by auto
  show ?case using 1 2 by simp
qed

section \<open>Random sources\<close>

text \<open>
  A seedable random source of the \<open>rand\<close> crates, a parameter of the model:
  seeding, \<open>next_u32\<close>, and \<open>fill\<close> of a slice of the given length. What the
  code relies on is that \<open>fill\<close> writes the whole slice.
\<close>

record 'r rng_ops =
  rng_from_seed :: "u8 list \<Rightarrow> 'r"
  rng_next_u32 :: "'r \<Rightarrow> u32 \<times> 'r"
  rng_fill :: "nat \<Rightarrow> 'r \<Rightarrow> u8 list \<times> 'r"

definition rng_ok :: "'r rng_ops \<Rightarrow> bool" where
  "rng_ok R \<longleftrightarrow> (\<forall>n s. length (fst (rng_fill R n s)) = n)"

text \<open>A counter as a random source, for concrete runs.\<close>

definition counter_rng :: "nat rng_ops" where
  "counter_rng = \<lparr>rng_from_seed = (\<lambda>seed. sum_list (map unat seed)),
     rng_next_u32 = (\<lambda>s. (of_nat s, s + 13)),
     rng_fill = (\<lambda>n s. (map (\<lambda>i. of_nat (s + 37 * i)) [0..<n], s + n))\<rparr>"

lemma rng_ok_counter: "rng_ok counter_rng"
  by (simp add: rng_ok_def counter_rng_def)

section \<open>Providers of correlated randomness\<close>

text \<open>
  What the protocol expects of a store of preprocessed material: \<open>take\<close> hands out the next
  block and moves on, and refuses a request that is larger than what is left or a store that
  was never filled. A run of requests then gets consecutive blocks, no part of which is
  handed out twice.
\<close>

locale preproc_provider =
  fixes initialised :: "'s \<Rightarrow> bool" and invar :: "'s \<Rightarrow> bool"
    and total :: "'s \<Rightarrow> nat" and used :: "'s \<Rightarrow> nat"
    and block :: "'s \<Rightarrow> nat \<Rightarrow> nat \<Rightarrow> 'm"
    and take_block :: "'s \<Rightarrow> nat \<Rightarrow> ('m \<times> 's) res"
  assumes take_empty: "\<not> initialised s \<Longrightarrow> take_block s n = Inl NoneUnwrapped"
    and take_over: "initialised s \<Longrightarrow> total s < used s + n \<Longrightarrow> take_block s n = Inl AssertionFailed"
    and take_next: "invar s \<Longrightarrow> used s + n \<le> total s \<Longrightarrow>
      \<exists>s'. take_block s n = Inr (block s (used s) n, s') \<and> invar s' \<and> used s' = used s + n \<and>
        total s' = total s \<and> block s' = block s"
    and invar_initialised: "invar s \<Longrightarrow> initialised s"
begin

lemma take_next_eq:
  assumes "invar s" "used s + n \<le> total s"
  obtains s' where "take_block s n = Inr (block s (used s) n, s')" "invar s'" "used s' = used s + n"
    "total s' = total s" "block s' = block s"
  using take_next [OF assms] by blast

lemma take_run:
  "invar s \<Longrightarrow> used s + sum_list ns \<le> total s \<Longrightarrow>
     \<exists>s'. rscan take_block s ns
         = Inr (map (\<lambda>k. block s (used s + sum_list (take k ns)) (ns ! k)) [0..<length ns], s') \<and>
       invar s' \<and> used s' = used s + sum_list ns \<and> total s' = total s \<and> block s' = block s"
proof (induction ns arbitrary: s)
  case Nil
  then show ?case by simp
next
  case (Cons n ns)
  then have "used s + n \<le> total s" by simp
  then obtain s1 where s1: "take_block s n = Inr (block s (used s) n, s1)" "invar s1"
      "used s1 = used s + n" "total s1 = total s" "block s1 = block s"
    using take_next_eq [OF Cons.prems(1)] by blast
  then obtain s2 where s2: "rscan take_block s1 ns
        = Inr (map (\<lambda>k. block s (used s + n + sum_list (take k ns)) (ns ! k)) [0..<length ns], s2)"
      "invar s2" "used s2 = used s + n + sum_list ns" "total s2 = total s" "block s2 = block s"
    using Cons.IH [OF s1(2)] Cons.prems(2) by auto
  have "map (\<lambda>k. block s (used s + sum_list (take k (n # ns))) ((n # ns) ! k)) [0..<length (n # ns)]
      = block s (used s) n # map (\<lambda>k. block s (used s + n + sum_list (take k ns)) (ns ! k)) [0..<length ns]"
    by (simp add: upt_conv_Cons map_Suc_upt [symmetric] add.assoc comp_def del: upt_Suc)
  then show ?case using s1 s2 by simp
qed

lemma take_exhausts:
  "invar s \<Longrightarrow> used s \<le> total s \<Longrightarrow> total s < used s + sum_list ns \<Longrightarrow>
     rscan take_block s ns = Inl AssertionFailed"
proof (induction ns arbitrary: s)
  case Nil
  then show ?case by simp
next
  case (Cons n ns)
  show ?case
  proof (cases "used s + n \<le> total s")
    case False
    then show ?thesis using Cons.prems take_over invar_initialised by simp
  next
    case True
    then obtain s1 where "take_block s n = Inr (block s (used s) n, s1)" "invar s1"
      "used s1 = used s + n" "total s1 = total s"
      using take_next_eq [OF Cons.prems(1)] by blast
    then show ?thesis using Cons.IH [of s1] Cons.prems(3) True by simp
  qed
qed

end

section \<open>Sizes\<close>

text \<open>\<open>usize::div_ceil\<close>.\<close>

definition div_ceil :: "nat \<Rightarrow> nat \<Rightarrow> nat" where
  "div_ceil n m = (n + m - 1) div m"

lemma div_ceil_0 [simp]: "0 < m \<Longrightarrow> div_ceil 0 m = 0"
  by (simp add: div_ceil_def)

lemma div_ceil_mult [simp]: "0 < m \<Longrightarrow> div_ceil (m * n) m = n"
proof -
  assume m: "0 < m"
  then have "m * n + m - 1 = (m - 1) + m * n" by simp
  then have "(m * n + m - 1) div m = ((m - 1) + m * n) div m" by (rule arg_cong)
  also have "\<dots> = n + (m - 1) div m" using m by (simp only: div_mult_self2)
  also have "\<dots> = n" using m by simp
  finally show ?thesis by (simp add: div_ceil_def)
qed

lemma div_ceil_mult_right [simp]: "0 < m \<Longrightarrow> div_ceil (n * m) m = n"
  using div_ceil_mult [of m n] by (simp add: mult.commute)

lemma div_ceil_8_ge: "n \<le> 8 * div_ceil n 8"
  unfolding div_ceil_def by presburger

lemma div_ceil_8_less: "8 * div_ceil n 8 < n + 8"
  unfolding div_ceil_def by presburger

lemma less_div_ceil_8: "i < n \<Longrightarrow> i div 8 < div_ceil n 8"
  using div_ceil_8_ge [of n] by (intro less_mult_imp_div_less) simp

lemma div_ceil_8_pos [simp]: "0 < div_ceil n 8 \<longleftrightarrow> 0 < n"
  using div_ceil_8_ge [of n] div_ceil_8_less [of n] by linarith

lemma div_ceil_8_aligned: "n mod 8 = 0 \<Longrightarrow> 8 * div_ceil n 8 = n"
  unfolding div_ceil_def by presburger

lemma div_ceil_8_add: "div_ceil (8 * b + m) 8 = b + div_ceil m 8"
proof -
  have "8 * b + m + 8 - 1 = (m + 8 - 1) + 8 * b" by simp
  then have "div_ceil (8 * b + m) 8 = ((m + 8 - 1) + 8 * b) div 8" unfolding div_ceil_def by (rule arg_cong)
  then show ?thesis by (simp add: div_ceil_def)
qed

text \<open>The offsets of \<open>(0..n).step_by(s)\<close>.\<close>

definition step_by :: "nat \<Rightarrow> nat \<Rightarrow> nat list" where
  "step_by n s = map (\<lambda>k. s * k) [0..<div_ceil n s]"

section \<open>Arithmetic in the two build profiles\<close>

text \<open>
  \<open>cargo test\<close> and \<open>cargo build\<close> check integer overflow and panic; \<open>cargo
  build --release\<close>, which the README asks for, wraps. An over-wide shift masks its
  distance when it is not checked.
\<close>

datatype profile = Dev | Release

definition arith_u32 :: "profile \<Rightarrow> bool \<Rightarrow> u32 \<Rightarrow> u32 res" where
  "arith_u32 p fits w = (if fits \<or> p = Release then Ok w else Panic ArithOverflow)"

definition add_u32 :: "profile \<Rightarrow> u32 \<Rightarrow> u32 \<Rightarrow> u32 res" where
  "add_u32 p a b = arith_u32 p (unat a + unat b < 2 ^ 32) (a + b)"

definition mul_u32 :: "profile \<Rightarrow> u32 \<Rightarrow> u32 \<Rightarrow> u32 res" where
  "mul_u32 p a b = arith_u32 p (unat a * unat b < 2 ^ 32) (a * b)"

definition sub_u32 :: "profile \<Rightarrow> u32 \<Rightarrow> u32 \<Rightarrow> u32 res" where
  "sub_u32 p a b = arith_u32 p (b \<le> a) (a - b)"

definition shl_u32 :: "profile \<Rightarrow> u32 \<Rightarrow> nat \<Rightarrow> u32 res" where
  "shl_u32 p a n = arith_u32 p (n < 32) (push_bit (n mod 32) a)"

definition shr_u32 :: "profile \<Rightarrow> u32 \<Rightarrow> nat \<Rightarrow> u32 res" where
  "shr_u32 p a n = arith_u32 p (n < 32) (drop_bit (n mod 32) a)"

text \<open>\<open>1 << n\<close> as a \<open>usize\<close> of 64 bits.\<close>

definition shl1_usize :: "profile \<Rightarrow> nat \<Rightarrow> nat res" where
  "shl1_usize p n = (if n < 64 then Ok (2 ^ n) else if p = Release then Ok (2 ^ (n mod 64)) else Panic ArithOverflow)"

definition sub_usize :: "profile \<Rightarrow> nat \<Rightarrow> nat \<Rightarrow> nat res" where
  "sub_usize p a b =
     (if b \<le> a then Ok (a - b)
      else if p = Release then Ok (a + 2 ^ 64 - b) else Panic ArithOverflow)"

lemma sub_usize_Ok [simp]: "b \<le> a \<Longrightarrow> sub_usize p a b = Inr (a - b)"
  by (simp add: sub_usize_def)

lemma shl_u32_Ok [simp]: "n < 32 \<Longrightarrow> shl_u32 p a n = Inr (push_bit n a)"
  by (simp add: shl_u32_def arith_u32_def)

lemma shr_u32_Ok [simp]: "n < 32 \<Longrightarrow> shr_u32 p a n = Inr (drop_bit n a)"
  by (simp add: shr_u32_def arith_u32_def)

lemma shl1_usize_Ok [simp]: "n < 64 \<Longrightarrow> shl1_usize p n = Inr (2 ^ n)"
  by (simp add: shl1_usize_def)

lemma sub_u32_Ok [simp]: "b \<le> a \<Longrightarrow> sub_u32 p a b = Inr (a - b)"
  by (simp add: sub_u32_def arith_u32_def)

lemma pow_le_u32: "k \<le> 32 \<Longrightarrow> 2 ^ k \<le> (4294967296 :: nat)"
  using power_increasing [of k 32 "2 :: nat"] by simp

lemma unat_u32_less: "unat (v :: u32) < 4294967296"
  using unsigned_less [of v] by simp

lemma unat_push_bit_u32: "unat (push_bit k v) = (2 ^ k * unat v) mod 2 ^ 32" for v :: u32
proof -
  have "push_bit k v = of_nat (2 ^ k * unat v)"
    by (simp add: push_bit_eq_mult mult.commute)
  then show ?thesis by (simp add: unat_of_nat del: of_nat_mult of_nat_power)
qed

lemma unat_exp_u32: "k < 32 \<Longrightarrow> unat (push_bit k (1 :: u32)) = 2 ^ k"
  using power_strict_increasing [of k 32 "2 :: nat"] by (subst unat_push_bit_u32) simp

text \<open>\<open>u16\<close> addition, and the bit counts of a \<open>usize\<close> of 64 bits.\<close>

definition add_u16 :: "profile \<Rightarrow> 16 word \<Rightarrow> 16 word \<Rightarrow> 16 word res" where
  "add_u16 p a b = (if unat a + unat b < 2 ^ 16 \<or> p = Release then Ok (a + b) else Panic ArithOverflow)"

fun trailing_zeros :: "nat \<Rightarrow> nat" where
  "trailing_zeros n = (if n = 0 then 64 else if odd n then 0 else Suc (trailing_zeros (n div 2)))"

declare trailing_zeros.simps [simp del]

definition is_power_of_two :: "nat \<Rightarrow> bool" where
  "is_power_of_two n \<longleftrightarrow> 0 < n \<and> n = 2 ^ trailing_zeros n"

lemma trailing_zeros_exp [simp]: "trailing_zeros (2 ^ k) = k"
  by (induction k) (simp_all add: trailing_zeros.simps [of "Suc 0"] trailing_zeros.simps [of "2 * _"])

lemma is_power_of_two_iff: "is_power_of_two n \<longleftrightarrow> (\<exists>k. n = 2 ^ k)"
  unfolding is_power_of_two_def by auto

section \<open>Little-endian bytes\<close>

text \<open>
  \<open>from_le_bytes\<close>, and the view of a byte buffer as wider integers that
  \<open>_mm256_storeu_si256\<close> gives on the little-endian x86-64 the crate requires;
  \<open>to_le_bytes\<close> with the number of bytes given.
\<close>

definition from_le_bytes :: "u8 list \<Rightarrow> 'a::len word" where
  "from_le_bytes bs = foldr (\<lambda>b acc. ucast b OR push_bit 8 acc) bs 0"

definition to_le_bytes :: "nat \<Rightarrow> 'a::len word \<Rightarrow> u8 list" where
  "to_le_bytes n w = map (\<lambda>k. ucast (drop_bit (8 * k) w)) [0..<n]"

text \<open>\<open>count_ones\<close>.\<close>

definition count_ones :: "'a::len word \<Rightarrow> nat" where
  "count_ones w = length (filter (bit w) [0..<LENGTH('a)])"

lemma length_to_le_bytes [simp]: "length (to_le_bytes n w) = n"
  by (simp add: to_le_bytes_def)

lemma bit_u8_beyond: "8 \<le> n \<Longrightarrow> \<not> bit (b :: u8) n"
  using bit_imp_le_length [of b n] by auto

lemma bit_from_le_bytes:
  "bit (from_le_bytes bs :: 'a::len word) n \<longleftrightarrow>
     n < LENGTH('a) \<and> n div 8 < length bs \<and> bit (bs ! (n div 8)) (n mod 8)"
proof (induction bs arbitrary: n)
  case Nil
  then show ?case by (simp add: from_le_bytes_def)
next
  case (Cons b bs)
  have step: "(from_le_bytes (b # bs) :: 'a word) = ucast b OR push_bit 8 (from_le_bytes bs)"
    by (simp add: from_le_bytes_def)
  show ?case
  proof (cases "n < 8")
    case True
    then show ?thesis
      by (auto simp: step bit_or_iff bit_ucast_iff bit_push_bit_iff dest: bit_imp_le_length)
  next
    case False
    then obtain m where n: "n = m + 8" using le_add_diff_inverse2 [of 8 n] by (metis not_less)
    have "bit (from_le_bytes (b # bs) :: 'a word) n \<longleftrightarrow>
        n < LENGTH('a) \<and> bit (from_le_bytes bs :: 'a word) m"
      using bit_u8_beyond [of n b] n
      by (auto simp: step bit_or_iff bit_ucast_iff bit_push_bit_iff dest: bit_imp_le_length)
    then show ?thesis using n by (auto simp: Cons.IH)
  qed
qed

lemma from_le_bytes_to_le_bytes [simp]:
  "LENGTH('a) \<le> 8 * n \<Longrightarrow> from_le_bytes (to_le_bytes n w) = (w :: 'a::len word)"
proof (rule bit_word_eqI)
  fix i
  assume n: "LENGTH('a) \<le> 8 * n" and i: "i < LENGTH('a)"
  then have "i div 8 < n" by (simp add: less_mult_imp_div_less mult.commute)
  then show "bit (from_le_bytes (to_le_bytes n w) :: 'a word) i = bit w i"
    using i by (simp add: bit_from_le_bytes to_le_bytes_def bit_ucast_iff bit_drop_bit_eq)
qed

lemma to_le_bytes_from_le_bytes: "length bs = n \<Longrightarrow> 8 * n \<le> LENGTH('a) \<Longrightarrow> to_le_bytes n (from_le_bytes bs :: 'a::len word) = bs"
proof (rule nth_equalityI)
  fix i assume n: "length bs = n" "8 * n \<le> LENGTH('a)" "i < length (to_le_bytes n (from_le_bytes bs :: 'a word))"
  show "to_le_bytes n (from_le_bytes bs :: 'a word) ! i = bs ! i"
  proof (rule bit_word_eqI)
    fix j assume j: "j < LENGTH(8)"
    have "(8 * i + j) div 8 = i" "(8 * i + j) mod 8 = j" using j by simp_all
    then show "bit (to_le_bytes n (from_le_bytes bs :: 'a word) ! i) j = bit (bs ! i) j"
      using n j by (simp add: to_le_bytes_def bit_ucast_iff bit_drop_bit_eq bit_from_le_bytes)
  qed
qed simp

section \<open>The exclusive-or of a list of bits\<close>

text \<open>What a list of XOR shares of one bit stands for.\<close>

definition xors :: "bool list \<Rightarrow> bool" where
  "xors bs = foldr (\<noteq>) bs False"

lemma xors_Nil [simp]: "xors [] = False"
  and xors_Cons [simp]: "xors (b # bs) = (b \<noteq> xors bs)"
  by (simp_all add: xors_def)

lemma xors_append [simp]: "xors (as @ bs) = (xors as \<noteq> xors bs)"
  by (induction as) auto

lemma xors_rev [simp]: "xors (rev bs) = xors bs"
  by (induction bs) auto

lemma xors_replicate_False [simp]: "xors (replicate n False) = False"
  by (induction n) simp_all

lemma xors_all_False: "(\<And>b. b \<in> set bs \<Longrightarrow> \<not> b) \<Longrightarrow> \<not> xors bs"
  by (induction bs) auto

lemma xors_map_neq [xor_simps]:
  "xors (map (\<lambda>x. f x \<noteq> g x) xs) = (xors (map f xs) \<noteq> xors (map g xs))"
  by (induction xs) auto

lemma xors_map_eq_neg [xor_simps]:
  "xors (map (\<lambda>x. f x = (\<not> g x)) xs) = (xors (map f xs) \<noteq> xors (map g xs))"
  by (induction xs) auto

lemma xors_map_and [xor_simps]:
  "xors (map (\<lambda>x. c \<and> f x) xs) = (c \<and> xors (map f xs))"
  by (induction xs) auto

lemma xors_map_and_right [xor_simps]:
  "xors (map (\<lambda>x. f x \<and> c) xs) = (xors (map f xs) \<and> c)"
  by (induction xs) auto

lemma xors_map_False [simp]: "xors (map (\<lambda>x. False) xs) = False"
  by (induction xs) auto

text \<open>The order in which shares arrive does not matter.\<close>

lemma xors_mset: "mset as = mset bs \<Longrightarrow> xors as = xors bs"
proof (induction as arbitrary: bs)
  case Nil
  then show ?case by simp
next
  case (Cons a as)
  then have "a \<in> set bs" by (metis list.set_intros(1) mset_eq_setD)
  then obtain us vs where bs: "bs = us @ a # vs" by (meson split_list)
  with Cons.prems have "mset as = mset (us @ vs)" by simp
  then have "xors as = xors (us @ vs)" by (rule Cons.IH)
  with bs show ?case by auto
qed

lemma mset_mapE:
  assumes "mset xs = mset (map f ys)"
  obtains ys' where "xs = map f ys'" and "mset ys' = mset ys"
  using assms
proof (induction xs arbitrary: ys thesis)
  case Nil
  then show ?case by simp
next
  case (Cons x xs)
  then have "x \<in> set (map f ys)" by (metis list.set_intros(1) mset_eq_setD)
  then obtain y where y: "y \<in> set ys" "x = f y" by auto
  then obtain us vs where ys: "ys = us @ y # vs" by (meson split_list)
  with Cons.prems(2) y have "mset xs = mset (map f (us @ vs))" by simp
  then obtain ys' where "xs = map f ys'" "mset ys' = mset (us @ vs)" using Cons.IH by blast
  then show ?case using Cons.prems(1) [of "y # ys'"] y ys by simp
qed

text \<open>Exchanging the sum over positions and the sum over parties.\<close>

lemma xors_swap:
  "xors (map (\<lambda>i. xors (map (\<lambda>p. f p i) ps)) is) = xors (map (\<lambda>p. xors (map (f p) is)) ps)"
proof (induction "is")
  case Nil
  then show ?case by simp
next
  case (Cons i "is")
  then show ?case by (simp add: xors_map_eq_neg)
qed

text \<open>A selector with a single one picks that position.\<close>

lemma xors_one_hot:
  "xors (map (\<lambda>j. j = k \<and> f j) [0..<n]) = (k < n \<and> f k)"
  by (induction n) (auto simp: less_Suc_eq)

lemma xors_odd: "xors bs \<longleftrightarrow> odd (length (filter (\<lambda>b. b) bs))"
  by (induction bs) auto

lemma xors_map_upt_split:
  "m \<le> n \<Longrightarrow> xors (map f [0..<n]) = (xors (map f [0..<m]) \<noteq> xors (map f [m..<n]))"
  by (metis map_append upt_add_eq_append le_add_diff_inverse xors_append zero_le)

end
