(* ===== verification/Aligned_Array.thy ===== *)
theory Aligned_Array
  imports PRC_Prelude
begin

text \<open>
  \<open>src/simd_array/aligned_array.rs\<close>: the byte buffer whose allocation is padded to a
  multiple of 32 bytes, and the 256-bit loads and stores its loops are written with. A
  buffer is the whole allocation and the length it shows; memory from \<open>alloc\<close> is
  uninitialised, so a buffer under construction is a list of optional bytes.
\<close>

section \<open>Memory and 256-bit accesses\<close>

definition ALIGN :: nat where
  [simp]: "ALIGN = 32"

record layout =
  lay_size :: nat
  lay_align :: nat

record au8 =
  au_mem :: "u8 list"
  au_len :: nat

definition alloc :: "layout \<Rightarrow> u8 option list" where
  "alloc l = replicate (lay_size l) None"

definition alloc_zeroed :: "layout \<Rightarrow> u8 option list" where
  "alloc_zeroed l = replicate (lay_size l) (Some 0)"

text \<open>
  \<open>_mm256_load_si256\<close> and \<open>_mm256_store_si256\<close>: 32 bytes at an offset, a fault when
  they are not all inside the allocation.
\<close>

definition load_si256 :: "'a list \<Rightarrow> nat \<Rightarrow> 'a list res" where
  "load_si256 m i = (if i + 32 \<le> length m then Ok (take 32 (drop i m)) else Panic MemoryFault)"

definition store_si256 :: "'a list \<Rightarrow> nat \<Rightarrow> 'a list \<Rightarrow> 'a list res" where
  "store_si256 m i v =
     (if i + 32 \<le> length m then Ok (take i m @ v @ drop (i + 32) m) else Panic MemoryFault)"

text \<open>\<open>ptr::write_bytes\<close> and \<open>ptr::copy_nonoverlapping\<close> into a buffer at an offset.\<close>

definition write_bytes :: "u8 option list \<Rightarrow> nat \<Rightarrow> u8 \<Rightarrow> nat \<Rightarrow> u8 option list res" where
  "write_bytes m i v n =
     (if i + n \<le> length m then Ok (take i m @ replicate n (Some v) @ drop (i + n) m)
      else Panic MemoryFault)"

definition copy_nonoverlapping :: "'a list \<Rightarrow> 'a list \<Rightarrow> nat \<Rightarrow> nat \<Rightarrow> 'a list res" where
  "copy_nonoverlapping src m i n =
     (if n \<le> length src \<and> i + n \<le> length m then Ok (take i m @ take n src @ drop (i + n) m)
      else Panic MemoryFault)"

text \<open>Reading the finished buffer as bytes: a fault when a byte was never written.\<close>

definition assume_init :: "u8 option list \<Rightarrow> u8 list res" where
  "assume_init m = (if None \<in> set m then Panic MemoryFault else Ok (map the m))"

section \<open>The operations\<close>

definition create_layout :: "nat \<Rightarrow> layout res" where
  "create_layout len =
     (if 0 < len
      then Ok \<lparr>lay_size = (if len mod ALIGN \<noteq> 0 then len + (ALIGN - len mod ALIGN) else len),
               lay_align = ALIGN\<rparr>
      else Panic AssertionFailed)"

definition align_max_len :: "nat \<Rightarrow> nat" where
  "align_max_len l = (if l mod ALIGN = 0 then l else l + (ALIGN - l mod ALIGN))"

definition au_aligned_len :: "au8 \<Rightarrow> nat" where
  "au_aligned_len a = align_max_len (au_len a)"

definition au_empty :: au8 where
  "au_empty = \<lparr>au_mem = [], au_len = 0\<rparr>"

definition au_new :: "nat \<Rightarrow> au8 res" where
  "au_new len =
     rbind (create_layout len) (\<lambda>layout.
     rbind (assume_init (alloc_zeroed layout)) (\<lambda>m.
     Ok \<lparr>au_mem = m, au_len = len\<rparr>))"

definition au_clone :: "au8 \<Rightarrow> au8 res" where
  "au_clone a =
     rbind (create_layout (au_len a)) (\<lambda>layout.
     rbind (rfold (\<lambda>i raw. rbind (load_si256 (au_mem a) i) (\<lambda>chunk.
                           store_si256 raw i (map Some chunk)))
              (step_by (au_len a) ALIGN) (alloc layout)) (\<lambda>raw.
     rbind (assume_init raw) (\<lambda>m.
     Ok \<lparr>au_mem = m, au_len = au_len a\<rparr>)))"

definition au_from_slice :: "u8 list \<Rightarrow> au8 res" where
  "au_from_slice s =
     (let len = length s in
      if len = 0 then Ok au_empty
      else
        rbind (create_layout len) (\<lambda>layout.
        let simd_pass = len - len mod ALIGN in
        rbind (rfold (\<lambda>i raw. rbind (load_si256 s i) (\<lambda>chunk.
                              store_si256 raw i (map Some chunk)))
                 (step_by simd_pass ALIGN) (alloc layout)) (\<lambda>raw.
        rbind (if len mod ALIGN \<noteq> 0
               then rbind (write_bytes raw simd_pass 0 ALIGN) (\<lambda>raw.
                    copy_nonoverlapping (map Some (drop simd_pass s)) raw simd_pass
                      (len - simd_pass))
               else Ok raw) (\<lambda>raw.
        rbind (assume_init raw) (\<lambda>m.
        Ok \<lparr>au_mem = m, au_len = len\<rparr>)))))"

definition au_ones :: "nat \<Rightarrow> au8 res" where
  "au_ones len =
     rbind (create_layout len) (\<lambda>layout.
     rbind (write_bytes (alloc layout) 0 0xFF (align_max_len len)) (\<lambda>raw.
     rbind (assume_init raw) (\<lambda>m.
     Ok \<lparr>au_mem = m, au_len = len\<rparr>)))"

text \<open>Indexing through \<open>Deref\<close>: the slice of the first \<open>len\<close> bytes.\<close>

definition au_deref :: "au8 \<Rightarrow> u8 list" where
  "au_deref a = take (au_len a) (au_mem a)"

definition au_index :: "au8 \<Rightarrow> nat \<Rightarrow> u8 res" where
  "au_index a i = (if i < au_len a then Ok (au_mem a ! i) else Panic IndexOutOfBounds)"

definition au_index_mut :: "au8 \<Rightarrow> nat \<Rightarrow> u8 \<Rightarrow> au8 res" where
  "au_index_mut a i v =
     (if i < au_len a then Ok (a\<lparr>au_mem := (au_mem a)[i := v]\<rparr>) else Panic IndexOutOfBounds)"

text \<open>\<open>Drop\<close>: the layout handed to \<open>dealloc\<close>, and none for an empty buffer.\<close>

definition au_drop_layout :: "au8 \<Rightarrow> layout option" where
  "au_drop_layout a =
     (if au_len a = 0 then None else Some \<lparr>lay_size = au_len a, lay_align = ALIGN\<rparr>)"

definition au_wf :: "au8 \<Rightarrow> bool" where
  "au_wf a \<longleftrightarrow> length (au_mem a) = align_max_len (au_len a)"

section \<open>Lemmas\<close>

lemma align_max_len_eq: "align_max_len l = 32 * div_ceil l 32"
proof -
  define q r where "q = l div 32" and "r = l mod 32"
  have l: "l = 32 * q + r" and r: "r < 32" by (simp_all add: q_def r_def)
  have "(32 * q + r + 32 - 1) div 32 = (if r = 0 then q else Suc q)"
    using r by (intro div_nat_eqI) auto
  with l r show ?thesis by (auto simp: align_max_len_def div_ceil_def)
qed

lemma align_max_len_ge: "l \<le> align_max_len l"
  by (auto simp: align_max_len_def)

lemma align_max_len_0 [simp]: "align_max_len 0 = 0"
  by (simp add: align_max_len_def)

lemma align_max_len_mult [simp]: "align_max_len (32 * m) = 32 * m"
  by (simp add: align_max_len_def)

lemma create_layout_Ok:
  "0 < len \<Longrightarrow> create_layout len = Inr \<lparr>lay_size = align_max_len len, lay_align = 32\<rparr>"
  by (simp add: create_layout_def align_max_len_def)

text \<open>
  The chunk loop: if iteration \<open>k\<close> replaces chunk \<open>k\<close> by \<open>r k\<close> on every buffer whose
  later chunks are untouched, the loop replaces the chunks it runs over.
\<close>

lemma length_concat_chunks:
  "(\<And>k. k < n \<Longrightarrow> length (r k) = c) \<Longrightarrow> length (concat (map r [0..<n])) = c * n"
  by (induction n) simp_all

lemma chunk_loop_prefix:
  assumes "length d = 32 * m" and "n \<le> m"
    and "\<And>k. k < n \<Longrightarrow> length (r k) = 32"
    and "\<And>k d'. k < n \<Longrightarrow> length d' = 32 * m \<Longrightarrow> drop (32 * k) d' = drop (32 * k) d \<Longrightarrow>
           body (32 * k) d' = Inr (take (32 * k) d' @ r k @ drop (32 * k + 32) d')"
  shows "rfold body (map (\<lambda>k. 32 * k) [0..<n]) d = Inr (concat (map r [0..<n]) @ drop (32 * n) d)"
  using assms(2-4)
proof (induction n)
  case 0
  then show ?case by simp
next
  case (Suc n)
  let ?c = "concat (map r [0..<n])"
  have len: "length ?c = 32 * n"
    by (rule length_concat_chunks) (simp add: Suc.prems(2))
  have IH: "rfold body (map (\<lambda>k. 32 * k) [0..<n]) d = Inr (?c @ drop (32 * n) d)"
    using Suc.prems by (intro Suc.IH) simp_all
  have "body (32 * n) (?c @ drop (32 * n) d)
      = Inr (take (32 * n) (?c @ drop (32 * n) d) @ r n @ drop (32 * n + 32) (?c @ drop (32 * n) d))"
    by (rule Suc.prems(3)) (use Suc.prems(1) len assms(1) in simp_all)
  also have "\<dots> = Inr (?c @ r n @ drop (32 * Suc n) d)"
    using len by (simp add: add.commute)
  finally show ?case by (simp add: IH rfold_append)
qed

lemma chunk_loop:
  assumes "length d = 32 * m"
    and "\<And>k. k < m \<Longrightarrow> length (r k) = 32"
    and "\<And>k d'. k < m \<Longrightarrow> length d' = 32 * m \<Longrightarrow> drop (32 * k) d' = drop (32 * k) d \<Longrightarrow>
           body (32 * k) d' = Inr (take (32 * k) d' @ r k @ drop (32 * k + 32) d')"
  shows "rfold body (map (\<lambda>k. 32 * k) [0..<m]) d = Inr (concat (map r [0..<m]))"
proof -
  have "rfold body (map (\<lambda>k. 32 * k) [0..<m]) d = Inr (concat (map r [0..<m]) @ drop (32 * m) d)"
    by (rule chunk_loop_prefix [where m = m]) (use assms in auto)
  with assms(1) show ?thesis by simp
qed

lemma concat_chunks:
  "c * m \<le> length xs \<Longrightarrow> concat (map (\<lambda>k. take c (drop (c * k) xs)) [0..<m]) = take (c * m) xs"
proof (induction m)
  case 0
  then show ?case by simp
next
  case (Suc m)
  then have "concat (map (\<lambda>k. take c (drop (c * k) xs)) [0..<Suc m])
      = take (c * m) xs @ take c (drop (c * m) xs)"
    by simp
  also have "\<dots> = take (c * m + c) xs" by (rule take_add [symmetric])
  finally show ?case by (simp add: add.commute)
qed

lemma load_chunk [res_simps]:
  "length m = 32 * n \<Longrightarrow> k < n \<Longrightarrow> load_si256 m (32 * k) = Inr (take 32 (drop (32 * k) m))"
  by (simp add: load_si256_def)

lemma store_chunk [res_simps]:
  "length m = 32 * n \<Longrightarrow> k < n \<Longrightarrow>
     store_si256 m (32 * k) v = Inr (take (32 * k) m @ v @ drop (32 * k + 32) m)"
  by (simp add: store_si256_def)

lemma assume_init_Some [simp]: "assume_init (map Some xs) = Inr xs"
  by (simp add: assume_init_def o_def)

text \<open>Copying chunks into fresh memory initialises every byte of them.\<close>

lemma copy_loop:
  assumes "32 * m \<le> length xs" and "length raw = 32 * n" and "m \<le> n"
  shows "rfold (\<lambda>i raw. rbind (load_si256 xs i) (\<lambda>c. store_si256 raw i (map Some c)))
      (map (\<lambda>k. 32 * k) [0..<m]) raw = Inr (map Some (take (32 * m) xs) @ drop (32 * m) raw)"
proof -
  have "rfold (\<lambda>i raw. rbind (load_si256 xs i) (\<lambda>c. store_si256 raw i (map Some c)))
      (map (\<lambda>k. 32 * k) [0..<m]) raw
    = Inr (concat (map (\<lambda>k. map Some (take 32 (drop (32 * k) xs))) [0..<m]) @ drop (32 * m) raw)"
    using assms by (intro chunk_loop_prefix [where m = n]) (auto simp: load_si256_def store_si256_def)
  then show ?thesis
    using arg_cong [OF concat_chunks [OF assms(1)], of "map Some"] by (simp add: map_concat o_def)
qed

lemma au_new_Ok:
  "0 < len \<Longrightarrow> au_new len = Inr \<lparr>au_mem = replicate (align_max_len len) 0, au_len = len\<rparr>"
  using assume_init_Some [of "replicate (align_max_len len) 0"]
  by (simp add: au_new_def create_layout_Ok alloc_zeroed_def)

lemma au_ones_Ok:
  "0 < len \<Longrightarrow> au_ones len = Inr \<lparr>au_mem = replicate (align_max_len len) 0xFF, au_len = len\<rparr>"
  using assume_init_Some [of "replicate (align_max_len len) 0xFF"]
  by (simp add: au_ones_def create_layout_Ok alloc_def write_bytes_def)

lemma au_clone_Ok:
  assumes "0 < au_len a" and "au_wf a"
  shows "au_clone a = Inr a"
proof -
  define n where "n = div_ceil (au_len a) 32"
  have len: "length (au_mem a) = 32 * n"
    using assms(2) by (simp add: au_wf_def align_max_len_eq n_def)
  have "rfold (\<lambda>i raw. rbind (load_si256 (au_mem a) i) (\<lambda>c. store_si256 raw i (map Some c)))
      (step_by (au_len a) ALIGN) (replicate (32 * n) None) = Inr (map Some (au_mem a))"
    using copy_loop [of n "au_mem a" "replicate (32 * n) None" n] len
    by (simp add: step_by_def n_def)
  then show ?thesis
    using assms by (simp add: au_clone_def create_layout_Ok alloc_def align_max_len_eq n_def)
qed

lemma au_clone_empty: "au_len a = 0 \<Longrightarrow> au_clone a = Inl AssertionFailed"
  by (simp add: au_clone_def create_layout_def)

text \<open>What a buffer made from a slice holds: the slice, then zeros to the padded length.\<close>

lemma au_from_slice_Ok:
  "au_from_slice s = Inr \<lparr>au_mem = s @ replicate (align_max_len (length s) - length s) 0,
                          au_len = length s\<rparr>"
proof (cases "s = []")
  case True
  then show ?thesis by (simp add: au_from_slice_def au_empty_def)
next
  case False
  define q r where "q = length s div 32" and "r = length s mod 32"
  have s: "length s = 32 * q + r" "r < 32" by (simp_all add: q_def r_def)
  have pass: "length s - r = 32 * q" using s by simp
  let ?N = "align_max_len (length s)"
  have N: "?N = (if r = 0 then 32 * q else 32 * Suc q)"
    using s by (auto simp: align_max_len_def r_def [symmetric])
  obtain n where n: "?N = 32 * n" "q \<le> n" using N by (metis Suc_n_not_le_n nat_le_linear)
  have loop: "rfold (\<lambda>i raw. rbind (load_si256 s i) (\<lambda>c. store_si256 raw i (map Some c)))
      (step_by (32 * q) ALIGN) (replicate ?N None)
      = Inr (map Some (take (32 * q) s) @ replicate (?N - 32 * q) None)"
    using copy_loop [of q s "replicate ?N None" n] s n by (simp add: step_by_def)
  show ?thesis
  proof (cases "r = 0")
    case True
    then show ?thesis
      using False loop s N
      by (auto simp: au_from_slice_def Let_def create_layout_Ok alloc_def)
  next
    case nz: False
    have fin: "take (32 * q) s @ drop (32 * q) s @ replicate (32 - r) 0
        = s @ replicate (?N - length s) (0 :: u8)"
      using N nz s by simp
    have init: "assume_init (map Some (take (32 * q) s) @ map Some (drop (32 * q) s)
        @ replicate (32 - r) (Some 0)) = Inr (s @ replicate (?N - length s) 0)"
      using assume_init_Some [of "take (32 * q) s @ drop (32 * q) s @ replicate (32 - r) 0"]
      unfolding fin [symmetric] by simp
    show ?thesis
      using False nz loop s N init
      by (simp add: au_from_slice_def Let_def create_layout_Ok alloc_def r_def [symmetric] pass
          write_bytes_def copy_nonoverlapping_def)
  qed
qed

section \<open>Properties\<close>

text \<open>A buffer made from a slice, whatever the length of the slice, is fully initialised and
  padded to whole 256-bit registers: it shows exactly the bytes of the slice, every byte of the
  padding is zero, no load or store leaves the allocation, and cloning a non-empty one gives an
  equal buffer.\<close>

lemma au_from_slice_faithful:
  "\<exists>a. au_from_slice s = Inr a \<and> au_wf a \<and> 32 dvd length (au_mem a) \<and> au_deref a = s \<and>
     (\<forall>i. length s \<le> i \<and> i < length (au_mem a) \<longrightarrow> au_mem a ! i = 0) \<and>
     au_clone a = (if s = [] then Inl AssertionFailed else Inr a)"
proof -
  let ?a = "\<lparr>au_mem = s @ replicate (align_max_len (length s) - length s) 0, au_len = length s\<rparr>"
  have wf: "au_wf ?a" using align_max_len_ge [of "length s"] by (simp add: au_wf_def)
  have "32 dvd length (au_mem ?a)"
    using wf by (simp add: au_wf_def align_max_len_eq)
  moreover have "\<forall>i. length s \<le> i \<and> i < length (au_mem ?a) \<longrightarrow> au_mem ?a ! i = 0"
    by (auto simp: nth_append)
  moreover have "au_clone ?a = (if s = [] then Inl AssertionFailed else Inr ?a)"
    using au_clone_Ok [OF _ wf] au_clone_empty [of ?a] by auto
  ultimately show ?thesis
    using au_from_slice_Ok wf by (simp add: au_deref_def)
qed

text \<open>C39. Dropping a buffer releases it with the layout of its length, not of its allocation: the
  layout given to \<open>dealloc\<close> is the one the buffer was allocated with exactly when the length is a
  multiple of 32 bytes.\<close>

theorem au_drop_layout_matches:
  assumes "au_new len = Inr a" and "create_layout len = Inr layout"
  shows "au_drop_layout a = Some layout \<longleftrightarrow> 32 dvd len"
proof -
  have len: "0 < len" using assms(2) by (simp add: create_layout_def split: if_splits)
  then have "lay_size layout = align_max_len len" "lay_align layout = 32"
    using assms(2) by (simp_all add: create_layout_Ok) auto
  moreover have "au_len a = len" using assms(1) len by (auto simp: au_new_Ok)
  moreover have "align_max_len len = len \<longleftrightarrow> 32 dvd len"
    by (auto simp: align_max_len_def dvd_eq_mod_eq_0)
  ultimately show ?thesis using len by (cases layout) (auto simp: au_drop_layout_def)
qed

theorem au_drop_layout_matches_witness:
  "\<exists>a layout. au_new 33 = Inr a \<and> create_layout 33 = Inr layout \<and>
     (au_drop_layout a = Some layout \<longleftrightarrow> 32 dvd (33 :: nat)) \<and> \<not> 32 dvd (33 :: nat)"
proof -
  obtain a where a: "au_new 33 = Inr a" using au_new_Ok [of 33] by simp
  obtain l where l: "create_layout 33 = Inr l" using create_layout_Ok [of 33] by auto
  show ?thesis using au_drop_layout_matches [OF a l] a l by auto
qed

end
