(* ===== verification/Bit_Array.thy ===== *)
theory Bit_Array
  imports Aligned_Array
begin

unbundle bit_operations_syntax

text \<open>
  \<open>src/simd_array/bit_array.rs\<close>: the bit array over a padded buffer, its bit access,
  the 256-bit loops for AND, XOR, parity, inner product and equality, and XOR secret
  sharing. The view of an array is \<open>mbit\<close>, every bit of its allocation: the loops work
  on the padding too, so the padding is part of what the theorems speak about. An array
  given by its size and that view is \<open>ba_make\<close>, and the lemmas give each operation as
  an equation between such arrays.
\<close>

section \<open>The operations\<close>

record bitarray =
  ba_data :: au8
  ba_bit_size :: nat
  ba_byte_size :: nat

definition ba_clone :: "bitarray \<Rightarrow> bitarray res" where
  "ba_clone ba = rbind (au_clone (ba_data ba)) (\<lambda>d. Ok (ba\<lparr>ba_data := d\<rparr>))"

definition ba_new :: "nat \<Rightarrow> bitarray res" where
  "ba_new bit_size =
     (let byte_size = div_ceil bit_size 8 in
      rbind (au_new byte_size) (\<lambda>d.
      Ok \<lparr>ba_data = d, ba_bit_size = bit_size, ba_byte_size = byte_size\<rparr>))"

definition ba_ones :: "nat \<Rightarrow> bitarray res" where
  "ba_ones bit_size =
     (let byte_size = div_ceil bit_size 8 in
      rbind (au_ones byte_size) (\<lambda>d.
      Ok \<lparr>ba_data = d, ba_bit_size = bit_size, ba_byte_size = byte_size\<rparr>))"

definition ba_from_byte_slice :: "u8 list \<Rightarrow> nat \<Rightarrow> bitarray res" where
  "ba_from_byte_slice src bit_size =
     (let byte_size = div_ceil bit_size 8 in
      rbind (rassert (byte_size \<le> length src) AssertionFailed) (\<lambda>_.
      rbind (slice src 0 byte_size) (\<lambda>s.
      rbind (au_from_slice s) (\<lambda>d.
      Ok \<lparr>ba_data = d, ba_bit_size = bit_size, ba_byte_size = byte_size\<rparr>))))"

definition ba_random :: "'r rng_ops \<Rightarrow> nat \<Rightarrow> 'r \<Rightarrow> (bitarray \<times> 'r) res" where
  "ba_random R bit_size rng =
     (let byte_size = div_ceil bit_size 8 in
      rbind (au_new byte_size) (\<lambda>d.
      let (bs, rng) = rng_fill R (au_len d) rng in
      Ok (\<lparr>ba_data = d\<lparr>au_mem := bs @ drop (au_len d) (au_mem d)\<rparr>,
           ba_bit_size = bit_size, ba_byte_size = byte_size\<rparr>, rng)))"

definition ba_from_seed :: "'r rng_ops \<Rightarrow> nat \<Rightarrow> u8 list \<Rightarrow> bitarray res" where
  "ba_from_seed R bit_size seed =
     rbind (ba_random R bit_size (rng_from_seed R seed)) (\<lambda>(ba, _). Ok ba)"

definition ba_set_bit :: "bitarray \<Rightarrow> nat \<Rightarrow> bool \<Rightarrow> bitarray res" where
  "ba_set_bit ba i value =
     rbind (rassert (i < ba_bit_size ba) AssertionFailed) (\<lambda>_.
     rbind (au_index (ba_data ba) (i div 8)) (\<lambda>w.
     rbind (au_index_mut (ba_data ba) (i div 8)
              (if value then w OR push_bit (i mod 8) 1 else w AND NOT (push_bit (i mod 8) 1)))
       (\<lambda>d. Ok (ba\<lparr>ba_data := d\<rparr>))))"

definition ba_get :: "bitarray \<Rightarrow> nat \<Rightarrow> bool res" where
  "ba_get ba i =
     rbind (rassert (i < ba_bit_size ba) AssertionFailed) (\<lambda>_.
     rbind (au_index (ba_data ba) (i div 8)) (\<lambda>w.
     Ok ((w AND push_bit (i mod 8) 1) \<noteq> 0)))"

definition ba_get_inner_memref :: "bitarray \<Rightarrow> u8 list" where
  "ba_get_inner_memref ba = au_deref (ba_data ba)"

definition ba_copy_from :: "bitarray \<Rightarrow> nat \<Rightarrow> bitarray \<Rightarrow> bitarray res" where
  "ba_copy_from ba at_bit source =
     rbind (rassert (at_bit + ba_bit_size source \<le> ba_bit_size ba) AssertionFailed) (\<lambda>_.
     if at_bit mod 8 \<noteq> 0 \<or> ba_bit_size source mod 8 \<noteq> 0
     then rfold (\<lambda>i ba. rbind (ba_get source i) (\<lambda>v. ba_set_bit ba (i + at_bit) v))
            [0..<ba_bit_size source] ba
     else rbind (copy_nonoverlapping (au_mem (ba_data source)) (au_mem (ba_data ba))
                   (at_bit div 8) (ba_byte_size source))
            (\<lambda>m. Ok (ba\<lparr>ba_data := (ba_data ba)\<lparr>au_mem := m\<rparr>\<rparr>)))"

definition ba_shrink_to_partial_last_byte :: "bitarray \<Rightarrow> nat \<Rightarrow> bitarray res" where
  "ba_shrink_to_partial_last_byte ba partial_bit_size =
     (if ba_bit_size ba = partial_bit_size then Ok ba
      else
        rbind (rassert (partial_bit_size < ba_bit_size ba) AssertionFailed) (\<lambda>_.
        rbind (rassert (partial_bit_size + 8 > ba_bit_size ba) AssertionFailed) (\<lambda>_.
        Ok (ba\<lparr>ba_bit_size := partial_bit_size\<rparr>))))"

definition ba_to_slice :: "bitarray \<Rightarrow> nat \<Rightarrow> nat \<Rightarrow> bitarray res" where
  "ba_to_slice ba st_byte end_byte =
     rbind (rassert (st_byte \<le> end_byte \<and> end_byte \<le> ba_byte_size ba) AssertionFailed) (\<lambda>_.
     rbind (slice (au_deref (ba_data ba)) st_byte end_byte) (\<lambda>s.
     rbind (au_from_slice s) (\<lambda>d.
     Ok \<lparr>ba_data = d, ba_bit_size = (end_byte - st_byte) * 8,
          ba_byte_size = end_byte - st_byte\<rparr>)))"

subsection \<open>256-bit loops\<close>

definition and_si256 :: "u8 list \<Rightarrow> u8 list \<Rightarrow> u8 list" where
  "and_si256 a b = map2 (AND) a b"

definition xor_si256 :: "u8 list \<Rightarrow> u8 list \<Rightarrow> u8 list" where
  "xor_si256 a b = map2 (XOR) a b"

text \<open>
  The loop over the chunks of \<open>self\<close> that stores an operation of the current chunk and
  the other array's chunk (\<open>inplace_and\<close>, \<open>inplace_xor\<close>).
\<close>

definition inplace_loop ::
  "(u8 list \<Rightarrow> u8 list \<Rightarrow> u8 list) \<Rightarrow> bitarray \<Rightarrow> bitarray \<Rightarrow> bitarray res" where
  "inplace_loop oper ba other =
     rbind (rfold (\<lambda>i m. rbind (load_si256 m i) (\<lambda>a.
                         rbind (load_si256 (au_mem (ba_data other)) i) (\<lambda>b.
                         store_si256 m i (oper a b))))
              (step_by (au_aligned_len (ba_data ba)) ALIGN) (au_mem (ba_data ba)))
       (\<lambda>m. Ok (ba\<lparr>ba_data := (ba_data ba)\<lparr>au_mem := m\<rparr>\<rparr>))"

definition ba_mut_and :: "bitarray \<Rightarrow> bitarray \<Rightarrow> bitarray \<Rightarrow> bitarray res" where
  "ba_mut_and ba a b =
     rbind (rassert (ba_bit_size a = ba_bit_size b) AssertionFailed) (\<lambda>_.
     rbind (rassert (ba_bit_size a = ba_bit_size ba) AssertionFailed) (\<lambda>_.
     rbind (rfold (\<lambda>i m. rbind (load_si256 (au_mem (ba_data a)) i) (\<lambda>a_chunk.
                         rbind (load_si256 (au_mem (ba_data b)) i) (\<lambda>b_chunk.
                         store_si256 m i (and_si256 a_chunk b_chunk))))
              (step_by (au_aligned_len (ba_data ba)) ALIGN) (au_mem (ba_data ba)))
       (\<lambda>m. Ok (ba\<lparr>ba_data := (ba_data ba)\<lparr>au_mem := m\<rparr>\<rparr>))))"

definition ba_inplace_and :: "bitarray \<Rightarrow> bitarray \<Rightarrow> bitarray res" where
  "ba_inplace_and ba other =
     rbind (rassert (ba_bit_size ba = ba_bit_size other) AssertionFailed) (\<lambda>_.
     inplace_loop and_si256 ba other)"

definition ba_inplace_xor :: "bitarray \<Rightarrow> bitarray \<Rightarrow> bitarray res" where
  "ba_inplace_xor ba other =
     rbind (rassert (ba_bit_size ba = ba_bit_size other) AssertionFailed) (\<lambda>_.
     inplace_loop xor_si256 ba other)"

text \<open>The tail of \<open>parity\<close> and \<open>inner_prod\<close>: the register as four \<open>u64\<close>, their ones.\<close>

definition register_parity :: "u8 list \<Rightarrow> bool" where
  "register_parity result =
     (let cnts = map (\<lambda>k. from_le_bytes (take 8 (drop (8 * k) result)) :: u64) [0..<4];
          cnt = sum_list (map count_ones cnts)
      in cnt mod 2 = 1)"

definition ba_parity :: "bitarray \<Rightarrow> bool res" where
  "ba_parity ba =
     rbind (rfold (\<lambda>i result. rbind (load_si256 (au_mem (ba_data ba)) i) (\<lambda>x_chunk.
                              Ok (xor_si256 result x_chunk)))
              (step_by (au_aligned_len (ba_data ba)) ALIGN) (replicate 32 0)) (\<lambda>result.
     Ok (register_parity result))"

definition ba_inner_prod :: "bitarray \<Rightarrow> bitarray \<Rightarrow> bool res" where
  "ba_inner_prod x y =
     rbind (rassert (ba_bit_size x = ba_bit_size y) AssertionFailed) (\<lambda>_.
     rbind (rfold (\<lambda>i result. rbind (load_si256 (au_mem (ba_data x)) i) (\<lambda>a.
                              rbind (load_si256 (au_mem (ba_data y)) i) (\<lambda>b.
                              Ok (xor_si256 result (and_si256 a b)))))
              (step_by (au_aligned_len (ba_data x)) ALIGN) (replicate 32 0)) (\<lambda>result.
     Ok (register_parity result)))"

definition ba_xor :: "bitarray \<Rightarrow> bitarray \<Rightarrow> bitarray res" where
  "ba_xor x y = rbind (ba_clone x) (\<lambda>out. ba_inplace_xor out y)"

definition ba_and :: "bitarray \<Rightarrow> bitarray \<Rightarrow> bitarray res" where
  "ba_and x y = rbind (ba_clone x) (\<lambda>out. ba_inplace_and out y)"

text \<open>\<open>PartialEq\<close>: the loop returns at the first differing chunk.\<close>

fun eq_loop :: "u8 list \<Rightarrow> u8 list \<Rightarrow> nat list \<Rightarrow> bool res" where
  "eq_loop m1 m2 [] = Ok True"
| "eq_loop m1 m2 (i # is) =
     rbind (load_si256 m1 i) (\<lambda>a.
     rbind (load_si256 m2 i) (\<lambda>b.
     if \<exists>w\<in>set (xor_si256 a b). w \<noteq> 0 then Ok False else eq_loop m1 m2 is))"

definition ba_eq :: "bitarray \<Rightarrow> bitarray \<Rightarrow> bool res" where
  "ba_eq x y =
     (if ba_bit_size x \<noteq> ba_bit_size y then Ok False
      else eq_loop (au_mem (ba_data x)) (au_mem (ba_data y))
             (step_by (au_aligned_len (ba_data x)) ALIGN))"

subsection \<open>Secret sharing\<close>

definition ba_inplace_reconstruct :: "bitarray \<Rightarrow> bitarray list \<Rightarrow> bitarray res" where
  "ba_inplace_reconstruct ba shares =
     rbind (rassert (shares \<noteq> []) AssertionFailed) (\<lambda>_.
     rfold (\<lambda>share ba. ba_inplace_xor ba share) shares ba)"

definition ba_reconstruct :: "bitarray list \<Rightarrow> bitarray res" where
  "ba_reconstruct shares =
     rbind (expect (if shares = [] then None else Some (last shares))) (\<lambda>rec.
     rfold (\<lambda>share rec. ba_inplace_xor rec share) (butlast shares) rec)"

definition ba_inplace_secret_share ::
  "profile \<Rightarrow> 'r rng_ops \<Rightarrow> bitarray \<Rightarrow> nat \<Rightarrow> 'r \<Rightarrow> ((bitarray \<times> bitarray list) \<times> 'r) res" where
  "ba_inplace_secret_share P R ba party_num rng =
     rbind (sub_usize P party_num 1) (\<lambda>n.
     rbind (rtimes n (ba_random R (ba_bit_size ba)) rng) (\<lambda>(shares, rng).
     rbind (ba_inplace_reconstruct ba shares) (\<lambda>ba.
     Ok ((ba, shares), rng))))"

definition ba_secret_share ::
  "profile \<Rightarrow> 'r rng_ops \<Rightarrow> bitarray \<Rightarrow> nat \<Rightarrow> 'r \<Rightarrow> (bitarray list \<times> 'r) res" where
  "ba_secret_share P R ba party_num rng =
     rbind (ba_clone ba) (\<lambda>duplicate.
     rbind (ba_inplace_secret_share P R duplicate party_num rng) (\<lambda>((duplicate, shares), rng).
     Ok (shares @ [duplicate], rng)))"

section \<open>The view of an array\<close>

definition mbit :: "bitarray \<Rightarrow> nat \<Rightarrow> bool" where
  "mbit ba i \<longleftrightarrow>
     i < 8 * length (au_mem (ba_data ba)) \<and> bit (au_mem (ba_data ba) ! (i div 8)) (i mod 8)"

definition ba_wf :: "bitarray \<Rightarrow> bool" where
  "ba_wf ba \<longleftrightarrow>
     au_wf (ba_data ba) \<and> au_len (ba_data ba) = ba_byte_size ba \<and>
     ba_byte_size ba = div_ceil (ba_bit_size ba) 8"

text \<open>The number of bits an array of the given size holds with its padding.\<close>

definition cap :: "nat \<Rightarrow> nat" where
  "cap n = 8 * align_max_len (div_ceil n 8)"

definition byte_of :: "(nat \<Rightarrow> bool) \<Rightarrow> u8" where
  "byte_of g = horner_sum of_bool 2 (map g [0..<8])"

definition ba_make :: "nat \<Rightarrow> (nat \<Rightarrow> bool) \<Rightarrow> bitarray" where
  "ba_make n f =
     \<lparr>ba_data = \<lparr>au_mem = map (\<lambda>k. byte_of (\<lambda>i. f (8 * k + i))) [0..<align_max_len (div_ceil n 8)],
                 au_len = div_ceil n 8\<rparr>,
      ba_bit_size = n, ba_byte_size = div_ceil n 8\<rparr>"

text \<open>No stray one beyond the size of the array.\<close>

definition ba_clean :: "bitarray \<Rightarrow> bool" where
  "ba_clean ba \<longleftrightarrow> (\<forall>i\<ge>ba_bit_size ba. \<not> mbit ba i)"

lemma bit_byte_of [simp]: "bit (byte_of g) i \<longleftrightarrow> i < 8 \<and> g i"
  using bit_imp_le_length [of "byte_of g" i]
  by (auto simp: byte_of_def bit_horner_sum_bit_iff)

lemma byte_of_bit [simp]: "byte_of (bit w) = w"
  by (rule bit_word_eqI) simp

lemma cap_ge: "n \<le> cap n"
  using div_ceil_8_ge [of n] align_max_len_ge [of "div_ceil n 8"] by (simp add: cap_def)

lemma cap_mult: "cap n = 8 * (32 * div_ceil (div_ceil n 8) 32)"
  by (simp add: cap_def align_max_len_eq)

lemma cap_eq: "cap n = n \<longleftrightarrow> n mod 256 = 0"
proof
  assume "cap n = n"
  then have "n = 256 * div_ceil (div_ceil n 8) 32" by (simp add: cap_mult)
  then show "n mod 256 = 0" by (metis mod_mult_self1_is_0)
next
  assume "n mod 256 = 0"
  then obtain k where "n = 8 * (32 * k)" by (auto elim!: dvdE simp: mod_eq_0_iff_dvd)
  moreover have "div_ceil (8 * (32 * k)) 8 = 32 * k" by (rule div_ceil_mult) simp
  ultimately show "cap n = n" by (simp only: cap_def align_max_len_mult)
qed

lemma byte_lt_cap: "i < cap n \<Longrightarrow> i div 8 < align_max_len (div_ceil n 8)"
  unfolding cap_def by (simp add: less_mult_imp_div_less mult.commute)

lemma ba_make_sel [simp]:
  "ba_bit_size (ba_make n f) = n"
  "ba_byte_size (ba_make n f) = div_ceil n 8"
  "au_len (ba_data (ba_make n f)) = div_ceil n 8"
  "length (au_mem (ba_data (ba_make n f))) = align_max_len (div_ceil n 8)"
  by (simp_all add: ba_make_def)

lemma ba_wf_make [simp, wf_simps]: "ba_wf (ba_make n f)"
  by (simp add: ba_wf_def au_wf_def)

lemma mbit_make [simp]: "mbit (ba_make n f) i \<longleftrightarrow> i < cap n \<and> f i"
  using byte_lt_cap [of i n] by (auto simp: mbit_def ba_make_def cap_def)

lemma ba_wf_length: "ba_wf ba \<Longrightarrow> 8 * length (au_mem (ba_data ba)) = cap (ba_bit_size ba)"
  by (simp add: ba_wf_def au_wf_def cap_def)

lemma mbit_beyond: "ba_wf ba \<Longrightarrow> cap (ba_bit_size ba) \<le> i \<Longrightarrow> \<not> mbit ba i"
  by (simp add: mbit_def ba_wf_length)

text \<open>A well-formed array is determined by its size and its view.\<close>

lemma ba_eqI:
  assumes "ba_wf ba" and "ba_bit_size ba = n" and "\<And>i. i < cap n \<Longrightarrow> mbit ba i = f i"
  shows "ba = ba_make n f"
proof -
  let ?m = "au_mem (ba_data ba)"
  have len: "length ?m = align_max_len (div_ceil n 8)"
    using assms(1,2) by (simp add: ba_wf_def au_wf_def)
  have "?m ! k = byte_of (\<lambda>i. f (8 * k + i))" if "k < length ?m" for k
  proof (rule bit_word_eqI)
    fix i
    assume "i < LENGTH(8)"
    then have i: "i < 8" by simp
    have lt: "8 * k + i < cap n" using that i by (simp add: cap_def len)
    have "mbit ba (8 * k + i) = bit (?m ! k) i"
      using lt i ba_wf_length [OF assms(1)] assms(2) by (simp add: mbit_def)
    then show "bit (?m ! k) i = bit (byte_of (\<lambda>i. f (8 * k + i))) i"
      using assms(3) [OF lt] i by simp
  qed
  then have "?m = map (\<lambda>k. byte_of (\<lambda>i. f (8 * k + i))) [0..<align_max_len (div_ceil n 8)]"
    by (intro nth_equalityI) (simp_all add: len)
  then show ?thesis
    using assms(1,2) by (simp add: ba_make_def ba_wf_def)
qed

lemma ba_wf_make_eq: "ba_wf ba \<Longrightarrow> ba = ba_make (ba_bit_size ba) (mbit ba)"
  by (rule ba_eqI) simp_all

lemma ba_make_cong: "(\<And>i. i < cap n \<Longrightarrow> f i = g i) \<Longrightarrow> ba_make n f = ba_make n g"
  by (rule ba_eqI) simp_all

lemma ba_make_inject:
  "ba_make n f = ba_make n g \<longleftrightarrow> (\<forall>i<cap n. f i = g i)"
  by (metis ba_make_cong mbit_make)

lemma ba_clean_make: "ba_clean (ba_make n f) \<longleftrightarrow> (\<forall>i. n \<le> i \<longrightarrow> i < cap n \<longrightarrow> \<not> f i)"
  by (auto simp: ba_clean_def)

section \<open>What each operation does to the view\<close>

lemma ba_clone_Ok: "ba_wf ba \<Longrightarrow> 0 < ba_bit_size ba \<Longrightarrow> ba_clone ba = Inr ba"
  by (simp add: ba_clone_def au_clone_Ok ba_wf_def)

lemma ba_new_Ok [res_simps]: "0 < n \<Longrightarrow> ba_new n = Inr (ba_make n (\<lambda>_. False))"
proof -
  assume n: "0 < n"
  have "byte_of (\<lambda>_. False) = 0" by (rule bit_word_eqI) simp
  with n show ?thesis
    by (simp add: ba_new_def Let_def au_new_Ok ba_make_def map_replicate_const)
qed

text \<open>All bits of the allocation are set, the padding included.\<close>

lemma ba_ones_Ok [res_simps]: "0 < n \<Longrightarrow> ba_ones n = Inr (ba_make n (\<lambda>_. True))"
proof -
  assume n: "0 < n"
  have "byte_of (\<lambda>_. True) = 0xFF" by (simp add: byte_of_def upt_conv_Cons)
  with n show ?thesis
    by (simp add: ba_ones_def Let_def au_ones_Ok ba_make_def map_replicate_const)
qed

lemma ba_get_Ok [res_simps]: "ba_wf ba \<Longrightarrow> i < ba_bit_size ba \<Longrightarrow> ba_get ba i = Inr (mbit ba i)"
proof -
  assume wf: "ba_wf ba" and i: "i < ba_bit_size ba"
  have len: "i div 8 < au_len (ba_data ba)"
    using wf i by (simp add: ba_wf_def less_div_ceil_8)
  have "i < 8 * length (au_mem (ba_data ba))"
    using ba_wf_length [OF wf] cap_ge [of "ba_bit_size ba"] i by simp
  then have "(au_mem (ba_data ba) ! (i div 8) AND push_bit (i mod 8) 1 \<noteq> 0) = mbit ba i"
    by (simp add: mbit_def and_exp_eq_0_iff_not_bit push_bit_eq_mult)
  with len i show ?thesis by (simp add: ba_get_def au_index_def)
qed

lemma ba_set_bit_Ok [res_simps]:
  assumes wf: "ba_wf ba" and i: "i < ba_bit_size ba"
  shows "ba_set_bit ba i v = Inr (ba_make (ba_bit_size ba) ((mbit ba)(i := v)))"
proof -
  let ?w = "au_mem (ba_data ba) ! (i div 8)"
  let ?w' = "if v then ?w OR push_bit (i mod 8) 1 else ?w AND NOT (push_bit (i mod 8) 1)"
  let ?ba = "ba\<lparr>ba_data := (ba_data ba)\<lparr>au_mem := (au_mem (ba_data ba))[i div 8 := ?w']\<rparr>\<rparr>"
  have len: "i div 8 < au_len (ba_data ba)"
    using wf i by (simp add: ba_wf_def less_div_ceil_8)
  then have res: "ba_set_bit ba i v = Inr ?ba"
    using i by (simp add: ba_set_bit_def au_index_def au_index_mut_def)
  have mem: "i div 8 < length (au_mem (ba_data ba))"
    using len wf align_max_len_ge [of "au_len (ba_data ba)"] by (simp add: ba_wf_def au_wf_def)
  have bitw: "bit ?w' k = (if k = i mod 8 then v else bit ?w k)" if "k < 8" for k
    using that by (auto simp: bit_or_iff bit_and_iff bit_not_iff bit_exp_iff)
  have "?ba = ba_make (ba_bit_size ba) ((mbit ba)(i := v))"
  proof (rule ba_eqI)
    show "ba_wf ?ba" using wf by (simp add: ba_wf_def au_wf_def)
    fix j
    assume "j < cap (ba_bit_size ba)"
    then have j: "j < 8 * length (au_mem (ba_data ba))" by (simp add: ba_wf_length [OF wf])
    show "mbit ?ba j = ((mbit ba)(i := v)) j"
    proof (cases "j div 8 = i div 8")
      case True
      then have "j = i \<longleftrightarrow> j mod 8 = i mod 8" by (metis div_mult_mod_eq)
      with True j mem bitw [of "j mod 8"] show ?thesis by (simp add: mbit_def)
    next
      case False
      with j show ?thesis by (auto simp: mbit_def)
    qed
  qed simp
  with res show ?thesis by simp
qed

lemma ba_get_out_of_bounds: "ba_bit_size ba \<le> i \<Longrightarrow> ba_get ba i = Inl AssertionFailed"
  by (simp add: ba_get_def rassert_def)

lemma ba_set_bit_out_of_bounds: "ba_bit_size ba \<le> i \<Longrightarrow> ba_set_bit ba i v = Inl AssertionFailed"
  by (simp add: ba_set_bit_def rassert_def)

text \<open>
  The chunk loops are byte-wise maps over the whole allocation. The memory of two
  well-formed arrays of one size has one length, a whole number of chunks, so no load
  or store faults.
\<close>

lemma ba_wf_mem:
  assumes "ba_wf ba"
  obtains n where "length (au_mem (ba_data ba)) = 32 * n"
    and "n = div_ceil (div_ceil (ba_bit_size ba) 8) 32"
    and "step_by (au_aligned_len (ba_data ba)) ALIGN = map (\<lambda>k. 32 * k) [0..<n]"
proof -
  let ?n = "div_ceil (div_ceil (ba_bit_size ba) 8) 32"
  have "length (au_mem (ba_data ba)) = 32 * ?n" "au_aligned_len (ba_data ba) = 32 * ?n"
    using assms by (simp_all add: ba_wf_def au_wf_def align_max_len_eq au_aligned_len_def)
  then show thesis using that [of ?n] by (simp add: step_by_def)
qed

lemma concat_map2_chunks:
  assumes "length a = 32 * n" and "length b = 32 * n"
  shows "concat (map (\<lambda>k. map2 f (take 32 (drop (32 * k) a)) (take 32 (drop (32 * k) b))) [0..<n])
    = map2 f a b"
  using assms arg_cong [OF concat_chunks [of 32 n "zip a b"], of "map (case_prod f)"]
  by (simp add: map_concat o_def take_zip drop_zip)

lemma inplace_loop_mem:
  assumes "ba_wf a" and "ba_wf b" and "ba_bit_size a = ba_bit_size b"
  shows "inplace_loop (map2 f) a b
    = Inr (a\<lparr>ba_data := (ba_data a)\<lparr>au_mem := map2 f (au_mem (ba_data a)) (au_mem (ba_data b))\<rparr>\<rparr>)"
proof -
  obtain n where n: "length (au_mem (ba_data a)) = 32 * n"
    "step_by (au_aligned_len (ba_data a)) ALIGN = map (\<lambda>k. 32 * k) [0..<n]"
    "length (au_mem (ba_data b)) = 32 * n"
    using assms by (metis ba_wf_mem)
  have "rfold (\<lambda>i m. rbind (load_si256 m i) (\<lambda>x. rbind (load_si256 (au_mem (ba_data b)) i)
          (\<lambda>y. store_si256 m i (map2 f x y)))) (map (\<lambda>k. 32 * k) [0..<n]) (au_mem (ba_data a))
    = Inr (concat (map (\<lambda>k. map2 f (take 32 (drop (32 * k) (au_mem (ba_data a))))
                                   (take 32 (drop (32 * k) (au_mem (ba_data b))))) [0..<n]))"
    by (rule chunk_loop) (use n in \<open>simp_all add: load_chunk store_chunk\<close>)
  then show ?thesis
    using n by (simp add: inplace_loop_def concat_map2_chunks)
qed

lemma mbit_map2:
  assumes "ba_wf a" and "ba_wf b" and "ba_bit_size a = ba_bit_size b"
    and "\<And>(x::u8) y i. i < 8 \<Longrightarrow> bit (f x y) i = g (bit x i) (bit y i)"
  shows "a\<lparr>ba_data := (ba_data a)\<lparr>au_mem := map2 f (au_mem (ba_data a)) (au_mem (ba_data b))\<rparr>\<rparr>
    = ba_make (ba_bit_size a) (\<lambda>i. g (mbit a i) (mbit b i))"
proof (rule ba_eqI)
  have len: "length (au_mem (ba_data b)) = length (au_mem (ba_data a))"
    using assms(1-3) by (simp add: ba_wf_def au_wf_def)
  let ?a = "a\<lparr>ba_data := (ba_data a)\<lparr>au_mem := map2 f (au_mem (ba_data a)) (au_mem (ba_data b))\<rparr>\<rparr>"
  show "ba_wf ?a" using assms(1) len by (simp add: ba_wf_def au_wf_def)
  show "mbit ?a i = g (mbit a i) (mbit b i)" if "i < cap (ba_bit_size a)" for i
  proof -
    have i: "i < 8 * length (au_mem (ba_data a))" using that ba_wf_length [OF assms(1)] by simp
    then have "i div 8 < length (au_mem (ba_data a))" by (simp add: less_mult_imp_div_less mult.commute)
    with i show ?thesis by (simp add: mbit_def len assms(4))
  qed
qed simp

lemmas bit_bytewise = bit_and_iff bit_xor_iff

lemma ba_inplace_xor_Ok [res_simps]:
  "ba_wf a \<Longrightarrow> ba_wf b \<Longrightarrow> ba_bit_size a = ba_bit_size b \<Longrightarrow>
     ba_inplace_xor a b = Inr (ba_make (ba_bit_size a) (\<lambda>i. mbit a i \<noteq> mbit b i))"
  using mbit_map2 [of a b "(XOR)" "(\<noteq>)"] inplace_loop_mem [of a b "(XOR)"]
  by (simp add: ba_inplace_xor_def xor_si256_def [abs_def] bit_bytewise)

lemma ba_inplace_and_Ok [res_simps]:
  "ba_wf a \<Longrightarrow> ba_wf b \<Longrightarrow> ba_bit_size a = ba_bit_size b \<Longrightarrow>
     ba_inplace_and a b = Inr (ba_make (ba_bit_size a) (\<lambda>i. mbit a i \<and> mbit b i))"
  using mbit_map2 [of a b "(AND)" "(\<and>)"] inplace_loop_mem [of a b "(AND)"]
  by (simp add: ba_inplace_and_def and_si256_def [abs_def] bit_bytewise)

lemma ba_mut_and_Ok [res_simps]:
  assumes "ba_wf d" "ba_wf a" "ba_wf b"
    and "ba_bit_size a = ba_bit_size b" "ba_bit_size d = ba_bit_size b"
  shows "ba_mut_and d a b = Inr (ba_make (ba_bit_size d) (\<lambda>i. mbit a i \<and> mbit b i))"
proof -
  obtain n where n: "length (au_mem (ba_data d)) = 32 * n"
    "step_by (au_aligned_len (ba_data d)) ALIGN = map (\<lambda>k. 32 * k) [0..<n]"
    "length (au_mem (ba_data a)) = 32 * n" "length (au_mem (ba_data b)) = 32 * n"
    using assms by (metis ba_wf_mem)
  let ?m = "map2 (AND) (au_mem (ba_data a)) (au_mem (ba_data b))"
  have "rfold (\<lambda>i m. rbind (load_si256 (au_mem (ba_data a)) i) (\<lambda>x. rbind (load_si256 (au_mem (ba_data b)) i)
          (\<lambda>y. store_si256 m i (map2 (AND) x y)))) (map (\<lambda>k. 32 * k) [0..<n]) (au_mem (ba_data d))
    = Inr (concat (map (\<lambda>k. map2 (AND) (take 32 (drop (32 * k) (au_mem (ba_data a))))
                                   (take 32 (drop (32 * k) (au_mem (ba_data b))))) [0..<n]))"
    by (rule chunk_loop) (use n in \<open>simp_all add: load_chunk store_chunk\<close>)
  then have "ba_mut_and d a b = Inr (d\<lparr>ba_data := (ba_data d)\<lparr>au_mem := ?m\<rparr>\<rparr>)"
    using n assms by (simp add: ba_mut_and_def concat_map2_chunks and_si256_def [abs_def])
  moreover have "d\<lparr>ba_data := (ba_data d)\<lparr>au_mem := ?m\<rparr>\<rparr>
      = a\<lparr>ba_data := (ba_data a)\<lparr>au_mem := ?m\<rparr>\<rparr>"
    using assms by (simp add: ba_wf_def)
  ultimately show ?thesis
    using mbit_map2 [of a b "(AND)" "(\<and>)"] assms by (simp add: bit_bytewise)
qed

section \<open>Parity and inner product\<close>

definition bpar :: "u8 \<Rightarrow> bool" where
  "bpar w = xors (map (bit w) [0..<8])"

definition mpar :: "u8 list \<Rightarrow> bool" where
  "mpar m = xors (map bpar m)"

lemma mpar_simps [simp]: "mpar [] = False" "mpar (w # m) = (bpar w \<noteq> mpar m)"
  "mpar (m @ m') = (mpar m \<noteq> mpar m')"
  by (simp_all add: mpar_def)

lemma bpar_xor [simp]: "bpar (v XOR w) = (bpar v \<noteq> bpar w)"
  using xors_map_eq_neg [of "bit v" "bit w"] by (simp add: bpar_def bit_xor_iff [abs_def])

lemma mpar_xor: "length a = length b \<Longrightarrow> mpar (map2 (XOR) a b) = (mpar a \<noteq> mpar b)"
  by (induction a b rule: list_induct2) auto

lemma bpar_0 [simp]: "bpar 0 = False"
  by (simp add: bpar_def upt_conv_Cons)

lemma mpar_zeros [simp]: "mpar (replicate n 0) = False"
  by (induction n) simp_all

text \<open>The bits of a buffer, one by one.\<close>

lemma mpar_bits: "mpar m = xors (map (\<lambda>i. bit (m ! (i div 8)) (i mod 8)) [0..<8 * length m])"
proof (induction m rule: rev_induct)
  case Nil
  then show ?case by simp
next
  case (snoc w m)
  let ?f = "\<lambda>i. bit ((m @ [w]) ! (i div 8)) (i mod 8)"
  have "xors (map ?f [0..<8 * length m])
      = xors (map (\<lambda>i. bit (m ! (i div 8)) (i mod 8)) [0..<8 * length m])"
    by (rule arg_cong [of _ _ xors], rule map_cong) (auto simp: nth_append less_mult_imp_div_less mult.commute)
  moreover have "map ?f [8 * length m..<8 * length m + 8] = map (bit w) [0..<8]"
    by (rule nth_equalityI) (simp_all add: nth_append)
  ultimately show ?case
    using snoc upt_add_eq_append [of 0 "8 * length m" 8] by (simp add: bpar_def add.commute)
qed

lemma odd_count_ones: "odd (count_ones w) = xors (map (bit (w :: 'a::len word)) [0..<LENGTH('a)])"
  by (simp add: count_ones_def xors_odd filter_map o_def)

lemma odd_count_ones_u64:
  assumes "length bs = 8"
  shows "odd (count_ones (from_le_bytes bs :: u64)) = mpar bs"
proof -
  have "xors (map (bit (from_le_bytes bs :: u64)) [0..<64])
      = xors (map (\<lambda>i. bit (bs ! (i div 8)) (i mod 8)) [0..<64])"
    by (rule arg_cong [of _ _ xors], rule map_cong)
       (auto simp: bit_from_le_bytes assms less_mult_imp_div_less)
  then show ?thesis by (simp add: odd_count_ones mpar_bits assms)
qed

lemma odd_sum_list: "odd (sum_list ns) = xors (map odd ns)" for ns :: "nat list"
  by (induction ns) auto

lemma mpar_concat: "mpar (concat ms) = xors (map mpar ms)"
  by (induction ms) simp_all

lemma register_parity_mpar:
  assumes "length r = 32"
  shows "register_parity r = mpar r"
proof -
  let ?c = "\<lambda>k. take 8 (drop (8 * k) r)"
  have "register_parity r = xors (map (\<lambda>k. odd (count_ones (from_le_bytes (?c k) :: u64))) [0..<4])"
    using odd_sum_list [of "map (\<lambda>k. count_ones (from_le_bytes (?c k) :: u64)) [0..<4]"]
    by (simp add: register_parity_def Let_def odd_iff_mod_2_eq_one o_def)
  also have "\<dots> = xors (map (\<lambda>k. mpar (?c k)) [0..<4])"
    by (rule arg_cong [of _ _ xors], rule map_cong) (auto simp: odd_count_ones_u64 assms)
  also have "\<dots> = mpar (concat (map ?c [0..<4]))"
    by (simp add: mpar_concat o_def)
  finally show ?thesis using concat_chunks [of 8 4 r] assms by simp
qed

text \<open>The accumulation loop: parity is additive over the chunks.\<close>

lemma xor_loop:
  assumes "\<And>k. k < n \<Longrightarrow> load (32 * k) = Inr (c k)" and "\<And>k. k < n \<Longrightarrow> length (c k) = 32"
    and "length acc = 32"
  shows "\<exists>r. rfold (\<lambda>i acc. rbind (load i) (\<lambda>x. Inr (xor_si256 acc x))) (map (\<lambda>k. 32 * k) [0..<n]) acc
      = Inr r \<and> length r = 32 \<and> mpar r = (mpar acc \<noteq> mpar (concat (map c [0..<n])))"
  using assms
proof (induction n)
  case 0
  then show ?case by simp
next
  case (Suc n)
  then obtain r where r: "rfold (\<lambda>i acc. rbind (load i) (\<lambda>x. Inr (xor_si256 acc x)))
      (map (\<lambda>k. 32 * k) [0..<n]) acc = Inr r" "length r = 32"
      "mpar r = (mpar acc \<noteq> mpar (concat (map c [0..<n])))"
    by force
  have "length (xor_si256 r (c n)) = 32" and "mpar (xor_si256 r (c n)) = (mpar r \<noteq> mpar (c n))"
    using r(2) Suc.prems(2) [of n] by (simp_all add: xor_si256_def mpar_xor)
  with r Suc.prems(1) [of n] show ?case by (auto simp: rfold_append)
qed

lemma mpar_mbit: "mpar (au_mem (ba_data ba)) = xors (map (mbit ba) [0..<8 * length (au_mem (ba_data ba))])"
  unfolding mpar_bits by (rule arg_cong [of _ _ xors], rule map_cong) (simp_all add: mbit_def)

lemma ba_parity_Ok [res_simps]:
  assumes "ba_wf ba"
  shows "ba_parity ba = Inr (xors (map (mbit ba) [0..<cap (ba_bit_size ba)]))"
proof -
  let ?m = "au_mem (ba_data ba)"
  obtain n where n: "length ?m = 32 * n"
    "step_by (au_aligned_len (ba_data ba)) ALIGN = map (\<lambda>k. 32 * k) [0..<n]"
    using assms by (metis ba_wf_mem)
  obtain r where r: "rfold (\<lambda>i acc. rbind (load_si256 ?m i) (\<lambda>x. Inr (xor_si256 acc x)))
      (map (\<lambda>k. 32 * k) [0..<n]) (replicate 32 0) = Inr r" "length r = 32"
      "mpar r = (mpar (replicate 32 0) \<noteq> mpar (concat (map (\<lambda>k. take 32 (drop (32 * k) ?m)) [0..<n])))"
    using xor_loop [of n "load_si256 ?m" "\<lambda>k. take 32 (drop (32 * k) ?m)" "replicate 32 0"] n(1)
    by (auto simp: load_chunk)
  have "mpar r = mpar ?m"
    using r(3) concat_chunks [of 32 n ?m] n(1) by simp
  with r(1,2) n(2) show ?thesis
    by (simp add: ba_parity_def register_parity_mpar mpar_mbit ba_wf_length [OF assms])
qed

lemma ba_inner_prod_Ok [res_simps]:
  assumes "ba_wf x" "ba_wf y" "ba_bit_size x = ba_bit_size y"
  shows "ba_inner_prod x y = Inr (xors (map (\<lambda>i. mbit x i \<and> mbit y i) [0..<cap (ba_bit_size x)]))"
proof -
  let ?m = "au_mem (ba_data x)" and ?m' = "au_mem (ba_data y)"
  let ?xy = "x\<lparr>ba_data := (ba_data x)\<lparr>au_mem := map2 (AND) ?m ?m'\<rparr>\<rparr>"
  obtain n where n: "length ?m = 32 * n" "length ?m' = 32 * n"
    "step_by (au_aligned_len (ba_data x)) ALIGN = map (\<lambda>k. 32 * k) [0..<n]"
    using assms by (metis ba_wf_mem)
  let ?c = "\<lambda>k. map2 (AND) (take 32 (drop (32 * k) ?m)) (take 32 (drop (32 * k) ?m'))"
  let ?load = "\<lambda>i. rbind (load_si256 ?m i) (\<lambda>a. rbind (load_si256 ?m' i) (\<lambda>b. Inr (and_si256 a b)))"
  obtain r where r: "rfold (\<lambda>i acc. rbind (?load i) (\<lambda>x. Inr (xor_si256 acc x)))
      (map (\<lambda>k. 32 * k) [0..<n]) (replicate 32 0) = Inr r" "length r = 32"
      "mpar r = (mpar (replicate 32 0) \<noteq> mpar (concat (map ?c [0..<n])))"
    using xor_loop [of n ?load ?c "replicate 32 0"] n(1,2) by (auto simp: load_chunk and_si256_def)
  have "mpar r = mpar (au_mem (ba_data ?xy))"
    using r(3) concat_map2_chunks [of ?m n ?m' "(AND)"] n by simp
  also have "\<dots> = xors (map (mbit ?xy) [0..<cap (ba_bit_size x)])"
    using n ba_wf_length [OF assms(1)] by (subst mpar_mbit) simp
  also have "map (mbit ?xy) [0..<cap (ba_bit_size x)]
      = map (\<lambda>i. mbit x i \<and> mbit y i) [0..<cap (ba_bit_size x)]"
    using mbit_map2 [of x y "(AND)" "(\<and>)"] assms by (simp add: bit_bytewise)
  finally show ?thesis
    using r(1,2) n(3) assms by (simp add: ba_inner_prod_def rbind_assoc register_parity_mpar)
qed

section \<open>Equality\<close>

lemma xor_eq_0: "v XOR w = 0 \<longleftrightarrow> v = w" for v w :: u8
  by (metis bit.xor_left_self xor.right_neutral bit.xor_self)

lemma xor_si256_zero:
  "length a = length b \<Longrightarrow> (\<exists>w\<in>set (xor_si256 a b). w \<noteq> 0) \<longleftrightarrow> a \<noteq> b"
  unfolding xor_si256_def by (induction a b rule: list_induct2) (auto simp: xor_eq_0)

lemma eq_loop_Ok:
  "length m1 = length m2 \<Longrightarrow> (\<And>i. i \<in> set is \<Longrightarrow> i + 32 \<le> length m1) \<Longrightarrow>
     eq_loop m1 m2 is = Inr (\<forall>i\<in>set is. take 32 (drop i m1) = take 32 (drop i m2))"
proof (induction "is")
  case Nil
  then show ?case by simp
next
  case (Cons i "is")
  then have "i + 32 \<le> length m1" by simp
  with Cons show ?case by (simp add: load_si256_def xor_si256_zero)
qed

lemma eq_by_chunks:
  assumes "length m1 = 32 * n" "length m2 = 32 * n"
  shows "(\<forall>k<n. take 32 (drop (32 * k) m1) = take 32 (drop (32 * k) m2)) \<longleftrightarrow> m1 = m2"
proof
  assume "\<forall>k<n. take 32 (drop (32 * k) m1) = take 32 (drop (32 * k) m2)"
  then have "concat (map (\<lambda>k. take 32 (drop (32 * k) m1)) [0..<n])
      = concat (map (\<lambda>k. take 32 (drop (32 * k) m2)) [0..<n])"
    by (intro arg_cong [of _ _ concat] map_cong) auto
  then show "m1 = m2" using concat_chunks [of 32 n m1] concat_chunks [of 32 n m2] assms by simp
qed simp

text \<open>The comparison is equality of the arrays with their padding.\<close>

lemma ba_eq_Ok: "ba_wf x \<Longrightarrow> ba_wf y \<Longrightarrow> ba_eq x y = Inr (x = y)"
proof (cases "ba_bit_size x = ba_bit_size y")
  case True
  assume wf: "ba_wf x" "ba_wf y"
  let ?m = "au_mem (ba_data x)" and ?m' = "au_mem (ba_data y)"
  obtain n where n: "length ?m = 32 * n" "length ?m' = 32 * n"
    "step_by (au_aligned_len (ba_data x)) ALIGN = map (\<lambda>k. 32 * k) [0..<n]"
    using wf True by (metis ba_wf_mem)
  have "eq_loop ?m ?m' (map (\<lambda>k. 32 * k) [0..<n]) = Inr (?m = ?m')"
    using eq_by_chunks [OF n(1,2)] by (subst eq_loop_Ok) (auto simp: n Ball_def)
  moreover have "?m = ?m' \<longleftrightarrow> x = y"
    using wf True by (auto simp: ba_wf_def)
  ultimately show ?thesis using True n(3) by (simp add: ba_eq_def)
qed (auto simp: ba_eq_def)

section \<open>Bit stores\<close>

text \<open>
  The interface the loops over single bits rely on: a store with a size, a read and a
  write that panic out of range, and a write that changes one position of the view. Two
  loops are proved against it once: writing a run of bits, and reading a run.
\<close>

locale bit_store =
  fixes invar :: "'s \<Rightarrow> bool"
    and size_of :: "'s \<Rightarrow> nat"
    and get :: "'s \<Rightarrow> nat \<Rightarrow> bool res"
    and set_bit :: "'s \<Rightarrow> nat \<Rightarrow> bool \<Rightarrow> 's res"
    and view :: "'s \<Rightarrow> nat \<Rightarrow> bool"
    and mk :: "nat \<Rightarrow> (nat \<Rightarrow> bool) \<Rightarrow> 's"
  assumes get_view: "invar s \<Longrightarrow> i < size_of s \<Longrightarrow> get s i = Inr (view s i)"
    and set_view: "invar s \<Longrightarrow> i < size_of s \<Longrightarrow> set_bit s i v = Inr (mk (size_of s) ((view s)(i := v)))"
    and invar_mk: "invar (mk n f)"
    and size_mk: "size_of (mk n f) = n"
    and view_mk: "i < n \<Longrightarrow> view (mk n f) i = f i"
    and mk_view: "invar s \<Longrightarrow> mk (size_of s) (view s) = s"
    and mk_upd: "i < n \<Longrightarrow> mk n ((view (mk n f))(i := v)) = mk n (f(i := v))"
begin

lemma write_loop:
  assumes "invar s" and "off + n \<le> size_of s" and "\<And>i. i < n \<Longrightarrow> src i = Inr (f i)"
  shows "rfold (\<lambda>i s. rbind (src i) (\<lambda>v. set_bit s (i + off) v)) [0..<n] s
    = Inr (mk (size_of s) (\<lambda>j. if off \<le> j \<and> j < off + n then f (j - off) else view s j))"
  using assms(2,3)
proof (induction n)
  case 0
  have "(\<lambda>j. if off \<le> j \<and> j < off + 0 then f (j - off) else view s j) = view s" by auto
  with mk_view [OF assms(1)] show ?case by simp
next
  case (Suc n)
  let ?g = "\<lambda>j. if off \<le> j \<and> j < off + n then f (j - off) else view s j"
  have upd: "?g(n + off := f n) = (\<lambda>j. if off \<le> j \<and> j < off + Suc n then f (j - off) else view s j)"
    by (rule ext) auto
  have lt: "n + off < size_of s" using Suc.prems(1) by simp
  have "set_bit (mk (size_of s) ?g) (n + off) (f n)
      = Inr (mk (size_of s) ((view (mk (size_of s) ?g))(n + off := f n)))"
    using set_view [OF invar_mk, of "n + off" "size_of s" ?g "f n"] lt by (simp add: size_mk)
  also have "\<dots> = Inr (mk (size_of s) (?g(n + off := f n)))" using lt by (simp add: mk_upd)
  finally show ?case
    using Suc.IH Suc.prems unfolding upd by (simp add: rfold_append)
qed

end

interpretation bits: bit_store ba_wf ba_bit_size ba_get ba_set_bit mbit ba_make
proof
  show "mbit (ba_make n f) i = f i" if "i < n" for i n f
    using that cap_ge [of n] by simp
  show "ba_make (ba_bit_size s) (mbit s) = s" if "ba_wf s" for s
    using ba_wf_make_eq [OF that] by simp
  show "ba_make n ((mbit (ba_make n f))(i := v)) = ba_make n (f(i := v))" for i n f v
    by (rule ba_make_cong) auto
qed (simp_all add: ba_get_Ok ba_set_bit_Ok)

section \<open>Copies and slices\<close>

lemma ba_copy_from_Ok [res_simps]:
  assumes "ba_wf ba" "ba_wf src" "off + ba_bit_size src \<le> ba_bit_size ba"
  shows "ba_copy_from ba off src = Inr (ba_make (ba_bit_size ba)
    (\<lambda>j. if off \<le> j \<and> j < off + ba_bit_size src then mbit src (j - off) else mbit ba j))"
proof (cases "off mod 8 \<noteq> 0 \<or> ba_bit_size src mod 8 \<noteq> 0")
  case True
  then show ?thesis
    using assms bits.write_loop [OF assms(1,3), of "ba_get src" "mbit src"]
    by (simp add: ba_copy_from_def ba_get_Ok)
next
  case False
  define a n where "a = off div 8" and "n = ba_bit_size src div 8"
  have off: "off = 8 * a" and sz: "ba_bit_size src = 8 * n"
    using False by (auto simp: a_def n_def)
  let ?m = "au_mem (ba_data ba)" and ?s = "au_mem (ba_data src)"
  have bs: "ba_byte_size src = n" using assms(2) sz by (simp add: ba_wf_def)
  have ls: "n \<le> length ?s"
    using assms(2) bs align_max_len_ge [of n] by (simp add: ba_wf_def au_wf_def)
  have "8 * (a + n) \<le> 8 * length ?m"
    using assms(3) off sz ba_wf_length [OF assms(1)] cap_ge [of "ba_bit_size ba"] by simp
  then have lm: "a + n \<le> length ?m" by simp
  let ?m' = "take a ?m @ take n ?s @ drop (a + n) ?m"
  have "ba_copy_from ba off src = Inr (ba\<lparr>ba_data := (ba_data ba)\<lparr>au_mem := ?m'\<rparr>\<rparr>)"
    using False assms(3) bs ls lm by (simp add: ba_copy_from_def copy_nonoverlapping_def a_def)
  also have "ba\<lparr>ba_data := (ba_data ba)\<lparr>au_mem := ?m'\<rparr>\<rparr> = ba_make (ba_bit_size ba)
    (\<lambda>j. if off \<le> j \<and> j < off + ba_bit_size src then mbit src (j - off) else mbit ba j)"
  proof (rule ba_eqI)
    have len: "length ?m' = length ?m" using lm ls by simp
    then show "ba_wf (ba\<lparr>ba_data := (ba_data ba)\<lparr>au_mem := ?m'\<rparr>\<rparr>)"
      using assms(1) by (simp add: ba_wf_def au_wf_def)
    fix j
    assume "j < cap (ba_bit_size ba)"
    then have j: "j < 8 * length ?m" by (simp add: ba_wf_length [OF assms(1)])
    have jd: "a \<le> j div 8 \<and> j div 8 < a + n \<longleftrightarrow> off \<le> j \<and> j < off + ba_bit_size src"
      unfolding off sz by (auto simp: less_mult_imp_div_less less_eq_div_iff_mult_less_eq div_less_iff_less_mult)
    have sub: "(j - off) div 8 = j div 8 - a" "(j - off) mod 8 = j mod 8" if "off \<le> j"
      using that unfolding off by (auto simp: div_mult_self1 mod_mult_self1 le_iff_add)
    have "?m' ! (j div 8) = (if off \<le> j \<and> j < off + ba_bit_size src then ?s ! (j div 8 - a) else ?m ! (j div 8))"
      unfolding jd [symmetric] using lm ls by (auto simp: nth_append)
    moreover have "j - off < 8 * length ?s" if "off \<le> j" "j < off + ba_bit_size src"
      using that ls sz by linarith
    ultimately show "mbit (ba\<lparr>ba_data := (ba_data ba)\<lparr>au_mem := ?m'\<rparr>\<rparr>) j
        = (if off \<le> j \<and> j < off + ba_bit_size src then mbit src (j - off) else mbit ba j)"
      using j len sub by (auto simp: mbit_def)
  qed simp
  finally show ?thesis .
qed

text \<open>An array over a buffer copied from a slice: the bits of the slice, zeros beyond.\<close>

lemma ba_of_slice:
  assumes "length s = div_ceil n 8"
  shows "\<lparr>ba_data = \<lparr>au_mem = s @ replicate (align_max_len (length s) - length s) 0, au_len = length s\<rparr>,
          ba_bit_size = n, ba_byte_size = div_ceil n 8\<rparr>
    = ba_make n (\<lambda>i. i < 8 * length s \<and> bit (s ! (i div 8)) (i mod 8))"
proof (rule ba_eqI)
  let ?ba = "\<lparr>ba_data = \<lparr>au_mem = s @ replicate (align_max_len (length s) - length s) 0, au_len = length s\<rparr>,
          ba_bit_size = n, ba_byte_size = div_ceil n 8\<rparr>"
  show "ba_wf ?ba" using assms align_max_len_ge [of "length s"] by (simp add: ba_wf_def au_wf_def)
  fix i
  assume i: "i < cap n"
  then have "i div 8 < align_max_len (length s)" using byte_lt_cap assms by simp
  moreover have "i div 8 < length s \<longleftrightarrow> i < 8 * length s"
    by (simp add: div_less_iff_less_mult mult.commute)
  ultimately show "mbit ?ba i = (i < 8 * length s \<and> bit (s ! (i div 8)) (i mod 8))"
    using i assms by (auto simp: mbit_def cap_def nth_append)
qed simp

lemma ba_from_byte_slice_Ok [res_simps]:
  "div_ceil n 8 \<le> length src \<Longrightarrow> ba_from_byte_slice src n
     = Inr (ba_make n (\<lambda>i. i < 8 * div_ceil n 8 \<and> bit (src ! (i div 8)) (i mod 8)))"
  using ba_of_slice [of "take (div_ceil n 8) src" n]
  by (auto simp: ba_from_byte_slice_def slice_def Let_def au_from_slice_Ok min_def
      div_less_iff_less_mult mult.commute intro: ba_make_cong)

lemma length_memref [simp]: "ba_wf ba \<Longrightarrow> length (ba_get_inner_memref ba) = div_ceil (ba_bit_size ba) 8"
  using align_max_len_ge [of "au_len (ba_data ba)"]
  by (simp add: ba_get_inner_memref_def au_deref_def ba_wf_def au_wf_def)

lemma bit_memref:
  assumes "ba_wf ba" "i < 8 * div_ceil (ba_bit_size ba) 8"
  shows "bit (ba_get_inner_memref ba ! (i div 8)) (i mod 8) = mbit ba i"
proof -
  have "i div 8 < div_ceil (ba_bit_size ba) 8"
    using assms(2) by (simp add: less_mult_imp_div_less mult.commute)
  moreover have "i < 8 * length (au_mem (ba_data ba))"
    using assms align_max_len_ge [of "div_ceil (ba_bit_size ba) 8"]
    by (simp add: ba_wf_length cap_def)
  ultimately show ?thesis
    using assms(1) by (simp add: ba_get_inner_memref_def au_deref_def ba_wf_def mbit_def)
qed

text \<open>
  What a peer rebuilds from the bytes an array is sent as: the same bits up to the last
  byte, and zero padding.
\<close>

lemma ba_from_memref [res_simps]:
  assumes "ba_wf ba"
  shows "ba_from_byte_slice (ba_get_inner_memref ba) (ba_bit_size ba)
    = Inr (ba_make (ba_bit_size ba) (\<lambda>i. i < 8 * div_ceil (ba_bit_size ba) 8 \<and> mbit ba i))"
  using assms by (auto simp: ba_from_byte_slice_Ok bit_memref intro: ba_make_cong)

lemma ba_to_slice_Ok [res_simps]:
  assumes "ba_wf ba" "st \<le> en" "en \<le> ba_byte_size ba"
  shows "ba_to_slice ba st en
    = Inr (ba_make (8 * (en - st)) (\<lambda>i. i < 8 * (en - st) \<and> mbit ba (8 * st + i)))"
proof -
  let ?m = "ba_get_inner_memref ba"
  let ?s = "take (en - st) (drop st ?m)"
  have len: "length ?m = ba_byte_size ba" "length ?s = en - st"
    using assms by (simp_all add: ba_wf_def)
  have "ba_to_slice ba st en = Inr (ba_make (8 * (en - st))
      (\<lambda>i. i < 8 * (en - st) \<and> bit (?s ! (i div 8)) (i mod 8)))"
    using assms len ba_of_slice [of ?s "8 * (en - st)"]
    by (simp add: ba_to_slice_def slice_def au_from_slice_Ok mult.commute flip: ba_get_inner_memref_def)
  moreover have "bit (?s ! (i div 8)) (i mod 8) = mbit ba (8 * st + i)" if "i < 8 * (en - st)" for i
  proof -
    have "i div 8 < en - st" using that by (simp add: less_mult_imp_div_less mult.commute)
    moreover have "8 * st + i < 8 * div_ceil (ba_bit_size ba) 8"
      using that assms by (simp add: ba_wf_def)
    ultimately show ?thesis
      using bit_memref [OF assms(1), of "8 * st + i"] len by simp
  qed
  ultimately show ?thesis by (auto intro: ba_make_cong)
qed

lemma ba_shrink_Ok [res_simps]:
  assumes "ba_wf ba" "n \<le> ba_bit_size ba" "ba_bit_size ba < n + 8" "ba_bit_size ba mod 8 = 0"
  shows "ba_shrink_to_partial_last_byte ba n = Inr (ba_make n (mbit ba))"
proof -
  have ceil: "div_ceil n 8 = div_ceil (ba_bit_size ba) 8"
    using assms(2-4) div_ceil_8_ge [of n] div_ceil_8_less [of n] div_ceil_8_aligned [OF assms(4)]
    by linarith
  have "ba\<lparr>ba_bit_size := n\<rparr> = ba_make n (mbit ba)"
    using assms(1) ceil by (intro ba_eqI) (simp_all add: ba_wf_def mbit_def)
  moreover have "ba\<lparr>ba_bit_size := n\<rparr> = ba" if "ba_bit_size ba = n"
    using that by simp
  ultimately show ?thesis
    using assms(2,3) by (auto simp: ba_shrink_to_partial_last_byte_def)
qed

lemma ba_random_Ok:
  assumes "rng_ok R" "0 < n"
  shows "\<exists>f rng'. ba_random R n rng = Inr (ba_make n f, rng') \<and> (\<forall>i\<ge>8 * div_ceil n 8. \<not> f i)"
proof -
  obtain bs rng' where bs: "rng_fill R (div_ceil n 8) rng = (bs, rng')" by (metis surj_pair)
  then have len: "length bs = div_ceil n 8" using assms(1) by (metis fst_conv rng_ok_def)
  have "ba_random R n rng
      = Inr (ba_make n (\<lambda>i. i < 8 * length bs \<and> bit (bs ! (i div 8)) (i mod 8)), rng')"
    using ba_of_slice [OF len] assms(2) bs len by (simp add: ba_random_def Let_def au_new_Ok)
  with len show ?thesis by auto
qed

section \<open>Sharing and reconstruction\<close>

abbreviation ba_sized :: "nat \<Rightarrow> bitarray \<Rightarrow> bool" where
  "ba_sized n ba \<equiv> ba_wf ba \<and> ba_bit_size ba = n"

lemma xor_shares_Ok:
  "ba_sized n ba \<Longrightarrow> list_all (ba_sized n) shares \<Longrightarrow>
     rfold (\<lambda>share ba. ba_inplace_xor ba share) shares ba
       = Inr (ba_make n (\<lambda>i. mbit ba i \<noteq> xors (map (\<lambda>s. mbit s i) shares)))"
proof (induction shares arbitrary: ba)
  case Nil
  then show ?case using ba_wf_make_eq [of ba] by simp
next
  case (Cons s shares)
  let ?ba = "ba_make n (\<lambda>i. mbit ba i \<noteq> mbit s i)"
  have "ba_inplace_xor ba s = Inr ?ba" using Cons.prems by (simp add: ba_inplace_xor_Ok)
  moreover have "rfold (\<lambda>share ba. ba_inplace_xor ba share) shares ?ba
      = Inr (ba_make n (\<lambda>i. mbit ?ba i \<noteq> xors (map (\<lambda>s. mbit s i) shares)))"
    using Cons.prems by (intro Cons.IH) simp_all
  moreover have "ba_make n (\<lambda>i. mbit ?ba i \<noteq> xors (map (\<lambda>s. mbit s i) shares))
      = ba_make n (\<lambda>i. mbit ba i \<noteq> xors (map (\<lambda>s. mbit s i) (s # shares)))"
    by (rule ba_make_cong) auto
  ultimately show ?case by simp
qed

lemma ba_inplace_reconstruct_Ok [res_simps]:
  "ba_sized n ba \<Longrightarrow> list_all (ba_sized n) shares \<Longrightarrow> shares \<noteq> [] \<Longrightarrow>
     ba_inplace_reconstruct ba shares
       = Inr (ba_make n (\<lambda>i. mbit ba i \<noteq> xors (map (\<lambda>s. mbit s i) shares)))"
  by (simp add: ba_inplace_reconstruct_def xor_shares_Ok)

lemma ba_reconstruct_Ok [res_simps]:
  assumes "list_all (ba_sized n) shares" "shares \<noteq> []"
  shows "ba_reconstruct shares = Inr (ba_make n (\<lambda>i. xors (map (\<lambda>s. mbit s i) shares)))"
proof -
  obtain ss s where shares: "shares = ss @ [s]" using assms(2) by (metis rev_exhaust)
  then have "ba_reconstruct shares = Inr (ba_make n (\<lambda>i. mbit s i \<noteq> xors (map (\<lambda>s. mbit s i) ss)))"
    using assms(1) by (simp add: ba_reconstruct_def xor_shares_Ok)
  then show ?thesis by (auto simp: shares intro: ba_make_cong)
qed

lemma ba_inplace_secret_share_Ok:
  assumes "rng_ok R" "ba_wf ba" "0 < ba_bit_size ba" "2 \<le> n"
  shows "\<exists>share shares rng'. ba_inplace_secret_share P R ba n rng = Inr ((share, shares), rng') \<and>
    length shares = n - 1 \<and> list_all (ba_sized (ba_bit_size ba)) (share # shares) \<and>
    (\<forall>i. xors (map (\<lambda>s. mbit s i) (share # shares)) = mbit ba i)"
proof -
  let ?k = "ba_bit_size ba"
  have "\<exists>x s'. ba_random R ?k s = Inr (x, s') \<and> ba_sized ?k x" for s
    using ba_random_Ok [OF assms(1,3), of s] by auto
  from rtimes_Ok [of "ba_random R ?k" "ba_sized ?k", OF this] obtain shares rng' where
    sh: "rtimes (n - 1) (ba_random R ?k) rng = Inr (shares, rng')" "length shares = n - 1"
      "\<forall>x\<in>set shares. ba_sized ?k x" by blast
  have "shares \<noteq> []" using sh(2) assms(4) by auto
  let ?own = "ba_make ?k (\<lambda>i. mbit ba i \<noteq> xors (map (\<lambda>s. mbit s i) shares))"
  have "ba_inplace_secret_share P R ba n rng = Inr ((?own, shares), rng')"
    using assms sh \<open>shares \<noteq> []\<close>
    by (simp add: ba_inplace_secret_share_def ba_inplace_reconstruct_Ok list_all_iff)
  moreover have "xors (map (\<lambda>s. mbit s i) (?own # shares)) = mbit ba i" for i
  proof (cases "i < cap ?k")
    case False
    then have "\<not> mbit s i" if "s \<in> set shares" for s
      using that sh(3) mbit_beyond [of s i] by auto
    then show ?thesis using False mbit_beyond [OF assms(2), of i] xors_all_False [of "map (\<lambda>s. mbit s i) shares"]
      by auto
  qed auto
  ultimately show ?thesis using sh(2,3) by (auto simp: list_all_iff)
qed

lemma ba_clean_xors:
  assumes "n \<le> m" "\<And>i. n \<le> i \<Longrightarrow> \<not> f i"
  shows "xors (map f [0..<m]) = xors (map f [0..<n])"
  using assms xors_all_False [of "map f [n..<m]"] xors_map_upt_split [of n m f] by auto

section \<open>Properties\<close>

text \<open>Bits are stored where they are read: writing bit \<open>i\<close> within the size keeps the array
  well-formed and of its size, changes what is read at \<open>i\<close> and at no other position; outside the
  size both reading and writing panic.\<close>

lemma ba_get_set_bit:
  assumes "ba_wf ba"
  shows "(i < ba_bit_size ba \<longrightarrow> (\<exists>ba'. ba_set_bit ba i v = Inr ba' \<and> ba_wf ba' \<and>
       ba_bit_size ba' = ba_bit_size ba \<and> (\<forall>j. ba_get ba' j = (if j = i then Inr v else ba_get ba j)))) \<and>
    (ba_bit_size ba \<le> i \<longrightarrow> ba_get ba i = Inl AssertionFailed \<and> ba_set_bit ba i v = Inl AssertionFailed)"
proof (cases "i < ba_bit_size ba")
  case True
  let ?ba = "ba_make (ba_bit_size ba) ((mbit ba)(i := v))"
  have "ba_get ?ba j = (if j = i then Inr v else ba_get ba j)" for j
    using assms True cap_ge [of "ba_bit_size ba"]
    by (cases "j < ba_bit_size ba") (auto simp: ba_get_Ok ba_get_out_of_bounds)
  then show ?thesis using True assms by (simp add: ba_set_bit_Ok)
next
  case False
  then show ?thesis by (simp add: ba_get_out_of_bounds ba_set_bit_out_of_bounds)
qed

text \<open>C30. The 256-bit loops compute the bitwise operations: on well-formed arrays of one size
  \<open>inplace_xor\<close>, \<open>inplace_and\<close> and \<open>mut_and\<close> return a well-formed array of that size whose every bit,
  padding included, is the exclusive-or or the conjunction of the operands' bits; arrays of
  different sizes are refused.\<close>

theorem ba_simd_bitwise:
  assumes "ba_wf a" and "ba_wf b" and "ba_wf d" and "ba_bit_size d = ba_bit_size a"
  shows "if ba_bit_size a = ba_bit_size b
    then \<exists>x y z. ba_inplace_xor a b = Inr x \<and> ba_inplace_and a b = Inr y \<and> ba_mut_and d a b = Inr z \<and>
      (\<forall>r\<in>{x, y, z}. ba_wf r \<and> ba_bit_size r = ba_bit_size a) \<and>
      (\<forall>i. mbit x i = (mbit a i \<noteq> mbit b i) \<and> mbit y i = (mbit a i \<and> mbit b i) \<and> mbit z i = mbit y i)
    else ba_inplace_xor a b = Inl AssertionFailed \<and> ba_inplace_and a b = Inl AssertionFailed \<and>
      ba_mut_and d a b = Inl AssertionFailed"
proof (cases "ba_bit_size a = ba_bit_size b")
  case True
  have out: "\<not> mbit a i" "\<not> mbit b i" if "\<not> i < cap (ba_bit_size b)" for i
    using that True mbit_beyond [OF assms(1), of i] mbit_beyond [OF assms(2), of i] by auto
  show ?thesis
    using assms True out by (auto simp: ba_inplace_xor_Ok ba_inplace_and_Ok ba_mut_and_Ok)
next
  case False
  then show ?thesis by (simp add: ba_inplace_xor_def ba_inplace_and_def ba_mut_and_def)
qed

theorem ba_simd_bitwise_witness:
  "\<exists>x y z. ba_inplace_xor (ba_make 300 even) (ba_make 300 (\<lambda>i. 3 dvd i)) = Inr x \<and>
      ba_inplace_and (ba_make 300 even) (ba_make 300 (\<lambda>i. 3 dvd i)) = Inr y \<and>
      ba_mut_and (ba_make 300 (\<lambda>_. False)) (ba_make 300 even) (ba_make 300 (\<lambda>i. 3 dvd i)) = Inr z \<and>
      mbit x 4 \<and> \<not> mbit y 4 \<and> mbit z 6"
  using ba_simd_bitwise [of "ba_make 300 even" "ba_make 300 (\<lambda>i. 3 dvd i)" "ba_make 300 (\<lambda>_. False)"]
    cap_ge [of 300]
  by fastforce

text \<open>C31. \<open>parity\<close> and \<open>inner_prod\<close> fold the whole allocation: on an array without stray ones beyond its
  size they are the exclusive-or of its bits and of the products of its bits, whatever the other
  operand has in its padding.\<close>

theorem ba_parity_inner_prod:
  assumes "ba_wf x" and "ba_wf y" and "ba_bit_size x = ba_bit_size y" and "ba_clean x"
  shows "ba_parity x = Inr (xors (map (mbit x) [0..<ba_bit_size x])) \<and>
    ba_inner_prod x y = Inr (xors (map (\<lambda>i. mbit x i \<and> mbit y i) [0..<ba_bit_size x])) \<and>
    ba_inner_prod y x = ba_inner_prod x y"
proof -
  have clean: "\<And>i. ba_bit_size x \<le> i \<Longrightarrow> \<not> mbit x i" using assms(4) by (simp add: ba_clean_def)
  have "xors (map (mbit x) [0..<cap (ba_bit_size x)]) = xors (map (mbit x) [0..<ba_bit_size x])"
    by (rule ba_clean_xors [OF cap_ge clean])
  moreover have "xors (map (\<lambda>i. mbit x i \<and> mbit y i) [0..<cap (ba_bit_size x)])
      = xors (map (\<lambda>i. mbit x i \<and> mbit y i) [0..<ba_bit_size x])"
    by (rule ba_clean_xors [OF cap_ge]) (simp add: clean)
  ultimately show ?thesis
    using assms by (simp add: ba_parity_Ok ba_inner_prod_Ok conj_commute)
qed

theorem ba_parity_inner_prod_witness:
  "ba_parity (ba_make 5 (\<lambda>i. i < 3)) = Inr True \<and>
   ba_inner_prod (ba_make 5 (\<lambda>i. i < 3)) (ba_make 5 (\<lambda>_. True)) = Inr True"
proof -
  have "[0..<5] = [0, 1, 2, 3, 4 :: nat]" by (simp add: upt_conv_Cons)
  then show ?thesis
    using ba_parity_inner_prod [of "ba_make 5 (\<lambda>i. i < 3)" "ba_make 5 (\<lambda>_. True)"] cap_ge [of 5]
    by (simp add: ba_clean_def)
qed

text \<open>C38. \<open>ones\<close> sets the padding too, so an array of ones has even parity for every size, an odd one
  included, and it is not equal to the array whose bits were set one by one.\<close>

theorem ba_ones_padding:
  assumes "0 < n"
  shows "\<exists>o1 o2. ba_ones n = Inr o1 \<and> rbind (ba_new n) (rfold (\<lambda>i ba. ba_set_bit ba i True) [0..<n]) = Inr o2 \<and>
    (\<forall>i<n. ba_get o1 i = ba_get o2 i) \<and> ba_parity o1 = Inr False \<and> ba_parity o2 = Inr (odd n) \<and>
    ba_eq o1 o2 = Inr (n mod 256 = 0)"
proof -
  let ?o1 = "ba_make n (\<lambda>_. True)" and ?o2 = "ba_make n (\<lambda>i. i < n)"
  have "rfold (\<lambda>i ba. ba_set_bit ba i True) [0..<n] (ba_make n (\<lambda>_. False)) = Inr ?o2"
    using bits.write_loop [of "ba_make n (\<lambda>_. False)" 0 n "\<lambda>_. Inr True" "\<lambda>_. True"]
    by (auto intro: ba_make_cong)
  note set_bits = this
  have "xors (map (\<lambda>i. i < cap n) [0..<cap n]) = odd (cap n)"
    by (simp add: xors_odd filter_True)
  moreover have "mbit ?o1 = (\<lambda>i. i < cap n)" by (rule ext) simp
  ultimately have "ba_parity ?o1 = Inr False" by (simp add: ba_parity_Ok cap_mult)
  moreover have "xors (map (mbit ?o2) [0..<cap n]) = xors (map (\<lambda>i. i < n) [0..<n])"
    using cap_ge [of n] by (subst ba_clean_xors [where n = n]) (auto intro!: arg_cong [of _ _ xors])
  then have "ba_parity ?o2 = Inr (odd n)" by (simp add: ba_parity_Ok xors_odd filter_True)
  moreover have "(\<forall>i<cap n. i < n) \<longleftrightarrow> cap n \<le> n" by (metis less_le_trans not_le less_irrefl)
  then have "(?o1 = ?o2) = (n mod 256 = 0)"
    using cap_eq [of n] cap_ge [of n] by (auto simp: ba_make_inject)
  ultimately show ?thesis using assms cap_ge [of n] set_bits
    by (auto simp: ba_ones_Ok ba_new_Ok ba_get_Ok ba_eq_Ok)
qed

theorem ba_ones_padding_witness:
  "\<exists>o1 o2. ba_ones 5 = Inr o1 \<and> rbind (ba_new 5) (rfold (\<lambda>i ba. ba_set_bit ba i True) [0..<5]) = Inr o2 \<and>
    (\<forall>i<5. ba_get o1 i = ba_get o2 i) \<and> ba_parity o1 = Inr False \<and> ba_parity o2 = Inr True \<and>
    ba_eq o1 o2 = Inr False"
  using ba_ones_padding [of 5] by simp

text \<open>C32. \<open>copy_from\<close> places the source's bits at the given bit offset and keeps every other bit, both on
  the path that copies bytes and on the one that copies single bits, and refuses a source that
  does not fit.\<close>

theorem ba_copy_from_places:
  assumes "ba_wf ba" and "ba_wf src"
  shows "if at_bit + ba_bit_size src \<le> ba_bit_size ba
    then \<exists>ba'. ba_copy_from ba at_bit src = Inr ba' \<and> ba_wf ba' \<and> ba_bit_size ba' = ba_bit_size ba \<and>
      (\<forall>i. mbit ba' i = (if at_bit \<le> i \<and> i < at_bit + ba_bit_size src then mbit src (i - at_bit) else mbit ba i))
    else ba_copy_from ba at_bit src = Inl AssertionFailed"
proof (cases "at_bit + ba_bit_size src \<le> ba_bit_size ba")
  case True
  moreover have "i < cap (ba_bit_size ba)" if "mbit ba i" for i
    using mbit_beyond [OF assms(1), of i] that not_le by blast
  ultimately show ?thesis using assms cap_ge [of "ba_bit_size ba"] by (auto simp: ba_copy_from_Ok)
next
  case False
  then show ?thesis by (simp add: ba_copy_from_def)
qed

theorem ba_copy_from_places_witness:
  "\<exists>ba'. ba_copy_from (ba_make 40 (\<lambda>_. False)) 13 (ba_make 11 even) = Inr ba' \<and> ba_wf ba' \<and> ba_bit_size ba' = 40 \<and>
      (\<forall>i. mbit ba' i = (if 13 \<le> i \<and> i < 13 + 11 then mbit (ba_make 11 even) (i - 13)
             else mbit (ba_make 40 (\<lambda>_. False)) i))"
  using ba_copy_from_places [of "ba_make 40 (\<lambda>_. False)" "ba_make 11 even" 13] by simp

text \<open>C34. Sharing a bit array between at least two parties gives one array of its size per party, and
  reconstructing them, in any order, gives an array equal to the shared one, padding included.\<close>

theorem ba_secret_share_roundtrip:
  assumes "rng_ok R" and "ba_wf ba" and "0 < ba_bit_size ba" and "2 \<le> party_num"
  shows "\<exists>shares rng'. ba_secret_share P R ba party_num rng = Inr (shares, rng') \<and>
    length shares = party_num \<and> (\<forall>s\<in>set shares. ba_sized (ba_bit_size ba) s) \<and>
    (\<forall>received. mset received = mset shares \<longrightarrow> ba_reconstruct received = Inr ba)"
proof -
  obtain share shares rng' where sh:
      "ba_inplace_secret_share P R ba party_num rng = Inr ((share, shares), rng')"
      "length shares = party_num - 1" "list_all (ba_sized (ba_bit_size ba)) (share # shares)"
      "\<forall>i. xors (map (\<lambda>s. mbit s i) (share # shares)) = mbit ba i"
    using ba_inplace_secret_share_Ok [OF assms, of P rng] by blast
  have "ba_reconstruct received = Inr ba" if m: "mset received = mset (shares @ [share])" for received
  proof -
    have "list_all (ba_sized (ba_bit_size ba)) received" "received \<noteq> []"
      using sh(3) mset_eq_setD [OF m] by (auto simp: list_all_iff)
    then have "ba_reconstruct received
        = Inr (ba_make (ba_bit_size ba) (\<lambda>i. xors (map (\<lambda>s. mbit s i) received)))"
      by (rule ba_reconstruct_Ok)
    moreover have "xors (map (\<lambda>s. mbit s i) received) = xors (map (\<lambda>s. mbit s i) (share # shares))" for i
      by (rule xors_mset) (simp add: m)
    ultimately show ?thesis using sh(4) ba_wf_make_eq [OF assms(2)] by simp
  qed
  moreover have "ba_secret_share P R ba party_num rng = Inr (shares @ [share], rng')"
    using assms(2,3) sh(1) by (simp add: ba_secret_share_def ba_clone_Ok)
  moreover have "length (shares @ [share]) = party_num" using sh(2) assms(4) by simp
  moreover have "\<forall>s\<in>set (shares @ [share]). ba_sized (ba_bit_size ba) s"
    using sh(3) by (auto simp: list_all_iff)
  ultimately show ?thesis by blast
qed

theorem ba_secret_share_roundtrip_witness:
  "\<exists>shares rng'. ba_secret_share Dev counter_rng (ba_make 13 even) 3 7 = Inr (shares, rng') \<and>
    length shares = 3 \<and> (\<forall>s\<in>set shares. ba_sized (ba_bit_size (ba_make 13 even)) s) \<and>
    (\<forall>received. mset received = mset shares \<longrightarrow> ba_reconstruct received = Inr (ba_make 13 even))"
  by (rule ba_secret_share_roundtrip) (simp_all add: rng_ok_counter)

text \<open>Sending an array as the bytes of its buffer and rebuilding it with its bit size keeps every bit
  of its size; when nothing is set beyond its last byte, the rebuilt array is equal to it.\<close>

lemma ba_memref_roundtrip:
  assumes "ba_wf ba"
  shows "\<exists>ba'. ba_from_byte_slice (ba_get_inner_memref ba) (ba_bit_size ba) = Inr ba' \<and>
    ba_wf ba' \<and> ba_bit_size ba' = ba_bit_size ba \<and> (\<forall>i<ba_bit_size ba. ba_get ba' i = ba_get ba i) \<and>
    (ba_clean ba \<longrightarrow> ba' = ba)"
proof -
  let ?n = "ba_bit_size ba"
  let ?ba = "ba_make ?n (\<lambda>i. i < 8 * div_ceil ?n 8 \<and> mbit ba i)"
  have "ba_get ?ba i = ba_get ba i" if "i < ?n" for i
    using that assms cap_ge [of ?n] div_ceil_8_ge [of ?n] by (simp add: ba_get_Ok)
  moreover have "?ba = ba" if "ba_clean ba"
  proof -
    have "?ba = ba_make ?n (mbit ba)"
      using that div_ceil_8_ge [of ?n] by (intro ba_make_cong) (meson ba_clean_def le_trans not_le)
    then show ?thesis using ba_wf_make_eq [OF assms] by simp
  qed
  ultimately show ?thesis using ba_from_memref [OF assms] by auto
qed

end
