(* ===== verification/D2_Bit_Array.thy ===== *)
theory D2_Bit_Array
  imports Bit_Array
begin

text \<open>
  \<open>src/simd_array/d2_bit_array.rs\<close>: a vector of bit arrays, used for the beaver
  triplets \<open>(a, b, c)\<close>, for the streams \<open>(x, y, z)\<close> of a layer, and for the rows of
  the database.
\<close>

record d2bitarray =
  d2_arrays :: "bitarray list"

definition d2_empty :: d2bitarray where
  "d2_empty = \<lparr>d2_arrays = []\<rparr>"

definition d2_new :: "bitarray list \<Rightarrow> d2bitarray" where
  "d2_new v = \<lparr>d2_arrays = v\<rparr>"

definition d2_zeros :: "nat \<Rightarrow> nat \<Rightarrow> d2bitarray res" where
  "d2_zeros n bit_size =
     rbind (rfold (\<lambda>_ arrays. rbind (ba_new bit_size) (\<lambda>a. Ok (arrays @ [a]))) [0..<n] [])
       (\<lambda>arrays. Ok \<lparr>d2_arrays = arrays\<rparr>)"

definition d2_random :: "'r rng_ops \<Rightarrow> nat \<Rightarrow> nat \<Rightarrow> 'r \<Rightarrow> (d2bitarray \<times> 'r) res" where
  "d2_random R array_size bit_num rng =
     rbind (rtimes array_size (ba_random R bit_num) rng) (\<lambda>(arrays, rng). Ok (d2_new arrays, rng))"

definition d2_from_seed :: "'r rng_ops \<Rightarrow> nat \<Rightarrow> nat \<Rightarrow> u8 list \<Rightarrow> d2bitarray res" where
  "d2_from_seed R array_size bit_num seed =
     rbind (d2_random R array_size bit_num (rng_from_seed R seed)) (\<lambda>(d, _). Ok d)"

definition d2_push :: "d2bitarray \<Rightarrow> bitarray \<Rightarrow> d2bitarray" where
  "d2_push d a = d\<lparr>d2_arrays := d2_arrays d @ [a]\<rparr>"

definition d2_array_num :: "d2bitarray \<Rightarrow> nat" where
  "d2_array_num d = length (d2_arrays d)"

definition d2_inner_byte_size :: "d2bitarray \<Rightarrow> nat" where
  "d2_inner_byte_size d = (if d2_arrays d = [] then 0 else ba_byte_size (d2_arrays d ! 0))"

definition d2_to_slice :: "d2bitarray \<Rightarrow> nat \<Rightarrow> nat \<Rightarrow> d2bitarray res" where
  "d2_to_slice d st_byte end_byte =
     rbind (rmap (\<lambda>array. ba_to_slice array st_byte end_byte) (d2_arrays d)) (\<lambda>sliced.
     Ok (d2_new sliced))"

definition d2_get_array :: "d2bitarray \<Rightarrow> nat \<Rightarrow> bitarray res" where
  "d2_get_array d i =
     rbind (rassert (i < length (d2_arrays d)) AssertionFailed) (\<lambda>_. index (d2_arrays d) i)"

text \<open>Writing through the reference of \<open>get_mut_array\<close>: the array computed by \<open>f\<close> replaces it.\<close>

definition d2_with_mut_array :: "d2bitarray \<Rightarrow> nat \<Rightarrow> (bitarray \<Rightarrow> bitarray res) \<Rightarrow> d2bitarray res" where
  "d2_with_mut_array d i f =
     rbind (rassert (i < length (d2_arrays d)) AssertionFailed) (\<lambda>_.
     rbind (index (d2_arrays d) i) (\<lambda>a.
     rbind (f a) (\<lambda>a'. Ok (d\<lparr>d2_arrays := (d2_arrays d)[i := a']\<rparr>))))"

definition d2_clone :: "d2bitarray \<Rightarrow> d2bitarray res" where
  "d2_clone d = rbind (rmap ba_clone (d2_arrays d)) (\<lambda>arrays. Ok \<lparr>d2_arrays = arrays\<rparr>)"

text \<open>\<open>zip\<close> stops at the shorter vector; the assertion makes the lengths equal.\<close>

definition d2_inplace_xor :: "d2bitarray \<Rightarrow> d2bitarray \<Rightarrow> d2bitarray res" where
  "d2_inplace_xor d other =
     rbind (rassert (length (d2_arrays d) = length (d2_arrays other)) AssertionFailed) (\<lambda>_.
     rbind (rmap (\<lambda>(s, t). ba_inplace_xor s t) (zip (d2_arrays d) (d2_arrays other))) (\<lambda>arrays.
     Ok \<lparr>d2_arrays = arrays\<rparr>))"

definition d2_inplace_reconstruct :: "d2bitarray \<Rightarrow> d2bitarray list \<Rightarrow> d2bitarray res" where
  "d2_inplace_reconstruct d shares =
     rbind (rassert (shares \<noteq> []) AssertionFailed) (\<lambda>_.
     rfold (\<lambda>share d. d2_inplace_xor d share) shares d)"

definition d2_reconstruct :: "d2bitarray list \<Rightarrow> d2bitarray res" where
  "d2_reconstruct shares =
     rbind (rassert (1 < length shares) AssertionFailed) (\<lambda>_.
     rbind (index shares 0) (\<lambda>s.
     rbind (d2_clone s) (\<lambda>out.
     rbind (rmap d2_clone (drop 1 shares)) (\<lambda>rest.
     d2_inplace_reconstruct out rest))))"

text \<open>\<open>unpack_as_beaver\<close> and its mutable form: exactly three arrays.\<close>

definition d2_unpack_as_beaver :: "d2bitarray \<Rightarrow> (bitarray \<times> bitarray \<times> bitarray) res" where
  "d2_unpack_as_beaver d =
     rbind (rassert (length (d2_arrays d) = 3) AssertionFailed) (\<lambda>_.
     Ok (d2_arrays d ! 0, d2_arrays d ! 1, d2_arrays d ! 2))"

definition d2_beaver_xor_d2 :: "d2bitarray \<Rightarrow> d2bitarray \<Rightarrow> d2bitarray res" where
  "d2_beaver_xor_d2 d beaver_array =
     rbind (rassert (2 \<le> length (d2_arrays d)) AssertionFailed) (\<lambda>_.
     rbind (rassert (length (d2_arrays beaver_array) = 2) AssertionFailed) (\<lambda>_.
     rbind (d2_get_array beaver_array 0) (\<lambda>b0.
     rbind (ba_inplace_xor (d2_arrays d ! 0) b0) (\<lambda>a0.
     rbind (d2_get_array beaver_array 1) (\<lambda>b1.
     rbind (ba_inplace_xor (d2_arrays d ! 1) b1) (\<lambda>a1.
     Ok (d\<lparr>d2_arrays := (d2_arrays d)[0 := a0, 1 := a1]\<rparr>)))))))"

section \<open>Lemmas\<close>

text \<open>A matrix of \<open>k\<close> arrays of \<open>n\<close> bits given by the view of each row.\<close>

definition d2_make :: "nat \<Rightarrow> nat \<Rightarrow> (nat \<Rightarrow> nat \<Rightarrow> bool) \<Rightarrow> d2bitarray" where
  "d2_make k n f = \<lparr>d2_arrays = map (\<lambda>j. ba_make n (f j)) [0..<k]\<rparr>"

definition d2_wf :: "nat \<Rightarrow> nat \<Rightarrow> d2bitarray \<Rightarrow> bool" where
  "d2_wf k n d \<longleftrightarrow> length (d2_arrays d) = k \<and> list_all (ba_sized n) (d2_arrays d)"

lemma d2_make_sel [simp]:
  "length (d2_arrays (d2_make k n f)) = k"
  "j < k \<Longrightarrow> d2_arrays (d2_make k n f) ! j = ba_make n (f j)"
  by (simp_all add: d2_make_def)

lemma d2_wf_make [simp, wf_simps]: "d2_wf k n (d2_make k n f)"
  by (simp add: d2_wf_def d2_make_def list_all_iff)

lemma d2_wf_nth: "d2_wf k n d \<Longrightarrow> j < k \<Longrightarrow> ba_sized n (d2_arrays d ! j)"
  by (simp add: d2_wf_def list_all_length)

lemma d2_wf_make_eq: "d2_wf k n d \<Longrightarrow> d = d2_make k n (\<lambda>j. mbit (d2_arrays d ! j))"
proof -
  assume d: "d2_wf k n d"
  then have "d2_arrays d = map (\<lambda>j. ba_make n (mbit (d2_arrays d ! j))) [0..<k]"
    using ba_wf_make_eq d2_wf_nth [OF d]
    by (intro nth_equalityI) (auto simp: d2_wf_def)
  then show ?thesis by (simp add: d2_make_def)
qed

lemma d2_make_cong:
  "(\<And>j i. j < k \<Longrightarrow> i < cap n \<Longrightarrow> f j i = g j i) \<Longrightarrow> d2_make k n f = d2_make k n g"
  by (auto simp: d2_make_def intro: ba_make_cong)

lemma d2_zeros_Ok [res_simps]: "0 < n \<Longrightarrow> d2_zeros k n = Inr (d2_make k n (\<lambda>_ _. False))"
proof -
  assume "0 < n"
  then have "rfold (\<lambda>_ arrays. rbind (ba_new n) (\<lambda>a. Ok (arrays @ [a]))) [0..<k] []
      = Inr (map (\<lambda>_. ba_make n (\<lambda>_. False)) [0..<k])"
    by (induction k) (simp_all add: rfold_append ba_new_Ok)
  then show ?thesis by (simp add: d2_zeros_def d2_make_def)
qed

lemma d2_random_Ok:
  assumes "rng_ok R" "0 < n"
  shows "\<exists>d rng'. d2_random R k n rng = Inr (d, rng') \<and> d2_wf k n d"
proof -
  have "\<exists>x s'. ba_random R n s = Inr (x, s') \<and> ba_sized n x" for s
    using ba_random_Ok [OF assms, of s] by auto
  from rtimes_Ok [of "ba_random R n" "ba_sized n", OF this, of k rng] show ?thesis
    by (auto simp: d2_random_def d2_new_def d2_wf_def list_all_iff)
qed

lemma d2_from_seed_Ok:
  "rng_ok R \<Longrightarrow> 0 < n \<Longrightarrow> \<exists>d. d2_from_seed R k n seed = Inr d \<and> d2_wf k n d"
  using d2_random_Ok [of R n k "rng_from_seed R seed"] by (auto simp: d2_from_seed_def)

lemma d2_clone_Ok [res_simps]: "d2_wf k n d \<Longrightarrow> 0 < n \<Longrightarrow> d2_clone d = Inr d"
  by (cases d) (simp add: d2_clone_def d2_wf_def list_all_iff rmap_Ok [of _ _ "\<lambda>x. x"] ba_clone_Ok)

lemma d2_get_array_Ok [res_simps]: "j < length (d2_arrays d) \<Longrightarrow> d2_get_array d j = Inr (d2_arrays d ! j)"
  by (simp add: d2_get_array_def index_def)

lemma d2_inplace_xor_Ok [res_simps]:
  assumes "d2_wf k n d" "d2_wf k n e"
  shows "d2_inplace_xor d e
    = Inr (d2_make k n (\<lambda>j i. mbit (d2_arrays d ! j) i \<noteq> mbit (d2_arrays e ! j) i))"
proof -
  have len: "length (d2_arrays d) = k" "length (d2_arrays e) = k"
    using assms by (simp_all add: d2_wf_def)
  have "rmap (\<lambda>(s, t). ba_inplace_xor s t) (zip (d2_arrays d) (d2_arrays e))
      = Inr (map (\<lambda>(s, t). ba_make n (\<lambda>i. mbit s i \<noteq> mbit t i)) (zip (d2_arrays d) (d2_arrays e)))"
    using assms by (intro rmap_Ok)
      (auto simp: d2_wf_def list_all_iff ba_inplace_xor_Ok elim!: in_set_zipE)
  moreover have "map (\<lambda>(s, t). ba_make n (\<lambda>i. mbit s i \<noteq> mbit t i)) (zip (d2_arrays d) (d2_arrays e))
      = map (\<lambda>j. ba_make n (\<lambda>i. mbit (d2_arrays d ! j) i \<noteq> mbit (d2_arrays e ! j) i)) [0..<k]"
    by (rule nth_equalityI) (simp_all add: len)
  ultimately show ?thesis by (simp add: d2_inplace_xor_def len d2_make_def)
qed

lemma d2_xor_shares_Ok:
  "d2_wf k n d \<Longrightarrow> list_all (d2_wf k n) shares \<Longrightarrow>
     rfold (\<lambda>share d. d2_inplace_xor d share) shares d
       = Inr (d2_make k n (\<lambda>j i. mbit (d2_arrays d ! j) i \<noteq> xors (map (\<lambda>s. mbit (d2_arrays s ! j) i) shares)))"
proof (induction shares arbitrary: d)
  case Nil
  then show ?case using d2_wf_make_eq [of k n d] by simp
next
  case (Cons s shares)
  let ?d = "d2_make k n (\<lambda>j i. mbit (d2_arrays d ! j) i \<noteq> mbit (d2_arrays s ! j) i)"
  have "d2_inplace_xor d s = Inr ?d" using Cons.prems by (simp add: d2_inplace_xor_Ok)
  moreover have "rfold (\<lambda>share d. d2_inplace_xor d share) shares ?d
      = Inr (d2_make k n (\<lambda>j i. mbit (d2_arrays ?d ! j) i \<noteq> xors (map (\<lambda>s. mbit (d2_arrays s ! j) i) shares)))"
    using Cons.prems by (intro Cons.IH) simp_all
  moreover have "d2_make k n (\<lambda>j i. mbit (d2_arrays ?d ! j) i \<noteq> xors (map (\<lambda>s. mbit (d2_arrays s ! j) i) shares))
      = d2_make k n (\<lambda>j i. mbit (d2_arrays d ! j) i \<noteq> xors (map (\<lambda>s. mbit (d2_arrays s ! j) i) (s # shares)))"
    by (rule d2_make_cong) auto
  ultimately show ?case by simp
qed

lemma d2_inplace_reconstruct_Ok [res_simps]:
  "d2_wf k n d \<Longrightarrow> list_all (d2_wf k n) shares \<Longrightarrow> shares \<noteq> [] \<Longrightarrow>
     d2_inplace_reconstruct d shares
       = Inr (d2_make k n (\<lambda>j i. mbit (d2_arrays d ! j) i \<noteq> xors (map (\<lambda>s. mbit (d2_arrays s ! j) i) shares)))"
  by (simp add: d2_inplace_reconstruct_def d2_xor_shares_Ok)

lemma d2_to_slice_Ok [res_simps]:
  assumes "d2_wf k n d" "st \<le> en" "en \<le> div_ceil n 8"
  shows "d2_to_slice d st en
    = Inr (d2_make k (8 * (en - st)) (\<lambda>j i. i < 8 * (en - st) \<and> mbit (d2_arrays d ! j) (8 * st + i)))"
proof -
  have "rmap (\<lambda>array. ba_to_slice array st en) (d2_arrays d)
      = Inr (map (\<lambda>a. ba_make (8 * (en - st)) (\<lambda>i. i < 8 * (en - st) \<and> mbit a (8 * st + i))) (d2_arrays d))"
    using assms by (intro rmap_Ok ba_to_slice_Ok) (auto simp: d2_wf_def list_all_iff ba_wf_def)
  moreover have "map (\<lambda>a. ba_make (8 * (en - st)) (\<lambda>i. i < 8 * (en - st) \<and> mbit a (8 * st + i))) (d2_arrays d)
      = map (\<lambda>j. ba_make (8 * (en - st)) (\<lambda>i. i < 8 * (en - st) \<and> mbit (d2_arrays d ! j) (8 * st + i))) [0..<k]"
    using assms(1) by (intro nth_equalityI) (simp_all add: d2_wf_def)
  ultimately show ?thesis by (simp add: d2_to_slice_def d2_new_def d2_make_def)
qed

end
