(* ===== verification/Beaver.thy ===== *)
theory Beaver
  imports D2_Bit_Array
begin

text \<open>
  \<open>src/cor_rnd/beaver.rs\<close>: the provider of Beaver triplets. A party expands its shares
  \<open>(a, b, c)\<close> from a seed; the dealer expands \<open>(a, b)\<close> from its own and sets \<open>c\<close> so that the
  shares of all parties multiply. Triplets are handed out in blocks of bytes; the provider
  satisfies the interface \<open>preproc_provider\<close>.
\<close>

section \<open>The provider\<close>

record beaver_provider =
  bp_beaver_storage :: "d2bitarray option"
  bp_used :: nat
  bp_last_report :: nat

definition bp_new :: beaver_provider where
  "bp_new = \<lparr>bp_beaver_storage = None, bp_used = 0, bp_last_report = 0\<rparr>"

definition bp_generate_with_seed ::
  "'r rng_ops \<Rightarrow> beaver_provider \<Rightarrow> nat \<Rightarrow> u8 list \<Rightarrow> beaver_provider res" where
  "bp_generate_with_seed R bp bit_num seed =
     rbind (d2_from_seed R 3 bit_num seed) (\<lambda>d. Ok (bp\<lparr>bp_beaver_storage := Some d\<rparr>))"

definition bp_generate_as_dealer ::
  "'r rng_ops \<Rightarrow> beaver_provider \<Rightarrow> nat \<Rightarrow> u8 list \<Rightarrow> u8 list list \<Rightarrow> beaver_provider res" where
  "bp_generate_as_dealer R bp bit_num seed other_party_seeds =
     rbind (d2_from_seed R 2 bit_num seed) (\<lambda>dealer_triplets.
     rbind (ba_new bit_num) (\<lambda>zeros.
     let dealer_triplets = d2_push dealer_triplets zeros in
     rbind (d2_clone dealer_triplets) (\<lambda>recuns.
     rbind (rmap (\<lambda>other_seed. d2_from_seed R 3 bit_num other_seed) other_party_seeds) (\<lambda>other_shares.
     rbind (d2_inplace_reconstruct recuns other_shares) (\<lambda>recuns.
     rbind (d2_with_mut_array dealer_triplets 2 (\<lambda>c.
       rbind (d2_get_array recuns 0) (\<lambda>a.
       rbind (d2_get_array recuns 1) (\<lambda>b.
       rbind (ba_mut_and c a b) (\<lambda>c.
       rbind (d2_get_array recuns 2) (\<lambda>rc.
       ba_inplace_xor c rc)))))) (\<lambda>dealer_triplets.
     Ok (bp\<lparr>bp_beaver_storage := Some dealer_triplets\<rparr>)))))))"

definition bp_take :: "beaver_provider \<Rightarrow> nat \<Rightarrow> (d2bitarray \<times> beaver_provider) res" where
  "bp_take bp req_size =
     rbind (expect (bp_beaver_storage bp)) (\<lambda>storage.
     rbind (rassert (bp_used bp + req_size \<le> d2_inner_byte_size storage) AssertionFailed) (\<lambda>_.
     rbind (d2_to_slice storage (bp_used bp) (bp_used bp + req_size)) (\<lambda>result.
     Ok (result, bp\<lparr>bp_used := bp_used bp + req_size\<rparr>))))"

definition bp_report_beaver_usage_then_reset ::
  "profile \<Rightarrow> beaver_provider \<Rightarrow> (nat \<times> beaver_provider) res" where
  "bp_report_beaver_usage_then_reset P bp =
     rbind (sub_usize P (bp_used bp) (bp_last_report bp)) (\<lambda>d.
     Ok (d * 8, bp\<lparr>bp_last_report := bp_used bp\<rparr>))"

section \<open>Generation\<close>

text \<open>Share \<open>j\<close> of the triplets (0, 1, 2 for \<open>a\<close>, \<open>b\<close>, \<open>c\<close>) summed over the parties, at bit \<open>i\<close>.\<close>

definition triple_sum :: "d2bitarray list \<Rightarrow> nat \<Rightarrow> nat \<Rightarrow> bool" where
  "triple_sum ds j i = xors (map (\<lambda>d. mbit (d2_arrays d ! j) i) ds)"

definition triples_ok :: "d2bitarray list \<Rightarrow> bool" where
  "triples_ok ds \<longleftrightarrow> (\<forall>i. triple_sum ds 2 i = (triple_sum ds 0 i \<and> triple_sum ds 1 i))"

lemma triple_sum_beyond:
  "\<forall>d\<in>set ds. d2_wf 3 n d \<Longrightarrow> j < 3 \<Longrightarrow> cap n \<le> i \<Longrightarrow> \<not> triple_sum ds j i"
  unfolding triple_sum_def using d2_wf_nth mbit_beyond by (intro xors_all_False) fastforce

lemma seeds_Ok:
  assumes "rng_ok R" "0 < n"
  shows "\<exists>ds. rmap (\<lambda>s. d2_from_seed R 3 n s) seeds = Inr ds \<and> length ds = length seeds \<and>
    (\<forall>d\<in>set ds. d2_wf 3 n d)"
proof (induction seeds)
  case (Cons s seeds)
  then show ?case using d2_from_seed_Ok [OF assms, of 3 s] by auto
qed simp

lemma d2_push_wf: "d2_wf k n d \<Longrightarrow> ba_sized n a \<Longrightarrow> d2_wf (Suc k) n (d2_push d a)"
  by (simp add: d2_wf_def d2_push_def)

lemma d2_with_mut_array_Ok:
  "i < length (d2_arrays d) \<Longrightarrow> f (d2_arrays d ! i) = Inr a \<Longrightarrow>
     d2_with_mut_array d i f = Inr (d\<lparr>d2_arrays := (d2_arrays d)[i := a]\<rparr>)"
  by (simp add: d2_with_mut_array_def index_def)

lemma d2_wf_update: "d2_wf k n d \<Longrightarrow> ba_sized n a \<Longrightarrow> d2_wf k n (d\<lparr>d2_arrays := (d2_arrays d)[i := a]\<rparr>)"
  using set_update_subset_insert [of "d2_arrays d" i a] by (auto simp: d2_wf_def list_all_iff)

text \<open>What the dealer stores, given the shares of the other parties.\<close>

lemma dealer_triples:
  assumes wf: "d2_wf 3 n dt" and others: "\<forall>d\<in>set ds. d2_wf 3 n d"
    and zero: "d2_arrays dt ! 2 = ba_make n (\<lambda>_. False)"
    and c: "c = ba_make n (\<lambda>i. (triple_sum (dt # ds) 0 i \<and> triple_sum (dt # ds) 1 i) \<noteq> triple_sum ds 2 i)"
  shows "triples_ok (dt\<lparr>d2_arrays := (d2_arrays dt)[2 := c]\<rparr> # ds)"
  unfolding triples_ok_def
proof
  fix i
  let ?dealer = "dt\<lparr>d2_arrays := (d2_arrays dt)[2 := c]\<rparr>"
  have len: "length (d2_arrays dt) = 3" using wf by (simp add: d2_wf_def)
  have all: "\<forall>d\<in>set (?dealer # ds). d2_wf 3 n d"
    using wf others c d2_wf_update [OF wf, of c 2] by auto
  show "triple_sum (?dealer # ds) 2 i = (triple_sum (?dealer # ds) 0 i \<and> triple_sum (?dealer # ds) 1 i)"
  proof (cases "i < cap n")
    case True
    then show ?thesis by (auto simp: triple_sum_def c len)
  next
    case False
    then have "\<not> triple_sum (?dealer # ds) j i" if "j < 3" for j
      using triple_sum_beyond [OF all] that by simp
    then show ?thesis by simp
  qed
qed

lemma bp_generate_as_dealer_Ok:
  assumes "rng_ok R" "0 < n" "seeds \<noteq> []"
  shows "\<exists>dealer ds. bp_generate_as_dealer R bp n seed seeds = Inr (bp\<lparr>bp_beaver_storage := Some dealer\<rparr>) \<and>
    rmap (\<lambda>s. d2_from_seed R 3 n s) seeds = Inr ds \<and> (\<forall>d\<in>set (dealer # ds). d2_wf 3 n d) \<and>
    triples_ok (dealer # ds)"
proof -
  obtain ds where ds: "rmap (\<lambda>s. d2_from_seed R 3 n s) seeds = Inr ds" "length ds = length seeds"
      "\<forall>d\<in>set ds. d2_wf 3 n d"
    using seeds_Ok [OF assms(1,2)] by blast
  obtain d0 where d0: "d2_from_seed R 2 n seed = Inr d0" "d2_wf 2 n d0"
    using d2_from_seed_Ok [OF assms(1,2)] by blast
  define dt where "dt = d2_push d0 (ba_make n (\<lambda>_. False))"
  have dt: "d2_wf 3 n dt" "d2_arrays dt ! 2 = ba_make n (\<lambda>_. False)"
    using d0(2) d2_push_wf [OF d0(2), of "ba_make n (\<lambda>_. False)"]
    by (simp_all add: dt_def d2_push_def d2_wf_def nth_append numeral_3_eq_3)
  define rc where "rc = d2_make 3 n (\<lambda>j i. triple_sum (dt # ds) j i)"
  have "ds \<noteq> []" using ds(2) assms(3) by auto
  then have rec: "d2_inplace_reconstruct dt ds = Inr rc"
    using d2_inplace_reconstruct_Ok [OF dt(1), of ds] ds(3)
    by (simp add: list_all_iff rc_def triple_sum_def)
  define c where "c = ba_make n (\<lambda>i. (triple_sum (dt # ds) 0 i \<and> triple_sum (dt # ds) 1 i) \<noteq> triple_sum ds 2 i)"
  have lens: "length (d2_arrays rc) = 3" "length (d2_arrays dt) = 3"
    using dt(1) by (simp_all add: rc_def d2_wf_def)
  have sum2: "triple_sum (dt # ds) 2 i = triple_sum ds 2 i" for i
    by (simp add: triple_sum_def dt(2))
  have body: "rbind (d2_get_array rc 0) (\<lambda>a. rbind (d2_get_array rc 1) (\<lambda>b.
       rbind (ba_mut_and (d2_arrays dt ! 2) a b) (\<lambda>c.
       rbind (d2_get_array rc 2) (\<lambda>r. ba_inplace_xor c r)))) = Inr c"
    by (auto simp: d2_get_array_Ok lens dt(2) rc_def ba_mut_and_Ok ba_inplace_xor_Ok c_def sum2
        intro!: ba_make_cong)
  have "bp_generate_as_dealer R bp n seed seeds
      = Inr (bp\<lparr>bp_beaver_storage := Some (dt\<lparr>d2_arrays := (d2_arrays dt)[2 := c]\<rparr>)\<rparr>)"
    using assms(2) body d2_clone_Ok [OF dt(1) assms(2)]
    by (simp add: bp_generate_as_dealer_def d0 ba_new_Ok ds(1) rec d2_with_mut_array_Ok lens
        flip: dt_def)
  moreover have "triples_ok (dt\<lparr>d2_arrays := (d2_arrays dt)[2 := c]\<rparr> # ds)"
    by (rule dealer_triples [OF dt(1) ds(3) dt(2) c_def])
  moreover have "\<forall>d\<in>set (dt\<lparr>d2_arrays := (d2_arrays dt)[2 := c]\<rparr> # ds). d2_wf 3 n d"
    using ds(3) d2_wf_update [OF dt(1), of c 2] by (simp add: c_def)
  ultimately show ?thesis using ds(1) by blast
qed

section \<open>Taking triplets\<close>

definition bp_initialised :: "beaver_provider \<Rightarrow> bool" where
  "bp_initialised bp \<longleftrightarrow> bp_beaver_storage bp \<noteq> None"

definition bp_wf :: "beaver_provider \<Rightarrow> bool" where
  "bp_wf bp \<longleftrightarrow> (\<exists>d n. bp_beaver_storage bp = Some d \<and> d2_wf 3 n d)"

definition bp_total :: "beaver_provider \<Rightarrow> nat" where
  "bp_total bp = (case bp_beaver_storage bp of None \<Rightarrow> 0 | Some d \<Rightarrow> d2_inner_byte_size d)"

text \<open>\<open>len\<close> bytes of the triplets of a matrix from byte \<open>st\<close> on.\<close>

definition d2_block :: "d2bitarray \<Rightarrow> nat \<Rightarrow> nat \<Rightarrow> d2bitarray" where
  "d2_block d st len = d2_make 3 (8 * len) (\<lambda>j i. i < 8 * len \<and> mbit (d2_arrays d ! j) (8 * st + i))"

definition bp_block :: "beaver_provider \<Rightarrow> nat \<Rightarrow> nat \<Rightarrow> d2bitarray" where
  "bp_block bp st len = d2_block (the (bp_beaver_storage bp)) st len"

lemma d2_inner_byte_size_wf: "d2_wf (Suc k) n d \<Longrightarrow> d2_inner_byte_size d = div_ceil n 8"
  using d2_wf_nth [of "Suc k" n d 0] by (auto simp: d2_inner_byte_size_def ba_wf_def d2_wf_def)

lemma bp_take_next:
  assumes "bp_beaver_storage bp = Some d" "d2_wf 3 n d" "bp_used bp + len \<le> div_ceil n 8"
  shows "bp_take bp len = Inr (d2_block d (bp_used bp) len, bp\<lparr>bp_used := bp_used bp + len\<rparr>)"
proof -
  have "d2_inner_byte_size d = div_ceil n 8"
    using assms(2) d2_inner_byte_size_wf [of 2 n d] by simp
  then show ?thesis
    using assms by (simp add: bp_take_def d2_to_slice_Ok d2_block_def)
qed

interpretation beaver: preproc_provider bp_initialised bp_wf bp_total bp_used bp_block bp_take
proof
  show "bp_take s n = Inl NoneUnwrapped" if "\<not> bp_initialised s" for s n
    using that by (simp add: bp_take_def bp_initialised_def)
  show "bp_take s n = Inl AssertionFailed" if "bp_initialised s" "bp_total s < bp_used s + n" for s n
    using that by (auto simp: bp_take_def bp_initialised_def bp_total_def)
  show "\<exists>s'. bp_take s n = Inr (bp_block s (bp_used s) n, s') \<and> bp_wf s' \<and> bp_used s' = bp_used s + n \<and>
      bp_total s' = bp_total s \<and> bp_block s' = bp_block s"
    if wf: "bp_wf s" and le: "bp_used s + n \<le> bp_total s" for s n
  proof -
    from wf obtain d k where d: "bp_beaver_storage s = Some d" "d2_wf 3 k d" by (auto simp: bp_wf_def)
    then have "bp_used s + n \<le> div_ceil k 8"
      using le d2_inner_byte_size_wf [of 2 k d] by (simp add: bp_total_def)
    from bp_take_next [OF d this] d show ?thesis
      by (auto simp: bp_block_def bp_wf_def bp_total_def fun_eq_iff)
  qed
qed (auto simp: bp_wf_def bp_initialised_def)

text \<open>Blocks taken at the same place by all parties are shares of triplets again.\<close>

lemma triples_ok_block:
  assumes "triples_ok ds" "\<forall>d\<in>set ds. d2_wf 3 n d"
  shows "triples_ok (map (\<lambda>d. d2_block d st len) ds)"
proof -
  have "triple_sum (map (\<lambda>d. d2_block d st len) ds) j i
      = (i < 8 * len \<and> triple_sum ds j (8 * st + i))" if "j < 3" for j i
    using that cap_ge [of "8 * len"]
    by (auto simp: triple_sum_def d2_block_def comp_def xors_map_and)
  then show ?thesis using assms(1) by (auto simp: triples_ok_def)
qed

lemma rscan_bp_take:
  "rscan bp_take bp sizes = Inr (outs, bp') \<Longrightarrow> bp' = bp\<lparr>bp_used := bp_used bp + sum_list sizes\<rparr>"
proof (induction sizes arbitrary: bp outs)
  case (Cons n sizes)
  then obtain d bp1 outs' where "bp_take bp n = Inr (d, bp1)" "rscan bp_take bp1 sizes = Inr (outs', bp')"
    by (auto simp: rbind_eq_Ok split: prod.splits)
  with Cons.IH [OF this(2)] show ?case
    by (auto simp: bp_take_def rbind_eq_Ok add.assoc)
qed simp

text \<open>What a party hands out for a sequence of requests, from its storage.\<close>

lemma bp_take_run:
  assumes "bp_beaver_storage bp = Some d" "d2_wf 3 n d" "bp_used bp + sum_list sizes \<le> div_ceil n 8"
  shows "rscan bp_take bp sizes
    = Inr (map (\<lambda>k. d2_block d (bp_used bp + sum_list (take k sizes)) (sizes ! k)) [0..<length sizes],
        bp\<lparr>bp_used := bp_used bp + sum_list sizes\<rparr>)"
proof -
  have "bp_wf bp" "bp_total bp = div_ceil n 8"
    using assms d2_inner_byte_size_wf [of 2 n d] by (auto simp: bp_wf_def bp_total_def)
  with beaver.take_run [of bp sizes] assms obtain bp' where run: "rscan bp_take bp sizes
      = Inr (map (\<lambda>k. d2_block d (bp_used bp + sum_list (take k sizes)) (sizes ! k)) [0..<length sizes], bp')"
    by (auto simp: bp_block_def)
  with rscan_bp_take [OF run] show ?thesis by simp
qed

section \<open>Properties\<close>

text \<open>C25. The triplets of a dealer and of the parties that expand their shares from the seeds the
  dealer was given multiply: after any common sequence of requests that fits the storage, every
  party has a block of the requested size for each request, and in each block the exclusive-or of
  the shares of \<open>c\<close> is the conjunction of those of \<open>a\<close> and \<open>b\<close>, at every bit.\<close>

theorem beaver_blocks_multiply:
  assumes "rng_ok R" and "0 < bit_num" and "other_seeds \<noteq> []" and "sum_list sizes \<le> div_ceil bit_num 8"
  shows "\<exists>dealer others outs. bp_generate_as_dealer R bp_new bit_num seed other_seeds = Inr dealer \<and>
    rmap (bp_generate_with_seed R bp_new bit_num) other_seeds = Inr others \<and>
    rmap (\<lambda>bp. rscan bp_take bp sizes) (dealer # others) = Inr outs \<and>
    (\<forall>k<length sizes. triples_ok (map (\<lambda>(blocks, _). blocks ! k) outs) \<and>
      (\<forall>(blocks, _)\<in>set outs. d2_wf 3 (8 * sizes ! k) (blocks ! k)))"
proof -
  obtain dealer ds where d:
      "bp_generate_as_dealer R bp_new bit_num seed other_seeds = Inr (bp_new\<lparr>bp_beaver_storage := Some dealer\<rparr>)"
      "rmap (\<lambda>s. d2_from_seed R 3 bit_num s) other_seeds = Inr ds"
      "\<forall>d\<in>set (dealer # ds). d2_wf 3 bit_num d" "triples_ok (dealer # ds)"
    using bp_generate_as_dealer_Ok [OF assms(1-3), of bp_new seed] by blast
  let ?bp = "\<lambda>d. bp_new\<lparr>bp_beaver_storage := Some d\<rparr>"
  have "rmap (bp_generate_with_seed R bp_new bit_num) other_seeds = Inr (map ?bp ds)"
    using d(2) by (induction other_seeds arbitrary: ds) (auto simp: rbind_eq_Ok bp_generate_with_seed_def)
  moreover
  let ?blocks = "\<lambda>d. map (\<lambda>k. d2_block d (sum_list (take k sizes)) (sizes ! k)) [0..<length sizes]"
  let ?out = "\<lambda>d. (?blocks d, (?bp d)\<lparr>bp_used := sum_list sizes\<rparr>)"
  have run: "rscan bp_take (?bp d) sizes = Inr (?out d)" if "d \<in> set (dealer # ds)" for d
    using bp_take_run [of "?bp d" d bit_num sizes] that d(3) assms(4) by (auto simp: bp_new_def)
  have "rmap (\<lambda>bp. rscan bp_take bp sizes) (map ?bp (dealer # ds)) = Inr (map ?out (dealer # ds))"
    using run by (simp add: rmap_map rmap_Ok [of ds _ ?out])
  moreover have "triples_ok (map (\<lambda>(blocks, _). blocks ! k) (map ?out (dealer # ds)))" if "k < length sizes" for k
    using triples_ok_block [OF d(4,3), of "sum_list (take k sizes)" "sizes ! k"] that
    by (simp add: comp_def)
  moreover have "\<forall>(blocks, _)\<in>set (map ?out (dealer # ds)). d2_wf 3 (8 * sizes ! k) (blocks ! k)"
    if "k < length sizes" for k
    using that by (auto simp: d2_block_def)
  ultimately show ?thesis using d(1)
    by (intro exI [of _ "?bp dealer"] exI [of _ "map ?bp ds"] exI [of _ "map ?out (dealer # ds)"]) simp
qed

text \<open>Three parties, 40 bits, requests of two bytes and of one byte.\<close>

theorem beaver_blocks_multiply_witness:
  "\<exists>dealer others outs. bp_generate_as_dealer counter_rng bp_new 40 [1] [[2], [3]] = Inr dealer \<and>
    rmap (bp_generate_with_seed counter_rng bp_new 40) [[2], [3]] = Inr others \<and>
    rmap (\<lambda>bp. rscan bp_take bp [2, 1]) (dealer # others) = Inr outs \<and>
    (\<forall>k<length [2, 1 :: nat]. triples_ok (map (\<lambda>(blocks, _). blocks ! k) outs) \<and>
      (\<forall>(blocks, _)\<in>set outs. d2_wf 3 (8 * [2, 1] ! k) (blocks ! k)))"
  by (rule beaver_blocks_multiply) (simp_all add: rng_ok_counter div_ceil_def)

text \<open>Taking triplets never hands out a bit twice and never reads beyond the storage: a sequence
  of requests gets consecutive blocks of the storage, starting where the last one ended, exactly
  when it fits into what is left, and stops with the assertion otherwise; a provider that was
  never filled refuses every request.\<close>

lemma bp_take_consecutive:
  assumes "bp_wf bp" and "bp_used bp \<le> bp_total bp"
  shows "rscan bp_take bp sizes =
      (if bp_used bp + sum_list sizes \<le> bp_total bp
       then Inr (map (\<lambda>k. bp_block bp (bp_used bp + sum_list (take k sizes)) (sizes ! k)) [0..<length sizes],
                 bp\<lparr>bp_used := bp_used bp + sum_list sizes\<rparr>)
       else Inl AssertionFailed) \<and>
    bp_take bp_new n = Inl NoneUnwrapped"
proof -
  have "bp_take bp_new n = Inl NoneUnwrapped"
    by (rule beaver.take_empty) (simp add: bp_initialised_def bp_new_def)
  moreover have "rscan bp_take bp sizes = Inl AssertionFailed" if "\<not> bp_used bp + sum_list sizes \<le> bp_total bp"
    using beaver.take_exhausts [OF assms, of sizes] that by simp
  ultimately show ?thesis
    using beaver.take_run [OF assms(1), of sizes] rscan_bp_take by auto
qed

end
