(* ===== verification/Sharing.thy ===== *)
theory Sharing
  imports PRC_Prelude
begin

unbundle bit_operations_syntax

text \<open>
  \<open>src/cor_rnd/sharing.rs\<close>: arithmetic values modulo \<open>2^32\<close> and over the scalars of
  the commitment group, and Boolean values of a bit length. A share list and its
  reconstruction are the interface \<open>sharing_scheme\<close>, which the Boolean, the arithmetic and
  the daBit shares provide.
\<close>

section \<open>Arithmetic values\<close>

record 'v arith_value =
  av_value :: 'v

subsection \<open>ArithValue over u32\<close>

definition av32_zero :: "u32 arith_value" where
  "av32_zero = \<lparr>av_value = 0\<rparr>"

definition av32_from_u32 :: "u32 \<Rightarrow> u32 arith_value" where
  "av32_from_u32 v = \<lparr>av_value = v\<rparr>"

definition av32_random :: "'r rng_ops \<Rightarrow> 'r \<Rightarrow> u32 arith_value \<times> 'r" where
  "av32_random R rng = (let (v, rng) = rng_next_u32 R rng in (\<lparr>av_value = v\<rparr>, rng))"

definition av32_as_u32 :: "u32 arith_value \<Rightarrow> u32" where
  "av32_as_u32 a = av_value a"

definition av32_add :: "u32 arith_value \<Rightarrow> u32 arith_value \<Rightarrow> u32 arith_value" where
  "av32_add a b = a\<lparr>av_value := av_value a + av_value b\<rparr>"

definition av32_sub :: "u32 arith_value \<Rightarrow> u32 arith_value \<Rightarrow> u32 arith_value" where
  "av32_sub a b = a\<lparr>av_value := av_value a - av_value b\<rparr>"

definition av32_mul :: "u32 arith_value \<Rightarrow> u32 arith_value \<Rightarrow> u32 arith_value" where
  "av32_mul a b = a\<lparr>av_value := av_value a * av_value b\<rparr>"

subsection \<open>ArithValue over scalars\<close>

text \<open>
  The scalars come from \<open>curve25519-dalek\<close>: a commutative ring (a type parameter), the
  embedding of \<open>u32\<close>, uniform sampling, and the canonical little-endian encoding.
\<close>

record ('s, 'r) scalar_ops =
  sc_from_u32 :: "u32 \<Rightarrow> 's"
  sc_random :: "'r \<Rightarrow> 's \<times> 'r"
  sc_to_bytes :: "'s \<Rightarrow> u8 list"

definition scalar_from_ok :: "('s::comm_ring_1, 'r) scalar_ops \<Rightarrow> bool" where
  "scalar_from_ok S \<longleftrightarrow> (\<forall>v. sc_from_u32 S v = of_nat (unat v))"

definition scalar_bytes_ok :: "('s::comm_ring_1, 'r) scalar_ops \<Rightarrow> bool" where
  "scalar_bytes_ok S \<longleftrightarrow>
     (\<forall>x. length (sc_to_bytes S x) = 32) \<and>
     (\<forall>v :: u32. sc_to_bytes S (of_nat (unat v)) = to_le_bytes 4 v @ replicate 28 0)"

definition av_zero :: "'s::comm_ring_1 arith_value" where
  "av_zero = \<lparr>av_value = 0\<rparr>"

definition av_from_u32 :: "('s::comm_ring_1, 'r) scalar_ops \<Rightarrow> u32 \<Rightarrow> 's arith_value" where
  "av_from_u32 S v = \<lparr>av_value = sc_from_u32 S v\<rparr>"

definition av_random :: "('s::comm_ring_1, 'r) scalar_ops \<Rightarrow> 'r \<Rightarrow> 's arith_value \<times> 'r" where
  "av_random S rng = (let (v, rng) = sc_random S rng in (\<lparr>av_value = v\<rparr>, rng))"

definition av_as_u32 :: "('s::comm_ring_1, 'r) scalar_ops \<Rightarrow> 's arith_value \<Rightarrow> u32 res" where
  "av_as_u32 S a =
     (let bytes = sc_to_bytes S (av_value a) in
      rbind (slice bytes 0 4) (\<lambda>low.
      rbind (slice bytes 4 (length bytes)) (\<lambda>high.
      rbind (rassert (list_all (\<lambda>b. b = 0) high) AssertionFailed) (\<lambda>_.
      Ok (from_le_bytes low)))))"

definition av_as_scalar :: "'s::comm_ring_1 arith_value \<Rightarrow> 's" where
  "av_as_scalar a = av_value a"

definition av_add :: "'s::comm_ring_1 arith_value \<Rightarrow> 's arith_value \<Rightarrow> 's arith_value" where
  "av_add a b = a\<lparr>av_value := av_value a + av_value b\<rparr>"

definition av_sub :: "'s::comm_ring_1 arith_value \<Rightarrow> 's arith_value \<Rightarrow> 's arith_value" where
  "av_sub a b = a\<lparr>av_value := av_value a - av_value b\<rparr>"

definition av_mul :: "'s::comm_ring_1 arith_value \<Rightarrow> 's arith_value \<Rightarrow> 's arith_value" where
  "av_mul a b = a\<lparr>av_value := av_value a * av_value b\<rparr>"

section \<open>Boolean values\<close>

text \<open>The bit length is a \<open>u8\<close> in the source; the constructor keeps it at 32 at most.\<close>

record boolean_value =
  bv_bit_len :: nat
  bv_value :: u32

definition bv_new :: "nat \<Rightarrow> u32 \<Rightarrow> boolean_value res" where
  "bv_new bit_len value =
     (if bit_len > 32 then Panic ExplicitPanic
      else if bit_len < 32 \<and> push_bit bit_len 1 \<le> value then Panic ExplicitPanic
      else Ok \<lparr>bv_bit_len = bit_len, bv_value = value\<rparr>)"

definition join_boolean :: "profile \<Rightarrow> boolean_value \<Rightarrow> boolean_value \<Rightarrow> boolean_value res" where
  "join_boolean P lower higher =
     rbind (shl_u32 P (bv_value higher) (bv_bit_len lower)) (\<lambda>h.
     bv_new (bv_bit_len lower + bv_bit_len higher) (h OR bv_value lower))"

definition bv_wf :: "boolean_value \<Rightarrow> bool" where
  "bv_wf b \<longleftrightarrow> bv_bit_len b \<le> 32 \<and> unat (bv_value b) < 2 ^ bv_bit_len b"

section \<open>Lemmas\<close>

lemmas av_defs = av_zero_def av_add_def av_sub_def av_mul_def av_from_u32_def av_as_scalar_def

lemma av_sel [simp]:
  "av_value (av_add a b) = av_value a + av_value b"
  "av_value (av_sub a b) = av_value a - av_value b"
  "av_value (av_mul a b) = av_value a * av_value b"
  "av_value av_zero = 0"
  "av_as_scalar a = av_value a"
  by (simp_all add: av_defs)

lemma av_value_from_u32 [simp]: "scalar_from_ok S \<Longrightarrow> av_value (av_from_u32 S v) = of_nat (unat v)"
  by (simp add: av_from_u32_def scalar_from_ok_def)

lemma av_eqI: "av_value a = av_value b \<Longrightarrow> a = b" for a b :: "'s arith_value"
  by simp

lemma push_bit_1_le_iff: "n < 32 \<Longrightarrow> push_bit n 1 \<le> v \<longleftrightarrow> 2 ^ n \<le> unat v" for v :: u32
  by (simp add: word_le_nat_alt unat_exp_u32 del: push_bit_of_1)

lemma exp_le_iff: "n < 32 \<Longrightarrow> 2 ^ n \<le> v \<longleftrightarrow> 2 ^ n \<le> unat v" for v :: u32
  using push_bit_1_le_iff [of n v] by simp

lemma bv_new_eq:
  "bv_new n v = (if n \<le> 32 \<and> unat v < 2 ^ n then Inr \<lparr>bv_bit_len = n, bv_value = v\<rparr> else Inl ExplicitPanic)"
proof (cases "n = 32")
  case True
  then show ?thesis using unat_u32_less [of v] by (simp add: bv_new_def)
next
  case False
  then show ?thesis by (auto simp: bv_new_def exp_le_iff not_le [symmetric])
qed

lemma bv_new_wf: "bv_new n v = Inr b \<Longrightarrow> bv_wf b \<and> bv_bit_len b = n \<and> bv_value b = v"
  by (auto simp: bv_new_eq bv_wf_def split: if_splits)

lemma unat_bit_bound: "unat (v :: u32) < 2 ^ n \<longleftrightarrow> (\<forall>i\<ge>n. \<not> bit v i)"
proof -
  have "unat v < 2 ^ n \<longleftrightarrow> take_bit n (unat v) = unat v"
    by (simp add: take_bit_nat_eq_self_iff)
  also have "\<dots> \<longleftrightarrow> (\<forall>i\<ge>n. \<not> bit (unat v) i)"
    by (auto simp: bit_eq_iff bit_take_bit_iff not_less [symmetric])
  also have "\<dots> \<longleftrightarrow> (\<forall>i\<ge>n. \<not> bit v i)"
    by (simp add: bit_unsigned_iff)
  finally show ?thesis .
qed

text \<open>Joining places the higher value above the lower one.\<close>

lemma bit_join:
  "bit (push_bit k h OR l) i \<longleftrightarrow> i < 32 \<and> (k \<le> i \<and> bit h (i - k) \<or> bit l i)" for h l :: u32
  using bit_imp_le_length [of l i] by (auto simp: bit_or_iff bit_push_bit_iff)

lemma unat_join:
  assumes "unat (l :: u32) < 2 ^ k" "unat (h :: u32) < 2 ^ m" "k + m \<le> 32"
  shows "unat (push_bit k h OR l) = unat l + 2 ^ k * unat h"
proof -
  have small: "2 ^ k * unat h < 2 ^ 32"
  proof -
    have "2 ^ k * unat h < 2 ^ k * 2 ^ m" using assms(2) by simp
    also have "\<dots> \<le> 2 ^ 32" using pow_le_u32 [OF assms(3)] by (simp add: power_add)
    finally show ?thesis .
  qed
  have "push_bit k h AND l = 0"
    using assms(1) by (auto simp: bit_eq_iff bit_and_iff bit_push_bit_iff unat_bit_bound)
  then have "push_bit k h OR l = push_bit k h + l"
    by (simp add: disjunctive_add_eq_or)
  moreover have ph: "unat (push_bit k h) = 2 ^ k * unat h"
    using small by (simp add: unat_push_bit_u32)
  moreover have "unat (push_bit k h) + unat l < 2 ^ 32"
  proof -
    have "2 ^ k * unat h + unat l < 2 ^ k * (unat h + 1)" using assms(1) by simp
    also have "\<dots> \<le> 2 ^ k * 2 ^ m" using assms(2) by (intro mult_left_mono) simp_all
    also have "\<dots> \<le> 2 ^ 32" using pow_le_u32 [OF assms(3)] by (simp add: power_add)
    finally show ?thesis by (simp add: ph)
  qed
  ultimately show ?thesis by (simp add: unat_word_ariths)
qed

lemma join_boolean_Ok:
  assumes "bv_wf l" "bv_wf h" "bv_bit_len l < 32" "bv_bit_len l + bv_bit_len h \<le> 32"
  shows "join_boolean P l h = Inr \<lparr>bv_bit_len = bv_bit_len l + bv_bit_len h,
    bv_value = push_bit (bv_bit_len l) (bv_value h) OR bv_value l\<rparr>"
proof -
  let ?v = "push_bit (bv_bit_len l) (bv_value h) OR bv_value l"
  have "unat ?v = unat (bv_value l) + 2 ^ bv_bit_len l * unat (bv_value h)"
    using assms by (intro unat_join) (simp_all add: bv_wf_def)
  also have "\<dots> < 2 ^ bv_bit_len l * (unat (bv_value h) + 1)"
    using assms(1) by (simp add: bv_wf_def)
  also have "\<dots> \<le> 2 ^ bv_bit_len l * 2 ^ bv_bit_len h"
    using assms(2) by (intro mult_left_mono) (simp_all add: bv_wf_def)
  finally show ?thesis
    using assms by (simp add: join_boolean_def bv_new_eq power_add)
qed

section \<open>Scalars for concrete runs\<close>

text \<open>Integers modulo \<open>2^256\<close> have the encoding and the embedding the code relies on.\<close>

definition ring256_scalars :: "(256 word, nat) scalar_ops" where
  "ring256_scalars = \<lparr>sc_from_u32 = (\<lambda>v. ucast v), sc_random = (\<lambda>s. (of_nat (s * s + 5), s + 7)),
     sc_to_bytes = to_le_bytes 32\<rparr>"

lemma scalar_from_ok_word: "scalar_from_ok ring256_scalars"
  by (simp add: scalar_from_ok_def ring256_scalars_def)

lemma to_le_bytes_ucast:
  "to_le_bytes 32 (ucast v :: 256 word) = to_le_bytes 4 v @ replicate 28 0" for v :: u32
proof (rule nth_equalityI)
  fix k
  assume "k < length (to_le_bytes 32 (ucast v :: 256 word))"
  then have k: "k < 32" by simp
  show "to_le_bytes 32 (ucast v :: 256 word) ! k = (to_le_bytes 4 v @ replicate 28 0) ! k"
  proof (rule bit_word_eqI)
    fix i
    assume i: "i < LENGTH(8)"
    have "bit v (8 * k + i) \<Longrightarrow> 8 * k + i < 32" using bit_imp_le_length [of v] by simp
    with k i show "bit (to_le_bytes 32 (ucast v :: 256 word) ! k) i
        = bit ((to_le_bytes 4 v @ replicate 28 0) ! k) i"
      by (auto simp: to_le_bytes_def nth_append bit_ucast_iff bit_drop_bit_eq)
  qed
qed simp

lemma scalar_bytes_ok_word: "scalar_bytes_ok ring256_scalars"
  by (simp add: scalar_bytes_ok_def ring256_scalars_def to_le_bytes_ucast)

section \<open>Share lists\<close>

text \<open>
  The interface of a sharing: combining and removing a share, with a neutral value. All
  but the last share are random masks and the last one is what remains of the value, as
  every \<open>secret_share\<close> function of the crate computes it; combining all of them gives the
  value back, in any order.
\<close>

locale sharing_scheme =
  fixes zero :: 'v and comb :: "'v \<Rightarrow> 'v \<Rightarrow> 'v" and remove :: "'v \<Rightarrow> 'v \<Rightarrow> 'v"
  assumes comb_assoc: "comb (comb x y) z = comb x (comb y z)"
    and comb_comm: "comb x y = comb y x"
    and comb_zero: "comb zero x = x"
    and comb_remove: "comb (remove x y) y = x"
begin

lemma foldl_comb: "foldl comb (comb x y) ss = comb x (foldl comb y ss)"
  by (induction ss arbitrary: y) (simp_all add: comb_assoc)

lemma comb_foldl_remove: "comb (foldl remove x ss) (foldl comb zero ss) = x"
proof (induction ss arbitrary: x)
  case Nil
  then show ?case using comb_comm comb_zero by simp
next
  case (Cons s ss)
  have "foldl comb zero (s # ss) = comb s (foldl comb zero ss)"
    using foldl_comb [of s zero ss] comb_comm by (simp add: comb_zero)
  then have "comb (foldl remove x (s # ss)) (foldl comb zero (s # ss))
      = comb (comb (foldl remove (remove x s) ss) (foldl comb zero ss)) s"
    using comb_comm comb_assoc by (metis foldl_Cons)
  then show ?case by (simp add: Cons.IH comb_remove)
qed

theorem reconstruct_shares: "foldl comb zero (ss @ [foldl remove x ss]) = x"
  using comb_foldl_remove comb_comm by simp

lemma foldl_comb_mset: "mset ss = mset ts \<Longrightarrow> foldl comb x ss = foldl comb x ts"
proof (induction ss arbitrary: ts x)
  case Nil
  then show ?case by simp
next
  case (Cons s ss)
  then have "s \<in> set ts" by (metis list.set_intros(1) mset_eq_setD)
  then obtain us vs where ts: "ts = us @ s # vs" by (meson split_list)
  with Cons.prems have "mset ss = mset (us @ vs)" by simp
  then have "foldl comb (comb x s) ss = foldl comb (comb x s) (us @ vs)" by (rule Cons.IH)
  also have "\<dots> = foldl comb x ts"
    using foldl_comb [of s x us] comb_comm by (simp add: ts)
  finally show ?case by simp
qed

end

interpretation xor_u32: sharing_scheme "0 :: u32" "(XOR)" "(XOR)"
  by unfold_locales (simp_all add: xor.assoc xor.commute xor.left_commute)

interpretation arith: sharing_scheme "av_zero :: 's::comm_ring_1 arith_value" av_add av_sub
  by unfold_locales (auto intro!: av_eqI simp: algebra_simps)

interpretation arith_u32: sharing_scheme av32_zero av32_add av32_sub
  by unfold_locales (simp_all add: av32_zero_def av32_add_def av32_sub_def)

section \<open>Shared words\<close>

definition xor_of :: "nat \<Rightarrow> (nat \<Rightarrow> u32) \<Rightarrow> u32" where
  "xor_of n v = foldr (XOR) (map v [0..<n]) 0"

lemma bit_foldr_xor: "bit (foldr (XOR) ws 0) i = xors (map (\<lambda>w. bit w i) ws)" for ws :: "u32 list"
  by (induction ws) (simp_all add: bit_xor_iff)

lemma bit_xor_of: "bit (xor_of n v) i = xors (map (\<lambda>p. bit (v p) i) [0..<n])"
  by (simp add: xor_of_def bit_foldr_xor comp_def)

lemma xor_of_take: "xor_of n (\<lambda>p. take_bit l (v p)) = take_bit l (xor_of n v)"
  by (rule bit_word_eqI) (simp add: bit_xor_of bit_take_bit_iff xors_map_and)

lemma xor_of_drop: "xor_of n (\<lambda>p. drop_bit l (v p)) = drop_bit l (xor_of n v)"
  by (rule bit_word_eqI) (simp add: bit_xor_of bit_drop_bit_eq)

lemma xor_of_bound:
  assumes "\<And>p. p < n \<Longrightarrow> unat (v p) < 2 ^ l"
  shows "unat (xor_of n v) < 2 ^ l"
  using assms unfolding unat_bit_bound bit_xor_of by (auto intro!: xors_all_False)

lemma and_mask_u32: "l < 32 \<Longrightarrow> v AND (push_bit l 1 - 1) = take_bit l v" for v :: u32
  by (simp add: take_bit_eq_mask mask_eq_exp_minus_1)

lemma unat_take_drop:
  "unat (take_bit l v) = unat v mod 2 ^ l" "unat (drop_bit l v) = unat v div 2 ^ l" for v :: u32
proof -
  show "unat (take_bit l v) = unat v mod 2 ^ l"
    by (simp only: unsigned_take_bit_eq) (simp add: take_bit_eq_mod)
  have "unat (drop_bit l v) = drop_bit l (unat v)"
    by (rule bit_eqI) (auto simp: bit_unsigned_iff bit_drop_bit_eq dest: bit_imp_le_length)
  then show "unat (drop_bit l v) = unat v div 2 ^ l" by (simp only: drop_bit_eq_div)
qed

text \<open>Shares of a number of \<open>b\<close> bits.\<close>

definition bv_shares :: "nat \<Rightarrow> nat \<Rightarrow> (nat \<Rightarrow> boolean_value) \<Rightarrow> u32 \<Rightarrow> bool" where
  "bv_shares n b bv x \<longleftrightarrow> (\<forall>p<n. bv_bit_len (bv p) = b \<and> unat (bv_value (bv p)) < 2 ^ b) \<and>
     xor_of n (\<lambda>p. bv_value (bv p)) = x"

lemma bv_shares_cong:
  assumes "\<And>p. p < n \<Longrightarrow> bv p = bv' p" "bv_shares n b bv x"
  shows "bv_shares n b bv' x"
proof -
  have "map (\<lambda>p. bv_value (bv p)) [0..<n] = map (\<lambda>p. bv_value (bv' p)) [0..<n]" using assms(1) by simp
  then show ?thesis using assms unfolding bv_shares_def xor_of_def by metis
qed

end
