(* ===== verification/Commitment.thy ===== *)
theory Commitment
  imports Sharing
begin

text \<open>
  \<open>src/prc/commitment.rs\<close>: Pedersen commitments to an index and a response with a common
  randomness, their aggregation over the parties, and their encoding. The group and the scalars
  come from \<open>curve25519-dalek\<close>: an additive group and a commutative ring (type parameters) with
  the operations of \<open>group_ops\<close>; \<open>group_ok\<close> and \<open>codec_ok\<close> are what the code relies on.
\<close>

section \<open>The group\<close>

record ('s, 'g) group_ops =
  gr_scale :: "'s \<Rightarrow> 'g \<Rightarrow> 'g"
  gr_basepoint :: 'g
  gr_hash_from_bytes :: "u8 list \<Rightarrow> 'g"
  gr_compress :: "'g \<Rightarrow> u8 list"
  gr_decompress :: "u8 list \<Rightarrow> 'g option"

text \<open>Multiplying a point by a sum of scalars.\<close>

definition group_ok :: "('s::comm_ring_1, 'g::ab_group_add) group_ops \<Rightarrow> bool" where
  "group_ok G \<longleftrightarrow> (\<forall>a b g. gr_scale G (a + b) g = gr_scale G a g + gr_scale G b g)"

text \<open>A compressed point has 32 bytes and decompresses to the point.\<close>

definition codec_ok :: "('s, 'g) group_ops \<Rightarrow> bool" where
  "codec_ok G \<longleftrightarrow> (\<forall>g. length (gr_compress G g) = 32 \<and> gr_decompress G (gr_compress G g) = Some g)"

text \<open>The generators, hashed from their labels.\<close>

definition label :: "string \<Rightarrow> u8 list" where
  "label s = map of_char s"

definition generator :: "('s, 'g) group_ops \<Rightarrow> u8 list \<Rightarrow> 'g" where
  "generator G l = gr_hash_from_bytes G l"

definition G1T_IDX :: "('s, 'g) group_ops \<Rightarrow> 'g" where
  "G1T_IDX G = generator G (label ''g1_prc_index'')"

definition G2T_RESP :: "('s, 'g) group_ops \<Rightarrow> 'g" where
  "G2T_RESP G = generator G (label ''g2_prc_output'')"

section \<open>Openings and commitments\<close>

record 'g commitment =
  com_c :: 'g

record 's opening_vals =
  op_rnd :: 's
  op_idx :: 's
  op_resp :: 's

definition opening_new :: "'s \<Rightarrow> 's \<Rightarrow> 's \<Rightarrow> 's opening_vals" where
  "opening_new rnd idx resp = \<lparr>op_rnd = rnd, op_idx = idx, op_resp = resp\<rparr>"

definition opening_aggregate :: "'s::comm_ring_1 opening_vals list \<Rightarrow> 's opening_vals res" where
  "opening_aggregate openings =
     rbind (index openings 0) (\<lambda>agg_opening.
     Ok (foldl (\<lambda>agg op. \<lparr>op_rnd = op_rnd agg + op_rnd op, op_idx = op_idx agg + op_idx op,
                          op_resp = op_resp agg + op_resp op\<rparr>) agg_opening (drop 1 openings)))"

definition commitment_new :: "'g \<Rightarrow> 'g commitment" where
  "commitment_new c = \<lparr>com_c = c\<rparr>"

definition commit :: "('s::comm_ring_1, 'g::ab_group_add) group_ops \<Rightarrow> 's opening_vals \<Rightarrow> 'g commitment" where
  "commit G op =
     \<lparr>com_c = gr_scale G (op_rnd op) (gr_basepoint G) + gr_scale G (op_idx op) (G1T_IDX G)
            + gr_scale G (op_resp op) (G2T_RESP G)\<rparr>"

definition commitment_verify ::
  "('s::comm_ring_1, 'g::ab_group_add) group_ops \<Rightarrow> 'g commitment \<Rightarrow> 's opening_vals \<Rightarrow> bool" where
  "commitment_verify G cm op = (let ground = commit G op in com_c cm = com_c ground)"

definition commitment_aggregate :: "'g::ab_group_add commitment list \<Rightarrow> 'g commitment" where
  "commitment_aggregate commits = \<lparr>com_c = foldl (\<lambda>c cm. c + com_c cm) 0 commits\<rparr>"

definition commitment_serialize :: "('s, 'g) group_ops \<Rightarrow> 'g commitment \<Rightarrow> u8 list" where
  "commitment_serialize G cm = gr_compress G (com_c cm)"

definition commitment_deserialize :: "('s, 'g) group_ops \<Rightarrow> u8 list \<Rightarrow> 'g commitment res" where
  "commitment_deserialize G bytes =
     rbind (slice bytes 0 32) (\<lambda>b.
     rbind (expect (gr_decompress G b)) (\<lambda>c. Ok \<lparr>com_c = c\<rparr>))"

section \<open>Lemmas\<close>

lemma foldl_com_c: "foldl (\<lambda>c cm. c + com_c cm) z cms = z + sum_list (map com_c cms)"
  by (induction cms arbitrary: z) (simp_all add: add.assoc)

lemma commitment_aggregate_sum: "com_c (commitment_aggregate cms) = sum_list (map com_c cms)"
  by (simp add: commitment_aggregate_def foldl_com_c)

lemma commitment_aggregate_mset:
  "mset cms = mset cms' \<Longrightarrow> commitment_aggregate cms = commitment_aggregate cms'"
proof (rule commitment.equality)
  assume "mset cms = mset cms'"
  then have "mset (map com_c cms) = mset (map com_c cms')" by simp
  then show "com_c (commitment_aggregate cms) = com_c (commitment_aggregate cms')"
    unfolding commitment_aggregate_sum sum_mset_sum_list [symmetric] by (rule arg_cong)
qed simp

lemma opening_aggregate_sum:
  "ops \<noteq> [] \<Longrightarrow> opening_aggregate ops = Inr \<lparr>op_rnd = sum_list (map op_rnd ops),
     op_idx = sum_list (map op_idx ops), op_resp = sum_list (map op_resp ops)\<rparr>"
proof -
  assume "ops \<noteq> []"
  then obtain x xs where ops: "ops = x # xs" by (cases ops) auto
  let ?f = "\<lambda>agg op. \<lparr>op_rnd = op_rnd agg + op_rnd op, op_idx = op_idx agg + op_idx op,
                      op_resp = op_resp agg + op_resp op\<rparr>"
  have "foldl ?f y xs = \<lparr>op_rnd = op_rnd y + sum_list (map op_rnd xs),
      op_idx = op_idx y + sum_list (map op_idx xs), op_resp = op_resp y + sum_list (map op_resp xs)\<rparr>" for y
    by (induction xs arbitrary: y) (simp_all add: add.assoc)
  then show ?thesis by (simp add: opening_aggregate_def index_def ops)
qed

lemma gr_scale_0: "group_ok G \<Longrightarrow> gr_scale G 0 g = 0"
  unfolding group_ok_def by (metis add.left_neutral add_cancel_left_left)

lemma gr_scale_sum:
  "group_ok G \<Longrightarrow> gr_scale G (sum_list as) g = sum_list (map (\<lambda>a. gr_scale G a g) as)"
  by (induction as) (auto simp: gr_scale_0 group_ok_def)

text \<open>Committing is additive.\<close>

lemma commit_sum:
  assumes "group_ok G"
  shows "sum_list (map (\<lambda>op. com_c (commit G op)) ops)
    = com_c (commit G \<lparr>op_rnd = sum_list (map op_rnd ops), op_idx = sum_list (map op_idx ops),
        op_resp = sum_list (map op_resp ops)\<rparr>)"
proof (induction ops)
  case Nil
  show ?case by (simp add: commit_def gr_scale_0 [OF assms])
next
  case (Cons op ops)
  then show ?case using assms by (simp add: commit_def group_ok_def algebra_simps)
qed

lemma commitment_codec:
  "codec_ok G \<Longrightarrow> commitment_deserialize G (commitment_serialize G cm @ bs) = Inr cm"
  "codec_ok G \<Longrightarrow> length (commitment_serialize G cm) = 32"
  by (cases cm; simp add: commitment_deserialize_def commitment_serialize_def slice_def codec_ok_def)+

section \<open>Properties\<close>

text \<open>C23. Commitments aggregate like their openings: adding up the commitments the parties made to their
  own openings, in whatever order they arrive, gives the commitment to the aggregated opening, so
  it verifies against that opening.\<close>

theorem aggregate_verifies:
  assumes "group_ok G" and "ops \<noteq> []" and "mset received = mset (map (commit G) ops)"
  shows "\<exists>op. opening_aggregate ops = Inr op \<and> commitment_aggregate received = commit G op \<and>
    commitment_verify G (commitment_aggregate received) op"
proof -
  let ?op = "\<lparr>op_rnd = sum_list (map op_rnd ops), op_idx = sum_list (map op_idx ops),
        op_resp = sum_list (map op_resp ops)\<rparr>"
  have "com_c (commitment_aggregate received) = com_c (commit G ?op)"
    using commitment_aggregate_mset [OF assms(3)] commit_sum [OF assms(1), of ops]
    by (simp add: commitment_aggregate_sum comp_def)
  then have "commitment_aggregate received = commit G ?op" by simp
  then show ?thesis
    using opening_aggregate_sum [OF assms(2)] by (simp add: commitment_verify_def)
qed

text \<open>Integers modulo \<open>2^256\<close> as scalars and points, for concrete instances.\<close>

definition ring256_group :: "(256 word, 256 word) group_ops" where
  "ring256_group = \<lparr>gr_scale = (*), gr_basepoint = 3, gr_hash_from_bytes = (\<lambda>bs. of_nat (length bs)),
     gr_compress = to_le_bytes 32, gr_decompress = (\<lambda>bs. Some (from_le_bytes bs))\<rparr>"

lemma group_ok_ring256: "group_ok ring256_group" and codec_ok_ring256: "codec_ok ring256_group"
  by (simp_all add: group_ok_def codec_ok_def ring256_group_def algebra_simps)

theorem aggregate_verifies_witness:
  "\<exists>op. opening_aggregate [opening_new 1 2 0, opening_new 5 6 1] = Inr op \<and>
    commitment_aggregate [commit ring256_group (opening_new 5 6 1), commit ring256_group (opening_new 1 2 0)]
      = commit ring256_group op \<and>
    commitment_verify ring256_group (commitment_aggregate
      [commit ring256_group (opening_new 5 6 1), commit ring256_group (opening_new 1 2 0)]) op"
  by (rule aggregate_verifies) (simp_all add: group_ok_ring256)

end
