(* ===== verification/Protocol.thy ===== *)
theory Protocol
  imports PRC_Prelude
begin

text \<open>
  Interactive computations of one party, and what it means that all parties of a protocol
  finish with the right results. The asynchronous functions of the crate communicate in one
  pattern: a party broadcasts a message to all its peers and then waits for one message of each
  (\<open>MpcMessageHandler::broadcast\<close> and \<open>receive_all\<close>), which the futures it joins may deliver
  in any order. A party is a \<open>prog\<close>; \<open>all_finish\<close> runs a family of them round by round with
  every possible order of arrival.
\<close>

section \<open>Programs of a party\<close>

text \<open>
  \<open>ReceiveAll\<close> continues with what each connection delivered, in the order of arrival, each message with
  the number of its connection; \<open>None\<close> stands for a closed connection.
\<close>

datatype ('m, 'a) prog =
    Done 'a
  | Fail panic
  | Broadcast 'm "('m, 'a) prog"
  | ReceiveAll "(nat \<times> 'm option) list \<Rightarrow> ('m, 'a) prog"

text \<open>\<open>await\<close>: the continuation runs on the result.\<close>

primrec pbind :: "('m, 'a) prog \<Rightarrow> ('a \<Rightarrow> ('m, 'b) prog) \<Rightarrow> ('m, 'b) prog" where
  "pbind (Done x) f = f x"
| "pbind (Fail e) f = Fail e"
| "pbind (Broadcast m p) f = Broadcast m (pbind p f)"
| "pbind (ReceiveAll k) f = ReceiveAll (\<lambda>ms. pbind (k ms) f)"

text \<open>A computation without communication.\<close>

fun lift_res :: "'a res \<Rightarrow> ('m, 'a) prog" where
  "lift_res (Inl e) = Fail e"
| "lift_res (Inr x) = Done x"

lemma pbind_assoc: "pbind (pbind p f) g = pbind p (\<lambda>x. pbind (f x) g)"
  by (induction p) simp_all

lemma pbind_Done [simp]: "pbind p Done = p"
  by (induction p) simp_all

lemma lift_res_rbind: "lift_res (rbind m f) = pbind (lift_res m) (\<lambda>x. lift_res (f x))"
  by (cases m) simp_all

section \<open>All parties together\<close>

text \<open>The parties other than \<open>p\<close>.\<close>

definition others :: "nat \<Rightarrow> nat \<Rightarrow> nat list" where
  "others n p = filter (\<lambda>q. q \<noteq> p) [0..<n]"

text \<open>
  \<open>all_finish n ps Q\<close>: the \<open>n\<close> parties \<open>ps\<close>, whatever the order in which messages arrive in each
  round, all end without a panic and without waiting for a message that nobody sends, and their
  results satisfy \<open>Q\<close>.
\<close>

inductive all_finish :: "nat \<Rightarrow> (nat \<Rightarrow> ('m, 'a) prog) \<Rightarrow> ((nat \<Rightarrow> 'a) \<Rightarrow> bool) \<Rightarrow> bool"
  for n :: nat where
  finish: "(\<And>p. p < n \<Longrightarrow> ps p = Done (xs p)) \<Longrightarrow> Q xs \<Longrightarrow> all_finish n ps Q"
| round: "(\<And>p. p < n \<Longrightarrow> ps p = Broadcast (ms p) (ReceiveAll (ks p))) \<Longrightarrow>
     (\<And>arr. (\<And>p. p < n \<Longrightarrow> mset (arr p) = mset (map (\<lambda>q. (q, Some (ms q))) (others n p))) \<Longrightarrow>
        all_finish n (\<lambda>p. ks p (arr p)) Q) \<Longrightarrow>
     all_finish n ps Q"

lemma all_finish_mono:
  assumes "all_finish n ps Q" and "\<And>xs. Q xs \<Longrightarrow> Q' xs"
  shows "all_finish n ps Q'"
  using assms
proof (induction rule: all_finish.induct)
  case (finish ps xs Q)
  then show ?case by (blast intro: all_finish.finish)
next
  case (round ps ms ks Q)
  show ?case
    by (rule all_finish.round [where ms = ms and ks = ks]) (simp_all add: round.hyps round.IH round.prems)
qed

lemma all_finish_cong:
  assumes "all_finish n ps Q" and "\<And>p. p < n \<Longrightarrow> ps p = ps' p"
  shows "all_finish n ps' Q"
  using assms
proof (cases rule: all_finish.cases)
  case (finish xs)
  then show ?thesis using assms(2) by (intro all_finish.finish [of n ps' xs]) auto
next
  case (round ms ks)
  then show ?thesis using assms(2) by (intro all_finish.round [of n ps' ms ks]) auto
qed

text \<open>Sequencing: what the first parts establish is what the continuations start from.\<close>

lemma all_finish_bind:
  assumes "all_finish n ps (\<lambda>xs. all_finish n (\<lambda>p. fs p (xs p)) Q)"
  shows "all_finish n (\<lambda>p. pbind (ps p) (fs p)) Q"
  using assms
proof (induction ps "\<lambda>xs. all_finish n (\<lambda>p. fs p (xs p)) Q" rule: all_finish.induct)
  case (finish ps xs)
  then show ?case by (auto intro: all_finish_cong)
next
  case (round ps ms ks)
  show ?case
    by (rule all_finish.round [where ms = ms and ks = "\<lambda>p ms. pbind (ks p ms) (fs p)"])
      (use round in auto)
qed

lemma all_finish_lift:
  assumes "\<And>p. p < n \<Longrightarrow> r p = Inr (x p)" and "Q x"
  shows "all_finish n (\<lambda>p. lift_res (r p)) Q"
  by (rule all_finish.finish [where xs = x]) (simp_all add: assms)

lemma all_finish_Done: "Q x \<Longrightarrow> all_finish n (\<lambda>p. Done (x p)) Q"
  by (rule all_finish.finish [where xs = x]) simp_all

text \<open>When each party ends on its own, with a result that satisfies its part.\<close>

lemma all_finish_each:
  assumes "\<And>p. p < n \<Longrightarrow> \<exists>x. ps p = Done x \<and> R p x"
  shows "all_finish n ps (\<lambda>out. \<forall>p<n. R p (out p))"
proof -
  have "\<forall>p\<in>{..<n}. \<exists>x. ps p = Done x \<and> R p x" using assms by simp
  then obtain xs where "\<forall>p\<in>{..<n}. ps p = Done (xs p) \<and> R p (xs p)"
    by (rule bchoice [THEN exE]) blast
  then show ?thesis by (intro all_finish.finish [of n ps xs]) simp_all
qed

lemma length_others: "p < n \<Longrightarrow> length (others n p) = n - 1"
proof -
  assume p: "p < n"
  have "length (filter (\<lambda>q. q \<noteq> p) [0..<n]) + length (filter (\<lambda>q. q = p) [0..<n]) = n"
    using sum_length_filter_compl [of "\<lambda>q. q \<noteq> p" "[0..<n]"] by simp
  moreover have "filter (\<lambda>q. q = p) [0..<n] = [p]"
    using p by (induction n) (auto simp: less_Suc_eq filter_empty_conv)
  ultimately show ?thesis by (simp add: others_def)
qed

lemma set_others [simp]: "set (others n p) = {q. q < n \<and> q \<noteq> p}"
  by (auto simp: others_def)

text \<open>A party's own value with those of its peers are the values of all.\<close>

lemma mset_others: "p < n \<Longrightarrow> add_mset (f p) (mset (map f (others n p))) = mset (map f [0..<n])"
proof -
  assume p: "p < n"
  have "mset [0..<n] = mset (filter (\<lambda>q. q \<noteq> p) [0..<n]) + mset (filter (\<lambda>q. q = p) [0..<n])"
    unfolding mset_filter using multiset_partition [of "mset [0..<n]" "\<lambda>q. q \<noteq> p"]
    by (simp only: not_not)
  moreover have "filter (\<lambda>q. q = p) [0..<n] = [p]"
    using p by (induction n) (auto simp: less_Suc_eq filter_empty_conv)
  ultimately have "mset [0..<n] = add_mset p (mset (others n p))" by (simp add: others_def)
  then show ?thesis by (metis image_mset_add_mset mset_map)
qed

lemma xors_others:
  assumes "p < n" "mset qs = mset (others n p)"
  shows "(f p \<noteq> xors (map f qs)) = xors (map f [0..<n])"
proof -
  have "mset (map f (p # qs)) = mset (map f [0..<n])"
    using mset_others [OF assms(1), of f] assms(2) by simp
  then have "xors (map f (p # qs)) = xors (map f [0..<n])" by (rule xors_mset)
  then show ?thesis by simp
qed

end
