(* ===== verification/Connection.thy ===== *)
theory Connection
  imports D2_Bit_Array Commitment Protocol
begin

unbundle bit_operations_syntax

text \<open>
  \<open>src/prc/connection.rs\<close>: the commands of the protocol with their encoding, the message handler
  of a party, and the two kinds of connections between peers. What travels between parties is
  bytes: a party broadcasts the encoding of a command and decodes what it receives.
\<close>

section \<open>Commands\<close>

datatype 'g cmd =
    Handshake (peer_id: u8)
  | BeaverExchange (sender_id: u8) (beaver_bit_size: u32) (beaver_data_a: "u8 list") (beaver_data_b: "u8 list")
  | DabitExchange (sender_id: u8) (dabit_bit_size: u32) (dabit_bool_data: "u8 list")
  | AggCommit (sender_id: u8) (agg_commit: "'g commitment")

definition cmd_serialize :: "('s, 'g) group_ops \<Rightarrow> 'g cmd \<Rightarrow> u8 list" where
  "cmd_serialize G c =
     (case c of
        BeaverExchange sid bits a b \<Rightarrow> [0, sid] @ to_le_bytes 4 bits @ a @ b
      | Handshake pid \<Rightarrow> [1, pid]
      | DabitExchange sid bits d \<Rightarrow> [2, sid] @ to_le_bytes 4 bits @ d
      | AggCommit sid cm \<Rightarrow> [3, sid] @ commitment_serialize G cm)"

definition cmd_deserialize :: "('s, 'g) group_ops \<Rightarrow> u8 list \<Rightarrow> 'g cmd res" where
  "cmd_deserialize G data =
     rbind (index data 0) (\<lambda>cmd_type.
     if cmd_type = 0 then
       rbind (index data 1) (\<lambda>sid.
       rbind (slice data 2 6) (\<lambda>bits.
       let beaver_bit_size = from_le_bytes bits; array_size = div_ceil (unat beaver_bit_size) 8 in
       rbind (slice data 6 (6 + array_size)) (\<lambda>a.
       rbind (slice data (6 + array_size) (6 + 2 * array_size)) (\<lambda>b.
       Ok (BeaverExchange sid beaver_bit_size a b)))))
     else if cmd_type = 1 then
       rbind (index data 1) (\<lambda>pid. Ok (Handshake pid))
     else if cmd_type = 2 then
       rbind (index data 1) (\<lambda>sid.
       rbind (slice data 2 6) (\<lambda>bits.
       let dabit_bit_size = from_le_bytes bits; array_size = div_ceil (unat dabit_bit_size) 8 in
       rbind (slice data 6 (6 + array_size)) (\<lambda>d.
       Ok (DabitExchange sid dabit_bit_size d))))
     else if cmd_type = 3 then
       rbind (index data 1) (\<lambda>sid.
       rbind (slice data 2 34) (\<lambda>bytes.
       rbind (commitment_deserialize G bytes) (\<lambda>cm.
       Ok (AggCommit sid cm))))
     else Panic ExplicitPanic)"

text \<open>The data of an exchange has the length its bit size announces.\<close>

fun cmd_wf :: "'g cmd \<Rightarrow> bool" where
  "cmd_wf (BeaverExchange _ bits a b) \<longleftrightarrow>
     length a = div_ceil (unat bits) 8 \<and> length b = div_ceil (unat bits) 8"
| "cmd_wf (DabitExchange _ bits d) \<longleftrightarrow> length d = div_ceil (unat bits) 8"
| "cmd_wf _ \<longleftrightarrow> True"

section \<open>The message handler\<close>

text \<open>The peers are the connections of the handler; each is known by a number.\<close>

record 'g message_handler =
  mh_owner_id :: u8
  mh_peers :: "nat list"
  mh_active_beaver_storage :: "d2bitarray list"
  mh_active_dabit_storage :: "bitarray list"
  mh_commit_storage :: "'g commitment list"

definition mh_new :: "u8 \<Rightarrow> 'g message_handler" where
  "mh_new owner_id = \<lparr>mh_owner_id = owner_id, mh_peers = [], mh_active_beaver_storage = [],
     mh_active_dabit_storage = [], mh_commit_storage = []\<rparr>"

definition mh_add_peer :: "'g message_handler \<Rightarrow> nat \<Rightarrow> 'g message_handler" where
  "mh_add_peer h peer = h\<lparr>mh_peers := mh_peers h @ [peer]\<rparr>"

definition mh_is_aggregator :: "'g message_handler \<Rightarrow> bool" where
  "mh_is_aggregator h = (mh_owner_id h = 0)"

definition mh_get_aggregator :: "'g message_handler \<Rightarrow> nat res" where
  "mh_get_aggregator h =
     rbind (rassert (\<not> mh_is_aggregator h) AssertionFailed) (\<lambda>_. index (mh_peers h) 0)"

definition mh_handle_cmd :: "'g message_handler \<Rightarrow> 'g cmd \<Rightarrow> 'g message_handler res" where
  "mh_handle_cmd h c =
     (case c of
        AggCommit sid cm \<Rightarrow>
          rbind (rassert (sid \<noteq> mh_owner_id h) AssertionFailed) (\<lambda>_.
          Ok (h\<lparr>mh_commit_storage := mh_commit_storage h @ [cm]\<rparr>))
      | BeaverExchange sid bits da db \<Rightarrow>
          rbind (rassert (sid \<noteq> mh_owner_id h) AssertionFailed) (\<lambda>_.
          rbind (ba_from_byte_slice da (unat bits)) (\<lambda>a.
          rbind (ba_from_byte_slice db (unat bits)) (\<lambda>b.
          Ok (h\<lparr>mh_active_beaver_storage := mh_active_beaver_storage h @ [d2_new [a, b]]\<rparr>))))
      | DabitExchange sid bits d \<Rightarrow>
          rbind (rassert (sid \<noteq> mh_owner_id h) AssertionFailed) (\<lambda>_.
          rbind (ba_from_byte_slice d (unat bits)) (\<lambda>e.
          Ok (h\<lparr>mh_active_dabit_storage := mh_active_dabit_storage h @ [e]\<rparr>)))
      | Handshake _ \<Rightarrow> Panic ExplicitPanic)"

definition mh_broadcast :: "('s, 'g) group_ops \<Rightarrow> 'g cmd \<Rightarrow> (u8 list, unit) prog" where
  "mh_broadcast G c = Broadcast (cmd_serialize G c) (Done ())"

definition mh_send_beaver_shares ::
  "('s, 'g) group_ops \<Rightarrow> 'g message_handler \<Rightarrow> d2bitarray \<Rightarrow> (u8 list, unit) prog" where
  "mh_send_beaver_shares G h beaver =
     pbind (lift_res (d2_get_array beaver 0)) (\<lambda>a.
     pbind (lift_res (d2_get_array beaver 1)) (\<lambda>b.
     mh_broadcast G (BeaverExchange (mh_owner_id h) (of_nat (ba_bit_size a))
       (ba_get_inner_memref a) (ba_get_inner_memref b))))"

definition mh_send_dabit_shares ::
  "('s, 'g) group_ops \<Rightarrow> 'g message_handler \<Rightarrow> bitarray \<Rightarrow> (u8 list, unit) prog" where
  "mh_send_dabit_shares G h dabit =
     mh_broadcast G (DabitExchange (mh_owner_id h) (of_nat (ba_bit_size dabit)) (ba_get_inner_memref dabit))"

definition mh_send_commit_to_agg ::
  "('s, 'g) group_ops \<Rightarrow> 'g message_handler \<Rightarrow> 'g commitment \<Rightarrow> (u8 list, unit) prog" where
  "mh_send_commit_to_agg G h cm = mh_broadcast G (AggCommit (mh_owner_id h) cm)"

text \<open>One future per peer: a delivered message is decoded and handled, a closed connection is skipped.\<close>

definition mh_receive_one ::
  "('s, 'g) group_ops \<Rightarrow> u8 list option \<Rightarrow> 'g message_handler \<Rightarrow> 'g message_handler res" where
  "mh_receive_one G msg h =
     (case msg of None \<Rightarrow> Ok h
      | Some data \<Rightarrow> rbind (cmd_deserialize G data) (\<lambda>c. mh_handle_cmd h c))"

definition mh_receive_all ::
  "('s, 'g) group_ops \<Rightarrow> 'g message_handler \<Rightarrow> (u8 list, 'g message_handler) prog" where
  "mh_receive_all G h = ReceiveAll (\<lambda>msgs. lift_res (rfold (mh_receive_one G) (map snd msgs) h))"

definition mh_receive_beaver_shares ::
  "('s, 'g) group_ops \<Rightarrow> 'g message_handler \<Rightarrow> (u8 list, d2bitarray list \<times> 'g message_handler) prog" where
  "mh_receive_beaver_shares G h =
     pbind (mh_receive_all G h) (\<lambda>h.
     let storage = mh_active_beaver_storage h in
     pbind (lift_res (rassert (length storage = length (mh_peers h)) AssertionFailed)) (\<lambda>_.
     Done (storage, h\<lparr>mh_active_beaver_storage := []\<rparr>)))"

definition mh_receive_dabit_shares ::
  "('s, 'g) group_ops \<Rightarrow> 'g message_handler \<Rightarrow> (u8 list, bitarray list \<times> 'g message_handler) prog" where
  "mh_receive_dabit_shares G h =
     pbind (mh_receive_all G h) (\<lambda>h.
     let storage = mh_active_dabit_storage h in
     pbind (lift_res (rassert (length storage = length (mh_peers h)) AssertionFailed)) (\<lambda>_.
     Done (storage, h\<lparr>mh_active_dabit_storage := []\<rparr>)))"

definition mh_receive_agg_commits ::
  "('s, 'g) group_ops \<Rightarrow> 'g message_handler \<Rightarrow> (u8 list, 'g commitment list \<times> 'g message_handler) prog" where
  "mh_receive_agg_commits G h =
     pbind (mh_receive_all G h) (\<lambda>h.
     let storage = mh_commit_storage h in
     pbind (lift_res (rassert (length storage = length (mh_peers h)) AssertionFailed)) (\<lambda>_.
     Done (storage, h\<lparr>mh_commit_storage := []\<rparr>)))"

section \<open>Encoding\<close>

lemma slice_mid: "length xs = i \<Longrightarrow> i + length ys = j \<Longrightarrow> slice (xs @ ys @ zs) i j = Inr ys"
  by (auto simp: slice_def)

lemma deserialize_serialize:
  assumes "codec_ok G" "cmd_wf c"
  shows "cmd_deserialize G (cmd_serialize G c) = Inr c"
proof (cases c)
  case (BeaverExchange sid bits a b)
  let ?d = "cmd_serialize G c" and ?n = "div_ceil (unat bits) 8"
  have d: "?d = [0, sid] @ to_le_bytes 4 bits @ a @ b" by (simp add: BeaverExchange cmd_serialize_def)
  have ab: "length a = ?n" "length b = ?n" using assms(2) by (simp_all add: BeaverExchange)
  have "slice ?d 2 6 = Inr (to_le_bytes 4 bits)"
    unfolding d by (rule slice_mid) simp_all
  moreover have "slice (([0, sid] @ to_le_bytes 4 bits) @ a @ b) 6 (6 + ?n) = Inr a"
    by (rule slice_mid) (simp_all add: ab)
  then have "slice ?d 6 (6 + ?n) = Inr a" by (simp add: d)
  moreover have "slice (([0, sid] @ to_le_bytes 4 bits @ a) @ b @ []) (6 + ?n) (6 + 2 * ?n) = Inr b"
    by (rule slice_mid) (simp_all add: ab)
  then have "slice ?d (6 + ?n) (6 + 2 * ?n) = Inr b" by (simp add: d)
  ultimately show ?thesis
    by (simp add: cmd_deserialize_def BeaverExchange) (simp add: d BeaverExchange [symmetric] index_def)
next
  case (DabitExchange sid bits b)
  let ?d = "cmd_serialize G c" and ?n = "div_ceil (unat bits) 8"
  have d: "?d = [2, sid] @ to_le_bytes 4 bits @ b" by (simp add: DabitExchange cmd_serialize_def)
  have b: "length b = ?n" using assms(2) by (simp add: DabitExchange)
  have "slice ?d 2 6 = Inr (to_le_bytes 4 bits)" "slice ?d 6 (6 + ?n) = Inr b"
    using b by (simp_all add: d slice_def)
  then show ?thesis
    by (simp add: cmd_deserialize_def DabitExchange) (simp add: d DabitExchange [symmetric] index_def)
next
  case (AggCommit sid cm)
  have "slice ([3, sid] @ commitment_serialize G cm) 2 34 = Inr (commitment_serialize G cm)"
    using commitment_codec(2) [OF assms(1), of cm] by (simp add: slice_def)
  then show ?thesis
    using commitment_codec(1) [OF assms(1), of cm "[]"]
    by (simp add: AggCommit cmd_serialize_def cmd_deserialize_def index_def)
qed (simp add: cmd_serialize_def cmd_deserialize_def index_def)

section \<open>Rounds of the message handlers\<close>

text \<open>A handler between two rounds: it knows its party, has a peer for every other party, and nothing stored.\<close>

definition mh_ready :: "nat \<Rightarrow> nat \<Rightarrow> 'g message_handler \<Rightarrow> bool" where
  "mh_ready n p h \<longleftrightarrow> mh_owner_id h = of_nat p \<and> length (mh_peers h) = n - 1 \<and>
     mh_active_beaver_storage h = [] \<and> mh_active_dabit_storage h = [] \<and> mh_commit_storage h = []"

lemma of_nat_u8_inject: "p < 256 \<Longrightarrow> q < 256 \<Longrightarrow> (of_nat p :: u8) = of_nat q \<longleftrightarrow> p = q"
proof -
  assume "p < 256" "q < 256"
  then have "unat (of_nat p :: u8) = p" "unat (of_nat q :: u8) = q" by (simp_all add: unat_of_nat)
  then show ?thesis by metis
qed

lemma ba_from_memref_clean:
  assumes "\<And>i. m \<le> i \<Longrightarrow> \<not> g i"
  shows "ba_from_byte_slice (ba_get_inner_memref (ba_make m g)) m = Inr (ba_make m g)"
proof -
  have "ba_make m (\<lambda>i. i < 8 * div_ceil m 8 \<and> mbit (ba_make m g) i) = ba_make m g"
    using assms div_ceil_8_ge [of m] by (intro ba_make_cong) (auto, meson le_trans not_le)
  then show ?thesis using ba_from_memref [of "ba_make m g"] by simp
qed

lemma unat_of_nat_u32: "m < 2 ^ 32 \<Longrightarrow> unat (of_nat m :: u32) = m"
  by (simp add: unat_of_nat)

text \<open>
  Folding the handler over messages that are the encodings of well-formed commands, when
  handling each of them adds one item to a storage.
\<close>

lemma receive_fold:
  assumes "codec_ok G" and "\<And>q. q \<in> set qs \<Longrightarrow> cmd_wf (c q)"
    and "\<And>h q. q \<in> set qs \<Longrightarrow> mh_owner_id h = own \<Longrightarrow> mh_handle_cmd h (c q) = Inr (upd h q) \<and> mh_owner_id (upd h q) = own"
    and "mh_owner_id h = own"
  shows "rfold (mh_receive_one G) (map (\<lambda>q. Some (cmd_serialize G (c q))) qs) h = Inr (foldl upd h qs)"
  using assms(2-)
proof (induction qs arbitrary: h)
  case (Cons q qs)
  then have "mh_receive_one G (Some (cmd_serialize G (c q))) h = Inr (upd h q)" "mh_owner_id (upd h q) = own"
    using deserialize_serialize [OF assms(1), of "c q"] by (simp_all add: mh_receive_one_def)
  then show ?case using Cons by simp
qed simp

text \<open>One round of all handlers, up to what each does with its storage.\<close>

lemma exchange_round:
  assumes "codec_ok G"
    and "\<And>p. p < n \<Longrightarrow> ps p = Broadcast (cmd_serialize G (c p)) (ReceiveAll (\<lambda>msgs.
      pbind (lift_res (rfold (mh_receive_one G) (map snd msgs) (hs p))) (fin p)))"
    and "\<And>p. p < n \<Longrightarrow> cmd_wf (c p)"
    and handle: "\<And>p q h. p < n \<Longrightarrow> q < n \<Longrightarrow> q \<noteq> p \<Longrightarrow> mh_owner_id h = mh_owner_id (hs p) \<Longrightarrow>
      mh_handle_cmd h (c q) = Inr (upd h q) \<and> mh_owner_id (upd h q) = mh_owner_id h"
    and fin: "\<And>qs. (\<And>p. p < n \<Longrightarrow> mset (qs p) = mset (others n p)) \<Longrightarrow>
      all_finish n (\<lambda>p. fin p (foldl upd (hs p) (qs p))) Q"
  shows "all_finish n ps Q"
proof (rule all_finish.round [where ms = "\<lambda>p. cmd_serialize G (c p)", OF assms(2)])
  fix arr
  assume arr: "\<And>p. p < n \<Longrightarrow> mset (arr p) = mset (map (\<lambda>q. (q, Some (cmd_serialize G (c q)))) (others n p))"
  have "\<exists>qs. arr p = map (\<lambda>q. (q, Some (cmd_serialize G (c q)))) qs \<and> mset qs = mset (others n p)" if "p < n" for p
    by (rule mset_mapE [OF arr [OF that]]) blast
  then obtain qs where qs: "\<And>p. p < n \<Longrightarrow> arr p = map (\<lambda>q. (q, Some (cmd_serialize G (c q)))) (qs p)"
      "\<And>p. p < n \<Longrightarrow> mset (qs p) = mset (others n p)" by metis
  have fold: "rfold (mh_receive_one G) (map snd (arr p)) (hs p) = Inr (foldl upd (hs p) (qs p))" if p: "p < n" for p
    unfolding qs(1) [OF p] map_map comp_def snd_conv
  proof (rule receive_fold [OF assms(1), where own = "mh_owner_id (hs p)"])
    fix q assume "q \<in> set (qs p)"
    then have q: "q < n" "q \<noteq> p" using mset_eq_setD [OF qs(2) [OF p]] by auto
    show "cmd_wf (c q)" using assms(3) [OF q(1)] .
    show "mh_handle_cmd h (c q) = Inr (upd h q) \<and> mh_owner_id (upd h q) = mh_owner_id (hs p)"
      if "mh_owner_id h = mh_owner_id (hs p)" for h
      using handle [OF p q that] that by simp
  qed simp
  show "all_finish n (\<lambda>p. pbind (lift_res (rfold (mh_receive_one G) (map snd (arr p)) (hs p))) (fin p)) Q"
    by (rule all_finish_cong [OF fin [OF qs(2)]]) (simp_all add: fold)
qed

lemma length_round:
  assumes "\<And>p. p < n \<Longrightarrow> mset (qs p) = mset (others n p)" and "p < n"
  shows "length (qs p) = n - 1"
  using mset_eq_length [OF assms(1)] assms(2) length_others by simp

text \<open>
  The three exchanges of the protocol (Beaver shares, daBit shares, commitments) have one
  contract: a kind of item with its command and its storage in the handler, a send that
  broadcasts the command, a receive that waits for all peers, checks the number of stored items
  and drains the storage. Against it the round is proved once: every party ends with the items of
  the others, in some order, and a handler that is ready for the next round.
\<close>

locale exchange_kind =
  fixes G :: "('s, 'g) group_ops"
    and stored :: "'g message_handler \<Rightarrow> 'x list"
    and set_stored :: "'x list \<Rightarrow> 'g message_handler \<Rightarrow> 'g message_handler"
    and mk :: "u8 \<Rightarrow> 'x \<Rightarrow> 'g cmd"
    and item_ok :: "'x \<Rightarrow> bool"
    and snd_items :: "'g message_handler \<Rightarrow> 'x \<Rightarrow> (u8 list, unit) prog"
    and rcv_items :: "'g message_handler \<Rightarrow> (u8 list, 'x list \<times> 'g message_handler) prog"
  assumes snd_eq: "item_ok x \<Longrightarrow> snd_items h x = mh_broadcast G (mk (mh_owner_id h) x)"
    and rcv_eq: "rcv_items h = pbind (mh_receive_all G h) (\<lambda>h.
      pbind (lift_res (rassert (length (stored h) = length (mh_peers h)) AssertionFailed)) (\<lambda>_.
      Done (stored h, set_stored [] h)))"
    and mk_wf: "item_ok x \<Longrightarrow> cmd_wf (mk sid x)"
    and handle: "item_ok x \<Longrightarrow> sid \<noteq> mh_owner_id h \<Longrightarrow>
      mh_handle_cmd h (mk sid x) = Inr (set_stored (stored h @ [x]) h)"
    and stored_set: "stored (set_stored xs h) = xs"
    and set_set: "set_stored xs (set_stored ys h) = set_stored xs h"
    and set_id: "set_stored (stored h) h = h"
    and set_owner: "mh_owner_id (set_stored xs h) = mh_owner_id h"
    and set_peers: "mh_peers (set_stored xs h) = mh_peers h"
begin

lemma foldl_store: "foldl (\<lambda>h q. set_stored (stored h @ [x q]) h) h qs = set_stored (stored h @ map x qs) h"
  by (induction qs arbitrary: h) (simp_all add: set_id set_set stored_set)

lemma exchange:
  assumes "codec_ok G" "n \<le> 256" and own: "\<And>p. p < n \<Longrightarrow> mh_owner_id (hs p) = of_nat p"
    and peers: "\<And>p. p < n \<Longrightarrow> length (mh_peers (hs p)) = n - 1" and empty: "\<And>p. p < n \<Longrightarrow> stored (hs p) = []"
    and ok: "\<And>p. p < n \<Longrightarrow> item_ok (x p)"
  shows "all_finish n (\<lambda>p. pbind (snd_items (hs p) (x p)) (\<lambda>_. rcv_items (hs p)))
    (\<lambda>out. \<forall>p<n. \<exists>xs. out p = (xs, hs p) \<and> mset xs = mset (map x (others n p)))"
proof (rule exchange_round [OF assms(1), where c = "\<lambda>p. mk (of_nat p) (x p)" and hs = hs
      and upd = "\<lambda>h q. set_stored (stored h @ [x q]) h" and fin = "\<lambda>_ h.
     pbind (lift_res (rassert (length (stored h) = length (mh_peers h)) AssertionFailed)) (\<lambda>_.
     Done (stored h, set_stored [] h))"])
  fix p assume p: "p < n"
  then show "pbind (snd_items (hs p) (x p)) (\<lambda>_. rcv_items (hs p))
    = Broadcast (cmd_serialize G (mk (of_nat p) (x p))) (ReceiveAll (\<lambda>msgs.
      pbind (lift_res (rfold (mh_receive_one G) (map snd msgs) (hs p))) (\<lambda>h.
     pbind (lift_res (rassert (length (stored h) = length (mh_peers h)) AssertionFailed)) (\<lambda>_.
     Done (stored h, set_stored [] h)))))"
    by (simp add: snd_eq [OF ok [OF p]] own rcv_eq mh_receive_all_def mh_broadcast_def)
  show "cmd_wf (mk (of_nat p) (x p))" by (rule mk_wf [OF ok [OF p]])
next
  fix p q and h :: "'g message_handler"
  assume pq: "p < n" "q < n" "q \<noteq> p" and h: "mh_owner_id h = mh_owner_id (hs p)"
  then have "of_nat q \<noteq> mh_owner_id h"
    using assms(2) own of_nat_u8_inject [of q p] by simp
  then show "mh_handle_cmd h (mk (of_nat q) (x q)) = Inr (set_stored (stored h @ [x q]) h) \<and>
    mh_owner_id (set_stored (stored h @ [x q]) h) = mh_owner_id h"
    using handle [OF ok [OF pq(2)]] by (simp add: set_owner)
next
  fix qs :: "nat \<Rightarrow> nat list"
  assume qs: "\<And>p. p < n \<Longrightarrow> mset (qs p) = mset (others n p)"
  have id: "set_stored [] (hs p) = hs p" if "p < n" for p
    using set_id [of "hs p"] empty [OF that] by simp
  show "all_finish n (\<lambda>p. pbind (lift_res (rassert
        (length (stored (foldl (\<lambda>h q. set_stored (stored h @ [x q]) h) (hs p) (qs p)))
          = length (mh_peers (foldl (\<lambda>h q. set_stored (stored h @ [x q]) h) (hs p) (qs p)))) AssertionFailed)) (\<lambda>_.
     Done (stored (foldl (\<lambda>h q. set_stored (stored h @ [x q]) h) (hs p) (qs p)),
       set_stored [] (foldl (\<lambda>h q. set_stored (stored h @ [x q]) h) (hs p) (qs p)))))
    (\<lambda>out. \<forall>p<n. \<exists>xs. out p = (xs, hs p) \<and> mset xs = mset (map x (others n p)))"
    unfolding foldl_store
    by (rule all_finish.finish [where xs = "\<lambda>p. (map x (qs p), hs p)"])
      (use qs length_round [OF qs] in \<open>auto simp: stored_set set_set set_peers empty peers id\<close>)
qed

end

subsection \<open>Beaver shares\<close>

text \<open>A pair of arrays of \<open>m\<close> bits without stray ones, as it is exchanged.\<close>

definition uv_share :: "nat \<Rightarrow> d2bitarray \<Rightarrow> bool" where
  "uv_share m s \<longleftrightarrow> m < 2 ^ 32 \<and> (\<exists>f. s = d2_make 2 m f \<and> (\<forall>j i. m \<le> i \<longrightarrow> \<not> f j i))"

definition beaver_cmd :: "u8 \<Rightarrow> d2bitarray \<Rightarrow> 'g cmd" where
  "beaver_cmd sid s = BeaverExchange sid (of_nat (ba_bit_size (d2_arrays s ! 0)))
     (ba_get_inner_memref (d2_arrays s ! 0)) (ba_get_inner_memref (d2_arrays s ! 1))"

lemma handle_beaver:
  assumes "uv_share m s" "sid \<noteq> mh_owner_id h"
  shows "mh_handle_cmd h (beaver_cmd sid s)
       = Inr (h\<lparr>mh_active_beaver_storage := mh_active_beaver_storage h @ [s]\<rparr>)"
proof -
  obtain f where s: "s = d2_make 2 m f" and f: "\<And>j i. m \<le> i \<Longrightarrow> \<not> f j i" and m: "m < 2 ^ 32"
    using assms(1) by (auto simp: uv_share_def)
  have "d2_new [ba_make m (f 0), ba_make m (f 1)] = s"
    by (simp add: s d2_new_def d2_make_def numeral_2_eq_2)
  then show ?thesis
    using assms(2) unat_of_nat_u32 [OF m] f
    by (simp add: beaver_cmd_def s mh_handle_cmd_def ba_from_memref_clean del: One_nat_def)
qed

interpretation beaver_x: exchange_kind G mh_active_beaver_storage "\<lambda>xs h. h\<lparr>mh_active_beaver_storage := xs\<rparr>"
    beaver_cmd "uv_share m" "mh_send_beaver_shares G" "mh_receive_beaver_shares G"
  for G :: "('s, 'g) group_ops" and m
proof
  fix x h
  assume "uv_share m x"
  then show "mh_send_beaver_shares G h x = mh_broadcast G (beaver_cmd (mh_owner_id h) x)"
    by (auto simp: mh_send_beaver_shares_def beaver_cmd_def d2_get_array_Ok uv_share_def)
next
  fix x sid
  assume "uv_share m x"
  then show "cmd_wf (beaver_cmd sid x)" by (auto simp: uv_share_def beaver_cmd_def unat_of_nat_u32)
qed (simp_all add: handle_beaver mh_receive_beaver_shares_def Let_def)

subsection \<open>DaBit shares\<close>

definition e_share :: "nat \<Rightarrow> bitarray \<Rightarrow> bool" where
  "e_share m e \<longleftrightarrow> m < 2 ^ 32 \<and> (\<exists>f. e = ba_make m f \<and> (\<forall>i. m \<le> i \<longrightarrow> \<not> f i))"

definition dabit_cmd :: "u8 \<Rightarrow> bitarray \<Rightarrow> 'g cmd" where
  "dabit_cmd sid e = DabitExchange sid (of_nat (ba_bit_size e)) (ba_get_inner_memref e)"

interpretation dabit_x: exchange_kind G mh_active_dabit_storage "\<lambda>xs h. h\<lparr>mh_active_dabit_storage := xs\<rparr>"
    dabit_cmd "e_share m" "mh_send_dabit_shares G" "mh_receive_dabit_shares G"
  for G :: "('s, 'g) group_ops" and m
  by unfold_locales
    (auto simp: mh_send_dabit_shares_def dabit_cmd_def e_share_def unat_of_nat_u32 mh_handle_cmd_def
      ba_from_memref_clean mh_receive_dabit_shares_def Let_def)

subsection \<open>Commitments\<close>

interpretation commit_x: exchange_kind G mh_commit_storage "\<lambda>xs h. h\<lparr>mh_commit_storage := xs\<rparr>"
    AggCommit "\<lambda>_. True" "mh_send_commit_to_agg G" "mh_receive_agg_commits G"
  for G :: "('s, 'g) group_ops"
  by unfold_locales
    (simp_all add: mh_send_commit_to_agg_def mh_handle_cmd_def mh_receive_agg_commits_def Let_def)

text \<open>What is shorter than the encoding of a command does not decode.\<close>

lemma deserialize_prefix:
  assumes G: "codec_ok G" and c: "cmd_wf c" and k: "k < length (cmd_serialize G c)"
  shows "cmd_deserialize G (take k (cmd_serialize G c)) = Inl IndexOutOfBounds"
proof (cases c)
  case (BeaverExchange sid bits a b)
  let ?n = "div_ceil (unat bits) 8" and ?d = "[0, sid] @ to_le_bytes 4 bits @ a @ b"
  have d: "cmd_serialize G c = ?d" by (simp add: BeaverExchange cmd_serialize_def)
  have ab: "length a = ?n" "length b = ?n" using c by (simp_all add: BeaverExchange)
  show ?thesis
  proof (cases "k < 6")
    case True
    then show ?thesis unfolding d by (auto simp: cmd_deserialize_def index_def slice_def take_Cons' Let_def)
  next
    case False
    then have "slice (take k ?d) 2 6 = Inr (to_le_bytes 4 bits)" using k by (simp add: slice_def drop_take take_Cons')
    moreover have "index (take k ?d) 0 = Inr 0" "index (take k ?d) 1 = Inr sid" using False k by (simp_all add: index_def d take_Cons' del: One_nat_def)
    ultimately show ?thesis using k ab False unfolding d by (auto simp: cmd_deserialize_def slice_def Let_def)
  qed
next
  case (DabitExchange sid bits b)
  let ?n = "div_ceil (unat bits) 8" and ?d = "[2, sid] @ to_le_bytes 4 bits @ b"
  have d: "cmd_serialize G c = ?d" by (simp add: DabitExchange cmd_serialize_def)
  have ab: "length b = ?n" using c by (simp_all add: DabitExchange)
  show ?thesis
  proof (cases "k < 6")
    case True
    then show ?thesis unfolding d by (auto simp: cmd_deserialize_def index_def slice_def take_Cons' Let_def)
  next
    case False
    then have "slice (take k ?d) 2 6 = Inr (to_le_bytes 4 bits)" using k by (simp add: slice_def drop_take take_Cons')
    moreover have "index (take k ?d) 0 = Inr 2" "index (take k ?d) 1 = Inr sid" using False k by (simp_all add: index_def d take_Cons' del: One_nat_def)
    ultimately show ?thesis using k ab False unfolding d by (auto simp: cmd_deserialize_def slice_def Let_def)
  qed
next
  case (AggCommit sid cm)
  have d: "cmd_serialize G c = [3, sid] @ commitment_serialize G cm" by (simp add: AggCommit cmd_serialize_def)
  show ?thesis using k commitment_codec(2) [OF G, of cm] unfolding d
    by (auto simp: cmd_deserialize_def index_def slice_def take_Cons')
next
  case (Handshake pid)
  then show ?thesis using k by (auto simp: cmd_serialize_def cmd_deserialize_def index_def take_Cons' less_Suc_eq)
qed

section \<open>Whatever arrives\<close>

text \<open>
  The storages hold what was decoded from the bytes of the peers, which need not follow the protocol: pairs
  of arrays of one size, and arrays. A handler that does not panic stays well-formed.
\<close>

definition mh_wf :: "'g message_handler \<Rightarrow> bool" where
  "mh_wf h \<longleftrightarrow> list_all (\<lambda>s. \<exists>m. d2_wf 2 m s) (mh_active_beaver_storage h) \<and> list_all ba_wf (mh_active_dabit_storage h)"

definition mh_stored :: "'g message_handler \<Rightarrow> nat" where
  "mh_stored h = length (mh_active_beaver_storage h) + length (mh_active_dabit_storage h) + length (mh_commit_storage h)"

lemma ba_from_byte_slice_wf: "ba_from_byte_slice src n = Inr a \<Longrightarrow> ba_sized n a"
proof -
  assume a: "ba_from_byte_slice src n = Inr a"
  then have "div_ceil n 8 \<le> length src" by (auto simp: ba_from_byte_slice_def rbind_eq_Ok Let_def)
  with a show ?thesis by (simp add: ba_from_byte_slice_Ok) (metis ba_make_sel(1) ba_wf_make)
qed

lemma handle_cmd_wf:
  assumes "mh_wf h" "mh_handle_cmd h c = Inr h'"
  shows "mh_wf h' \<and> mh_owner_id h' = mh_owner_id h \<and> mh_peers h' = mh_peers h \<and> mh_stored h' = Suc (mh_stored h)"
proof (cases c)
  case (BeaverExchange sid bits da db)
  then obtain a b where "ba_from_byte_slice da (unat bits) = Inr a" "ba_from_byte_slice db (unat bits) = Inr b"
      "h' = h\<lparr>mh_active_beaver_storage := mh_active_beaver_storage h @ [d2_new [a, b]]\<rparr>"
    using assms(2) by (auto simp: mh_handle_cmd_def rbind_eq_Ok)
  moreover from this have "d2_wf 2 (unat bits) (d2_new [a, b])" by (auto simp: d2_wf_def d2_new_def dest: ba_from_byte_slice_wf)
  ultimately show ?thesis using assms(1) by (auto simp: mh_wf_def mh_stored_def)
next
  case (DabitExchange sid bits d)
  then obtain e where "ba_from_byte_slice d (unat bits) = Inr e" "h' = h\<lparr>mh_active_dabit_storage := mh_active_dabit_storage h @ [e]\<rparr>"
    using assms(2) by (auto simp: mh_handle_cmd_def rbind_eq_Ok)
  with assms(1) show ?thesis by (auto simp: mh_wf_def mh_stored_def dest: ba_from_byte_slice_wf)
qed (use assms in \<open>auto simp: mh_handle_cmd_def mh_wf_def mh_stored_def rbind_eq_Ok\<close>)

lemma receive_one_wf:
  assumes "mh_wf h" "mh_receive_one G m h = Inr h'"
  shows "mh_wf h' \<and> mh_owner_id h' = mh_owner_id h \<and> mh_peers h' = mh_peers h \<and> mh_stored h' = mh_stored h + (if m = None then 0 else 1)"
proof (cases m)
  case (Some data)
  then obtain c where "mh_handle_cmd h c = Inr h'" using assms(2) by (auto simp: mh_receive_one_def rbind_eq_Ok)
  then show ?thesis using handle_cmd_wf [OF assms(1)] Some by simp
qed (use assms in \<open>simp add: mh_receive_one_def\<close>)

lemma receive_wf:
  "mh_wf h \<Longrightarrow> rfold (mh_receive_one G) msgs h = Inr h' \<Longrightarrow>
     mh_wf h' \<and> mh_owner_id h' = mh_owner_id h \<and> mh_peers h' = mh_peers h \<and> mh_stored h' = mh_stored h + length (filter (\<lambda>m. m \<noteq> None) msgs)"
proof (induction msgs arbitrary: h)
  case (Cons m msgs)
  then obtain h1 where h1: "mh_receive_one G m h = Inr h1" "rfold (mh_receive_one G) msgs h1 = Inr h'" by (auto simp: rbind_eq_Ok)
  with receive_one_wf [OF Cons.prems(1) h1(1)] Cons.IH [OF _ h1(2)] show ?case by simp
qed simp

lemma slice_eq_Ok: "slice xs i j = Inr ys \<longleftrightarrow> i \<le> j \<and> j \<le> length xs \<and> ys = take (j - i) (drop i xs)"
  by (auto simp: slice_def)

lemma index_eq_Ok: "index xs i = Inr x \<longleftrightarrow> i < length xs \<and> x = xs ! i"
  by (auto simp: index_def)

text \<open>Only what a decoder reads matters; bytes behind it do not.\<close>

lemma deserialize_append:
  assumes "cmd_deserialize G data = Inr c"
  shows "cmd_deserialize G (data @ rest) = Inr c"
proof -
  have "index (data @ rest) i = Inr x" if "index data i = Inr x" for i x using that by (simp add: index_eq_Ok nth_append)
  moreover have "slice (data @ rest) i j = Inr ys" if "slice data i j = Inr ys" for i j ys using that by (simp add: slice_eq_Ok)
  ultimately show ?thesis
    using assms unfolding cmd_deserialize_def rbind_eq_Ok Let_def by (elim exE conjE) (fastforce simp: rbind_eq_Ok split: if_splits)
qed

lemma take_drop_rest: "drop i xs = take k (drop i xs) @ drop (k + i) xs"
  by (metis append_take_drop_id drop_drop)

lemma deserialized:
  assumes "cmd_deserialize G data = Inr c"
  shows "cmd_wf c \<and> (case c of AggCommit _ _ \<Rightarrow> 34 \<le> length data | _ \<Rightarrow> \<exists>rest. data = cmd_serialize G c @ rest)"
proof -
  have head: "data = [data ! 0, data ! 1] @ drop 2 data" if "2 \<le> length data"
    using that by (cases data; cases "tl data") auto
  have bits: "data = [data ! 0, data ! 1] @ to_le_bytes 4 (from_le_bytes (take 4 (drop 2 data)) :: u32) @ drop 6 data" if "6 \<le> length data"
  proof -
    have "to_le_bytes 4 (from_le_bytes (take 4 (drop 2 data)) :: u32) = take 4 (drop 2 data)"
      using that by (intro to_le_bytes_from_le_bytes) simp_all
    then show ?thesis using head that take_drop_rest [of 2 data 4] by simp
  qed
  show ?thesis
  proof (cases c)
    case (Handshake pid)
    then have "2 \<le> length data" "data ! 0 = 1" "data ! 1 = pid"
      using assms by (auto simp: cmd_deserialize_def rbind_eq_Ok index_eq_Ok Let_def split: if_splits)
    then have "data = cmd_serialize G c @ drop 2 data" using head Handshake by (simp add: cmd_serialize_def)
    then show ?thesis using Handshake by auto
  next
    case (BeaverExchange sid b x y)
    let ?n = "div_ceil (unat b) 8"
    from BeaverExchange have r: "data ! 0 = 0" "data ! 1 = sid" "b = from_le_bytes (take 4 (drop 2 data))" "6 + 2 * ?n \<le> length data"
        "x = take ?n (drop 6 data)" "y = take ?n (drop (6 + ?n) data)"
      using assms by (auto simp: cmd_deserialize_def rbind_eq_Ok index_eq_Ok slice_eq_Ok Let_def split: if_splits)
    have len: "length x = ?n" "length y = ?n" using r(4) unfolding r(5,6) by simp_all
    have "drop 6 data = x @ drop (6 + ?n) data" unfolding r(5) using take_drop_rest [of 6 data ?n] by (simp only: add.commute)
    moreover have "drop (6 + ?n) data = y @ drop (6 + 2 * ?n) data" unfolding r(6)
      using take_drop_rest [of "6 + ?n" data ?n] by (simp only: mult_2 ac_simps)
    moreover have "data = [0, sid] @ to_le_bytes 4 b @ drop 6 data" using bits r(4) unfolding r(1,2) r(3) [symmetric] by simp
    ultimately have "data = cmd_serialize G c @ drop (6 + 2 * ?n) data" by (simp only: BeaverExchange cmd_serialize_def cmd.case append_assoc)
    then show ?thesis using BeaverExchange len by auto
  next
    case (DabitExchange sid b x)
    let ?n = "div_ceil (unat b) 8"
    from DabitExchange have r: "data ! 0 = 2" "data ! 1 = sid" "b = from_le_bytes (take 4 (drop 2 data))" "6 + ?n \<le> length data"
        "x = take ?n (drop 6 data)"
      using assms by (auto simp: cmd_deserialize_def rbind_eq_Ok index_eq_Ok slice_eq_Ok Let_def split: if_splits)
    have len: "length x = ?n" using r(4) unfolding r(5) by simp
    have "drop 6 data = x @ drop (6 + ?n) data" unfolding r(5) using take_drop_rest [of 6 data ?n] by (simp only: add.commute)
    moreover have "data = [2, sid] @ to_le_bytes 4 b @ drop 6 data" using bits r(4) unfolding r(1,2) r(3) [symmetric] by simp
    ultimately have "data = cmd_serialize G c @ drop (6 + ?n) data" by (simp only: DabitExchange cmd_serialize_def cmd.case append_assoc)
    then show ?thesis using DabitExchange len by auto
  next
    case (AggCommit sid cm)
    then show ?thesis using assms by (auto simp: cmd_deserialize_def rbind_eq_Ok index_eq_Ok slice_eq_Ok Let_def split: if_splits)
  qed
qed
section \<open>Properties\<close>

text \<open>C27. Every well-formed command decodes to itself from its encoding. Decoding panics on an empty message, on an unknown type and on every
  proper prefix of an encoding. It reads no further than the command: bytes behind an encoding are accepted and ignored, also behind a command
  of fixed size. Except for commitments, which the group library decodes, nothing else is accepted: what decodes to a command is the encoding
  of this well-formed command, followed by any bytes.\<close>

theorem cmd_decode_encode:
  assumes "codec_ok G" and "cmd_wf c"
  shows "cmd_deserialize G (cmd_serialize G c) = Inr c \<and> (\<forall>rest. cmd_deserialize G (cmd_serialize G c @ rest) = Inr c) \<and>
    cmd_deserialize G [] = Inl IndexOutOfBounds \<and> (\<forall>b rest. 3 < b \<longrightarrow> cmd_deserialize G (b # rest) = Inl ExplicitPanic) \<and>
    (\<forall>k<length (cmd_serialize G c). cmd_deserialize G (take k (cmd_serialize G c)) = Inl IndexOutOfBounds) \<and>
    (\<forall>data c'. cmd_deserialize G data = Inr c' \<longrightarrow>
       cmd_wf c' \<and> (case c' of AggCommit _ _ \<Rightarrow> 34 \<le> length data | _ \<Rightarrow> \<exists>rest. data = cmd_serialize G c' @ rest))"
proof (intro conjI [OF deserialize_serialize [OF assms]] conjI [OF allI [OF deserialize_append [OF deserialize_serialize [OF assms]]]] conjI)
  show "cmd_deserialize G [] = Inl IndexOutOfBounds" by (simp add: cmd_deserialize_def index_def)
  show "\<forall>b rest. 3 < b \<longrightarrow> cmd_deserialize G (b # rest) = Inl ExplicitPanic"
  proof (intro allI impI)
    fix b :: u8 and rest
    assume "3 < b"
    then have "b \<noteq> 0" "b \<noteq> 1" "b \<noteq> 2" "b \<noteq> 3" by auto
    then show "cmd_deserialize G (b # rest) = Inl ExplicitPanic" by (simp add: cmd_deserialize_def index_def)
  qed
  show "\<forall>k<length (cmd_serialize G c). cmd_deserialize G (take k (cmd_serialize G c)) = Inl IndexOutOfBounds"
    using deserialize_prefix [OF assms] by blast
  show "\<forall>data c'. cmd_deserialize G data = Inr c' \<longrightarrow>
       cmd_wf c' \<and> (case c' of AggCommit _ _ \<Rightarrow> 34 \<le> length data | _ \<Rightarrow> \<exists>rest. data = cmd_serialize G c' @ rest)"
    using deserialized by blast
qed

theorem cmd_decode_encode_witness:
  "cmd_deserialize ring256_group (cmd_serialize ring256_group (BeaverExchange 1 9 [1, 2] [3, 4])) = Inr (BeaverExchange 1 9 [1, 2] [3, 4]) \<and>
   cmd_deserialize ring256_group (take 9 (cmd_serialize ring256_group (BeaverExchange 1 9 [1, 2] [3, 4]))) = Inl IndexOutOfBounds \<and>
   cmd_deserialize ring256_group [1, 5, 9] = Inr (Handshake 5)"
proof -
  let ?c = "BeaverExchange 1 9 [1, 2] [3, 4] :: 256 word cmd"
  have "cmd_wf ?c" "9 < length (cmd_serialize ring256_group ?c)" by (simp_all add: div_ceil_def cmd_serialize_def)
  then have "cmd_deserialize ring256_group (cmd_serialize ring256_group ?c) = Inr ?c"
      "cmd_deserialize ring256_group (take 9 (cmd_serialize ring256_group ?c)) = Inl IndexOutOfBounds"
    using cmd_decode_encode [OF codec_ok_ring256, of ?c] by blast+
  moreover have "cmd_deserialize ring256_group (cmd_serialize ring256_group (Handshake 5) @ [9]) = Inr (Handshake 5)"
    using cmd_decode_encode [OF codec_ok_ring256, of "Handshake 5"] by simp
  ultimately show ?thesis by (simp add: cmd_serialize_def [of _ "Handshake 5"])
qed

text \<open>Handling a command: a handshake panics, and so does a command with the handler's own id, whatever it
  carries. Any other command that is accepted leaves the identity and the peers of the handler alone and adds
  exactly one item to exactly one of the three storages.\<close>

lemma handle_cmd_one_item:
  "(case c of Handshake _ \<Rightarrow> mh_handle_cmd h c = Inl ExplicitPanic
    | _ \<Rightarrow> if sender_id c = mh_owner_id h then mh_handle_cmd h c = Inl AssertionFailed
        else case mh_handle_cmd h c of
            Inl e \<Rightarrow> \<not> cmd_wf c
          | Inr h' \<Rightarrow> mh_owner_id h' = mh_owner_id h \<and> mh_peers h' = mh_peers h \<and>
              ((\<exists>x. mh_active_beaver_storage h' = mh_active_beaver_storage h @ [x]) \<and>
                 mh_active_dabit_storage h' = mh_active_dabit_storage h \<and> mh_commit_storage h' = mh_commit_storage h \<or>
               (\<exists>x. mh_active_dabit_storage h' = mh_active_dabit_storage h @ [x]) \<and>
                 mh_active_beaver_storage h' = mh_active_beaver_storage h \<and> mh_commit_storage h' = mh_commit_storage h \<or>
               (\<exists>x. mh_commit_storage h' = mh_commit_storage h @ [x]) \<and>
                 mh_active_beaver_storage h' = mh_active_beaver_storage h \<and> mh_active_dabit_storage h' = mh_active_dabit_storage h))"
  by (cases c) (auto simp: mh_handle_cmd_def rbind_eq_Ok rbind_eq_Panic ba_from_byte_slice_Ok split: sum.splits)

text \<open>C22. Whatever bytes the connections deliver, in whatever order, a well-formed handler either panics or stays well-formed:
  every stored pair of arrays has one size, every stored array is well-formed, the identity and the peers of the
  handler are the same, and exactly one item was stored per message.\<close>

theorem handler_stays_wf:
  assumes "mh_wf h"
  shows "case rfold (mh_receive_one G) msgs h of
      Inl e \<Rightarrow> True
    | Inr h' \<Rightarrow> mh_wf h' \<and> mh_owner_id h' = mh_owner_id h \<and> mh_peers h' = mh_peers h \<and>
        mh_stored h' = mh_stored h + length (filter (\<lambda>m. m \<noteq> None) msgs)"
  using receive_wf [OF assms] by (auto split: sum.split)

theorem handler_stays_wf_witness:
  "\<exists>h'. rfold (mh_receive_one ring256_group) [None, Some (cmd_serialize ring256_group (DabitExchange 3 9 [255, 255]))] (mh_new 1) = Inr h' \<and>
    mh_wf h' \<and> mh_stored h' = 1"
proof -
  have c: "cmd_wf (DabitExchange 3 9 [255, 255] :: 256 word cmd)" by (simp add: div_ceil_def)
  have "\<exists>h'. mh_handle_cmd (mh_new 1) (DabitExchange 3 9 [255, 255] :: 256 word cmd) = Inr h'"
    by (simp add: mh_handle_cmd_def mh_new_def ba_from_byte_slice_Ok div_ceil_def)
  then obtain h' where "rfold (mh_receive_one ring256_group) [None, Some (cmd_serialize ring256_group (DabitExchange 3 9 [255, 255]))] (mh_new 1) = Inr h'"
    using deserialize_serialize [OF codec_ok_ring256 c] by (auto simp: mh_receive_one_def)
  moreover have "mh_wf (mh_new 1 :: 256 word message_handler)" by (simp add: mh_wf_def mh_new_def)
  moreover have "mh_stored (mh_new 1 :: 256 word message_handler) = 0" by (simp add: mh_stored_def mh_new_def)
  ultimately show ?thesis
    using handler_stays_wf [where h = "mh_new 1" and G = ring256_group and msgs = "[None, Some (cmd_serialize ring256_group (DabitExchange 3 9 [255, 255]))]"] by auto
qed

end
