(* ===== verification/Layer.thy ===== *)
theory Layer
  imports Beaver Connection
begin

text \<open>
  \<open>src/prc/layer.rs\<close>: a layer of AND gates. Tickets reserve ranges of its streams, operations fill
  the input streams \<open>x\<close> and \<open>y\<close> from constants or from the outputs of the previous layer, and one
  exchange of blinded shares computes shares of the output stream \<open>z\<close>. The layer is a state machine
  (\<open>layer_state\<close>); every function checks that it is called in its state. The lemmas give the effect
  of each phase on the streams, and \<open>layer_interact_and\<close> shows that after an interaction the
  outputs of all parties sum up to the conjunction of their inputs.
\<close>

section \<open>The layer\<close>

datatype layer_state =
    Ticketing
  | DataInitialized
  | OperationsExecuted
  | SendingBeaverShares
  | BeaverSharesReceived
  | Finished

record ticket =
  t_layer_num :: nat
  t_st_bit :: nat
  t_end_bit :: nat

definition ticket_st_byte :: "ticket \<Rightarrow> nat res" where
  "ticket_st_byte t = rbind (rassert (t_st_bit t mod 8 = 0) AssertionFailed) (\<lambda>_. Ok (t_st_bit t div 8))"

definition ticket_end_byte :: "ticket \<Rightarrow> nat" where
  "ticket_end_byte t = div_ceil (t_end_bit t) 8"

datatype layer_source =
    Input bitarray
  | TakeZ ticket

datatype layer_dest =
    Relay ticket nat
  | NoDest

datatype mpc_operation =
    OpCopy layer_source layer_dest
  | OpReplicate nat layer_source layer_dest
  | OpBitExpand nat layer_source layer_dest

record layer =
  ly_party_const :: bool
  ly_layer_num :: nat
  ly_current_size :: nat
  ly_state :: layer_state
  ly_and_data :: "d2bitarray option"
  ly_beaver_data :: "d2bitarray option"
  ly_operations :: "mpc_operation list"

definition layer_new :: "bool \<Rightarrow> nat \<Rightarrow> layer" where
  "layer_new party_const layer_num =
     \<lparr>ly_party_const = party_const, ly_layer_num = layer_num, ly_current_size = 0, ly_state = Ticketing,
      ly_and_data = None, ly_beaver_data = None, ly_operations = []\<rparr>"

definition request_ticket :: "layer \<Rightarrow> nat \<Rightarrow> (ticket \<times> layer) res" where
  "request_ticket ly bit_size =
     (if ly_state ly \<noteq> Ticketing then Panic ExplicitPanic
      else
        let st_bit = ly_current_size ly * 8; end_bit = st_bit + bit_size; byte_size = div_ceil bit_size 8 in
        Ok (\<lparr>t_layer_num = ly_layer_num ly, t_st_bit = st_bit, t_end_bit = end_bit\<rparr>,
            ly\<lparr>ly_current_size := ly_current_size ly + byte_size\<rparr>))"

definition add_operation :: "layer \<Rightarrow> mpc_operation \<Rightarrow> layer res" where
  "add_operation ly op =
     (if ly_state ly \<noteq> Ticketing then Panic ExplicitPanic
      else Ok (ly\<lparr>ly_operations := ly_operations ly @ [op]\<rparr>))"

definition check_ticket :: "layer \<Rightarrow> ticket \<Rightarrow> unit res" where
  "check_ticket ly t =
     (if ly_state ly \<noteq> DataInitialized \<and> ly_state ly \<noteq> Finished then Panic ExplicitPanic
      else if t_layer_num t \<noteq> ly_layer_num ly then Panic ExplicitPanic
      else if ticket_end_byte t > ly_current_size ly then Panic ExplicitPanic
      else Ok ())"

text \<open>
  \<open>get_mut_array_from_destination\<close>: the start bit and the array of the destination's stream; what
  \<open>f\<close> makes of the array is stored back.
\<close>

definition with_mut_array_from_destination ::
  "layer \<Rightarrow> layer_dest \<Rightarrow> (nat \<Rightarrow> bitarray \<Rightarrow> bitarray res) \<Rightarrow> layer res" where
  "with_mut_array_from_destination ly dest f =
     (case dest of
        NoDest \<Rightarrow> Panic ExplicitPanic
      | Relay t stream \<Rightarrow>
          if stream \<noteq> 0 \<and> stream \<noteq> 1 then Panic ExplicitPanic
          else
            rbind (check_ticket ly t) (\<lambda>_.
            rbind (expect (ly_and_data ly)) (\<lambda>d.
            rbind (d2_with_mut_array d stream (f (t_st_bit t))) (\<lambda>d.
            Ok (ly\<lparr>ly_and_data := Some d\<rparr>)))))"

definition read_output :: "profile \<Rightarrow> layer \<Rightarrow> ticket \<Rightarrow> bitarray res" where
  "read_output P ly t =
     (if ly_state ly \<noteq> Finished then Panic ExplicitPanic
      else
        rbind (check_ticket ly t) (\<lambda>_.
        rbind (expect (ly_and_data ly)) (\<lambda>d.
        rbind (d2_get_array d 2) (\<lambda>z.
        rbind (ticket_st_byte t) (\<lambda>st.
        rbind (ba_to_slice z st (ticket_end_byte t)) (\<lambda>out.
        rbind (sub_usize P (t_end_bit t) (t_st_bit t)) (\<lambda>n.
        ba_shrink_to_partial_last_byte out n)))))))"

definition extract_src_data :: "profile \<Rightarrow> layer_source \<Rightarrow> layer option \<Rightarrow> bitarray res" where
  "extract_src_data P inp prev_layer =
     (case inp of
        Input data \<Rightarrow> Ok data
      | TakeZ t \<Rightarrow> rbind (expect prev_layer) (\<lambda>prev. read_output P prev t))"

definition exec_operation :: "profile \<Rightarrow> mpc_operation \<Rightarrow> layer option \<Rightarrow> layer \<Rightarrow> layer res" where
  "exec_operation P op prev_layer ly =
     (case op of
        OpCopy inp out \<Rightarrow>
          rbind (extract_src_data P inp prev_layer) (\<lambda>data.
          with_mut_array_from_destination ly out (\<lambda>start_bit dest_array.
            ba_copy_from dest_array start_bit data))
      | OpReplicate n inp out \<Rightarrow>
          rbind (extract_src_data P inp prev_layer) (\<lambda>data.
          with_mut_array_from_destination ly out (\<lambda>start_bit dest_array.
            rfold (\<lambda>i dest_array. ba_copy_from dest_array (start_bit + i * ba_bit_size data) data)
              [0..<n] dest_array))
      | OpBitExpand n inp out \<Rightarrow>
          rbind (ba_new n) (\<lambda>zeroes.
          rbind (ba_ones n) (\<lambda>ones.
          rbind (extract_src_data P inp prev_layer) (\<lambda>data.
          with_mut_array_from_destination ly out (\<lambda>start_bit dest_array.
            rfold (\<lambda>i dest_array. rbind (ba_get data i) (\<lambda>b.
                if b then ba_copy_from dest_array (start_bit + i * n) ones
                else ba_copy_from dest_array (start_bit + i * n) zeroes))
              [0..<ba_bit_size data] dest_array)))))"

definition end_ticketing_phase :: "layer \<Rightarrow> beaver_provider \<Rightarrow> (layer \<times> beaver_provider) res" where
  "end_ticketing_phase ly bp =
     rbind (rassert (ly_state ly = Ticketing) AssertionFailed) (\<lambda>_.
     rbind (d2_zeros 3 (ly_current_size ly * 8)) (\<lambda>zeros.
     rbind (bp_take bp (ly_current_size ly)) (\<lambda>(beaver, bp).
     Ok (ly\<lparr>ly_and_data := Some zeros, ly_beaver_data := Some beaver, ly_state := DataInitialized\<rparr>, bp))))"

text \<open>\<open>while let Some(op) = self.operations.pop()\<close>: from the last operation to the first.\<close>

definition execute_operations :: "profile \<Rightarrow> layer option \<Rightarrow> layer \<Rightarrow> layer res" where
  "execute_operations P prev_layer ly =
     rbind (rassert (ly_state ly = DataInitialized) AssertionFailed) (\<lambda>_.
     rbind (rfold (\<lambda>op ly. exec_operation P op prev_layer ly) (rev (ly_operations ly))
              (ly\<lparr>ly_operations := []\<rparr>)) (\<lambda>ly.
     Ok (ly\<lparr>ly_state := OperationsExecuted\<rparr>)))"

definition blind_and_with_beaver :: "layer \<Rightarrow> layer res" where
  "blind_and_with_beaver ly =
     rbind (rassert (ly_state ly = OperationsExecuted) AssertionFailed) (\<lambda>_.
     rbind (expect (ly_and_data ly)) (\<lambda>and_data.
     rbind (d2_unpack_as_beaver and_data) (\<lambda>(x, y, _).
     rbind (expect (ly_beaver_data ly)) (\<lambda>beaver_data.
     rbind (d2_unpack_as_beaver beaver_data) (\<lambda>(a, b, c).
     rbind (ba_inplace_xor a x) (\<lambda>a.
     rbind (ba_inplace_xor b y) (\<lambda>b.
     Ok (ly\<lparr>ly_beaver_data := Some (beaver_data\<lparr>d2_arrays := [a, b, c]\<rparr>),
            ly_state := SendingBeaverShares\<rparr>))))))))"

definition get_beaver_out_shares :: "layer \<Rightarrow> d2bitarray res" where
  "get_beaver_out_shares ly =
     rbind (expect (ly_beaver_data ly)) (\<lambda>beaver_data.
     rbind (d2_unpack_as_beaver beaver_data) (\<lambda>(u, v, _).
     rbind (ba_clone u) (\<lambda>u.
     rbind (ba_clone v) (\<lambda>v.
     Ok (d2_new [u, v])))))"

definition recons_beaver_uv :: "d2bitarray list \<Rightarrow> layer \<Rightarrow> layer res" where
  "recons_beaver_uv beaver_shares ly =
     rbind (rassert (ly_state ly = SendingBeaverShares) AssertionFailed) (\<lambda>_.
     rbind (rfold (\<lambda>beaver_share ly.
              rbind (expect (ly_beaver_data ly)) (\<lambda>beaver_data.
              rbind (d2_beaver_xor_d2 beaver_data beaver_share) (\<lambda>beaver_data.
              Ok (ly\<lparr>ly_beaver_data := Some beaver_data\<rparr>)))) beaver_shares ly) (\<lambda>ly.
     Ok (ly\<lparr>ly_state := BeaverSharesReceived\<rparr>)))"

definition finish_and_exchange :: "layer \<Rightarrow> layer res" where
  "finish_and_exchange ly =
     rbind (rassert (ly_state ly = BeaverSharesReceived) AssertionFailed) (\<lambda>_.
     rbind (expect (ly_and_data ly)) (\<lambda>and_data.
     rbind (d2_unpack_as_beaver and_data) (\<lambda>(x, y, z).
     rbind (expect (ly_beaver_data ly)) (\<lambda>beaver_data.
     rbind (d2_unpack_as_beaver beaver_data) (\<lambda>(u, v, c).
     rbind (if ly_party_const ly then ba_mut_and z u v else Ok z) (\<lambda>z.
     rbind (ba_inplace_and u y) (\<lambda>u.
     rbind (ba_inplace_and v x) (\<lambda>v.
     rbind (ba_inplace_xor z u) (\<lambda>z.
     rbind (ba_inplace_xor z v) (\<lambda>z.
     rbind (ba_inplace_xor z c) (\<lambda>z.
     Ok (ly\<lparr>ly_and_data := Some (and_data\<lparr>d2_arrays := [x, y, z]\<rparr>),
            ly_beaver_data := Some (beaver_data\<lparr>d2_arrays := [u, v, c]\<rparr>),
            ly_state := Finished\<rparr>))))))))))))"

definition layer_interact ::
  "profile \<Rightarrow> ('s, 'g) group_ops \<Rightarrow> layer option \<Rightarrow> beaver_provider \<Rightarrow> 'g message_handler \<Rightarrow> layer \<Rightarrow>
     (u8 list, layer \<times> beaver_provider \<times> 'g message_handler) prog" where
  "layer_interact P G prev_layer beaver_provider message_handler ly =
     pbind (lift_res (end_ticketing_phase ly beaver_provider)) (\<lambda>(ly, beaver_provider).
     pbind (lift_res (execute_operations P prev_layer ly)) (\<lambda>ly.
     pbind (lift_res (blind_and_with_beaver ly)) (\<lambda>ly.
     pbind (lift_res (get_beaver_out_shares ly)) (\<lambda>rec_shares.
     pbind (mh_send_beaver_shares G message_handler rec_shares) (\<lambda>_.
     pbind (mh_receive_beaver_shares G message_handler) (\<lambda>(rec_shares, message_handler).
     pbind (lift_res (recons_beaver_uv rec_shares ly)) (\<lambda>ly.
     pbind (lift_res (finish_and_exchange ly)) (\<lambda>ly.
     Done (ly, beaver_provider, message_handler)))))))))"

section \<open>Operations\<close>

fun op_source :: "mpc_operation \<Rightarrow> layer_source" where
  "op_source (OpCopy s _) = s" | "op_source (OpReplicate _ s _) = s" | "op_source (OpBitExpand _ s _) = s"

fun op_dest :: "mpc_operation \<Rightarrow> layer_dest" where
  "op_dest (OpCopy _ d) = d" | "op_dest (OpReplicate _ _ d) = d" | "op_dest (OpBitExpand _ _ d) = d"

text \<open>What an operation writes for a source of \<open>sz\<close> bits \<open>g\<close>: the number of bits, and each of them.\<close>

fun op_len :: "mpc_operation \<Rightarrow> nat \<Rightarrow> nat" where
  "op_len (OpCopy _ _) sz = sz" | "op_len (OpReplicate n _ _) sz = n * sz" | "op_len (OpBitExpand n _ _) sz = sz * n"

fun op_bit :: "mpc_operation \<Rightarrow> nat \<Rightarrow> (nat \<Rightarrow> bool) \<Rightarrow> nat \<Rightarrow> bool" where
  "op_bit (OpCopy _ _) sz g i = g i"
| "op_bit (OpReplicate _ _ _) sz g i = g (i mod sz)"
| "op_bit (OpBitExpand n _ _) sz g i = g (i div n)"

text \<open>An empty block cannot be expanded.\<close>

fun op_ok :: "mpc_operation \<Rightarrow> bool" where
  "op_ok (OpBitExpand n _ _) \<longleftrightarrow> 0 < n" | "op_ok _ \<longleftrightarrow> True"

lemma copy_blocks:
  assumes "ba_wf d" "\<And>i. i < n \<Longrightarrow> ba_sized w (a i)" "st + n * w \<le> ba_bit_size d" "0 < w"
  shows "rfold (\<lambda>i d. ba_copy_from d (st + i * w) (a i)) [0..<n] d
    = Inr (ba_make (ba_bit_size d) (\<lambda>j. if st \<le> j \<and> j < st + n * w
        then mbit (a ((j - st) div w)) ((j - st) mod w) else mbit d j))"
  using assms(2,3)
proof (induction n)
  case 0
  have "(\<lambda>j. if st \<le> j \<and> j < st + 0 * w then mbit (a ((j - st) div w)) ((j - st) mod w) else mbit d j) = mbit d"
    by auto
  then show ?case using ba_wf_make_eq [OF assms(1)] by simp
next
  case (Suc n)
  let ?g = "\<lambda>n j. if st \<le> j \<and> j < st + n * w then mbit (a ((j - st) div w)) ((j - st) mod w) else mbit d j"
  let ?d = "ba_make (ba_bit_size d) (?g n)"
  have a: "ba_wf (a n)" "ba_bit_size (a n) = w" using Suc.prems(1) by simp_all
  have "ba_copy_from ?d (st + n * w) (a n) = Inr (ba_make (ba_bit_size ?d) (\<lambda>j. if st + n * w \<le> j \<and> j < st + n * w + ba_bit_size (a n)
      then mbit (a n) (j - (st + n * w)) else mbit ?d j))"
    using Suc.prems(2) a by (intro ba_copy_from_Ok) (simp_all add: algebra_simps)
  also have "\<dots> = Inr (ba_make (ba_bit_size d) (?g (Suc n)))"
  proof -
    have pt: "(if st + n * w \<le> j \<and> j < st + n * w + w then mbit (a n) (j - (st + n * w)) else ?g n j) = ?g (Suc n) j" for j
    proof (cases "st + n * w \<le> j \<and> j < st + n * w + w")
      case True
      then obtain r where r: "j = st + n * w + r" "r < w" by (metis nat_add_left_cancel_less le_Suc_ex)
      then have "(j - st) div w = n" "(j - st) mod w = r" by (simp_all add: div_mult_self3)
      with r show ?thesis by simp
    next
      case False
      then show ?thesis by auto
    qed
    show ?thesis
      unfolding ba_make_sel a(2)
    proof (intro arg_cong [of _ _ Inr] ba_make_cong)
      fix j assume "j < cap (ba_bit_size d)"
      then have eq: "mbit ?d j = ?g n j" by simp
      show "(if st + n * w \<le> j \<and> j < st + n * w + w then mbit (a n) (j - (st + n * w)) else mbit ?d j) = ?g (Suc n) j"
        unfolding eq by (rule pt)
    qed
  qed
  finally show ?case using Suc by (simp add: rfold_append)
qed

lemma exec_copy_loop:
  assumes "extract_src_data P (op_source op) prev = Inr data" "ba_sized sz data" "0 < sz"
    and "op_ok op"
  shows "\<exists>body. exec_operation P op prev ly = with_mut_array_from_destination ly (op_dest op) body \<and>
    (\<forall>st d. ba_wf d \<longrightarrow> st + op_len op sz \<le> ba_bit_size d \<longrightarrow> body st d
      = Inr (ba_make (ba_bit_size d) (\<lambda>j. if st \<le> j \<and> j < st + op_len op sz
          then op_bit op sz (mbit data) (j - st) else mbit d j)))"
proof (cases op)
  case (OpCopy s d)
  then show ?thesis
    using assms(1,2) by (auto simp: exec_operation_def ba_copy_from_Ok intro!: exI)
next
  case (OpReplicate n s d)
  have "rfold (\<lambda>i dest. ba_copy_from dest (st + i * sz) data) [0..<n] d
      = Inr (ba_make (ba_bit_size d) (\<lambda>j. if st \<le> j \<and> j < st + n * sz then mbit data ((j - st) mod sz) else mbit d j))"
    if "ba_wf d" "st + n * sz \<le> ba_bit_size d" for st d
    using copy_blocks [OF that(1), where n = n and w = sz and a = "\<lambda>_. data" and st = st] that(2) assms(2,3) by simp
  then show ?thesis using assms(1,2) by (auto simp: OpReplicate exec_operation_def)
next
  case (OpBitExpand n s d)
  have n: "0 < n" using assms(4) OpBitExpand by simp
  let ?a = "\<lambda>i. if mbit data i then ba_make n (\<lambda>_. True) else ba_make n (\<lambda>_. False)"
  have "rfold (\<lambda>i dest. rbind (ba_get data i) (\<lambda>b. if b then ba_copy_from dest (st + i * n) (ba_make n (\<lambda>_. True))
        else ba_copy_from dest (st + i * n) (ba_make n (\<lambda>_. False)))) [0..<sz] d
      = rfold (\<lambda>i dest. ba_copy_from dest (st + i * n) (?a i)) [0..<sz] d" for st d
    using assms(2) by (intro rfold_cong) (auto simp: ba_get_Ok)
  moreover have "mbit (?a i) k = mbit data i" if "k < n" for i k
    using that cap_ge [of n] by simp
  then have "rfold (\<lambda>i dest. ba_copy_from dest (st + i * n) (?a i)) [0..<sz] d
      = Inr (ba_make (ba_bit_size d) (\<lambda>j. if st \<le> j \<and> j < st + sz * n then mbit data ((j - st) div n) else mbit d j))"
    if "ba_wf d" "st + sz * n \<le> ba_bit_size d" for st d
    using copy_blocks [OF that(1), where n = sz and w = n and a = ?a and st = st] that(2) n by (auto intro!: ba_make_cong)
  ultimately show ?thesis
    using assms(1,2) n by (auto simp: OpBitExpand exec_operation_def ba_new_Ok ba_ones_Ok)
qed

text \<open>The effect of one operation on the streams of a layer.\<close>

lemma exec_operation_Ok:
  assumes "extract_src_data P (op_source op) prev = Inr data" "ba_sized sz data" "0 < sz"
    and "op_ok op"
    and "op_dest op = Relay t s" "s < 2" "check_ticket ly t = Inr ()"
    and "ly_and_data ly = Some (d2_make 3 m f)" "t_st_bit t + op_len op sz \<le> m"
  shows "exec_operation P op prev ly = Inr (ly\<lparr>ly_and_data := Some (d2_make 3 m (\<lambda>j i.
    if j = s \<and> t_st_bit t \<le> i \<and> i < t_st_bit t + op_len op sz then op_bit op sz (mbit data) (i - t_st_bit t)
    else f j i))\<rparr>)"
proof -
  obtain body where body: "exec_operation P op prev ly = with_mut_array_from_destination ly (op_dest op) body"
      "\<And>st d. ba_wf d \<Longrightarrow> st + op_len op sz \<le> ba_bit_size d \<Longrightarrow> body st d
        = Inr (ba_make (ba_bit_size d) (\<lambda>j. if st \<le> j \<and> j < st + op_len op sz
          then op_bit op sz (mbit data) (j - st) else mbit d j))"
    using exec_copy_loop [OF assms(1-4), where ly = ly] by blast
  let ?h = "\<lambda>i. if t_st_bit t \<le> i \<and> i < t_st_bit t + op_len op sz then op_bit op sz (mbit data) (i - t_st_bit t)
    else mbit (ba_make m (f s)) i"
  have s3: "s < 3" using assms(6) by simp
  have "body (t_st_bit t) (d2_arrays (d2_make 3 m f) ! s) = Inr (ba_make m ?h)"
    using body(2) [of "ba_make m (f s)"] assms(9) s3 by simp
  then have "d2_with_mut_array (d2_make 3 m f) s (body (t_st_bit t))
      = Inr ((d2_make 3 m f)\<lparr>d2_arrays := (d2_arrays (d2_make 3 m f))[s := ba_make m ?h]\<rparr>)"
    using s3 by (intro d2_with_mut_array_Ok) simp_all
  also have "(d2_make 3 m f)\<lparr>d2_arrays := (d2_arrays (d2_make 3 m f))[s := ba_make m ?h]\<rparr>
      = d2_make 3 m (\<lambda>j i. if j = s \<and> t_st_bit t \<le> i \<and> i < t_st_bit t + op_len op sz
          then op_bit op sz (mbit data) (i - t_st_bit t) else f j i)"
    using s3 by (auto simp: d2_make_def nth_list_update intro!: nth_equalityI ba_make_cong)
  finally show ?thesis
    using assms(7,8) less_2_cases [OF assms(6)]
    by (auto simp: body(1) assms(5) with_mut_array_from_destination_def)
qed


section \<open>The AND exchange of one party\<close>

text \<open>
  Blinding, reconstruction and the final formula on arrays given by their bits, for a layer of
  \<open>m\<close> bits with input streams \<open>x\<close>, \<open>y\<close> and a block of triplets \<open>a\<close>, \<open>b\<close>, \<open>c\<close>.
\<close>

lemma d2_unpack_make:
  "d2_unpack_as_beaver (d2_make 3 m f) = Inr (ba_make m (f 0), ba_make m (f 1), ba_make m (f 2))"
  by (simp add: d2_unpack_as_beaver_def)

lemma d2_make_3: "\<lparr>d2_arrays = [ba_make m a, ba_make m b, ba_make m c]\<rparr> = d2_make 3 m (\<lambda>j. [a, b, c] ! j)"
  by (simp add: d2_make_def numeral_3_eq_3)

lemma d2_update_3: "(d :: d2bitarray)\<lparr>d2_arrays := xs\<rparr> = \<lparr>d2_arrays = xs\<rparr>"
  by (cases d) simp

lemma blind_Ok:
  assumes "ly_state ly = OperationsExecuted" "ly_and_data ly = Some (d2_make 3 m f)"
    and "ly_beaver_data ly = Some (d2_make 3 m g)"
  shows "blind_and_with_beaver ly = Inr (ly\<lparr>ly_beaver_data := Some (d2_make 3 m
      (\<lambda>j. if j < 2 then \<lambda>i. g j i \<noteq> f j i else g j)), ly_state := SendingBeaverShares\<rparr>)"
proof -
  have "d2_make 3 m (\<lambda>j. [\<lambda>i. mbit (ba_make m (g 0)) i \<noteq> mbit (ba_make m (f 0)) i,
      \<lambda>i. mbit (ba_make m (g 1)) i \<noteq> mbit (ba_make m (f 1)) i, g 2] ! j)
    = d2_make 3 m (\<lambda>j. if j < 2 then \<lambda>i. g j i \<noteq> f j i else g j)"
    by (rule d2_make_cong) (auto simp: numeral_3_eq_3 numeral_2_eq_2 less_Suc_eq)
  then show ?thesis
    using assms
    by (simp add: blind_and_with_beaver_def d2_unpack_make ba_inplace_xor_Ok d2_update_3 d2_make_3 del: One_nat_def)
qed

lemma get_beaver_out_shares_Ok:
  assumes "ly_beaver_data ly = Some (d2_make 3 m g)" "0 < m"
  shows "get_beaver_out_shares ly = Inr (d2_make 2 m g)"
proof -
  have "d2_new [ba_make m (g 0), ba_make m (g 1)] = d2_make 2 m g"
    by (simp add: d2_new_def d2_make_def numeral_2_eq_2)
  then show ?thesis
    using assms by (simp add: get_beaver_out_shares_def d2_unpack_make ba_clone_Ok del: One_nat_def)
qed

lemma d2_beaver_xor_Ok:
  "d2_beaver_xor_d2 (d2_make 3 m g) (d2_make 2 m h)
     = Inr (d2_make 3 m (\<lambda>j. if j < 2 then \<lambda>i. g j i \<noteq> h j i else g j))"
proof -
  have "(d2_make 3 m g)\<lparr>d2_arrays := (d2_arrays (d2_make 3 m g))[0 := ba_make m (\<lambda>i. mbit (ba_make m (g 0)) i \<noteq> mbit (ba_make m (h 0)) i),
        1 := ba_make m (\<lambda>i. mbit (ba_make m (g 1)) i \<noteq> mbit (ba_make m (h 1)) i)]\<rparr>
      = d2_make 3 m (\<lambda>j. if j < 2 then \<lambda>i. g j i \<noteq> h j i else g j)"
    by (auto simp: d2_make_def numeral_3_eq_3 less_Suc_eq intro!: ba_make_cong)
  then show ?thesis
    by (simp add: d2_beaver_xor_d2_def d2_get_array_Ok ba_inplace_xor_Ok del: One_nat_def)
qed

lemma recons_Ok:
  assumes "ly_state ly = SendingBeaverShares" "ly_beaver_data ly = Some (d2_make 3 m g)"
  shows "recons_beaver_uv (map (d2_make 2 m) hs) ly = Inr (ly\<lparr>ly_beaver_data := Some (d2_make 3 m
    (\<lambda>j. if j < 2 then \<lambda>i. g j i \<noteq> xors (map (\<lambda>h. h j i) hs) else g j)), ly_state := BeaverSharesReceived\<rparr>)"
proof -
  have "rfold (\<lambda>beaver_share ly. rbind (expect (ly_beaver_data ly)) (\<lambda>beaver_data.
              rbind (d2_beaver_xor_d2 beaver_data beaver_share) (\<lambda>beaver_data.
              Ok (ly\<lparr>ly_beaver_data := Some beaver_data\<rparr>)))) (map (d2_make 2 m) hs) ly
    = Inr (ly\<lparr>ly_beaver_data := Some (d2_make 3 m
        (\<lambda>j. if j < 2 then \<lambda>i. g j i \<noteq> xors (map (\<lambda>h. h j i) hs) else g j))\<rparr>)"
    using assms(2)
  proof (induction hs arbitrary: ly g)
    case Nil
    then show ?case by (cases ly) (simp cong: if_cong)
  next
    case (Cons h hs)
    let ?g = "\<lambda>j. if j < 2 then \<lambda>i. g j i \<noteq> h j i else g j"
    have "d2_make 3 m (\<lambda>j. if j < 2 then \<lambda>i. ?g j i \<noteq> xors (map (\<lambda>h. h j i) hs) else ?g j)
        = d2_make 3 m (\<lambda>j. if j < 2 then \<lambda>i. g j i \<noteq> xors (map (\<lambda>h. h j i) (h # hs)) else g j)"
      by (rule d2_make_cong) auto
    then show ?case
      using Cons.IH [of "ly\<lparr>ly_beaver_data := Some (d2_make 3 m ?g)\<rparr>" ?g] Cons.prems
      by (simp add: d2_beaver_xor_Ok)
  qed
  then show ?thesis using assms(1) by (simp add: recons_beaver_uv_def)
qed

text \<open>The bits a party computes for its share of \<open>z\<close>.\<close>

definition z_bit :: "bool \<Rightarrow> bool \<Rightarrow> bool \<Rightarrow> bool \<Rightarrow> bool \<Rightarrow> bool \<Rightarrow> bool" where
  "z_bit pc u v x y c = (((((pc \<and> u \<and> v) \<noteq> (u \<and> y)) \<noteq> (v \<and> x)) \<noteq> c))"

lemma finish_Ok:
  assumes "ly_state ly = BeaverSharesReceived" "ly_and_data ly = Some (d2_make 3 m f)"
    and "\<And>i. \<not> f 2 i" "ly_beaver_data ly = Some (d2_make 3 m g)"
  shows "\<exists>bd. finish_and_exchange ly = Inr (ly\<lparr>ly_and_data := Some (d2_make 3 m
      (f(2 := \<lambda>i. z_bit (ly_party_const ly) (g 0 i) (g 1 i) (f 0 i) (f 1 i) (g 2 i)))),
    ly_beaver_data := bd, ly_state := Finished\<rparr>)"
proof -
  let ?z0 = "ba_make m (\<lambda>i. ly_party_const ly \<and> g 0 i \<and> g 1 i)"
  have z0: "(if ly_party_const ly then ba_mut_and (ba_make m (f 2)) (ba_make m (g 0)) (ba_make m (g 1))
      else Inr (ba_make m (f 2))) = Inr ?z0"
    using assms(3) by (auto simp: ba_mut_and_Ok intro!: ba_make_cong)
  have eq: "d2_make 3 m (\<lambda>j. [f 0, f 1, h] ! j) = d2_make 3 m
      (f(2 := \<lambda>i. z_bit (ly_party_const ly) (g 0 i) (g 1 i) (f 0 i) (f 1 i) (g 2 i)))"
    if "\<And>i. i < cap m \<Longrightarrow> h i = z_bit (ly_party_const ly) (g 0 i) (g 1 i) (f 0 i) (f 1 i) (g 2 i)" for h
    using that by (intro d2_make_cong) (auto simp: numeral_3_eq_3 less_Suc_eq)
  show ?thesis
    using assms(1,2,4)
    by (simp add: finish_and_exchange_def d2_unpack_make z0 ba_inplace_and_Ok ba_inplace_xor_Ok d2_update_3 d2_make_3
        del: One_nat_def) (subst eq; auto simp: z_bit_def)
qed

section \<open>The AND exchange of all parties\<close>

text \<open>What the parties' shares sum up to.\<close>

lemma sum_z_bits:
  assumes "0 < n" "u = (A \<noteq> X)" "v = (B \<noteq> Y)" "X = xors (map x [0..<n])" "Y = xors (map y [0..<n])"
    and "xors (map c [0..<n]) = (A \<and> B)"
  shows "xors (map (\<lambda>p. z_bit (p = 0) u v (x p) (y p) (c p)) [0..<n]) = (X \<and> Y)"
proof -
  have "xors (map (\<lambda>p. p = 0 \<and> u \<and> v) [0..<n]) = (u \<and> v)"
    using xors_one_hot [of 0 "\<lambda>_. u \<and> v" n] assms(1) by simp
  then have "xors (map (\<lambda>p. z_bit (p = 0) u v (x p) (y p) (c p)) [0..<n])
      = (((((u \<and> v) \<noteq> (u \<and> Y)) \<noteq> (v \<and> X)) \<noteq> (A \<and> B)))"
    unfolding z_bit_def xors_map_neq xors_map_and using assms(4-6) by simp
  then show ?thesis using assms(2,3) by auto
qed

text \<open>A layer after its operations, with the streams \<open>f\<close> and the triplets \<open>g\<close>.\<close>

definition ly_loaded :: "layer \<Rightarrow> bool \<Rightarrow> nat \<Rightarrow> (nat \<Rightarrow> nat \<Rightarrow> bool) \<Rightarrow> (nat \<Rightarrow> nat \<Rightarrow> bool) \<Rightarrow> bool" where
  "ly_loaded ly pc m f g \<longleftrightarrow> ly_state ly = OperationsExecuted \<and> ly_party_const ly = pc \<and>
     ly_and_data ly = Some (d2_make 3 m f) \<and> ly_beaver_data ly = Some (d2_make 3 m g) \<and>
     (\<forall>i. \<not> f 2 i) \<and> (\<forall>j i. m \<le> i \<longrightarrow> \<not> f j i \<and> \<not> g j i)"

text \<open>What a party goes on with after the exchange, and what it holds then.\<close>

lemma after_exchange:
  assumes "ly_loaded ly pc m f g" "p < n" "mset qs = mset (others n p)"
    and "\<And>j i. gu p j i = (g j i \<noteq> f j i)"
    and "U = (\<lambda>j i. xors (map (\<lambda>q. gu q j i) [0..<n]))"
    and "blind_and_with_beaver ly = Inr ly1"
  shows "\<exists>ly2 bd. recons_beaver_uv (map (\<lambda>q. d2_make 2 m (gu q)) qs) ly1 = Inr ly2 \<and>
    finish_and_exchange ly2 = Inr (ly\<lparr>ly_and_data := Some (d2_make 3 m
        (f(2 := \<lambda>i. z_bit pc (U 0 i) (U 1 i) (f 0 i) (f 1 i) (g 2 i)))),
      ly_beaver_data := bd, ly_state := Finished\<rparr>)"
proof -
  let ?g1 = "\<lambda>j. if j < 2 then \<lambda>i. g j i \<noteq> f j i else g j"
  let ?ly1 = "ly\<lparr>ly_beaver_data := Some (d2_make 3 m ?g1), ly_state := SendingBeaverShares\<rparr>"
  have ly1: "ly1 = ?ly1" using assms(1,6) blind_Ok [of ly m f g] by (simp add: ly_loaded_def)
  let ?g2 = "\<lambda>j. if j < 2 then U j else g j"
  have u: "(?g1 j i \<noteq> xors (map (\<lambda>h. h j i) (map gu qs))) = U j i" if "j < 2" for j i
    using that xors_others [OF assms(2,3), of "\<lambda>q. gu q j i"] by (simp add: assms(4,5) comp_def)
  have "recons_beaver_uv (map (d2_make 2 m) (map gu qs)) ly1
      = Inr (?ly1\<lparr>ly_beaver_data := Some (d2_make 3 m (\<lambda>j. if j < 2
          then \<lambda>i. ?g1 j i \<noteq> xors (map (\<lambda>h. h j i) (map gu qs)) else ?g1 j)), ly_state := BeaverSharesReceived\<rparr>)"
    unfolding ly1 by (rule recons_Ok) simp_all
  also have "d2_make 3 m (\<lambda>j. if j < 2 then \<lambda>i. ?g1 j i \<noteq> xors (map (\<lambda>h. h j i) (map gu qs)) else ?g1 j)
      = d2_make 3 m ?g2"
    by (rule d2_make_cong) (use u in auto)
  finally have rec: "recons_beaver_uv (map (\<lambda>q. d2_make 2 m (gu q)) qs) ly1
      = Inr (ly\<lparr>ly_beaver_data := Some (d2_make 3 m ?g2), ly_state := BeaverSharesReceived\<rparr>)"
    by (simp add: comp_def)
  show ?thesis
    using finish_Ok [of "ly\<lparr>ly_beaver_data := Some (d2_make 3 m ?g2), ly_state := BeaverSharesReceived\<rparr>" m f ?g2]
      assms(1) rec by (auto simp: ly_loaded_def)
qed

text \<open>
  The interaction of all parties on one layer: when every party has loaded its streams and its
  block of triplets, all finish, nothing but the layers changes, and the shares of \<open>z\<close> sum up to
  the conjunction of the sums of \<open>x\<close> and of \<open>y\<close> at every bit.
\<close>

lemma layer_interact_and:
  assumes G: "codec_ok G" "0 < n" "n \<le> 256" "\<And>p. p < n \<Longrightarrow> mh_ready n p (hs p)"
    and m: "0 < m" "m < 2 ^ 32"
    and end_t: "\<And>p. p < n \<Longrightarrow> end_ticketing_phase (ly p) (bp p) = Inr (ly0 p, bp' p)"
    and exec: "\<And>p. p < n \<Longrightarrow> execute_operations P (prev p) (ly0 p) = Inr (ly1 p)"
    and loaded: "\<And>p. p < n \<Longrightarrow> ly_loaded (ly1 p) (p = 0) m (f p) (g p)"
    and triples: "\<And>i. xors (map (\<lambda>p. g p 2 i) [0..<n])
      = (xors (map (\<lambda>p. g p 0 i) [0..<n]) \<and> xors (map (\<lambda>p. g p 1 i) [0..<n]))"
  shows "all_finish n (\<lambda>p. layer_interact P G (prev p) (bp p) (hs p) (ly p)) (\<lambda>out.
    \<exists>z. (\<forall>i. xors (map (\<lambda>p. z p i) [0..<n]) = (xors (map (\<lambda>p. f p 0 i) [0..<n]) \<and> xors (map (\<lambda>p. f p 1 i) [0..<n]))) \<and>
      (\<forall>p<n. \<exists>bd. out p = ((ly1 p)\<lparr>ly_and_data := Some (d2_make 3 m ((f p)(2 := z p))),
        ly_beaver_data := bd, ly_state := Finished\<rparr>, bp' p, hs p)))"
proof -
  define gu where "gu p j i = (g p j i \<noteq> f p j i)" for p j i
  define U where "U = (\<lambda>j i. xors (map (\<lambda>q. gu q j i) [0..<n]))"
  define z where "z = (\<lambda>p i. z_bit (p = 0) (U 0 i) (U 1 i) (f p 0 i) (f p 1 i) (g p 2 i))"
  define ly2 where "ly2 p = (ly1 p)\<lparr>ly_beaver_data := Some (d2_make 3 m (\<lambda>j. if j < 2 then \<lambda>i. g p j i \<noteq> f p j i else g p j)),
      ly_state := SendingBeaverShares\<rparr>" for p
  have blind: "blind_and_with_beaver (ly1 p) = Inr (ly2 p)" if "p < n" for p
    using loaded [OF that] blind_Ok [of "ly1 p" m "f p" "g p"] by (simp add: ly_loaded_def ly2_def)
  have "get_beaver_out_shares (ly2 p) = Inr (d2_make 2 m (\<lambda>j. if j < 2 then \<lambda>i. g p j i \<noteq> f p j i else g p j))" for p
    using m(1) by (intro get_beaver_out_shares_Ok) (simp_all add: ly2_def)
  moreover have "d2_make 2 m (\<lambda>j. if j < 2 then \<lambda>i. g p j i \<noteq> f p j i else g p j) = d2_make 2 m (gu p)" for p
    by (rule d2_make_cong) (simp add: gu_def)
  ultimately have out: "get_beaver_out_shares (ly2 p) = Inr (d2_make 2 m (gu p))" for p by simp
  have uv: "uv_share m (d2_make 2 m (gu p))" if "p < n" for p
    using loaded [OF that] m(2) by (auto simp: uv_share_def gu_def ly_loaded_def)
  have sum: "xors (map (\<lambda>p. z p i) [0..<n]) = (xors (map (\<lambda>p. f p 0 i) [0..<n]) \<and> xors (map (\<lambda>p. f p 1 i) [0..<n]))" for i
    unfolding z_def by (rule sum_z_bits [OF G(2)]) (simp_all add: U_def gu_def xors_map_eq_neg triples del: One_nat_def)
  let ?tail = "\<lambda>p (rec_shares, mh). pbind (lift_res (recons_beaver_uv rec_shares (ly2 p))) (\<lambda>ly.
     pbind (lift_res (finish_and_exchange ly)) (\<lambda>ly. Done (ly, bp' p, mh)))"
  have prog: "layer_interact P G (prev p) (bp p) (hs p) (ly p)
      = pbind (pbind (mh_send_beaver_shares G (hs p) (d2_make 2 m (gu p))) (\<lambda>_. mh_receive_beaver_shares G (hs p))) (?tail p)"
    if "p < n" for p
    using that by (simp add: layer_interact_def end_t exec blind out pbind_assoc)
  have "all_finish n (\<lambda>p. pbind (pbind (mh_send_beaver_shares G (hs p) (d2_make 2 m (gu p)))
      (\<lambda>_. mh_receive_beaver_shares G (hs p))) (?tail p)) (\<lambda>out. \<forall>p<n. \<exists>bd. out p = ((ly1 p)\<lparr>ly_and_data
        := Some (d2_make 3 m ((f p)(2 := z p))), ly_beaver_data := bd, ly_state := Finished\<rparr>, bp' p, hs p))"
  proof (rule all_finish_bind [OF all_finish_mono [OF beaver_x.exchange [OF G(1,3)]]])
    fix rs
    assume rs: "\<forall>p<n. \<exists>ss. rs p = (ss, hs p) \<and> mset ss = mset (map (\<lambda>q. d2_make 2 m (gu q)) (others n p))"
    have fin: "\<exists>bd. ?tail p (rs p) = Done ((ly1 p)\<lparr>ly_and_data := Some (d2_make 3 m ((f p)(2 := z p))),
        ly_beaver_data := bd, ly_state := Finished\<rparr>, bp' p, hs p)" if p: "p < n" for p
    proof -
      obtain ss where ss: "rs p = (ss, hs p)" "mset ss = mset (map (\<lambda>q. d2_make 2 m (gu q)) (others n p))"
        using rs p by blast
      obtain qs where qs: "ss = map (\<lambda>q. d2_make 2 m (gu q)) qs" "mset qs = mset (others n p)"
        using mset_mapE [OF ss(2)] by blast
      show ?thesis
        using after_exchange [OF loaded [OF p] p qs(2) gu_def U_def blind [OF p]]
        by (auto simp: ss(1) qs(1) z_def simp del: One_nat_def)
    qed
    show "all_finish n (\<lambda>p. ?tail p (rs p)) (\<lambda>out. \<forall>p<n. \<exists>bd. out p = ((ly1 p)\<lparr>ly_and_data
        := Some (d2_make 3 m ((f p)(2 := z p))), ly_beaver_data := bd, ly_state := Finished\<rparr>, bp' p, hs p))"
      by (rule all_finish_each) (use fin in blast)
  qed (use G(4) uv in \<open>auto simp: mh_ready_def\<close>)
  then have "all_finish n (\<lambda>p. layer_interact P G (prev p) (bp p) (hs p) (ly p)) (\<lambda>out. \<forall>p<n. \<exists>bd. out p
      = ((ly1 p)\<lparr>ly_and_data := Some (d2_make 3 m ((f p)(2 := z p))),
        ly_beaver_data := bd, ly_state := Finished\<rparr>, bp' p, hs p))"
    by (rule all_finish_cong) (simp add: prog)
  then show ?thesis by (rule all_finish_mono) (use sum in blast)
qed

end
