(* ===== verification/Layer_Machine.thy ===== *)
theory Layer_Machine
  imports Layer
begin

text \<open>
  The life of a layer as a state machine: \<open>layer_step\<close> has a transition for each function of
  \<open>src/prc/layer.rs\<close> that changes a layer, taken when the function does not panic. Every reachable
  layer is well-formed for its phase, phases follow each other in one order, and tickets never overlap.
\<close>

section \<open>Transitions\<close>

text \<open>What the executor hands over: well-formed inputs, finished previous layers, triplets; shares of any size, as the peers sent them.\<close>

fun source_ok :: "layer_source \<Rightarrow> bool" where
  "source_ok (Input d) \<longleftrightarrow> ba_wf d"
| "source_ok (TakeZ t) \<longleftrightarrow> True"

text \<open>
  In the ticketing phase there is no data yet; from then on there are three streams and three triplet
  arrays of the size the tickets reserved. Operations only wait before they are executed.
\<close>

definition layer_inv :: "layer \<Rightarrow> bool" where
  "layer_inv ly \<longleftrightarrow>
     (if ly_state ly = Ticketing then ly_and_data ly = None \<and> ly_beaver_data ly = None
      else (\<exists>d b. ly_and_data ly = Some d \<and> d2_wf 3 (8 * ly_current_size ly) d \<and>
              ly_beaver_data ly = Some b \<and> d2_wf 3 (8 * ly_current_size ly) b)) \<and>
     (\<forall>op\<in>set (ly_operations ly). source_ok (op_source op)) \<and>
     (ly_state ly = Ticketing \<or> ly_state ly = DataInitialized \<or> ly_operations ly = [])"

inductive layer_step :: "profile \<Rightarrow> layer \<Rightarrow> layer \<Rightarrow> bool" for P where
  ticket: "request_ticket ly n = Inr (t, ly') \<Longrightarrow> layer_step P ly ly'"
| add: "source_ok (op_source op) \<Longrightarrow> add_operation ly op = Inr ly' \<Longrightarrow> layer_step P ly ly'"
| start: "bp_wf bp \<Longrightarrow> end_ticketing_phase ly bp = Inr (ly', bp') \<Longrightarrow> layer_step P ly ly'"
| execute: "pred_option layer_inv prev \<Longrightarrow> execute_operations P prev ly = Inr ly' \<Longrightarrow> layer_step P ly ly'"
| blind: "blind_and_with_beaver ly = Inr ly' \<Longrightarrow> layer_step P ly ly'"
| recons: "list_all (\<lambda>s. \<exists>m. d2_wf 2 m s) shares \<Longrightarrow> recons_beaver_uv shares ly = Inr ly' \<Longrightarrow> layer_step P ly ly'"
| finish: "finish_and_exchange ly = Inr ly' \<Longrightarrow> layer_step P ly ly'"

text \<open>The order of the phases.\<close>

fun phase :: "layer_state \<Rightarrow> nat" where
  "phase Ticketing = 0" | "phase DataInitialized = 1" | "phase OperationsExecuted = 2"
| "phase SendingBeaverShares = 3" | "phase BeaverSharesReceived = 4" | "phase Finished = 5"

section \<open>The invariant\<close>

lemma rfold_keeps:
  "(\<And>x s s'. x \<in> set xs \<Longrightarrow> I s \<Longrightarrow> f x s = Inr s' \<Longrightarrow> I s') \<Longrightarrow> I s \<Longrightarrow> rfold f xs s = Inr s' \<Longrightarrow> I s'"
proof (induction xs arbitrary: s)
  case (Cons x xs)
  then show ?case by (auto simp: rbind_eq_Ok)
qed simp

lemma ba_copy_from_sized:
  assumes "ba_sized n d" "ba_wf s" "ba_copy_from d off s = Inr d'"
  shows "ba_sized n d'"
proof -
  have "off + ba_bit_size s \<le> ba_bit_size d" using assms(3) by (auto simp: ba_copy_from_def rbind_eq_Ok)
  then show ?thesis using assms ba_copy_from_Ok [of d s off] by auto
qed

lemma d2_with_mut_array_wf:
  assumes "d2_wf k n d" "\<And>a a'. ba_sized n a \<Longrightarrow> f a = Inr a' \<Longrightarrow> ba_sized n a'" "d2_with_mut_array d i f = Inr d'"
  shows "d2_wf k n d'"
proof -
  obtain a' where a: "i < length (d2_arrays d)" "f (d2_arrays d ! i) = Inr a'" "d' = d\<lparr>d2_arrays := (d2_arrays d)[i := a']\<rparr>"
    using assms(3) by (auto simp: d2_with_mut_array_def rbind_eq_Ok index_def)
  have "ba_sized n (d2_arrays d ! i)" using a(1) assms(1) by (simp add: d2_wf_def list_all_length)
  then have "ba_sized n a'" using assms(2) a(2) by blast
  then show ?thesis using assms(1) a(1) by (auto simp: a(3) d2_wf_def list_all_length nth_list_update)
qed

lemma ba_to_slice_wf:
  assumes "ba_wf a" "ba_to_slice a st en = Inr a'"
  shows "ba_wf a' \<and> ba_bit_size a' mod 8 = 0"
proof -
  have "st \<le> en \<and> en \<le> ba_byte_size a" using assms(2) by (auto simp: ba_to_slice_def rbind_eq_Ok)
  then show ?thesis using ba_to_slice_Ok [OF assms(1), of st en] assms(2) by auto
qed

lemma ba_shrink_wf:
  assumes "ba_wf a" "ba_bit_size a mod 8 = 0" "ba_shrink_to_partial_last_byte a n = Inr a'"
  shows "ba_wf a'"
proof -
  have "n \<le> ba_bit_size a" "ba_bit_size a < n + 8"
    using assms(3) by (auto simp: ba_shrink_to_partial_last_byte_def rbind_eq_Ok split: if_splits)
  then show ?thesis using ba_shrink_Ok [OF assms(1) _ _ assms(2)] assms(3) by auto
qed

lemma read_output_wf:
  assumes "layer_inv ly" "read_output P ly t = Inr a"
  shows "ba_wf a"
proof -
  obtain d where d: "ly_and_data ly = Some d" "d2_wf 3 (8 * ly_current_size ly) d" "ly_state ly = Finished"
    using assms by (auto simp: layer_inv_def read_output_def split: if_splits)
  then obtain z st z' n where z: "d2_get_array d 2 = Inr z" "ba_to_slice z st (ticket_end_byte t) = Inr z'" "ba_shrink_to_partial_last_byte z' n = Inr a"
    using assms(2) by (auto simp: read_output_def rbind_eq_Ok)
  have "ba_wf z" using z(1) d2_wf_nth [OF d(2), of 2] d(2) by (simp add: d2_get_array_Ok d2_wf_def)
  then show ?thesis using ba_to_slice_wf [OF _ z(2)] ba_shrink_wf [OF _ _ z(3)] by simp
qed

lemma source_data_wf:
  assumes "source_ok src" "pred_option layer_inv prev" "extract_src_data P src prev = Inr a"
  shows "ba_wf a"
proof (cases src)
  case (Input d)
  then show ?thesis using assms by (simp add: extract_src_data_def)
next
  case (TakeZ t)
  then obtain ly where "prev = Some ly" "read_output P ly t = Inr a" using assms(3) by (cases prev) (auto simp: extract_src_data_def)
  then show ?thesis using assms(2) read_output_wf by simp
qed

lemma ones_zeroes_wf: "ba_ones n = Inr o' \<Longrightarrow> ba_new n = Inr z \<Longrightarrow> ba_wf o' \<and> ba_wf z"
  by (cases "n = 0") (auto simp: ba_ones_Ok ba_new_Ok, auto simp: ba_new_def au_new_def create_layout_def rbind_eq_Ok Let_def)

lemma with_mut_array_keeps:
  assumes d: "ly_and_data ly = Some d" "d2_wf 3 n d" and f: "\<And>st a a'. ba_sized n a \<Longrightarrow> f st a = Inr a' \<Longrightarrow> ba_sized n a'"
    and r: "with_mut_array_from_destination ly dest f = Inr ly'"
  shows "\<exists>d'. ly' = ly\<lparr>ly_and_data := Some d'\<rparr> \<and> d2_wf 3 n d'"
proof (cases dest)
  case (Relay t s)
  then obtain d' where "d2_with_mut_array d s (f (t_st_bit t)) = Inr d'" "ly' = ly\<lparr>ly_and_data := Some d'\<rparr>"
    using r d(1) by (auto simp: with_mut_array_from_destination_def rbind_eq_Ok split: if_splits)
  then show ?thesis using d2_with_mut_array_wf [OF d(2)] f by blast
next
  case NoDest
  then show ?thesis using r by (simp add: with_mut_array_from_destination_def)
qed

lemma exec_operation_keeps:
  assumes "source_ok (op_source op)" "pred_option layer_inv prev" "ly_and_data ly = Some d" "d2_wf 3 n d" "exec_operation P op prev ly = Inr ly'"
  shows "\<exists>d'. ly' = ly\<lparr>ly_and_data := Some d'\<rparr> \<and> d2_wf 3 n d'"
proof (cases op)
  case (OpCopy src dest)
  then obtain a where a: "extract_src_data P src prev = Inr a" "with_mut_array_from_destination ly dest (\<lambda>st x. ba_copy_from x st a) = Inr ly'"
    using assms(5) by (auto simp: exec_operation_def rbind_eq_Ok)
  then have "ba_wf a" using source_data_wf assms(1,2) OpCopy by simp
  then show ?thesis using with_mut_array_keeps [OF assms(3,4) _ a(2)] ba_copy_from_sized by blast
next
  case (OpReplicate k src dest)
  then obtain a where a: "extract_src_data P src prev = Inr a"
      "with_mut_array_from_destination ly dest (\<lambda>st x. rfold (\<lambda>i x. ba_copy_from x (st + i * ba_bit_size a) a) [0..<k] x) = Inr ly'"
    using assms(5) by (auto simp: exec_operation_def rbind_eq_Ok)
  then have wf: "ba_wf a" using source_data_wf assms(1,2) OpReplicate by simp
  have "ba_sized n x'" if "ba_sized n x" "rfold (\<lambda>i x. ba_copy_from x (st + i * ba_bit_size a) a) [0..<k] x = Inr x'" for st x x'
    by (rule rfold_keeps [where I = "ba_sized n", OF _ that]) (rule ba_copy_from_sized [OF _ wf])
  then show ?thesis using with_mut_array_keeps [OF assms(3,4) _ a(2)] by blast
next
  case (OpBitExpand k src dest)
  then obtain z o' a where a: "ba_new k = Inr z" "ba_ones k = Inr o'"
      "with_mut_array_from_destination ly dest (\<lambda>st x. rfold (\<lambda>i x. rbind (ba_get a i) (\<lambda>b.
         if b then ba_copy_from x (st + i * k) o' else ba_copy_from x (st + i * k) z)) [0..<ba_bit_size a] x) = Inr ly'"
    using assms(5) by (auto simp: exec_operation_def rbind_eq_Ok)
  have wf: "ba_wf o'" "ba_wf z" using ones_zeroes_wf a(1,2) by blast+
  have "ba_sized n x'" if "ba_sized n x" "rfold (\<lambda>i x. rbind (ba_get a i) (\<lambda>b.
      if b then ba_copy_from x (st + i * k) o' else ba_copy_from x (st + i * k) z)) [0..<ba_bit_size a] x = Inr x'" for st x x'
  proof (rule rfold_keeps [where I = "ba_sized n", OF _ that])
    fix i x x'
    assume x: "ba_sized n x" and "rbind (ba_get a i) (\<lambda>b. if b then ba_copy_from x (st + i * k) o' else ba_copy_from x (st + i * k) z) = Inr x'"
    then have "ba_copy_from x (st + i * k) o' = Inr x' \<or> ba_copy_from x (st + i * k) z = Inr x'" by (auto simp: rbind_eq_Ok split: if_splits)
    then show "ba_sized n x'" using ba_copy_from_sized [OF x wf(1)] ba_copy_from_sized [OF x wf(2)] by blast
  qed
  then show ?thesis using with_mut_array_keeps [OF assms(3,4) _ a(3)] by blast
qed

text \<open>What the three phases with arithmetic keep: both matrices have three arrays of the layer's size.\<close>

lemma d2_wf_3:
  assumes "ba_sized n a" "ba_sized n b" "ba_sized n c"
  shows "d2_wf 3 n (d\<lparr>d2_arrays := [a, b, c]\<rparr>)"
  using assms by (simp add: d2_wf_def)

lemma d2_unpack_wf:
  assumes "d2_wf 3 n d" "d2_unpack_as_beaver d = Inr (a, b, c)"
  shows "ba_sized n a" "ba_sized n b" "ba_sized n c"
  using assms d2_wf_nth [OF assms(1)] by (auto simp: d2_unpack_as_beaver_def rbind_eq_Ok)

lemma inplace_sized:
  "ba_sized n a \<Longrightarrow> ba_sized n b \<Longrightarrow> ba_inplace_xor a b = Inr c \<Longrightarrow> ba_sized n c"
  "ba_sized n a \<Longrightarrow> ba_sized n b \<Longrightarrow> ba_inplace_and a b = Inr c \<Longrightarrow> ba_sized n c"
  "ba_sized n d \<Longrightarrow> ba_sized n a \<Longrightarrow> ba_sized n b \<Longrightarrow> ba_mut_and d a b = Inr c \<Longrightarrow> ba_sized n c"
  by (auto simp: ba_inplace_xor_Ok ba_inplace_and_Ok ba_mut_and_Ok)

text \<open>Shares of another size are refused.\<close>

lemma d2_beaver_xor_wf:
  assumes "d2_wf 3 n d" "d2_wf 2 m s" "d2_beaver_xor_d2 d s = Inr d'"
  shows "d2_wf 3 n d'"
proof -
  obtain b0 a0 where "d2_get_array s 0 = Inr b0" "ba_inplace_xor (d2_arrays d ! 0) b0 = Inr a0"
    using assms(3) by (auto simp: d2_beaver_xor_d2_def rbind_eq_Ok)
  moreover have "ba_bit_size (d2_arrays d ! 0) = n" "ba_bit_size (d2_arrays s ! 0) = m"
    using d2_wf_nth [OF assms(1)] d2_wf_nth [OF assms(2)] by simp_all
  ultimately have "m = n" by (auto simp: d2_get_array_def ba_inplace_xor_def index_def rbind_eq_Ok split: if_splits)
  then show ?thesis
    using assms(3) d2_beaver_xor_Ok [of n "\<lambda>j. mbit (d2_arrays d ! j)" "\<lambda>j. mbit (d2_arrays s ! j)"] d2_wf_make_eq [OF assms(2)]
    unfolding d2_wf_make_eq [OF assms(1), symmetric] by auto
qed

lemma ticket_keeps: "layer_inv ly \<Longrightarrow> request_ticket ly n = Inr (t, ly') \<Longrightarrow> layer_inv ly' \<and> ly_state ly' = Ticketing \<and> ly_state ly = Ticketing"
  by (auto simp: request_ticket_def layer_inv_def Let_def split: if_splits)

lemma add_keeps:
  "layer_inv ly \<Longrightarrow> source_ok (op_source op) \<Longrightarrow> add_operation ly op = Inr ly' \<Longrightarrow> layer_inv ly' \<and> ly_state ly' = Ticketing \<and> ly_state ly = Ticketing"
  by (auto simp: add_operation_def layer_inv_def split: if_splits)

lemma start_keeps:
  assumes "layer_inv ly" "bp_wf bp" "end_ticketing_phase ly bp = Inr (ly', bp')"
  shows "layer_inv ly' \<and> ly_state ly' = DataInitialized \<and> ly_state ly = Ticketing"
proof -
  let ?n = "ly_current_size ly"
  obtain z b where r: "ly_state ly = Ticketing" "d2_zeros 3 (?n * 8) = Inr z" "bp_take bp ?n = Inr (b, bp')"
      "ly' = ly\<lparr>ly_and_data := Some z, ly_beaver_data := Some b, ly_state := DataInitialized\<rparr>"
    using assms(3) by (auto simp: end_ticketing_phase_def rbind_eq_Ok)
  have "d2_wf 3 (8 * ?n) z"
    using r(2) d2_zeros_Ok [of "?n * 8" 3] by (cases "?n = 0") (auto simp: mult.commute d2_zeros_def ba_new_def au_new_def create_layout_def numeral_3_eq_3)
  moreover have "d2_wf 3 (8 * ?n) b"
  proof -
    obtain d m where d: "bp_beaver_storage bp = Some d" "d2_wf 3 m d" using assms(2) by (auto simp: bp_wf_def)
    then have "bp_used bp + ?n \<le> d2_inner_byte_size d" "d2_to_slice d (bp_used bp) (bp_used bp + ?n) = Inr b"
      using r(3) by (auto simp: bp_take_def rbind_eq_Ok)
    moreover have "d2_inner_byte_size d = div_ceil m 8" using d2_inner_byte_size_wf [of 2 m d] d(2) by simp
    ultimately show ?thesis using d2_to_slice_Ok [of 3 m d "bp_used bp" "bp_used bp + ?n"] d(2) by auto
  qed
  ultimately show ?thesis using assms(1) r(1) by (auto simp: r(4) layer_inv_def)
qed

lemma execute_keeps:
  assumes inv: "layer_inv ly" and prev: "pred_option layer_inv prev" and ex: "execute_operations P prev ly = Inr ly'"
  shows "layer_inv ly' \<and> ly_state ly' = OperationsExecuted \<and> ly_state ly = DataInitialized"
proof -
  let ?n = "8 * ly_current_size ly"
  obtain ly1 where r: "ly_state ly = DataInitialized" "rfold (\<lambda>op ly. exec_operation P op prev ly) (rev (ly_operations ly)) (ly\<lparr>ly_operations := []\<rparr>) = Inr ly1"
      "ly' = ly1\<lparr>ly_state := OperationsExecuted\<rparr>"
    using ex by (auto simp: execute_operations_def rbind_eq_Ok)
  obtain d b where d: "ly_and_data ly = Some d" "d2_wf 3 ?n d" "ly_beaver_data ly = Some b" "d2_wf 3 ?n b"
    using inv r(1) by (auto simp: layer_inv_def)
  have "\<exists>d'. ly1 = (ly\<lparr>ly_operations := []\<rparr>)\<lparr>ly_and_data := Some d'\<rparr> \<and> d2_wf 3 ?n d'"
  proof (rule rfold_keeps [where I = "\<lambda>l. \<exists>d'. l = (ly\<lparr>ly_operations := []\<rparr>)\<lparr>ly_and_data := Some d'\<rparr> \<and> d2_wf 3 ?n d'", OF _ _ r(2)])
    fix op l l'
    assume op: "op \<in> set (rev (ly_operations ly))" and l: "\<exists>d'. l = (ly\<lparr>ly_operations := []\<rparr>)\<lparr>ly_and_data := Some d'\<rparr> \<and> d2_wf 3 ?n d'"
      and e: "exec_operation P op prev l = Inr l'"
    from l obtain d' where d': "l = (ly\<lparr>ly_operations := []\<rparr>)\<lparr>ly_and_data := Some d'\<rparr>" "d2_wf 3 ?n d'" by blast
    have "source_ok (op_source op)" using op inv by (auto simp: layer_inv_def)
    from exec_operation_keeps [OF this prev _ d'(2) e] d'(1) show "\<exists>d'. l' = (ly\<lparr>ly_operations := []\<rparr>)\<lparr>ly_and_data := Some d'\<rparr> \<and> d2_wf 3 ?n d'"
      by auto
  next
    show "\<exists>d'. ly\<lparr>ly_operations := []\<rparr> = (ly\<lparr>ly_operations := []\<rparr>)\<lparr>ly_and_data := Some d'\<rparr> \<and> d2_wf 3 ?n d'"
      using d(1,2) by (intro exI [of _ d]) simp
  qed
  then show ?thesis using d(3,4) r(1) by (auto simp: r(3) layer_inv_def)
qed

lemma blind_keeps:
  assumes inv: "layer_inv ly" and b: "blind_and_with_beaver ly = Inr ly'"
  shows "layer_inv ly' \<and> ly_state ly' = SendingBeaverShares \<and> ly_state ly = OperationsExecuted"
proof -
  let ?n = "8 * ly_current_size ly"
  have st: "ly_state ly = OperationsExecuted" using b by (auto simp: blind_and_with_beaver_def rbind_eq_Ok)
  then obtain d t where d: "ly_and_data ly = Some d" "d2_wf 3 ?n d" "ly_beaver_data ly = Some t" "d2_wf 3 ?n t"
    using inv by (auto simp: layer_inv_def)
  obtain x y z a b' c u v where r: "d2_unpack_as_beaver d = Inr (x, y, z)" "d2_unpack_as_beaver t = Inr (a, b', c)"
      "ba_inplace_xor a x = Inr u" "ba_inplace_xor b' y = Inr v"
      "ly' = ly\<lparr>ly_beaver_data := Some (t\<lparr>d2_arrays := [u, v, c]\<rparr>), ly_state := SendingBeaverShares\<rparr>"
    using b d(1,3) by (auto simp: blind_and_with_beaver_def rbind_eq_Ok)
  note w = d2_unpack_wf [OF d(2) r(1)] d2_unpack_wf [OF d(4) r(2)]
  have "d2_wf 3 ?n (t\<lparr>d2_arrays := [u, v, c]\<rparr>)"
    by (rule d2_wf_3 [OF inplace_sized(1) [OF w(4,1) r(3)] inplace_sized(1) [OF w(5,2) r(4)] w(6)])
  then show ?thesis using inv st d by (auto simp: r(5) layer_inv_def)
qed

lemma recons_keeps:
  assumes inv: "layer_inv ly" and sh: "list_all (\<lambda>s. \<exists>m. d2_wf 2 m s) shares" and r: "recons_beaver_uv shares ly = Inr ly'"
  shows "layer_inv ly' \<and> ly_state ly' = BeaverSharesReceived \<and> ly_state ly = SendingBeaverShares"
proof -
  let ?n = "8 * ly_current_size ly"
  let ?f = "\<lambda>beaver_share ly. rbind (expect (ly_beaver_data ly)) (\<lambda>beaver_data.
              rbind (d2_beaver_xor_d2 beaver_data beaver_share) (\<lambda>beaver_data. Ok (ly\<lparr>ly_beaver_data := Some beaver_data\<rparr>)))"
  obtain ly1 where r: "ly_state ly = SendingBeaverShares" "rfold ?f shares ly = Inr ly1" "ly' = ly1\<lparr>ly_state := BeaverSharesReceived\<rparr>"
    using r by (auto simp: recons_beaver_uv_def rbind_eq_Ok)
  have "\<exists>t. ly1 = ly\<lparr>ly_beaver_data := Some t\<rparr> \<and> d2_wf 3 ?n t"
  proof (rule rfold_keeps [where I = "\<lambda>l. \<exists>t. l = ly\<lparr>ly_beaver_data := Some t\<rparr> \<and> d2_wf 3 ?n t", OF _ _ r(2)])
    fix s l l'
    assume s: "s \<in> set shares" and "\<exists>t. l = ly\<lparr>ly_beaver_data := Some t\<rparr> \<and> d2_wf 3 ?n t" and e: "?f s l = Inr l'"
    then obtain t where t: "l = ly\<lparr>ly_beaver_data := Some t\<rparr>" "d2_wf 3 ?n t" by blast
    with e obtain t' where t': "d2_beaver_xor_d2 t s = Inr t'" "l' = ly\<lparr>ly_beaver_data := Some t'\<rparr>" by (auto simp: rbind_eq_Ok)
    obtain m where "d2_wf 2 m s" using s sh by (auto simp: list_all_iff)
    with d2_beaver_xor_wf [OF t(2) _ t'(1)] t'(2) show "\<exists>t. l' = ly\<lparr>ly_beaver_data := Some t\<rparr> \<and> d2_wf 3 ?n t" by blast
  next
    obtain t where "ly_beaver_data ly = Some t" "d2_wf 3 ?n t" using inv r(1) by (auto simp: layer_inv_def)
    then show "\<exists>t. ly = ly\<lparr>ly_beaver_data := Some t\<rparr> \<and> d2_wf 3 ?n t" by (intro exI [of _ t]) simp
  qed
  then show ?thesis using inv r(1) by (auto simp: r(3) layer_inv_def)
qed

lemma finish_keeps:
  assumes inv: "layer_inv ly" and f: "finish_and_exchange ly = Inr ly'"
  shows "layer_inv ly' \<and> ly_state ly' = Finished \<and> ly_state ly = BeaverSharesReceived"
proof -
  let ?n = "8 * ly_current_size ly"
  have st: "ly_state ly = BeaverSharesReceived" using f by (auto simp: finish_and_exchange_def rbind_eq_Ok)
  then obtain d t where d: "ly_and_data ly = Some d" "d2_wf 3 ?n d" "ly_beaver_data ly = Some t" "d2_wf 3 ?n t"
    using inv by (auto simp: layer_inv_def)
  obtain x y z u v c z0 u' v' z1 z2 z3 where r: "d2_unpack_as_beaver d = Inr (x, y, z)" "d2_unpack_as_beaver t = Inr (u, v, c)"
      "(if ly_party_const ly then ba_mut_and z u v else Ok z) = Inr z0" "ba_inplace_and u y = Inr u'" "ba_inplace_and v x = Inr v'"
      "ba_inplace_xor z0 u' = Inr z1" "ba_inplace_xor z1 v' = Inr z2" "ba_inplace_xor z2 c = Inr z3"
      "ly' = ly\<lparr>ly_and_data := Some (d\<lparr>d2_arrays := [x, y, z3]\<rparr>), ly_beaver_data := Some (t\<lparr>d2_arrays := [u', v', c]\<rparr>), ly_state := Finished\<rparr>"
    using f d(1,3) by (auto simp: finish_and_exchange_def rbind_eq_Ok)
  note w = d2_unpack_wf [OF d(2) r(1)] d2_unpack_wf [OF d(4) r(2)]
  have z0: "ba_sized ?n z0" using r(3) inplace_sized(3) [OF w(3,4,5)] w(3) by (auto split: if_splits)
  have u': "ba_sized ?n u'" by (rule inplace_sized(2) [OF w(4,2) r(4)])
  have v': "ba_sized ?n v'" by (rule inplace_sized(2) [OF w(5,1) r(5)])
  have z3: "ba_sized ?n z3"
    by (rule inplace_sized(1) [OF inplace_sized(1) [OF inplace_sized(1) [OF z0 u' r(6)] v' r(7)] w(6) r(8)])
  show ?thesis using inv st d2_wf_3 [OF w(1,2) z3, of d] d2_wf_3 [OF u' v' w(6), of t] by (auto simp: r(9) layer_inv_def)
qed

text \<open>Every transition keeps the invariant and stays in the phase or goes to the next one.\<close>

lemma layer_step_keeps:
  assumes "layer_step P ly ly'" "layer_inv ly"
  shows "layer_inv ly' \<and> (phase (ly_state ly') = phase (ly_state ly) \<or> phase (ly_state ly') = Suc (phase (ly_state ly)))"
  using assms
proof cases
  case (ticket n t)
  then show ?thesis using ticket_keeps [OF assms(2)] by simp
next
  case (add op)
  then show ?thesis using add_keeps [OF assms(2)] by simp
next
  case (start bp bp')
  then show ?thesis using start_keeps [OF assms(2)] by simp
next
  case (execute prev)
  then show ?thesis using execute_keeps [OF assms(2)] by simp
next
  case blind
  then show ?thesis using blind_keeps [OF assms(2)] by simp
next
  case (recons shares)
  then show ?thesis using recons_keeps [OF assms(2)] by simp
next
  case finish
  then show ?thesis using finish_keeps [OF assms(2)] by simp
qed

text \<open>C11. Every layer that is reachable from a new one by the functions of the layer, each called with well-formed
  arguments and not panicking, is well-formed for its phase: no data while tickets are handed out, afterwards three
  streams and three triplet arrays of exactly the size that the tickets reserved, and no operation left to execute
  from the time the operations were executed on. Its phase never goes back.\<close>

theorem layer_reachable_inv:
  assumes "(layer_step P)\<^sup>*\<^sup>* (layer_new party_const layer_num) ly" "(layer_step P)\<^sup>*\<^sup>* ly ly'"
  shows "layer_inv ly \<and> layer_inv ly' \<and> phase (ly_state ly) \<le> phase (ly_state ly')"
proof -
  have "layer_inv ly"
    using assms(1) by (induction rule: rtranclp_induct) (auto simp: layer_inv_def layer_new_def dest: layer_step_keeps)
  moreover from assms(2) this have "layer_inv ly' \<and> phase (ly_state ly) \<le> phase (ly_state ly')"
  proof (induction rule: rtranclp_induct)
    case (step y z)
    then show ?case using layer_step_keeps [of P y z] by auto
  qed simp
  ultimately show ?thesis by simp
qed

theorem layer_reachable_inv_witness:
  "layer_inv (layer_new True 3) \<and> layer_inv ((layer_new True 3)\<lparr>ly_current_size := 2\<rparr>) \<and>
     phase (ly_state (layer_new True 3)) \<le> phase (ly_state ((layer_new True 3)\<lparr>ly_current_size := 2\<rparr>))"
proof (rule layer_reachable_inv [of Release True 3])
  show "(layer_step Release)\<^sup>*\<^sup>* (layer_new True 3) ((layer_new True 3)\<lparr>ly_current_size := 2\<rparr>)"
    by (intro r_into_rtranclp layer_step.ticket [of _ 9]) (simp add: request_ticket_def layer_new_def div_ceil_def)
qed simp

section \<open>Tickets\<close>

lemma tickets_grow: "rscan request_ticket ly sizes = Inr (ts, ly') \<Longrightarrow> ly_current_size ly \<le> ly_current_size ly'"
proof (induction sizes arbitrary: ly ts)
  case (Cons n sizes)
  then obtain t ly1 ts1 where r: "request_ticket ly n = Inr (t, ly1)" "rscan request_ticket ly1 sizes = Inr (ts1, ly')"
    by (auto simp: rbind_eq_Ok)
  then have "ly_current_size ly \<le> ly_current_size ly1" by (auto simp: request_ticket_def Let_def split: if_splits)
  then show ?case using Cons.IH [OF r(2)] by simp
qed simp

text \<open>Where a ticket lies.\<close>

definition ticket_of :: "layer \<Rightarrow> nat \<Rightarrow> nat \<Rightarrow> ticket \<Rightarrow> bool" where
  "ticket_of ly end_size n t \<longleftrightarrow> t_layer_num t = ly_layer_num ly \<and> t_st_bit t mod 8 = 0 \<and> t_end_bit t = t_st_bit t + n \<and>
     ly_current_size ly \<le> t_st_bit t div 8 \<and> ticket_end_byte t \<le> end_size"

lemma tickets_run:
  assumes "ly_state ly = Ticketing"
  shows "\<exists>ts ly'. rscan request_ticket ly sizes = Inr (ts, ly') \<and> length ts = length sizes \<and> ly_state ly' = Ticketing \<and>
    (\<forall>k<length sizes. ticket_of ly (ly_current_size ly') (sizes ! k) (ts ! k)) \<and>
    (\<forall>i k. i < k \<longrightarrow> k < length sizes \<longrightarrow> ticket_end_byte (ts ! i) \<le> t_st_bit (ts ! k) div 8)"
  using assms
proof (induction sizes arbitrary: ly)
  case (Cons n sizes)
  let ?t = "\<lparr>t_layer_num = ly_layer_num ly, t_st_bit = ly_current_size ly * 8, t_end_bit = ly_current_size ly * 8 + n\<rparr>"
  let ?ly = "ly\<lparr>ly_current_size := ly_current_size ly + div_ceil n 8\<rparr>"
  have r: "request_ticket ly n = Inr (?t, ?ly)" using Cons.prems by (simp add: request_ticket_def Let_def)
  obtain ts ly' where IH: "rscan request_ticket ?ly sizes = Inr (ts, ly')" "length ts = length sizes" "ly_state ly' = Ticketing"
      "\<forall>k<length sizes. ticket_of ?ly (ly_current_size ly') (sizes ! k) (ts ! k)"
      "\<forall>i k. i < k \<longrightarrow> k < length sizes \<longrightarrow> ticket_end_byte (ts ! i) \<le> t_st_bit (ts ! k) div 8"
    using Cons.IH [of ?ly] Cons.prems by auto
  have te: "ticket_end_byte ?t = ly_current_size ly + div_ceil n 8" by (simp add: ticket_end_byte_def div_ceil_def)
  have "\<forall>k<length (n # sizes). ticket_of ly (ly_current_size ly') ((n # sizes) ! k) ((?t # ts) ! k)"
    using IH(4) tickets_grow [OF IH(1)] te by (auto simp: ticket_of_def less_Suc_eq_0_disj)
  moreover have "\<forall>i k. i < k \<longrightarrow> k < length (n # sizes) \<longrightarrow> ticket_end_byte ((?t # ts) ! i) \<le> t_st_bit ((?t # ts) ! k) div 8"
    using IH(4,5) te by (auto simp: ticket_of_def less_Suc_eq_0_disj nth_Cons split: nat.splits)
  ultimately show ?case using r IH(1-3) by (intro exI [of _ "?t # ts"] exI [of _ ly']) simp
qed simp

text \<open>C12. The tickets a layer hands out while it is in its ticketing phase start at byte boundaries, reserve exactly the
  requested number of bits, lie within the size of the layer and do not share a byte with one another; a layer in
  any other phase refuses a request.\<close>

theorem tickets_disjoint:
  assumes "ly_state ly = Ticketing"
  shows "(\<exists>ts ly'. rscan request_ticket ly sizes = Inr (ts, ly') \<and> length ts = length sizes \<and> ly_state ly' = Ticketing \<and>
    (\<forall>k<length sizes. t_layer_num (ts ! k) = ly_layer_num ly \<and> t_st_bit (ts ! k) mod 8 = 0 \<and>
       t_end_bit (ts ! k) = t_st_bit (ts ! k) + sizes ! k \<and> ly_current_size ly \<le> t_st_bit (ts ! k) div 8 \<and>
       ticket_end_byte (ts ! k) \<le> ly_current_size ly') \<and>
    (\<forall>i k. i < k \<longrightarrow> k < length sizes \<longrightarrow> ticket_end_byte (ts ! i) \<le> t_st_bit (ts ! k) div 8)) \<and>
    (\<forall>ly2 n. ly_state ly2 \<noteq> Ticketing \<longrightarrow> request_ticket ly2 n = Inl ExplicitPanic)"
  using tickets_run [OF assms, of sizes] unfolding ticket_of_def by (simp add: request_ticket_def)

theorem tickets_disjoint_witness:
  "\<exists>ts ly'. rscan request_ticket (layer_new False 1) [3, 9, 16] = Inr (ts, ly') \<and>
     ticket_end_byte (ts ! 0) \<le> t_st_bit (ts ! 2) div 8"
proof -
  obtain ts ly' where "rscan request_ticket (layer_new False 1) [3, 9, 16] = Inr (ts, ly')"
      "\<forall>i k. i < k \<longrightarrow> k < length [3, 9, 16 :: nat] \<longrightarrow> ticket_end_byte (ts ! i) \<le> t_st_bit (ts ! k) div 8"
    using tickets_disjoint [of "layer_new False 1" "[3, 9, 16]"] by (auto simp: layer_new_def)
  then show ?thesis by (auto intro!: exI [of _ ts])
qed

end
