(* ===== verification/DaBit.thy ===== *)
theory DaBit
  imports Sharing
begin

text \<open>
  \<open>src/cor_rnd/dabit.rs\<close>: daBits, a random bit shared both by exclusive-or and additively over
  the scalars, and their provider. DaBits with their addition are a \<open>sharing_scheme\<close>, the
  provider a \<open>preproc_provider\<close>.
\<close>

section \<open>DaBits\<close>

record 's dabit =
  r_z2 :: bool
  r_zp :: "'s arith_value"

text \<open>One item of \<open>random_dabits\<close>: the bit is drawn before the scalar.\<close>

definition random_dabit ::
  "'r rng_ops \<Rightarrow> ('s::comm_ring_1, 'r) scalar_ops \<Rightarrow> 'r \<Rightarrow> ('s dabit \<times> 'r) res" where
  "random_dabit R S rng =
     (let (v, rng) = rng_next_u32 R rng; (z, rng) = av_random S rng in
      Ok (\<lparr>r_z2 = (v mod 2 = 1), r_zp = z\<rparr>, rng))"

definition random_dabits ::
  "'r rng_ops \<Rightarrow> ('s::comm_ring_1, 'r) scalar_ops \<Rightarrow> nat \<Rightarrow> 'r \<Rightarrow> ('s dabit list \<times> 'r) res" where
  "random_dabits R S bit_num rng = rtimes bit_num (random_dabit R S) rng"

definition init_single_bit ::
  "'r rng_ops \<Rightarrow> ('s::comm_ring_1, 'r) scalar_ops \<Rightarrow> 'r \<Rightarrow> 's dabit \<times> 'r" where
  "init_single_bit R S rng =
     (let (v, rng) = rng_next_u32 R rng; val = v mod 2 in
      (\<lparr>r_z2 = (val = 1), r_zp = av_from_u32 S val\<rparr>, rng))"

definition dabit_add :: "'s::comm_ring_1 dabit \<Rightarrow> 's dabit \<Rightarrow> 's dabit" where
  "dabit_add x da = \<lparr>r_z2 = (r_z2 x \<noteq> r_z2 da), r_zp = av_add (r_zp x) (r_zp da)\<rparr>"

definition dabit_sub :: "'s::comm_ring_1 dabit \<Rightarrow> 's dabit \<Rightarrow> 's dabit" where
  "dabit_sub x da = \<lparr>r_z2 = (r_z2 x \<noteq> r_z2 da), r_zp = av_sub (r_zp x) (r_zp da)\<rparr>"

definition dabit_reconstruct :: "'s::comm_ring_1 dabit list \<Rightarrow> 's dabit res" where
  "dabit_reconstruct dabits =
     rbind (index dabits 0) (\<lambda>out. Ok (foldl dabit_add out (drop 1 dabits)))"

section \<open>The provider\<close>

record 's dabit_provider =
  da_bit_storage :: "'s dabit list option"
  da_used :: nat
  da_last_report :: nat

definition da_new :: "'s::comm_ring_1 dabit_provider" where
  "da_new = \<lparr>da_bit_storage = None, da_used = 0, da_last_report = 0\<rparr>"

definition da_generate_with_seed ::
  "'r rng_ops \<Rightarrow> ('s::comm_ring_1, 'r) scalar_ops \<Rightarrow> 's dabit_provider \<Rightarrow> nat \<Rightarrow> u8 list \<Rightarrow>
     's dabit_provider res" where
  "da_generate_with_seed R S dp bit_num seed =
     rbind (random_dabits R S bit_num (rng_from_seed R seed)) (\<lambda>(ds, _).
     Ok (dp\<lparr>da_bit_storage := Some ds, da_used := 0, da_last_report := 0\<rparr>))"

text \<open>The dealer's own share of daBit \<open>i\<close>: a fresh bit less the shares of the others.\<close>

definition dealer_dabit ::
  "'r rng_ops \<Rightarrow> ('s::comm_ring_1, 'r) scalar_ops \<Rightarrow> 's dabit list list \<Rightarrow> nat \<Rightarrow> 'r \<Rightarrow> ('s dabit \<times> 'r) res" where
  "dealer_dabit R S other_shares i rng =
     (let (acc, rng) = init_single_bit R S rng in
      rbind (rfold (\<lambda>other_share acc. rbind (index other_share i) (\<lambda>da. Ok (dabit_sub acc da)))
               other_shares acc) (\<lambda>acc.
      Ok (acc, rng)))"

definition da_generate_as_dealer ::
  "'r rng_ops \<Rightarrow> ('s::comm_ring_1, 'r) scalar_ops \<Rightarrow> 's dabit_provider \<Rightarrow> nat \<Rightarrow> u8 list \<Rightarrow> u8 list list \<Rightarrow>
     's dabit_provider res" where
  "da_generate_as_dealer R S dp bit_num seed other_party_seeds =
     rbind (rmap (\<lambda>other_seed. rbind (random_dabits R S bit_num (rng_from_seed R other_seed)) (\<lambda>(ds, _). Ok ds))
              other_party_seeds) (\<lambda>other_shares.
     rbind (rscan (\<lambda>rng i. dealer_dabit R S other_shares i rng) (rng_from_seed R seed) [0..<bit_num])
       (\<lambda>(dealer, _).
     Ok (dp\<lparr>da_bit_storage := Some dealer, da_used := 0, da_last_report := 0\<rparr>)))"

definition da_take :: "'s::comm_ring_1 dabit_provider \<Rightarrow> nat \<Rightarrow> ('s dabit list \<times> 's dabit_provider) res" where
  "da_take dp req_size =
     rbind (expect (da_bit_storage dp)) (\<lambda>storage.
     rbind (rassert (da_used dp + req_size \<le> length storage) AssertionFailed) (\<lambda>_.
     rbind (slice storage (da_used dp) (da_used dp + req_size)) (\<lambda>result.
     Ok (result, dp\<lparr>da_used := da_used dp + req_size\<rparr>))))"

definition da_report_dabit_usage_then_reset ::
  "profile \<Rightarrow> 's::comm_ring_1 dabit_provider \<Rightarrow> (nat \<times> 's dabit_provider) res" where
  "da_report_dabit_usage_then_reset P dp =
     rbind (sub_usize P (da_used dp) (da_last_report dp)) (\<lambda>out.
     Ok (out, dp\<lparr>da_last_report := da_used dp\<rparr>))"

section \<open>Shares\<close>

definition dabit_zero :: "'s::comm_ring_1 dabit" where
  "dabit_zero = \<lparr>r_z2 = False, r_zp = av_zero\<rparr>"

interpretation dab: sharing_scheme "dabit_zero :: 's::comm_ring_1 dabit" dabit_add dabit_sub
proof
  fix x y z :: "'s dabit"
  show "dabit_add (dabit_add x y) z = dabit_add x (dabit_add y z)"
    by (auto simp: dabit_add_def arith.comb_assoc)
  show "dabit_add x y = dabit_add y x"
    using arith.comb_comm by (auto simp: dabit_add_def)
  show "dabit_add dabit_zero x = x"
    by (simp add: dabit_add_def dabit_zero_def arith.comb_zero)
  show "dabit_add (dabit_sub x y) y = x"
    by (cases x) (auto simp: dabit_add_def dabit_sub_def arith.comb_remove)
qed

lemma dabit_reconstruct_Ok: "ds \<noteq> [] \<Longrightarrow> dabit_reconstruct ds = Inr (foldl dabit_add dabit_zero ds)"
  by (cases ds) (simp_all add: dabit_reconstruct_def index_def dab.comb_zero)

text \<open>The two parts of a combination: the exclusive-or and the sum.\<close>

lemma foldl_dabit_add:
  "r_z2 (foldl dabit_add d ds) = (r_z2 d \<noteq> xors (map r_z2 ds)) \<and>
   av_value (r_zp (foldl dabit_add d ds)) = av_value (r_zp d) + sum_list (map (\<lambda>d. av_value (r_zp d)) ds)"
  by (induction ds arbitrary: d) (auto simp: dabit_add_def algebra_simps)

text \<open>Shares of one random bit in both domains.\<close>

definition dabits_ok :: "'s::comm_ring_1 dabit list \<Rightarrow> bool" where
  "dabits_ok ds \<longleftrightarrow> sum_list (map (\<lambda>d. av_value (r_zp d)) ds) = of_bool (xors (map r_z2 ds))"

lemma dabits_ok_Cons:
  "dabits_ok (d # ds) \<longleftrightarrow>
     av_value (r_zp (foldl dabit_add d ds)) = of_bool (r_z2 (foldl dabit_add d ds))"
  by (simp add: dabits_ok_def foldl_dabit_add)

lemma word_mod_2: "v mod 2 = of_bool (odd v)" for v :: u32
  by (simp add: mod_2_eq_odd)

lemma init_single_bit_ok:
  assumes "scalar_from_ok S" "init_single_bit R S rng = (d, rng')"
  shows "av_value (r_zp d) = of_bool (r_z2 d)"
  using assms by (auto simp: init_single_bit_def word_mod_2 split: prod.splits if_splits)

lemma random_dabits_Ok:
  "\<exists>ds rng'. random_dabits R S n rng = Inr (ds, rng') \<and> length ds = n"
proof -
  have "\<exists>x s'. random_dabit R S s = Inr (x, s') \<and> True" for s
    by (simp add: random_dabit_def split: prod.split)
  then show ?thesis unfolding random_dabits_def using rtimes_Ok [of "random_dabit R S" "\<lambda>_. True"] by blast
qed

lemma other_dabits_Ok:
  "\<exists>dss. rmap (\<lambda>seed. rbind (random_dabits R S n (rng_from_seed R seed)) (\<lambda>(ds, _). Ok ds)) seeds = Inr dss \<and>
     length dss = length seeds \<and> (\<forall>ds\<in>set dss. length ds = n)"
proof (induction seeds)
  case (Cons s seeds)
  obtain ds r where "random_dabits R S n (rng_from_seed R s) = Inr (ds, r)" "length ds = n"
    using random_dabits_Ok [of R S n "rng_from_seed R s"] by blast
  with Cons show ?case by auto
qed simp

lemma dealer_dabit_Ok:
  assumes "scalar_from_ok S" "\<forall>ds\<in>set dss. i < length ds"
  shows "\<exists>d rng'. dealer_dabit R S dss i rng = Inr (d, rng') \<and> dabits_ok (d # map (\<lambda>ds. ds ! i) dss)"
proof -
  obtain b rng' where b: "init_single_bit R S rng = (b, rng')" by fastforce
  let ?d = "foldl dabit_sub b (map (\<lambda>ds. ds ! i) dss)"
  have "rfold (\<lambda>other_share acc. rbind (index other_share i) (\<lambda>da. Ok (dabit_sub acc da))) dss acc
      = Inr (foldl dabit_sub acc (map (\<lambda>ds. ds ! i) dss))" for acc
    using assms(2) by (induction dss arbitrary: acc) (simp_all add: index_def)
  then have "dealer_dabit R S dss i rng = Inr (?d, rng')"
    by (simp add: dealer_dabit_def b)
  moreover have "foldl dabit_add ?d (map (\<lambda>ds. ds ! i) dss) = b"
    using dab.comb_foldl_remove [of b "map (\<lambda>ds. ds ! i) dss"] dab.foldl_comb dab.comb_comm dab.comb_zero
    by metis
  then have "dabits_ok (?d # map (\<lambda>ds. ds ! i) dss)"
    using init_single_bit_ok [OF assms(1) b] by (simp add: dabits_ok_Cons)
  ultimately show ?thesis by blast
qed

lemma da_generate_as_dealer_Ok:
  assumes "scalar_from_ok S"
  shows "\<exists>dealer dss. da_generate_as_dealer R S dp n seed seeds
      = Inr (dp\<lparr>da_bit_storage := Some dealer, da_used := 0, da_last_report := 0\<rparr>) \<and>
    rmap (\<lambda>seed. rbind (random_dabits R S n (rng_from_seed R seed)) (\<lambda>(ds, _). Ok ds)) seeds = Inr dss \<and>
    (\<forall>ds\<in>set (dealer # dss). length ds = n) \<and> (\<forall>i<n. dabits_ok (map (\<lambda>ds. ds ! i) (dealer # dss)))"
proof -
  obtain dss where dss: "rmap (\<lambda>seed. rbind (random_dabits R S n (rng_from_seed R seed)) (\<lambda>(ds, _). Ok ds)) seeds = Inr dss"
      "\<forall>ds\<in>set dss. length ds = n"
    using other_dabits_Ok [of R S n seeds] by blast
  have "\<exists>d rng'. dealer_dabit R S dss i rng = Inr (d, rng') \<and> dabits_ok (d # map (\<lambda>ds. ds ! i) dss)"
    if "i \<in> set [0..<n]" for rng i
    using dealer_dabit_Ok [OF assms, of dss i] dss(2) that by auto
  then obtain dealer rng' where dealer:
      "rscan (\<lambda>rng i. dealer_dabit R S dss i rng) (rng_from_seed R seed) [0..<n] = Inr (dealer, rng')"
      "list_all2 (\<lambda>i d. dabits_ok (d # map (\<lambda>ds. ds ! i) dss)) [0..<n] dealer"
    using rscan_Ok [of "[0..<n]" "\<lambda>rng i. dealer_dabit R S dss i rng"
        "\<lambda>i d. dabits_ok (d # map (\<lambda>ds. ds ! i) dss)" "rng_from_seed R seed"] by blast
  then have "length dealer = n" "\<forall>i<n. dabits_ok (dealer ! i # map (\<lambda>ds. ds ! i) dss)"
    by (auto simp: list_all2_conv_all_nth)
  moreover have "da_generate_as_dealer R S dp n seed seeds
      = Inr (dp\<lparr>da_bit_storage := Some dealer, da_used := 0, da_last_report := 0\<rparr>)"
    by (simp add: da_generate_as_dealer_def dss(1) dealer(1))
  ultimately show ?thesis using dss by auto
qed

section \<open>Taking daBits\<close>

definition da_initialised :: "'s::comm_ring_1 dabit_provider \<Rightarrow> bool" where
  "da_initialised dp \<longleftrightarrow> da_bit_storage dp \<noteq> None"

definition da_total :: "'s::comm_ring_1 dabit_provider \<Rightarrow> nat" where
  "da_total dp = (case da_bit_storage dp of None \<Rightarrow> 0 | Some ds \<Rightarrow> length ds)"

definition da_block :: "'s::comm_ring_1 dabit_provider \<Rightarrow> nat \<Rightarrow> nat \<Rightarrow> 's dabit list" where
  "da_block dp st len = take len (drop st (the (da_bit_storage dp)))"

interpretation dabits: preproc_provider da_initialised da_initialised da_total da_used da_block da_take
  by unfold_locales
    (auto simp: da_take_def da_initialised_def da_total_def da_block_def slice_def fun_eq_iff)

lemma rscan_da_take: "rscan da_take dp sizes = Inr (bs, dp') \<Longrightarrow> da_last_report dp' = da_last_report dp"
proof (induction sizes arbitrary: dp bs)
  case (Cons n sizes)
  then obtain b dp1 bs1 where r: "da_take dp n = Inr (b, dp1)" "rscan da_take dp1 sizes = Inr (bs1, dp')" by (auto simp: rbind_eq_Ok)
  have "da_last_report dp1 = da_last_report dp" using r(1) by (auto simp: da_take_def rbind_eq_Ok)
  then show ?case using Cons.IH [OF r(2)] by simp
qed simp

section \<open>Properties\<close>

text \<open>C26. The daBits of a dealer and of the parties that expand theirs from the seeds the dealer was
  given agree: reconstructing the \<open>i\<close>-th daBit of all parties gives one bit in both domains, as a
  Boolean and as the scalar 0 or 1.\<close>

theorem dabits_agree:
  assumes "scalar_from_ok S" and "i < bit_num"
  shows "\<exists>dealer others shares b. da_generate_as_dealer R S da_new bit_num seed other_seeds = Inr dealer \<and>
    rmap (da_generate_with_seed R S da_new bit_num) other_seeds = Inr others \<and>
    rmap (\<lambda>dp. rbind (expect (da_bit_storage dp)) (\<lambda>ds. index ds i)) (dealer # others) = Inr shares \<and>
    dabit_reconstruct shares = Inr \<lparr>r_z2 = b, r_zp = \<lparr>av_value = of_bool b\<rparr>\<rparr>"
proof -
  obtain dealer dss where d:
      "da_generate_as_dealer R S da_new bit_num seed other_seeds
        = Inr (da_new\<lparr>da_bit_storage := Some dealer, da_used := 0, da_last_report := 0\<rparr>)"
      "rmap (\<lambda>seed. rbind (random_dabits R S bit_num (rng_from_seed R seed)) (\<lambda>(ds, _). Ok ds)) other_seeds = Inr dss"
      "\<forall>ds\<in>set (dealer # dss). length ds = bit_num" "\<forall>i<bit_num. dabits_ok (map (\<lambda>ds. ds ! i) (dealer # dss))"
    using da_generate_as_dealer_Ok [OF assms(1), of R da_new bit_num seed other_seeds] by blast
  let ?dp = "\<lambda>ds. da_new\<lparr>da_bit_storage := Some ds, da_used := 0, da_last_report := 0\<rparr>"
  have others: "rmap (da_generate_with_seed R S da_new bit_num) other_seeds = Inr (map ?dp dss)"
    using d(2)
    by (induction other_seeds arbitrary: dss) (auto simp: rbind_eq_Ok da_generate_with_seed_def split: prod.splits)
  let ?shares = "map (\<lambda>ds. ds ! i) (dealer # dss)"
  have shares: "rmap (\<lambda>dp. rbind (expect (da_bit_storage dp)) (\<lambda>ds. index ds i)) (map ?dp (dealer # dss)) = Inr ?shares"
    unfolding rmap_map using d(3) assms(2) by (intro rmap_Ok) (auto simp: index_def)
  let ?r = "foldl dabit_add (dealer ! i) (map (\<lambda>ds. ds ! i) dss)"
  have "av_value (r_zp ?r) = of_bool (r_z2 ?r)"
    using d(4) assms(2) by (simp add: dabits_ok_Cons)
  then have "?r = \<lparr>r_z2 = r_z2 ?r, r_zp = \<lparr>av_value = of_bool (r_z2 ?r)\<rparr>\<rparr>"
    by (intro dabit.equality arith_value.equality) simp_all
  moreover have "dabit_reconstruct ?shares = Inr ?r"
    by (simp add: dabit_reconstruct_def index_def)
  ultimately show ?thesis using d(1) others shares
    by (intro exI [of _ "?dp dealer"] exI [of _ "map ?dp dss"] exI [of _ ?shares] exI [of _ "r_z2 ?r"]) simp
qed

theorem dabits_agree_witness:
  "\<exists>dealer others shares b. da_generate_as_dealer counter_rng ring256_scalars da_new 5 [1] [[2], [3]] = Inr dealer \<and>
    rmap (da_generate_with_seed counter_rng ring256_scalars da_new 5) [[2], [3]] = Inr others \<and>
    rmap (\<lambda>dp. rbind (expect (da_bit_storage dp)) (\<lambda>ds. index ds 4)) (dealer # others) = Inr shares \<and>
    dabit_reconstruct shares = Inr \<lparr>r_z2 = b, r_zp = \<lparr>av_value = of_bool b\<rparr>\<rparr>"
  by (rule dabits_agree) (simp_all add: scalar_from_ok_word)

text \<open>Taking daBits never hands out one twice: a sequence of requests gets consecutive blocks, starting
  where the last one ended, exactly when it fits into what is left, and stops with the assertion otherwise; what
  is reported afterwards is what was taken since the last report.\<close>

lemma da_take_consecutive:
  assumes "da_initialised dp" and "da_used dp \<le> da_total dp" and "da_last_report dp = da_used dp"
  shows "if da_used dp + sum_list sizes \<le> da_total dp
    then \<exists>dp'. rscan da_take dp sizes
        = Inr (map (\<lambda>k. da_block dp (da_used dp + sum_list (take k sizes)) (sizes ! k)) [0..<length sizes], dp') \<and>
      (\<exists>dp''. da_report_dabit_usage_then_reset P dp' = Inr (sum_list sizes, dp'') \<and>
        da_report_dabit_usage_then_reset P dp'' = Inr (0, dp''))
    else rscan da_take dp sizes = Inl AssertionFailed"
proof (cases "da_used dp + sum_list sizes \<le> da_total dp")
  case True
  obtain dp' where r: "rscan da_take dp sizes
        = Inr (map (\<lambda>k. da_block dp (da_used dp + sum_list (take k sizes)) (sizes ! k)) [0..<length sizes], dp')"
      "da_used dp' = da_used dp + sum_list sizes" using dabits.take_run [OF assms(1) True] by blast
  have "da_last_report dp' = da_last_report dp" using r(1) by (rule rscan_da_take)
  then show ?thesis
    using True r assms(3) by (intro if_P [THEN iffD2]) (auto simp: da_report_dabit_usage_then_reset_def)
next
  case False
  then show ?thesis using dabits.take_exhausts [OF assms(1,2), of sizes] by simp
qed

end
