(* ===== verification/B2A_Conv.thy ===== *)
theory B2A_Conv
  imports DaBit Connection
begin

unbundle bit_operations_syntax

text \<open>
  \<open>src/prc/b2a_conv.rs\<close>: the conversion of exclusive-or shares of Boolean values to additive shares
  over the scalars with daBits. The bits of all values are blinded and opened in one round.
\<close>

section \<open>The conversion\<close>

record conv_layer =
  cl_party_const :: bool

definition conv_layer_new :: "bool \<Rightarrow> conv_layer" where
  "conv_layer_new party_const = \<lparr>cl_party_const = party_const\<rparr>"

text \<open>The loops over the values and their bits run over one position after the other: the bit
  length and the value of each position's number, with the bit's index.\<close>

definition bit_positions :: "boolean_value list \<Rightarrow> (boolean_value \<times> nat) list" where
  "bit_positions boolean_values = concat (map (\<lambda>bv. map (\<lambda>i. (bv, i)) [0..<bv_bit_len bv]) boolean_values)"

definition decompose_bits :: "boolean_value list \<Rightarrow> bitarray \<Rightarrow> bitarray res" where
  "decompose_bits boolean_values b =
     rbind (rfold (\<lambda>(bv, i) (b, current).
              rbind (ba_set_bit b current ((drop_bit i (bv_value bv) AND 1) \<noteq> 0)) (\<lambda>b.
              Ok (b, current + 1))) (bit_positions boolean_values) (b, 0)) (\<lambda>(b, _).
     Ok b)"

definition blind_bits :: "'s::comm_ring_1 dabit list \<Rightarrow> bitarray \<Rightarrow> bitarray \<Rightarrow> bitarray res" where
  "blind_bits dabits b e =
     rfold (\<lambda>(i, dabit) e. rbind (ba_get b i) (\<lambda>bi. ba_set_bit e i (bi \<noteq> r_z2 dabit)))
       (zip [0..<length dabits] dabits) e"

text \<open>\<open>bit_A = e + [r_A] - 2e[r_A]\<close>, weighted with the bit's power of two.\<close>

definition conv_bit ::
  "('s::comm_ring_1, 'r) scalar_ops \<Rightarrow> bool \<Rightarrow> 's dabit \<Rightarrow> bool \<Rightarrow> nat \<Rightarrow> 's arith_value \<Rightarrow> 's arith_value" where
  "conv_bit S party_const dabit e_bit i val =
     (let round = r_zp dabit;
          e_ra_mul2 = av_mul (r_zp dabit) (av_from_u32 S (2 * of_bool e_bit));
          round = av_sub round e_ra_mul2;
          round = (if party_const then av_add round (av_from_u32 S (of_bool e_bit)) else round);
          round = av_mul round (av_from_u32 S (push_bit i 1))
      in av_add val round)"

definition conv_value ::
  "('s::comm_ring_1, 'r) scalar_ops \<Rightarrow> bool \<Rightarrow> 's dabit list \<Rightarrow> bitarray \<Rightarrow> nat \<Rightarrow> nat \<Rightarrow>
     ('s arith_value \<times> nat) res" where
  "conv_value S party_const dabits e bit_len current =
     rfold (\<lambda>i (val, current).
         rbind (index dabits current) (\<lambda>dabit.
         rbind (ba_get e current) (\<lambda>e_bit.
         Ok (conv_bit S party_const dabit e_bit i val, current + 1))))
       [0..<bit_len] (av_zero, current)"

definition conv_values ::
  "('s::comm_ring_1, 'r) scalar_ops \<Rightarrow> bool \<Rightarrow> 's dabit list \<Rightarrow> bitarray \<Rightarrow> boolean_value list \<Rightarrow>
     's arith_value list res" where
  "conv_values S party_const dabits e boolean_values =
     rbind (rscan (\<lambda>current bv. conv_value S party_const dabits e (bv_bit_len bv) current) 0 boolean_values)
       (\<lambda>(arith, _). Ok arith)"

definition conv_interact ::
  "('s::comm_ring_1, 'r) scalar_ops \<Rightarrow> ('s, 'g) group_ops \<Rightarrow> conv_layer \<Rightarrow> boolean_value list \<Rightarrow> 's dabit_provider \<Rightarrow>
     'g message_handler \<Rightarrow> (u8 list, 's arith_value list \<times> 's dabit_provider \<times> 'g message_handler) prog" where
  "conv_interact S G cl boolean_values dabit_provider message_handler =
     (let total_bits = sum_list (map bv_bit_len boolean_values) in
      pbind (lift_res (ba_new total_bits)) (\<lambda>b.
      pbind (lift_res (decompose_bits boolean_values b)) (\<lambda>b.
      pbind (lift_res (da_take dabit_provider total_bits)) (\<lambda>(dabits, dabit_provider).
      pbind (lift_res (ba_new total_bits)) (\<lambda>e.
      pbind (lift_res (blind_bits dabits b e)) (\<lambda>e.
      pbind (lift_res (ba_clone e)) (\<lambda>e_out.
      pbind (mh_send_dabit_shares G message_handler e_out) (\<lambda>_.
      pbind (mh_receive_dabit_shares G message_handler) (\<lambda>(rec_shares, message_handler).
      pbind (lift_res (ba_inplace_reconstruct e rec_shares)) (\<lambda>e.
      pbind (lift_res (conv_values S (cl_party_const cl) dabits e boolean_values)) (\<lambda>arith.
      Done (arith, dabit_provider, message_handler))))))))))))"

section \<open>The bits of all values\<close>

lemma length_bit_positions [simp]: "length (bit_positions bvs) = sum_list (map bv_bit_len bvs)"
  by (simp add: bit_positions_def length_concat comp_def)

text \<open>Where the bits of the \<open>k\<close>-th value are.\<close>

definition bit_offset :: "boolean_value list \<Rightarrow> nat \<Rightarrow> nat" where
  "bit_offset bvs k = sum_list (map bv_bit_len (take k bvs))"

lemma bit_offset_simps [simp]:
  "bit_offset bvs 0 = 0" "bit_offset (bv # bvs) (Suc k) = bv_bit_len bv + bit_offset bvs k"
  by (simp_all add: bit_offset_def)

lemma bit_position_nth:
  assumes "k < length bvs" "i < bv_bit_len (bvs ! k)"
  shows "bit_offset bvs k + i < sum_list (map bv_bit_len bvs)" "bit_positions bvs ! (bit_offset bvs k + i) = (bvs ! k, i)"
  using assms
proof (induction bvs arbitrary: k)
  case (Cons bv bvs)
  have pos: "bit_positions (bv # bvs) = map (\<lambda>i. (bv, i)) [0..<bv_bit_len bv] @ bit_positions bvs"
    by (simp add: bit_positions_def)
  {
    case 1
    then show ?case using Cons.IH(1) by (cases k) auto
  next
    case 2
    then show ?case using Cons.IH(2) by (cases k) (auto simp: pos nth_append)
  }
qed simp_all

definition pos_bit :: "boolean_value list \<Rightarrow> nat \<Rightarrow> bool" where
  "pos_bit bvs j = (case bit_positions bvs ! j of (bv, i) \<Rightarrow> bit (bv_value bv) i)"

lemma shifted_bit: "(drop_bit i v AND 1 \<noteq> 0) = bit v i" for v :: u32
  by (simp add: and_one_eq bit_iff_odd_drop_bit mod_2_eq_odd)

lemma decompose_loop:
  assumes "k \<le> m" "m = length ps"
  shows "rfold (\<lambda>(bv, i) (b, current). rbind (ba_set_bit b current ((drop_bit i (bv_value bv) AND 1) \<noteq> 0)) (\<lambda>b. Ok (b, current + 1)))
      (take k ps) (ba_make m (\<lambda>_. False), 0)
    = Inr (ba_make m (\<lambda>j. j < k \<and> (case ps ! j of (bv, i) \<Rightarrow> bit (bv_value bv) i)), k)"
  using assms(1)
proof (induction k)
  case (Suc k)
  obtain bv i where ps: "ps ! k = (bv, i)" by fastforce
  let ?f = "\<lambda>j. case ps ! j of (bv, i) \<Rightarrow> bit (bv_value bv) i"
  have "ba_set_bit (ba_make m (\<lambda>j. j < k \<and> ?f j)) k (bit (bv_value bv) i) = Inr (ba_make m ((\<lambda>j. j < k \<and> ?f j)(k := ?f k)))"
    using bits.set_view [of "ba_make m (\<lambda>j. j < k \<and> ?f j)" k] bits.mk_upd [of k m "\<lambda>j. j < k \<and> ?f j"] Suc.prems by (simp add: ps)
  also have "(\<lambda>j. j < k \<and> ?f j)(k := ?f k) = (\<lambda>j. j < Suc k \<and> ?f j)" by (auto simp: less_Suc_eq fun_eq_iff)
  finally show ?case
    using Suc assms(2) by (simp add: take_Suc_conv_app_nth rfold_append ps shifted_bit)
qed simp

lemma decompose_bits_Ok:
  assumes "m = sum_list (map bv_bit_len bvs)"
  shows "decompose_bits bvs (ba_make m (\<lambda>_. False)) = Inr (ba_make m (\<lambda>j. j < m \<and> pos_bit bvs j))"
  using decompose_loop [of m m "bit_positions bvs"] assms by (simp add: decompose_bits_def pos_bit_def)

lemma blind_bits_Ok:
  assumes "length ds = m"
  shows "blind_bits ds (ba_make m f) (ba_make m (\<lambda>_. False)) = Inr (ba_make m (\<lambda>j. j < m \<and> f j \<noteq> r_z2 (ds ! j)))"
proof -
  have "ba_get (ba_make m f) i = Inr (f i)" if "i < m" for i
    using bits.get_view [of "ba_make m f" i] bits.view_mk [of i m f] that by simp
  then have "rfold (\<lambda>i e. rbind (rbind (ba_get (ba_make m f) i) (\<lambda>bi. Ok (bi \<noteq> r_z2 (ds ! i)))) (\<lambda>v. ba_set_bit e (i + 0) v)) [0..<m] (ba_make m (\<lambda>_. False))
      = Inr (ba_make m (\<lambda>j. if 0 \<le> j \<and> j < 0 + m then f (j - 0) \<noteq> r_z2 (ds ! (j - 0)) else mbit (ba_make m (\<lambda>_. False)) j))"
    using bits.write_loop [of "ba_make m (\<lambda>_. False)" 0 m "\<lambda>i. rbind (ba_get (ba_make m f) i) (\<lambda>bi. Ok (bi \<noteq> r_z2 (ds ! i)))"
        "\<lambda>i. f i \<noteq> r_z2 (ds ! i)"] by simp
  moreover have "zip [0..<m] ds = map (\<lambda>i. (i, ds ! i)) [0..<m]"
    using assms by (intro nth_equalityI) simp_all
  moreover have "ba_make m (\<lambda>j. if 0 \<le> j \<and> j < 0 + m then f (j - 0) \<noteq> r_z2 (ds ! (j - 0)) else mbit (ba_make m (\<lambda>_. False)) j)
      = ba_make m (\<lambda>j. j < m \<and> f j \<noteq> r_z2 (ds ! j))"
    by (rule ba_make_cong) simp
  ultimately show ?thesis by (simp add: blind_bits_def assms rfold_map rbind_assoc)
qed

section \<open>The arithmetic\<close>

text \<open>What a party adds for a bit with opened \<open>e\<close>, before the weight.\<close>

definition conv_term :: "bool \<Rightarrow> 's::comm_ring_1 \<Rightarrow> bool \<Rightarrow> 's" where
  "conv_term party_const r e = r - r * (2 * of_bool e) + (if party_const then of_bool e else 0)"

lemma conv_bit_value:
  assumes "scalar_from_ok S" "i < 32"
  shows "av_value (conv_bit S party_const d e i val) = av_value val + conv_term party_const (av_value (r_zp d)) e * 2 ^ i"
proof -
  have "av_value (av_from_u32 S (push_bit i 1)) = 2 ^ i"
    unfolding av_value_from_u32 [OF assms(1)] unat_exp_u32 [OF assms(2)] by simp
  moreover have "av_value (av_from_u32 S (2 * of_bool e)) = 2 * of_bool e" "av_value (av_from_u32 S (of_bool e)) = of_bool e"
    using assms(1) by simp_all
  ultimately show ?thesis
    by (cases e) (simp_all add: conv_bit_def conv_term_def Let_def del: push_bit_of_1)
qed

lemma conv_value_Ok:
  assumes "scalar_from_ok S" "l \<le> 32" "c + l \<le> m" "length ds = m" "ba_sized m e"
  shows "\<exists>val. conv_value S party_const ds e l c = Inr (val, c + l) \<and>
    av_value val = (\<Sum>i<l. conv_term party_const (av_value (r_zp (ds ! (c + i)))) (mbit e (c + i)) * 2 ^ i)"
  using assms(2,3)
proof (induction l)
  case 0
  then show ?case by (simp add: conv_value_def)
next
  case (Suc l)
  then obtain val where val: "conv_value S party_const ds e l c = Inr (val, c + l)"
    "av_value val = (\<Sum>i<l. conv_term party_const (av_value (r_zp (ds ! (c + i)))) (mbit e (c + i)) * 2 ^ i)" by auto
  have "index ds (c + l) = Inr (ds ! (c + l))" "ba_get e (c + l) = Inr (mbit e (c + l))"
    using Suc.prems assms(4,5) by (simp_all add: index_def ba_get_Ok)
  then have "conv_value S party_const ds e (Suc l) c
      = Inr (conv_bit S party_const (ds ! (c + l)) (mbit e (c + l)) l val, c + Suc l)"
    using val(1) by (simp add: conv_value_def rfold_append)
  with val(2) Suc.prems show ?case by (simp add: conv_bit_value [OF assms(1)])
qed

lemma conv_values_scan:
  assumes S: "scalar_from_ok S" and "\<And>bv. bv \<in> set bvs \<Longrightarrow> bv_bit_len bv \<le> 32"
    and "c + sum_list (map bv_bit_len bvs) \<le> m" "length ds = m" "ba_sized m e"
  shows "\<exists>vals. rscan (\<lambda>current bv. conv_value S party_const ds e (bv_bit_len bv) current) c bvs
      = Inr (vals, c + sum_list (map bv_bit_len bvs)) \<and> length vals = length bvs \<and>
    (\<forall>k<length bvs. av_value (vals ! k) = (\<Sum>i<bv_bit_len (bvs ! k).
       conv_term party_const (av_value (r_zp (ds ! (c + bit_offset bvs k + i)))) (mbit e (c + bit_offset bvs k + i)) * 2 ^ i))"
  using assms(2,3)
proof (induction bvs arbitrary: c)
  case (Cons bv bvs)
  obtain val where val: "conv_value S party_const ds e (bv_bit_len bv) c = Inr (val, c + bv_bit_len bv)"
    "av_value val = (\<Sum>i<bv_bit_len bv. conv_term party_const (av_value (r_zp (ds ! (c + i)))) (mbit e (c + i)) * 2 ^ i)"
    using conv_value_Ok [OF S _ _ assms(4,5), of "bv_bit_len bv" c party_const] Cons.prems by auto
  obtain vals where vals: "rscan (\<lambda>current bv. conv_value S party_const ds e (bv_bit_len bv) current) (c + bv_bit_len bv) bvs
      = Inr (vals, c + bv_bit_len bv + sum_list (map bv_bit_len bvs))" "length vals = length bvs"
    "\<And>k. k < length bvs \<Longrightarrow> av_value (vals ! k) = (\<Sum>i<bv_bit_len (bvs ! k).
       conv_term party_const (av_value (r_zp (ds ! (c + bv_bit_len bv + bit_offset bvs k + i))))
         (mbit e (c + bv_bit_len bv + bit_offset bvs k + i)) * 2 ^ i)"
    using Cons.IH [of "c + bv_bit_len bv"] Cons.prems by auto
  have "av_value ((val # vals) ! k) = (\<Sum>i<bv_bit_len ((bv # bvs) ! k).
       conv_term party_const (av_value (r_zp (ds ! (c + bit_offset (bv # bvs) k + i)))) (mbit e (c + bit_offset (bv # bvs) k + i)) * 2 ^ i)"
    if "k < length (bv # bvs)" for k
    using that val(2) vals(3) by (cases k) (simp_all add: add.assoc)
  with val(1) vals(1,2) show ?case by (intro exI [of _ "val # vals"]) (simp add: add.assoc)
qed simp

text \<open>The parties' terms for a bit add up to the bit.\<close>

lemma conv_terms_sum:
  fixes r :: "nat \<Rightarrow> 's::comm_ring_1"
  assumes "0 < n" "(\<Sum>p<n. r p) = of_bool R" "e = (B \<noteq> R)"
  shows "(\<Sum>p<n. conv_term (p = 0) (r p) e) = of_bool B"
proof -
  have "(\<Sum>p<n. conv_term (p = 0) (r p) e) = (\<Sum>p<n. r p) - (\<Sum>p<n. r p) * (2 * of_bool e) + (\<Sum>p<n. if p = 0 then of_bool e else 0)"
    by (simp add: conv_term_def sum.distrib sum_subtractf sum_distrib_right)
  also have "(\<Sum>p<n. if p = 0 then of_bool e else 0 :: 's) = of_bool e"
    using assms(1) by (simp add: sum.delta)
  finally show ?thesis using assms(2,3) by (cases B; cases R) simp_all
qed

lemma word_bits_sum:
  fixes x :: u32
  assumes "unat x < 2 ^ l"
  shows "of_nat (unat x) = (\<Sum>i<l. of_bool (bit x i) * 2 ^ i :: 's::comm_ring_1)"
proof -
  have "unat x = take_bit l (unat x)" using assms by (simp add: take_bit_nat_eq_self)
  also have "\<dots> = (\<Sum>i<l. of_bool (bit (unat x) i) * 2 ^ i)"
    by (simp flip: horner_sum_bit_eq_take_bit add: horner_sum_eq_sum lessThan_atLeast0)
  finally have "of_nat (unat x) = (of_nat (\<Sum>i<l. of_bool (bit (unat x) i) * 2 ^ i) :: 's)" by simp
  also have "\<dots> = (\<Sum>i<l. of_bool (bit x i) * 2 ^ i)"
    by (simp add: bit_unsigned_iff)
  finally show ?thesis .
qed

section \<open>The conversion of all parties\<close>

text \<open>The daBits of all parties at the same place.\<close>

definition das_ok :: "nat \<Rightarrow> nat \<Rightarrow> (nat \<Rightarrow> 's::comm_ring_1 dabit_provider) \<Rightarrow> nat \<Rightarrow> bool" where
  "das_ok n M dp u \<longleftrightarrow> (\<exists>dd. (\<forall>p<n. da_bit_storage (dp p) = Some (dd p) \<and> length (dd p) = M \<and> da_used (dp p) = u) \<and>
     (\<forall>i<M. dabits_ok (map (\<lambda>p. dd p ! i) [0..<n])))"

lemma das_ok_advance:
  assumes "das_ok n M dp u" "\<And>p. p < n \<Longrightarrow> dp' p = (dp p)\<lparr>da_used := u'\<rparr>"
  shows "das_ok n M dp' u'"
proof -
  obtain dd where "\<forall>p<n. da_bit_storage (dp p) = Some (dd p) \<and> length (dd p) = M \<and> da_used (dp p) = u"
      "\<forall>i<M. dabits_ok (map (\<lambda>p. dd p ! i) [0..<n])" using assms(1) unfolding das_ok_def by blast
  then show ?thesis unfolding das_ok_def using assms(2) by (intro exI [of _ dd]) simp
qed

text \<open>Lists of values of all parties that are shares of the numbers \<open>xs\<close>, with lengths \<open>ls\<close>.\<close>

definition bvs_shares :: "nat \<Rightarrow> nat list \<Rightarrow> (nat \<Rightarrow> boolean_value list) \<Rightarrow> u32 list \<Rightarrow> bool" where
  "bvs_shares n ls bvs xs \<longleftrightarrow> length xs = length ls \<and> (\<forall>p<n. length (bvs p) = length ls) \<and>
     (\<forall>k<length ls. bv_shares n (ls ! k) (\<lambda>p. bvs p ! k) (xs ! k))"

lemma bvs_shares_lens: "bvs_shares n ls bvs xs \<Longrightarrow> p < n \<Longrightarrow> map bv_bit_len (bvs p) = ls"
  by (intro nth_equalityI) (simp_all add: bvs_shares_def bv_shares_def)

text \<open>One party up to the exchange: the share of \<open>e\<close> it sends.\<close>

definition e_bits :: "boolean_value list \<Rightarrow> 's::comm_ring_1 dabit list \<Rightarrow> nat \<Rightarrow> bitarray" where
  "e_bits bvs ds m = ba_make m (\<lambda>j. j < m \<and> pos_bit bvs j \<noteq> r_z2 (ds ! j))"

lemma conv_interact_eq:
  assumes "m = sum_list (map bv_bit_len bvs)" "0 < m" "da_take dp m = Inr (ds, dp')" "length ds = m"
  shows "conv_interact S G cl bvs dp mh =
    pbind (pbind (mh_send_dabit_shares G mh (e_bits bvs ds m)) (\<lambda>_. mh_receive_dabit_shares G mh)) (\<lambda>(rec_shares, mh).
      pbind (lift_res (ba_inplace_reconstruct (e_bits bvs ds m) rec_shares)) (\<lambda>e.
      pbind (lift_res (conv_values S (cl_party_const cl) ds e bvs)) (\<lambda>arith.
      Done (arith, dp', mh))))"
proof -
  have "blind_bits ds (ba_make m (\<lambda>j. j < m \<and> pos_bit bvs j)) (ba_make m (\<lambda>_. False)) = Inr (e_bits bvs ds m)"
    unfolding blind_bits_Ok [OF assms(4)] e_bits_def by (simp cong: conj_cong)
  moreover have "ba_clone (e_bits bvs ds m) = Inr (e_bits bvs ds m)"
    using assms(2) by (simp add: ba_clone_Ok e_bits_def)
  ultimately show ?thesis
    using decompose_bits_Ok [OF assms(1)] assms(2,3)
    by (simp add: conv_interact_def Let_def ba_new_Ok pbind_assoc flip: assms(1))
qed

lemma conv_values_Ok:
  assumes "scalar_from_ok S" and "\<And>bv. bv \<in> set bvs \<Longrightarrow> bv_bit_len bv \<le> 32"
    and "m = sum_list (map bv_bit_len bvs)" "length ds = m" "ba_sized m e"
  shows "\<exists>vals. conv_values S party_const ds e bvs = Inr vals \<and> length vals = length bvs \<and>
    (\<forall>k<length bvs. av_value (vals ! k) = (\<Sum>i<bv_bit_len (bvs ! k).
       conv_term party_const (av_value (r_zp (ds ! (bit_offset bvs k + i)))) (mbit e (bit_offset bvs k + i)) * 2 ^ i))"
  using conv_values_scan [OF assms(1,2), of bvs 0 m ds e party_const] assms(3-) by (auto simp: conv_values_def)


text \<open>What every party opens.\<close>

lemma open_e:
  assumes "p < n" "2 \<le> n" "mset rec = mset (map e (others n p))" "\<And>q. ba_sized m (e q)"
  shows "ba_inplace_reconstruct (e p) rec = Inr (ba_make m (\<lambda>j. xors (map (\<lambda>q. mbit (e q) j) [0..<n])))"
proof -
  obtain qs where qs: "rec = map e qs" "mset qs = mset (others n p)" using mset_mapE [OF assms(3)] by blast
  have "length qs = n - 1" using mset_eq_length [OF qs(2)] length_others [OF assms(1)] by simp
  then have "rec \<noteq> []" using qs(1) assms(2) by auto
  moreover have "list_all (ba_sized m) rec" using assms(4) by (simp add: qs(1) list_all_iff)
  ultimately have "ba_inplace_reconstruct (e p) rec = Inr (ba_make m (\<lambda>j. mbit (e p) j \<noteq> xors (map (\<lambda>s. mbit s j) rec)))"
    by (intro ba_inplace_reconstruct_Ok assms(4))
  moreover have "(mbit (e p) j \<noteq> xors (map (\<lambda>s. mbit s j) rec)) = xors (map (\<lambda>q. mbit (e q) j) [0..<n])" for j
    using xors_others [OF assms(1) qs(2), of "\<lambda>q. mbit (e q) j"] by (simp add: qs(1) comp_def)
  ultimately show ?thesis by simp
qed

text \<open>The opened bit of each position is its bit blinded by the daBit.\<close>

lemma opened_bit:
  assumes bvs: "bvs_shares n ls bvs xs" and k: "k < length ls" "i < ls ! k" and n: "0 < n"
    and m: "m = sum_list ls" and j: "j = sum_list (take k ls) + i"
  shows "j < m" "xors (map (\<lambda>q. mbit (e_bits (bvs q) (ds q) m) j) [0..<n])
    = (bit (xs ! k) i \<noteq> xors (map (\<lambda>q. r_z2 (ds q ! j)) [0..<n]))"
proof -
  have off: "bit_offset (bvs q) k = sum_list (take k ls)" if "q < n" for q
    using bvs_shares_lens [OF bvs that] by (simp add: bit_offset_def flip: take_map)
  have len: "bv_bit_len (bvs q ! k) = ls ! k" "k < length (bvs q)" if "q < n" for q
    using bvs that k(1) by (auto simp: bvs_shares_def bv_shares_def)
  have pos: "j < m \<and> pos_bit (bvs q) j = bit (bv_value (bvs q ! k)) i" if "q < n" for q
    using bit_position_nth [of k "bvs q" i] len [OF that] k(2) bvs_shares_lens [OF bvs that] off [OF that]
    by (simp add: j m pos_bit_def)
  from pos [OF n] show jm: "j < m" by blast
  have "xs ! k = xor_of n (\<lambda>q. bv_value (bvs q ! k))" using bvs k(1) by (simp add: bvs_shares_def bv_shares_def)
  then have "bit (xs ! k) i = xors (map (\<lambda>q. pos_bit (bvs q) j) [0..<n])"
    using pos by (auto simp: bit_xor_of intro!: arg_cong [where f = xors])
  moreover have "xors (map (\<lambda>q. mbit (e_bits (bvs q) (ds q) m) j) [0..<n])
      = xors (map (\<lambda>q. pos_bit (bvs q) j \<noteq> r_z2 (ds q ! j)) [0..<n])"
    using jm cap_ge [of m] by (simp add: e_bits_def)
  ultimately show "xors (map (\<lambda>q. mbit (e_bits (bvs q) (ds q) m) j) [0..<n])
    = (bit (xs ! k) i \<noteq> xors (map (\<lambda>q. r_z2 (ds q ! j)) [0..<n]))" by (simp only: xors_map_neq)
qed

lemma conv_sum:
  fixes ds :: "nat \<Rightarrow> 's::comm_ring_1 dabit list" and vals :: "nat \<Rightarrow> 's arith_value list"
  assumes bvs: "bvs_shares n ls bvs xs" and k: "k < length ls" and n: "0 < n" and m: "m = sum_list ls"
    and ok: "\<And>j. j < m \<Longrightarrow> dabits_ok (map (\<lambda>p. ds p ! j) [0..<n])"
    and E: "\<And>j. E j = xors (map (\<lambda>q. mbit (e_bits (bvs q) (ds q) m) j) [0..<n])"
    and vals: "\<And>p. p < n \<Longrightarrow> av_value (vals p ! k) = (\<Sum>i<ls ! k.
       conv_term (p = 0) (av_value (r_zp (ds p ! (bit_offset (bvs p) k + i)))) (mbit (ba_make m E) (bit_offset (bvs p) k + i)) * 2 ^ i)"
  shows "(\<Sum>p<n. av_value (vals p ! k)) = of_nat (unat (xs ! k))"
proof -
  let ?o = "sum_list (take k ls)"
  have off: "bit_offset (bvs p) k = ?o" if "p < n" for p
    using bvs_shares_lens [OF bvs that] by (simp add: bit_offset_def flip: take_map)
  have bit: "(\<Sum>p<n. conv_term (p = 0) (av_value (r_zp (ds p ! (?o + i)))) (mbit (ba_make m E) (?o + i))) = of_bool (bit (xs ! k) i)"
    if i: "i < ls ! k" for i
  proof (rule conv_terms_sum [OF n])
    note o = opened_bit(1) [OF bvs k i n m refl] opened_bit(2) [OF bvs k i n m refl, where ds = ds]
    show "(\<Sum>p<n. av_value (r_zp (ds p ! (?o + i)))) = of_bool (xors (map (\<lambda>p. r_z2 (ds p ! (?o + i))) [0..<n]))"
      using ok [OF o(1)] by (simp add: dabits_ok_def comp_def interv_sum_list_conv_sum_set_nat lessThan_atLeast0)
    show "mbit (ba_make m E) (?o + i) = (bit (xs ! k) i \<noteq> xors (map (\<lambda>p. r_z2 (ds p ! (?o + i))) [0..<n]))"
      unfolding o(2) [symmetric] using o(1) cap_ge [of m] by (simp add: E)
  qed
  have "(\<Sum>p<n. av_value (vals p ! k)) = (\<Sum>p<n. \<Sum>i<ls ! k.
      conv_term (p = 0) (av_value (r_zp (ds p ! (?o + i)))) (mbit (ba_make m E) (?o + i)) * 2 ^ i)"
    by (rule sum.cong) (simp_all only: lessThan_iff vals off)
  also have "\<dots> = (\<Sum>i<ls ! k. (\<Sum>p<n. conv_term (p = 0) (av_value (r_zp (ds p ! (?o + i)))) (mbit (ba_make m E) (?o + i))) * 2 ^ i)"
    by (subst sum.swap) (simp only: sum_distrib_right)
  also have "\<dots> = (\<Sum>i<ls ! k. of_bool (bit (xs ! k) i) * 2 ^ i)"
    by (rule sum.cong) (simp_all only: lessThan_iff bit)
  also have "\<dots> = of_nat (unat (xs ! k))"
  proof (rule word_bits_sum [symmetric])
    have "bv_shares n (ls ! k) (\<lambda>p. bvs p ! k) (xs ! k)" using bvs k by (simp add: bvs_shares_def)
    then show "unat (xs ! k) < 2 ^ (ls ! k)"
      using xor_of_bound [of n "\<lambda>p. bv_value (bvs p ! k)" "ls ! k"] by (auto simp: bv_shares_def)
  qed
  finally show ?thesis .
qed

lemma conv_interact_shares:
  assumes S: "scalar_from_ok S" and G: "codec_ok G" and n: "2 \<le> n" "n \<le> 256"
    and hs: "\<And>p. p < n \<Longrightarrow> mh_ready n p (hs p)"
    and bvs: "bvs_shares n ls bvs xs" "\<And>l. l \<in> set ls \<Longrightarrow> l \<le> 32"
    and m: "m = sum_list ls" "0 < m" "m < 2 ^ 32" and da: "das_ok n M dp u" "u + m \<le> M"
  shows "all_finish n (\<lambda>p. conv_interact S G (conv_layer_new (p = 0)) (bvs p) (dp p) (hs p))
    (\<lambda>out. \<exists>vals. (\<forall>p<n. out p = (vals p, (dp p)\<lparr>da_used := u + m\<rparr>, hs p) \<and> length (vals p) = length ls) \<and>
      (\<forall>k<length ls. (\<Sum>p<n. av_value (vals p ! k)) = of_nat (unat (xs ! k))))"
proof -
  obtain dd where dd: "\<forall>p<n. da_bit_storage (dp p) = Some (dd p) \<and> length (dd p) = M \<and> da_used (dp p) = u"
      and ok: "\<forall>i<M. dabits_ok (map (\<lambda>p. dd p ! i) [0..<n])" using da(1) unfolding das_ok_def by blast
  define ds where "ds = (\<lambda>p. take m (drop u (dd p)))"
  define e where "e = (\<lambda>p. e_bits (bvs p) (ds p) m)"
  define E where "E = (\<lambda>j. xors (map (\<lambda>q. mbit (e q) j) [0..<n]))"
  let ?dp = "\<lambda>p. (dp p)\<lparr>da_used := u + m\<rparr>"
  let ?Q = "\<lambda>out. \<exists>vals. (\<forall>p<n. out p = (vals p, ?dp p, hs p) \<and> length (vals p) = length ls) \<and>
      (\<forall>k<length ls. (\<Sum>p<n. av_value (vals p ! k)) = of_nat (unat (xs ! k)))"
  have take: "da_take (dp p) m = Inr (ds p, ?dp p)" and len: "length (ds p) = m" if "p < n" for p
    using dd that da(2) by (simp_all add: da_take_def slice_def ds_def)
  have lens: "map bv_bit_len (bvs p) = ls" if "p < n" for p by (rule bvs_shares_lens [OF bvs(1) that])
  have es: "e_share m (e p)" "ba_sized m (e p)" for p
    using m(3) unfolding e_share_def e_def e_bits_def by auto
  have dsok: "dabits_ok (map (\<lambda>p. ds p ! j) [0..<n])" if "j < m" for j
  proof -
    have eq: "map (\<lambda>p. ds p ! j) [0..<n] = map (\<lambda>p. dd p ! (u + j)) [0..<n]"
      using dd da(2) that by (simp add: ds_def)
    show ?thesis unfolding eq using ok da(2) that by simp
  qed
  have "\<exists>v. conv_values S (p = 0) (ds p) (ba_make m E) (bvs p) = Inr v \<and> length v = length ls \<and> (\<forall>k<length ls. av_value (v ! k) = (\<Sum>i<ls ! k.
       conv_term (p = 0) (av_value (r_zp (ds p ! (bit_offset (bvs p) k + i)))) (mbit (ba_make m E) (bit_offset (bvs p) k + i)) * 2 ^ i))"
    if p: "p < n" for p
  proof -
    have "length (bvs p) = length ls" "\<And>k. k < length ls \<Longrightarrow> bv_bit_len (bvs p ! k) = ls ! k"
      using lens [OF p] by (metis length_map, metis length_map nth_map)
    then show ?thesis
      using conv_values_Ok [OF S, of "bvs p" m "ds p" "ba_make m E" "p = 0"] len [OF p] lens [OF p] bvs(2) m(1) by force
  qed
  then have "\<forall>p\<in>{..<n}. \<exists>v. conv_values S (p = 0) (ds p) (ba_make m E) (bvs p) = Inr v \<and> length v = length ls \<and> (\<forall>k<length ls. av_value (v ! k) = (\<Sum>i<ls ! k.
       conv_term (p = 0) (av_value (r_zp (ds p ! (bit_offset (bvs p) k + i)))) (mbit (ba_make m E) (bit_offset (bvs p) k + i)) * 2 ^ i))"
    by blast
  then obtain vals where vals: "\<And>p. p < n \<Longrightarrow> conv_values S (p = 0) (ds p) (ba_make m E) (bvs p) = Inr (vals p)"
    "\<And>p. p < n \<Longrightarrow> length (vals p) = length ls"
    "\<And>p k. p < n \<Longrightarrow> k < length ls \<Longrightarrow> av_value (vals p ! k) = (\<Sum>i<ls ! k.
       conv_term (p = 0) (av_value (r_zp (ds p ! (bit_offset (bvs p) k + i)))) (mbit (ba_make m E) (bit_offset (bvs p) k + i)) * 2 ^ i)"
    by (rule bchoice [THEN exE]) blast
  have sum: "(\<Sum>p<n. av_value (vals p ! k)) = of_nat (unat (xs ! k))" if "k < length ls" for k
    using n(1) vals(3) that by (intro conv_sum [OF bvs(1) that _ m(1) dsok, where E = E and vals = vals]) (simp_all add: E_def e_def)
  have "all_finish n (\<lambda>p. pbind (pbind (mh_send_dabit_shares G (hs p) (e p)) (\<lambda>_. mh_receive_dabit_shares G (hs p))) (\<lambda>(rec_shares, mh).
      pbind (lift_res (ba_inplace_reconstruct (e p) rec_shares)) (\<lambda>ee.
      pbind (lift_res (conv_values S (p = 0) (ds p) ee (bvs p))) (\<lambda>arith. Done (arith, ?dp p, mh))))) ?Q"
  proof (rule all_finish_bind [OF all_finish_mono [OF dabit_x.exchange [OF G n(2), where x = e and m = m]]])
    fix out
    assume out: "\<forall>p<n. \<exists>xs. out p = (xs, hs p) \<and> mset xs = mset (map e (others n p))"
    have "(case out p of (rec_shares, mh) \<Rightarrow> pbind (lift_res (ba_inplace_reconstruct (e p) rec_shares)) (\<lambda>ee.
      pbind (lift_res (conv_values S (p = 0) (ds p) ee (bvs p))) (\<lambda>arith. Done (arith, ?dp p, mh)))) = Done (vals p, ?dp p, hs p)"
      if p: "p < n" for p
    proof -
      obtain rec where rec: "out p = (rec, hs p)" "mset rec = mset (map e (others n p))" using out p by blast
      then show ?thesis using open_e [OF p n(1) rec(2) es(2)] vals(1) [OF p] by (simp flip: E_def)
    qed
    then show "all_finish n (\<lambda>p. (case out p of (rec_shares, mh) \<Rightarrow> pbind (lift_res (ba_inplace_reconstruct (e p) rec_shares)) (\<lambda>ee.
      pbind (lift_res (conv_values S (p = 0) (ds p) ee (bvs p))) (\<lambda>arith. Done (arith, ?dp p, mh))))) ?Q"
      by (rule all_finish.finish [where xs = "\<lambda>p. (vals p, ?dp p, hs p)"]) (use vals(2) sum in auto)
  qed (use hs es in \<open>simp_all add: mh_ready_def\<close>)
  then show ?thesis
  proof (rule all_finish_cong)
    fix p assume p: "p < n"
    have mp: "m = sum_list (map bv_bit_len (bvs p))" using lens [OF p] m(1) by simp
    show "pbind (pbind (mh_send_dabit_shares G (hs p) (e p)) (\<lambda>_. mh_receive_dabit_shares G (hs p))) (\<lambda>(rec_shares, mh).
      pbind (lift_res (ba_inplace_reconstruct (e p) rec_shares)) (\<lambda>ee.
      pbind (lift_res (conv_values S (p = 0) (ds p) ee (bvs p))) (\<lambda>arith. Done (arith, ?dp p, mh))))
      = conv_interact S G (conv_layer_new (p = 0)) (bvs p) (dp p) (hs p)"
      unfolding conv_interact_eq [OF mp m(2) take [OF p] len [OF p]] by (simp add: conv_layer_new_def e_def)
  qed
qed

end
