(* ===== verification/Mpc.thy ===== *)
theory Mpc
  imports Layer B2A_Conv
begin

unbundle bit_operations_syntax

text \<open>
  \<open>src/prc/mpc.rs\<close>: the executor of a party. It builds a circuit of AND layers, the one-hot encoding
  of a shared index by recursive halving among them, runs the layers from the deepest to the first,
  converts Boolean shares and aggregates commitments.
\<close>

section \<open>The executor\<close>

record ('s, 'g) mpc_provider =
  mp_message_handler :: "'g message_handler"
  mp_beaver_provider :: beaver_provider
  mp_dabit_provider :: "'s dabit_provider"
  mp_layers :: "layer list"
  mp_party_const :: bool
  mp_output_layer :: "layer option"

definition mp_new :: "bool \<Rightarrow> beaver_provider \<Rightarrow> 's dabit_provider \<Rightarrow> 'g message_handler \<Rightarrow> ('s, 'g) mpc_provider" where
  "mp_new party_const bp dp mh =
     \<lparr>mp_message_handler = mh, mp_beaver_provider = bp, mp_dabit_provider = dp, mp_layers = [],
      mp_party_const = party_const, mp_output_layer = None\<rparr>"

definition mp_clear :: "('s, 'g) mpc_provider \<Rightarrow> ('s, 'g) mpc_provider" where
  "mp_clear mp = mp\<lparr>mp_layers := [], mp_output_layer := None\<rparr>"

definition create_new_layer :: "('s, 'g) mpc_provider \<Rightarrow> ('s, 'g) mpc_provider" where
  "create_new_layer mp =
     mp\<lparr>mp_layers := mp_layers mp @ [layer_new (mp_party_const mp) (length (mp_layers mp))]\<rparr>"

text \<open>The loop of \<open>get_layer\<close>.\<close>

function get_layer :: "('s, 'g) mpc_provider \<Rightarrow> nat \<Rightarrow> ('s, 'g) mpc_provider" where
  "get_layer mp layer_id =
     (if layer_id \<ge> length (mp_layers mp) then get_layer (create_new_layer mp) layer_id else mp)"
  by pat_completeness auto
termination
  by (relation "measure (\<lambda>(mp, layer_id). Suc layer_id - length (mp_layers mp))")
    (auto simp: create_new_layer_def)

declare get_layer.simps [simp del]

text \<open>Working on the reference \<open>get_layer\<close> returns.\<close>

definition with_layer ::
  "('s, 'g) mpc_provider \<Rightarrow> nat \<Rightarrow> (layer \<Rightarrow> ('a \<times> layer) res) \<Rightarrow> ('a \<times> ('s, 'g) mpc_provider) res" where
  "with_layer mp layer_id f =
     (let mp = get_layer mp layer_id in
      rbind (index (mp_layers mp) layer_id) (\<lambda>ly.
      rbind (f ly) (\<lambda>(x, ly).
      Ok (x, mp\<lparr>mp_layers := (mp_layers mp)[layer_id := ly]\<rparr>))))"

definition mp_and ::
  "('s, 'g) mpc_provider \<Rightarrow> nat \<Rightarrow> layer_source \<Rightarrow> layer_source \<Rightarrow> (layer_source \<times> ('s, 'g) mpc_provider) res" where
  "mp_and mp bit_size a b =
     (if bit_size = 0 then Panic ExplicitPanic
      else
        with_layer mp 0 (\<lambda>current_layer.
          rbind (request_ticket current_layer bit_size) (\<lambda>(and_ticket, current_layer).
          rbind (add_operation current_layer (OpCopy a (Relay and_ticket 0))) (\<lambda>current_layer.
          rbind (add_operation current_layer (OpCopy b (Relay and_ticket 1))) (\<lambda>current_layer.
          Ok (TakeZ and_ticket, current_layer))))))"

function recursive_ohe_vec ::
  "profile \<Rightarrow> ('s, 'g) mpc_provider \<Rightarrow> nat \<Rightarrow> nat \<Rightarrow> u32 \<Rightarrow> (layer_source \<times> ('s, 'g) mpc_provider) res" where
  "recursive_ohe_vec P mp layer_num bit_num idx_bshared =
     (if bit_num = 0 then Panic ExplicitPanic
      else if bit_num = 1 then
        rbind (ba_new 2) (\<lambda>ohe.
        rbind (ba_set_bit ohe 0 ((idx_bshared \<noteq> 0) \<noteq> mp_party_const mp)) (\<lambda>ohe.
        rbind (ba_set_bit ohe 1 (idx_bshared \<noteq> 0)) (\<lambda>ohe.
        Ok (Input ohe, mp))))
      else
        let split = div_ceil bit_num 2 in
        rbind (shl_u32 P 1 split) (\<lambda>pw.
        rbind (sub_u32 P pw 1) (\<lambda>mask.
        let low_idx_bshared = idx_bshared AND mask in
        rbind (shr_u32 P idx_bshared split) (\<lambda>high_idx_bshared.
        let low_bit_num = split; high_bit_num = bit_num - split in
        rbind (recursive_ohe_vec P mp (layer_num + 1) low_bit_num low_idx_bshared) (\<lambda>(low_source, mp).
        rbind (recursive_ohe_vec P mp (layer_num + 1) high_bit_num high_idx_bshared) (\<lambda>(high_source, mp).
        rbind (shl1_usize P bit_num) (\<lambda>ticket_bits.
        rbind (shl1_usize P high_bit_num) (\<lambda>high_n.
        rbind (shl1_usize P low_bit_num) (\<lambda>low_n.
        with_layer mp layer_num (\<lambda>current_layer.
          rbind (request_ticket current_layer ticket_bits) (\<lambda>(and_ticket, current_layer).
          rbind (add_operation current_layer (OpReplicate high_n low_source (Relay and_ticket 0))) (\<lambda>current_layer.
          rbind (add_operation current_layer (OpBitExpand low_n high_source (Relay and_ticket 1))) (\<lambda>current_layer.
          Ok (TakeZ and_ticket, current_layer))))))))))))))"
  by pat_completeness auto
termination
  by (relation "measure (\<lambda>(P, mp, layer_num, bit_num, idx). bit_num)") (auto simp: div_ceil_def)

declare recursive_ohe_vec.simps [simp del]

definition ohe_vec ::
  "profile \<Rightarrow> ('s, 'g) mpc_provider \<Rightarrow> boolean_value \<Rightarrow> (layer_source \<times> ('s, 'g) mpc_provider) res" where
  "ohe_vec P mp idx_bshared = recursive_ohe_vec P mp 0 (bv_bit_len idx_bshared) (bv_value idx_bshared)"

definition get_output :: "profile \<Rightarrow> ('s, 'g) mpc_provider \<Rightarrow> layer_source \<Rightarrow> bitarray res" where
  "get_output P mp src = extract_src_data P src (mp_output_layer mp)"

text \<open>\<open>while let Some(layer) = self.layers.pop()\<close>, on the layers from the last to the first.\<close>

fun run_layers ::
  "profile \<Rightarrow> ('s, 'g) group_ops \<Rightarrow> layer list \<Rightarrow> layer option \<Rightarrow> beaver_provider \<Rightarrow> 'g message_handler \<Rightarrow>
     (u8 list, layer option \<times> beaver_provider \<times> 'g message_handler) prog" where
  "run_layers P G [] prev_layer bp mh = Done (prev_layer, bp, mh)"
| "run_layers P G (ly # lys) prev_layer bp mh =
     pbind (layer_interact P G prev_layer bp mh ly) (\<lambda>(ly, bp, mh). run_layers P G lys (Some ly) bp mh)"

definition mp_run ::
  "profile \<Rightarrow> ('s, 'g) group_ops \<Rightarrow> ('s, 'g) mpc_provider \<Rightarrow> (u8 list, ('s, 'g) mpc_provider) prog" where
  "mp_run P G mp =
     pbind (run_layers P G (rev (mp_layers mp)) None (mp_beaver_provider mp) (mp_message_handler mp))
       (\<lambda>(prev_layer, bp, mh).
     Done (mp\<lparr>mp_layers := [], mp_beaver_provider := bp, mp_message_handler := mh,
              mp_output_layer := prev_layer\<rparr>))"

definition run_conv_B2A ::
  "('s::comm_ring_1, 'r) scalar_ops \<Rightarrow> ('s, 'g) group_ops \<Rightarrow> ('s, 'g) mpc_provider \<Rightarrow> boolean_value list \<Rightarrow>
     (u8 list, 's arith_value list \<times> ('s, 'g) mpc_provider) prog" where
  "run_conv_B2A S G mp binary =
     pbind (conv_interact S G (conv_layer_new (mp_party_const mp)) binary (mp_dabit_provider mp)
              (mp_message_handler mp)) (\<lambda>(arith, dp, mh).
     Done (arith, mp\<lparr>mp_dabit_provider := dp, mp_message_handler := mh\<rparr>))"

definition get_preproc_stat ::
  "profile \<Rightarrow> ('s::comm_ring_1, 'g) mpc_provider \<Rightarrow> ((nat \<times> nat) \<times> ('s, 'g) mpc_provider) res" where
  "get_preproc_stat P mp =
     rbind (bp_report_beaver_usage_then_reset P (mp_beaver_provider mp)) (\<lambda>(bt, bp).
     rbind (da_report_dabit_usage_then_reset P (mp_dabit_provider mp)) (\<lambda>(dabit, dp).
     Ok ((bt, dabit), mp\<lparr>mp_beaver_provider := bp, mp_dabit_provider := dp\<rparr>)))"

definition aggregate_commitments ::
  "('s, 'g::ab_group_add) group_ops \<Rightarrow> ('s, 'g) mpc_provider \<Rightarrow> 'g commitment \<Rightarrow>
     (u8 list, 'g commitment option \<times> ('s, 'g) mpc_provider) prog" where
  "aggregate_commitments G mp cm =
     pbind (mh_send_commit_to_agg G (mp_message_handler mp) cm) (\<lambda>_.
     pbind (mh_receive_agg_commits G (mp_message_handler mp)) (\<lambda>(commitments, mh).
     let commitments = commitments @ [cm] in
     Done (if mp_party_const mp then Some (commitment_aggregate commitments) else None,
           mp\<lparr>mp_message_handler := mh\<rparr>)))"

section \<open>Conversion and aggregation for all parties\<close>

lemma run_conv_shares:
  assumes S: "scalar_from_ok S" and G: "codec_ok G" and n: "2 \<le> n" "n \<le> 256"
    and mp: "\<And>p. p < n \<Longrightarrow> mh_ready n p (mp_message_handler (mp p)) \<and> mp_party_const (mp p) = (p = 0)"
    and bvs: "bvs_shares n ls bvs xs" "\<And>l. l \<in> set ls \<Longrightarrow> l \<le> 32"
    and m: "m = sum_list ls" "0 < m" "m < 2 ^ 32" and da: "das_ok n M (\<lambda>p. mp_dabit_provider (mp p)) u" "u + m \<le> M"
  shows "all_finish n (\<lambda>p. run_conv_B2A S G (mp p) (bvs p)) (\<lambda>out. \<exists>vals.
    (\<forall>p<n. out p = (vals p, (mp p)\<lparr>mp_dabit_provider := (mp_dabit_provider (mp p))\<lparr>da_used := u + m\<rparr>\<rparr>) \<and> length (vals p) = length ls) \<and>
    (\<forall>k<length ls. (\<Sum>p<n. av_value (vals p ! k)) = of_nat (unat (xs ! k))))"
proof -
  let ?hs = "\<lambda>p. mp_message_handler (mp p)" and ?dp = "\<lambda>p. mp_dabit_provider (mp p)"
  let ?Q = "\<lambda>out. \<exists>vals. (\<forall>p<n. out p = (vals p, (mp p)\<lparr>mp_dabit_provider := (?dp p)\<lparr>da_used := u + m\<rparr>\<rparr>) \<and> length (vals p) = length ls) \<and>
    (\<forall>k<length ls. (\<Sum>p<n. av_value (vals p ! k)) = of_nat (unat (xs ! k)))"
  have "all_finish n (\<lambda>p. pbind (conv_interact S G (conv_layer_new (p = 0)) (bvs p) (?dp p) (?hs p)) (\<lambda>(arith, dp, mh).
     Done (arith, (mp p)\<lparr>mp_dabit_provider := dp, mp_message_handler := mh\<rparr>))) ?Q"
  proof (rule all_finish_bind [OF all_finish_mono [OF conv_interact_shares [OF S G n _ bvs m da]]])
    fix out
    assume "\<exists>vals. (\<forall>p<n. out p = (vals p, (?dp p)\<lparr>da_used := u + m\<rparr>, ?hs p) \<and> length (vals p) = length ls) \<and>
      (\<forall>k<length ls. (\<Sum>p<n. av_value (vals p ! k)) = of_nat (unat (xs ! k)))"
    then obtain vals where "\<And>p. p < n \<Longrightarrow> out p = (vals p, (?dp p)\<lparr>da_used := u + m\<rparr>, ?hs p) \<and> length (vals p) = length ls"
      "\<forall>k<length ls. (\<Sum>p<n. av_value (vals p ! k)) = of_nat (unat (xs ! k))" by blast
    then show "all_finish n (\<lambda>p. (case out p of (arith, dp, mh) \<Rightarrow>
       Done (arith, (mp p)\<lparr>mp_dabit_provider := dp, mp_message_handler := mh\<rparr>))) ?Q"
      by (intro all_finish.finish [where xs = "\<lambda>p. (vals p, (mp p)\<lparr>mp_dabit_provider := (?dp p)\<lparr>da_used := u + m\<rparr>\<rparr>)"]) auto
  qed (use mp in simp)
  then show ?thesis by (rule all_finish_cong) (simp add: run_conv_B2A_def mp)
qed

lemma aggregate_commitments_all:
  fixes G :: "('s, 'g::ab_group_add) group_ops"
  assumes G: "codec_ok G" and n: "n \<le> 256"
    and mp: "\<And>p. p < n \<Longrightarrow> mh_ready n p (mp_message_handler (mp p)) \<and> mp_party_const (mp p) = (p = 0)"
  shows "all_finish n (\<lambda>p. aggregate_commitments G (mp p) (cm p))
    (\<lambda>out. \<forall>p<n. out p = (if p = 0 then Some (commitment_aggregate (map cm [0..<n])) else None, mp p))"
proof -
  let ?hs = "\<lambda>p. mp_message_handler (mp p)"
  have "all_finish n (\<lambda>p. pbind (pbind (mh_send_commit_to_agg G (?hs p) (cm p)) (\<lambda>_. mh_receive_agg_commits G (?hs p)))
      (\<lambda>(commitments, mh). Done (if mp_party_const (mp p) then Some (commitment_aggregate (commitments @ [cm p])) else None,
           (mp p)\<lparr>mp_message_handler := mh\<rparr>)))
    (\<lambda>out. \<forall>p<n. out p = (if p = 0 then Some (commitment_aggregate (map cm [0..<n])) else None, mp p))"
  proof (rule all_finish_bind [OF all_finish_mono [OF commit_x.exchange [OF G n]]])
    fix out
    assume out: "\<forall>p<n. \<exists>xs. out p = (xs, ?hs p) \<and> mset xs = mset (map cm (others n p))"
    show "all_finish n (\<lambda>p. (case out p of (commitments, mh) \<Rightarrow>
        Done (if mp_party_const (mp p) then Some (commitment_aggregate (commitments @ [cm p])) else None, (mp p)\<lparr>mp_message_handler := mh\<rparr>)))
      (\<lambda>out. \<forall>p<n. out p = (if p = 0 then Some (commitment_aggregate (map cm [0..<n])) else None, mp p))"
    proof (rule all_finish_each)
      fix p assume p: "p < n"
      then obtain xs where xs: "out p = (xs, ?hs p)" "mset xs = mset (map cm (others n p))" using out by blast
      then have "commitment_aggregate (xs @ [cm p]) = commitment_aggregate (map cm [0..<n])"
        using mset_others [OF p, of cm] by (intro commitment_aggregate_mset) simp
      then show "\<exists>x. (case out p of (commitments, mh) \<Rightarrow>
        Done (if mp_party_const (mp p) then Some (commitment_aggregate (commitments @ [cm p])) else None, (mp p)\<lparr>mp_message_handler := mh\<rparr>)) = Done x \<and>
        x = (if p = 0 then Some (commitment_aggregate (map cm [0..<n])) else None, mp p)"
        using xs(1) mp [OF p] by auto
    qed
  qed (use mp in \<open>simp_all add: mh_ready_def\<close>)
  then show ?thesis by (rule all_finish_cong) (simp add: aggregate_commitments_def pbind_assoc Let_def)
qed

end
