(* ===== verification/Circuit.thy ===== *)
theory Circuit
  imports Mpc
begin

text \<open>
  The meaning of the circuits the executors of all parties build. Every party builds the same
  circuit: the same tickets and the same shapes of operations, with its own shares as constants.
  A \<open>level\<close> is what the layers of all parties with one number have in common; a source is a family
  of sources, one for each party, and \<open>src_ok\<close> says which bits it stands for. The main results are
  \<open>run_levels\<close>: running the layers gives shares of those bits, and \<open>ohe_builds\<close>: the recursive
  one-hot encoding stands for the unit vector of the shared index.
\<close>

section \<open>Circuits of all parties\<close>

text \<open>The operations, without source and destination.\<close>

datatype shape = SCopy | SRep nat | SExp nat

fun mk_op :: "shape \<Rightarrow> layer_source \<Rightarrow> layer_dest \<Rightarrow> mpc_operation" where
  "mk_op SCopy s d = OpCopy s d" | "mk_op (SRep n) s d = OpReplicate n s d" | "mk_op (SExp n) s d = OpBitExpand n s d"

fun sh_len :: "shape \<Rightarrow> nat \<Rightarrow> nat" where
  "sh_len SCopy sz = sz" | "sh_len (SRep n) sz = n * sz" | "sh_len (SExp n) sz = sz * n"

fun sh_bit :: "shape \<Rightarrow> nat \<Rightarrow> (nat \<Rightarrow> bool) \<Rightarrow> nat \<Rightarrow> bool" where
  "sh_bit SCopy sz g i = g i" | "sh_bit (SRep n) sz g i = g (i mod sz)" | "sh_bit (SExp n) sz g i = g (i div n)"

fun sh_ok :: "shape \<Rightarrow> bool" where
  "sh_ok (SExp n) \<longleftrightarrow> 0 < n" | "sh_ok _ \<longleftrightarrow> True"

lemma mk_op_sel [simp]:
  "op_source (mk_op sh s d) = s" "op_dest (mk_op sh s d) = d" "op_ok (mk_op sh s d) = sh_ok sh"
  "op_len (mk_op sh s d) = sh_len sh" "op_bit (mk_op sh s d) = sh_bit sh"
  by (cases sh; auto simp: fun_eq_iff)+

text \<open>One ticket with the sources of its two streams.\<close>

record gate =
  g_ticket :: ticket
  g_x :: "shape \<times> (nat \<Rightarrow> layer_source)"
  g_y :: "shape \<times> (nat \<Rightarrow> layer_source)"

type_synonym level = "nat \<times> gate list"

definition gate_ops :: "nat \<Rightarrow> gate \<Rightarrow> mpc_operation list" where
  "gate_ops p g = [mk_op (fst (g_x g)) (snd (g_x g) p) (Relay (g_ticket g) 0),
                   mk_op (fst (g_y g)) (snd (g_y g) p) (Relay (g_ticket g) 1)]"

text \<open>The layer of party \<open>p\<close> for a level with number \<open>k\<close>.\<close>

definition level_layer :: "nat \<Rightarrow> nat \<Rightarrow> level \<Rightarrow> layer" where
  "level_layer p k lv =
     \<lparr>ly_party_const = (p = 0), ly_layer_num = k, ly_current_size = fst lv, ly_state = Ticketing,
      ly_and_data = None, ly_beaver_data = None, ly_operations = concat (map (gate_ops p) (snd lv))\<rparr>"

text \<open>Arrays of all parties that are shares of the \<open>m\<close> bits \<open>f\<close>, with nothing beyond.\<close>

definition shared :: "nat \<Rightarrow> (nat \<Rightarrow> bitarray) \<Rightarrow> nat \<Rightarrow> (nat \<Rightarrow> bool) \<Rightarrow> bool" where
  "shared n a m f \<longleftrightarrow> (\<forall>p<n. ba_sized m (a p)) \<and>
     (\<forall>i. xors (map (\<lambda>p. mbit (a p) i) [0..<n]) = (i < m \<and> f i))"

text \<open>The bits a family of sources of layer \<open>k\<close> stands for.\<close>

inductive src_ok :: "nat \<Rightarrow> level list \<Rightarrow> nat \<Rightarrow> (nat \<Rightarrow> layer_source) \<Rightarrow> nat \<Rightarrow> (nat \<Rightarrow> bool) \<Rightarrow> bool"
  for n :: nat and C :: "level list" where
  inp: "(\<And>p. p < n \<Longrightarrow> srcs p = Input (a p)) \<Longrightarrow> shared n a m f \<Longrightarrow> 0 < m \<Longrightarrow> src_ok n C k srcs m f"
| tkz: "k < length C \<Longrightarrow> g \<in> set (snd (C ! k)) \<Longrightarrow>
     src_ok n C (Suc k) (snd (g_x g)) mx hx \<Longrightarrow> src_ok n C (Suc k) (snd (g_y g)) my hy \<Longrightarrow>
     m = sh_len (fst (g_x g)) mx \<Longrightarrow> m = sh_len (fst (g_y g)) my \<Longrightarrow>
     t_end_bit (g_ticket g) = t_st_bit (g_ticket g) + m \<Longrightarrow> 0 < m \<Longrightarrow>
     (\<And>p. p < n \<Longrightarrow> srcs p = TakeZ (g_ticket g)) \<Longrightarrow>
     (\<And>i. i < m \<Longrightarrow> f i = (sh_bit (fst (g_x g)) mx hx i \<and> sh_bit (fst (g_y g)) my hy i)) \<Longrightarrow>
     src_ok n C k srcs m f"

definition gate_ok :: "nat \<Rightarrow> level list \<Rightarrow> nat \<Rightarrow> gate \<Rightarrow> bool" where
  "gate_ok n C k g \<longleftrightarrow>
     t_layer_num (g_ticket g) = k \<and> t_st_bit (g_ticket g) mod 8 = 0 \<and>
     ticket_end_byte (g_ticket g) \<le> fst (C ! k) \<and> t_st_bit (g_ticket g) < t_end_bit (g_ticket g) \<and>
     sh_ok (fst (g_x g)) \<and> sh_ok (fst (g_y g)) \<and>
     (\<exists>mx hx. src_ok n C (Suc k) (snd (g_x g)) mx hx \<and>
        t_end_bit (g_ticket g) = t_st_bit (g_ticket g) + sh_len (fst (g_x g)) mx) \<and>
     (\<exists>my hy. src_ok n C (Suc k) (snd (g_y g)) my hy \<and>
        t_end_bit (g_ticket g) = t_st_bit (g_ticket g) + sh_len (fst (g_y g)) my)"

text \<open>Tickets of one layer are byte-aligned ranges that follow each other.\<close>

definition level_ok :: "nat \<Rightarrow> level list \<Rightarrow> nat \<Rightarrow> bool" where
  "level_ok n C k \<longleftrightarrow> (\<forall>g\<in>set (snd (C ! k)). gate_ok n C k g) \<and>
     sorted_wrt (\<lambda>g g'. 8 * ticket_end_byte (g_ticket g) \<le> t_st_bit (g_ticket g')) (snd (C ! k))"

lemma src_ok_pos: "src_ok n C k srcs m f \<Longrightarrow> 0 < m"
  by (induction rule: src_ok.induct) simp_all

section \<open>Loading a layer\<close>

text \<open>A gate whose two sources party \<open>p\<close> can read, with what they hold.\<close>

definition gate_data ::
  "profile \<Rightarrow> nat \<Rightarrow> layer option \<Rightarrow> nat \<Rightarrow> nat \<Rightarrow> (gate \<Rightarrow> bitarray) \<Rightarrow> (gate \<Rightarrow> bitarray) \<Rightarrow> gate \<Rightarrow> bool" where
  "gate_data P p prev k cur dx dy g \<longleftrightarrow>
     t_layer_num (g_ticket g) = k \<and> ticket_end_byte (g_ticket g) \<le> cur \<and> sh_ok (fst (g_x g)) \<and> sh_ok (fst (g_y g)) \<and>
     extract_src_data P (snd (g_x g) p) prev = Inr (dx g) \<and> ba_wf (dx g) \<and> 0 < ba_bit_size (dx g) \<and>
     extract_src_data P (snd (g_y g) p) prev = Inr (dy g) \<and> ba_wf (dy g) \<and> 0 < ba_bit_size (dy g) \<and>
     t_end_bit (g_ticket g) = t_st_bit (g_ticket g) + sh_len (fst (g_x g)) (ba_bit_size (dx g)) \<and>
     t_end_bit (g_ticket g) = t_st_bit (g_ticket g) + sh_len (fst (g_y g)) (ba_bit_size (dy g))"

text \<open>The streams of a layer after the operations of some gates.\<close>

definition in_gate :: "gate \<Rightarrow> nat \<Rightarrow> bool" where
  "in_gate g i \<longleftrightarrow> t_st_bit (g_ticket g) \<le> i \<and> i < t_end_bit (g_ticket g)"

definition streams :: "(gate \<Rightarrow> bitarray) \<Rightarrow> (gate \<Rightarrow> bitarray) \<Rightarrow> gate list \<Rightarrow> nat \<Rightarrow> nat \<Rightarrow> bool" where
  "streams dx dy gs j i \<longleftrightarrow> (\<exists>g\<in>set gs. in_gate g i \<and>
     (j = 0 \<and> sh_bit (fst (g_x g)) (ba_bit_size (dx g)) (mbit (dx g)) (i - t_st_bit (g_ticket g)) \<or>
      j = 1 \<and> sh_bit (fst (g_y g)) (ba_bit_size (dy g)) (mbit (dy g)) (i - t_st_bit (g_ticket g))))"

lemma end_byte_bound: "ticket_end_byte t \<le> cur \<Longrightarrow> t_end_bit t \<le> 8 * cur"
  using div_ceil_8_ge [of "t_end_bit t"] by (simp add: ticket_end_byte_def)

lemma exec_gate:
  assumes g: "gate_data P p prev k cur dx dy g"
    and ly: "ly_state ly = DataInitialized" "ly_layer_num ly = k" "ly_current_size ly = cur"
      "ly_and_data ly = Some (d2_make 3 (8 * cur) (streams dx dy gs))"
    and disj: "\<And>g' i. g' \<in> set gs \<Longrightarrow> in_gate g i \<Longrightarrow> \<not> in_gate g' i"
  shows "rfold (\<lambda>op ly. exec_operation P op prev ly) (rev (gate_ops p g)) ly
    = Inr (ly\<lparr>ly_and_data := Some (d2_make 3 (8 * cur) (streams dx dy (g # gs)))\<rparr>)"
proof -
  let ?t = "g_ticket g" and ?s = "\<lambda>j op data f. \<lambda>j' i. if j' = j \<and> t_st_bit (g_ticket g) \<le> i \<and>
      i < t_st_bit (g_ticket g) + op_len op (ba_bit_size data)
      then op_bit op (ba_bit_size data) (mbit data) (i - t_st_bit (g_ticket g)) else f j' i"
  let ?opx = "mk_op (fst (g_x g)) (snd (g_x g) p) (Relay ?t 0)" and ?opy = "mk_op (fst (g_y g)) (snd (g_y g) p) (Relay ?t 1)"
  have le: "t_end_bit ?t \<le> 8 * cur" using g end_byte_bound [of ?t cur] by (simp add: gate_data_def)
  have check: "check_ticket ly' ?t = Inr ()"
    if "ly_state ly' = DataInitialized" "ly_layer_num ly' = k" "ly_current_size ly' = cur" for ly'
    using that g by (simp add: check_ticket_def gate_data_def)
  let ?fy = "?s 1 ?opy (dy g) (streams dx dy gs)"
  have y: "exec_operation P ?opy prev ly = Inr (ly\<lparr>ly_and_data := Some (d2_make 3 (8 * cur) ?fy)\<rparr>)"
    using g le by (intro exec_operation_Ok [where s = 1, OF _ _ _ _ _ _ check [OF ly(1-3)] ly(4)])
      (auto simp: gate_data_def)
  let ?ly = "ly\<lparr>ly_and_data := Some (d2_make 3 (8 * cur) ?fy)\<rparr>"
  have x: "exec_operation P ?opx prev ?ly = Inr (?ly\<lparr>ly_and_data := Some (d2_make 3 (8 * cur) (?s 0 ?opx (dx g) ?fy))\<rparr>)"
    using g le ly(1-3) by (intro exec_operation_Ok [where s = 0, OF _ _ _ _ _ _ check])
      (auto simp: gate_data_def)
  have ends: "t_st_bit ?t + sh_len (fst (g_x g)) (ba_bit_size (dx g)) = t_end_bit ?t"
      "t_st_bit ?t + sh_len (fst (g_y g)) (ba_bit_size (dy g)) = t_end_bit ?t"
    using g by (simp_all add: gate_data_def)
  have "?s 0 ?opx (dx g) ?fy j i = streams dx dy (g # gs) j i" for j i
    using disj [of _ i] unfolding mk_op_sel ends by (auto simp: streams_def in_gate_def)
  then have "d2_make 3 (8 * cur) (?s 0 ?opx (dx g) ?fy) = d2_make 3 (8 * cur) (streams dx dy (g # gs))"
    by (intro d2_make_cong) simp
  then show ?thesis using x y by (simp add: gate_ops_def)
qed

lemma exec_gates:
  assumes "\<And>g. g \<in> set gs \<Longrightarrow> gate_data P p prev k cur dx dy g"
    and "sorted_wrt (\<lambda>g g'. 8 * ticket_end_byte (g_ticket g) \<le> t_st_bit (g_ticket g')) gs"
    and "ly_state ly = DataInitialized" "ly_layer_num ly = k" "ly_current_size ly = cur"
      "ly_and_data ly = Some (d2_make 3 (8 * cur) (\<lambda>_ _. False))"
  shows "rfold (\<lambda>op ly. exec_operation P op prev ly) (rev (concat (map (gate_ops p) gs))) ly
    = Inr (ly\<lparr>ly_and_data := Some (d2_make 3 (8 * cur) (streams dx dy gs))\<rparr>)"
  using assms(1,2)
proof (induction gs)
  case Nil
  have "streams dx dy [] = (\<lambda>_ _. False)" by (simp add: streams_def fun_eq_iff)
  with assms(6) show ?case by simp
next
  case (Cons g gs)
  let ?ly = "ly\<lparr>ly_and_data := Some (d2_make 3 (8 * cur) (streams dx dy gs))\<rparr>"
  have "\<not> in_gate g' i" if "g' \<in> set gs" "in_gate g i" for g' i
    using that Cons.prems(2) div_ceil_8_ge [of "t_end_bit (g_ticket g)"]
    by (fastforce simp: in_gate_def ticket_end_byte_def)
  then have "rfold (\<lambda>op ly. exec_operation P op prev ly) (rev (gate_ops p g)) ?ly
    = Inr (?ly\<lparr>ly_and_data := Some (d2_make 3 (8 * cur) (streams dx dy (g # gs)))\<rparr>)"
    using Cons.prems(1) assms(3-5) by (intro exec_gate [where gs = gs and k = k]) simp_all
  with Cons show ?case by (simp add: rfold_append)
qed

section \<open>Reading the outputs of a layer\<close>

lemma read_output_Ok:
  assumes "ly_state ly = Finished" "ly_and_data ly = Some (d2_make 3 (8 * cur) f)" "ly_current_size ly = cur"
    and "t_layer_num t = ly_layer_num ly" "t_st_bit t mod 8 = 0" "t_end_bit t = t_st_bit t + m"
      "ticket_end_byte t \<le> cur"
  shows "read_output P ly t = Inr (ba_make m (\<lambda>i. i < 8 * div_ceil m 8 \<and> f 2 (t_st_bit t + i)))"
proof -
  obtain b where b: "t_st_bit t = 8 * b" using assms(5) by auto
  have eb: "ticket_end_byte t = b + div_ceil m 8"
    unfolding ticket_end_byte_def assms(6) b by (rule div_ceil_8_add)
  let ?z = "ba_make (8 * cur) (f 2)" and ?w = "8 * div_ceil m 8"
  let ?s = "ba_make ?w (\<lambda>i. i < ?w \<and> mbit ?z (8 * b + i))"
  have "ba_to_slice ?z b (b + div_ceil m 8) = Inr ?s"
    using ba_to_slice_Ok [of ?z b "b + div_ceil m 8"] assms(7) eb by simp
  moreover have "ba_shrink_to_partial_last_byte ?s m = Inr (ba_make m (mbit ?s))"
    using ba_shrink_Ok [of ?s m] div_ceil_8_ge [of m] div_ceil_8_less [of m] by simp
  moreover have "ba_make m (mbit ?s) = ba_make m (\<lambda>i. i < ?w \<and> f 2 (8 * b + i))"
  proof (rule ba_make_cong)
    fix i
    have "8 * b + i < cap (8 * cur)" if "i < ?w"
      using that assms(7) eb cap_ge [of "8 * cur"] by simp
    then show "mbit ?s i = (i < ?w \<and> f 2 (8 * b + i))" using cap_ge [of ?w] by auto
  qed
  moreover have "check_ticket ly t = Inr ()" "ticket_st_byte t = Inr b" "sub_usize P (t_end_bit t) (t_st_bit t) = Inr m"
    using assms(1,3-7) b by (simp_all add: check_ticket_def ticket_st_byte_def)
  ultimately show ?thesis
    unfolding b by (simp add: read_output_def assms(1,2) d2_get_array_Ok eb b)
qed

text \<open>All sources of a layer can be read, and what is read are shares of the bits they stand for.\<close>

definition readable :: "profile \<Rightarrow> nat \<Rightarrow> level list \<Rightarrow> nat \<Rightarrow> (nat \<Rightarrow> layer option) \<Rightarrow> bool" where
  "readable P n C k prev \<longleftrightarrow> (\<forall>srcs m f. src_ok n C k srcs m f \<longrightarrow>
     (\<exists>a. (\<forall>p<n. extract_src_data P (srcs p) (prev p) = Inr (a p)) \<and> shared n a m f))"

lemma readable_end: "length C \<le> k \<Longrightarrow> readable P n C k prev"
  unfolding readable_def
proof (intro allI impI)
  fix srcs m f
  assume k: "length C \<le> k" and "src_ok n C k srcs m f"
  from this(2) show "\<exists>a. (\<forall>p<n. extract_src_data P (srcs p) (prev p) = Inr (a p)) \<and> shared n a m f"
  proof (cases rule: src_ok.cases)
    case (inp a)
    then show ?thesis by (intro exI [of _ a]) (simp add: extract_src_data_def)
  next
    case (tkz g mx hx my hy)
    then show ?thesis using k by simp
  qed
qed

section \<open>Running one level\<close>

lemma sh_bit_xors:
  "xors (map (\<lambda>p. sh_bit sh sz (h p) i) ps) = sh_bit sh sz (\<lambda>k. xors (map (\<lambda>p. h p k) ps)) i"
  by (cases sh) simp_all

lemma sh_bit_bounded:
  assumes "i < sh_len sh sz" "0 < sz"
  shows "sh_bit sh sz (\<lambda>k. k < sz \<and> h k) i = sh_bit sh sz h i"
  using assms by (cases sh) (auto simp: less_mult_imp_div_less)

lemma sorted_gates_disjoint:
  assumes "sorted_wrt (\<lambda>g g'. 8 * ticket_end_byte (g_ticket g) \<le> t_st_bit (g_ticket g')) gs"
    and "g \<in> set gs" "g' \<in> set gs" "g \<noteq> g'" "t_st_bit (g_ticket g) \<le> i" "i < 8 * ticket_end_byte (g_ticket g)"
  shows "\<not> in_gate g' i"
proof -
  obtain u v where uv: "u < length gs" "v < length gs" "g = gs ! u" "g' = gs ! v" "u \<noteq> v"
    using assms(2-4) by (metis in_set_conv_nth)
  have "8 * ticket_end_byte (g_ticket (gs ! u)) \<le> t_st_bit (g_ticket (gs ! v)) \<or>
      8 * ticket_end_byte (g_ticket (gs ! v)) \<le> t_st_bit (g_ticket (gs ! u))"
    using assms(1) uv by (metis linorder_neqE_nat sorted_wrt_nth_less)
  then show ?thesis
    using assms(5,6) uv div_ceil_8_ge [of "t_end_bit (g_ticket (gs ! v))"]
    by (auto simp: in_gate_def ticket_end_byte_def)
qed

text \<open>Within a gate the streams are those of the gate; in its padding they are zero.\<close>

lemma streams_in:
  assumes "sorted_wrt (\<lambda>g g'. 8 * ticket_end_byte (g_ticket g) \<le> t_st_bit (g_ticket g')) gs" "g \<in> set gs"
    and "t_st_bit (g_ticket g) + i < t_end_bit (g_ticket g)"
  shows "streams dx dy gs 0 (t_st_bit (g_ticket g) + i) = sh_bit (fst (g_x g)) (ba_bit_size (dx g)) (mbit (dx g)) i"
    and "streams dx dy gs 1 (t_st_bit (g_ticket g) + i) = sh_bit (fst (g_y g)) (ba_bit_size (dy g)) (mbit (dy g)) i"
proof -
  have "t_st_bit (g_ticket g) + i < 8 * ticket_end_byte (g_ticket g)"
    using assms(3) div_ceil_8_ge [of "t_end_bit (g_ticket g)"] by (simp add: ticket_end_byte_def)
  then have "g' = g" if "g' \<in> set gs" "in_gate g' (t_st_bit (g_ticket g) + i)" for g'
    using sorted_gates_disjoint [OF assms(1,2)] that by fastforce
  moreover have "in_gate g (t_st_bit (g_ticket g) + i)" using assms(3) by (simp add: in_gate_def)
  ultimately have u: "(g' \<in> set gs \<and> in_gate g' (t_st_bit (g_ticket g) + i)) = (g' = g)" for g'
    using assms(2) by blast
  show "streams dx dy gs 0 (t_st_bit (g_ticket g) + i) = sh_bit (fst (g_x g)) (ba_bit_size (dx g)) (mbit (dx g)) i"
    and "streams dx dy gs 1 (t_st_bit (g_ticket g) + i) = sh_bit (fst (g_y g)) (ba_bit_size (dy g)) (mbit (dy g)) i"
    unfolding streams_def Bex_def conj_assoc [symmetric] u by simp_all
qed

lemma streams_padding:
  assumes "sorted_wrt (\<lambda>g g'. 8 * ticket_end_byte (g_ticket g) \<le> t_st_bit (g_ticket g')) gs" "g \<in> set gs"
    and "t_end_bit (g_ticket g) \<le> t_st_bit (g_ticket g) + i" "t_st_bit (g_ticket g) + i < 8 * ticket_end_byte (g_ticket g)"
  shows "\<not> streams dx dy gs j (t_st_bit (g_ticket g) + i)"
proof -
  have "\<not> in_gate g' (t_st_bit (g_ticket g) + i)" if "g' \<in> set gs" for g'
    using sorted_gates_disjoint [OF assms(1,2) that] assms(3,4) by (cases "g' = g") (auto simp: in_gate_def)
  then show ?thesis by (auto simp: streams_def)
qed

lemma streams_beyond:
  assumes "\<forall>g\<in>set gs. ticket_end_byte (g_ticket g) \<le> cur" "8 * cur \<le> i"
  shows "\<not> streams dx dy gs j i"
  using assms end_byte_bound by (fastforce simp: streams_def in_gate_def)

text \<open>The triplets of all parties at the same place.\<close>

definition bps_ok :: "nat \<Rightarrow> nat \<Rightarrow> (nat \<Rightarrow> beaver_provider) \<Rightarrow> nat \<Rightarrow> bool" where
  "bps_ok n N bp u \<longleftrightarrow> (\<exists>ds. (\<forall>p<n. bp_beaver_storage (bp p) = Some (ds p) \<and> d2_wf 3 N (ds p) \<and> bp_used (bp p) = u) \<and>
     triples_ok (map ds [0..<n]))"

definition block_bits :: "d2bitarray \<Rightarrow> nat \<Rightarrow> nat \<Rightarrow> nat \<Rightarrow> nat \<Rightarrow> bool" where
  "block_bits d u len j i \<longleftrightarrow> i < 8 * len \<and> mbit (d2_arrays d ! j) (8 * u + i)"

lemma block_triples:
  assumes "triples_ok (map ds [0..<n])"
  shows "xors (map (\<lambda>p. block_bits (ds p) u len 2 i) [0..<n])
    = (xors (map (\<lambda>p. block_bits (ds p) u len 0 i) [0..<n]) \<and> xors (map (\<lambda>p. block_bits (ds p) u len 1 i) [0..<n]))"
  using assms by (auto simp: triples_ok_def triple_sum_def block_bits_def xors_map_and comp_def)

text \<open>What a party has read for a gate of a layer whose previous layer is readable.\<close>

definition src_data :: "profile \<Rightarrow> (nat \<Rightarrow> layer option) \<Rightarrow> (nat \<Rightarrow> layer_source) \<Rightarrow> nat \<Rightarrow> bitarray" where
  "src_data P prev srcs p = projr (extract_src_data P (srcs p) (prev p))"

lemma readable_data:
  assumes "readable P n C k prev" "src_ok n C k srcs m f"
  shows "\<And>p. p < n \<Longrightarrow> extract_src_data P (srcs p) (prev p) = Inr (src_data P prev srcs p)"
    and "shared n (src_data P prev srcs) m f"
proof -
  obtain a where a: "\<forall>p<n. extract_src_data P (srcs p) (prev p) = Inr (a p)" "shared n a m f"
    using assms unfolding readable_def by blast
  then have eq: "src_data P prev srcs p = a p" if "p < n" for p using that by (simp add: src_data_def)
  show "extract_src_data P (srcs p) (prev p) = Inr (src_data P prev srcs p)" if "p < n" for p
    using that a(1) eq by simp
  have "map (\<lambda>p. mbit (src_data P prev srcs p) i) [0..<n] = map (\<lambda>p. mbit (a p) i) [0..<n]" for i
    using eq by simp
  then have "xors (map (\<lambda>p. mbit (src_data P prev srcs p) i) [0..<n]) = (i < m \<and> f i)" for i
    using a(2) by (simp only: shared_def)
  then show "shared n (src_data P prev srcs) m f" using a(2) eq by (simp add: shared_def)
qed

lemma gate_data_ok:
  assumes "readable P n C (Suc k) prev" "gate_ok n C k g" "p < n"
  shows "gate_data P p (prev p) k (fst (C ! k)) (\<lambda>g. src_data P prev (snd (g_x g)) p)
    (\<lambda>g. src_data P prev (snd (g_y g)) p) g"
proof -
  obtain mx hx my hy where x: "src_ok n C (Suc k) (snd (g_x g)) mx hx"
      "t_end_bit (g_ticket g) = t_st_bit (g_ticket g) + sh_len (fst (g_x g)) mx"
    and y: "src_ok n C (Suc k) (snd (g_y g)) my hy"
      "t_end_bit (g_ticket g) = t_st_bit (g_ticket g) + sh_len (fst (g_y g)) my"
    using assms(2) by (auto simp: gate_ok_def)
  show ?thesis
    using assms(2,3) x(2) y(2) readable_data [OF assms(1) x(1)] readable_data [OF assms(1) y(1)]
      src_ok_pos [OF x(1)] src_ok_pos [OF y(1)]
    by (simp add: gate_data_def gate_ok_def shared_def)
qed

lemma end_ticketing_Ok:
  "ly_state ly = Ticketing \<Longrightarrow> d2_zeros 3 (ly_current_size ly * 8) = Inr Z \<Longrightarrow>
     bp_take bp (ly_current_size ly) = Inr (B, bp') \<Longrightarrow>
     end_ticketing_phase ly bp = Inr (ly\<lparr>ly_and_data := Some Z, ly_beaver_data := Some B, ly_state := DataInitialized\<rparr>, bp')"
  by (simp add: end_ticketing_phase_def)

lemma level_load:
  assumes "readable P n C (Suc k) prev" "level_ok n C k" "p < n" "0 < fst (C ! k)"
    and bp: "bp_beaver_storage bp = Some d" "d2_wf 3 N d" "bp_used bp + fst (C ! k) \<le> div_ceil N 8"
    and F: "F = streams (\<lambda>g. src_data P prev (snd (g_x g)) p) (\<lambda>g. src_data P prev (snd (g_y g)) p) (snd (C ! k))"
  shows "\<exists>ly0 ly1. end_ticketing_phase (level_layer p k (C ! k)) bp
      = Inr (ly0, bp\<lparr>bp_used := bp_used bp + fst (C ! k)\<rparr>) \<and>
    execute_operations P (prev p) ly0 = Inr ly1 \<and>
    ly_loaded ly1 (p = 0) (8 * fst (C ! k)) F (block_bits d (bp_used bp) (fst (C ! k))) \<and>
    ly_layer_num ly1 = k \<and> ly_current_size ly1 = fst (C ! k)"
proof -
  let ?cur = "fst (C ! k)" and ?ly = "level_layer p k (C ! k)"
  let ?B = "block_bits d (bp_used bp) ?cur"
  let ?init = "?ly\<lparr>ly_and_data := Some (d2_make 3 (8 * ?cur) (\<lambda>_ _. False)),
      ly_beaver_data := Some (d2_make 3 (8 * ?cur) ?B), ly_state := DataInitialized\<rparr>"
  have take: "bp_take bp ?cur = Inr (d2_make 3 (8 * ?cur) ?B, bp\<lparr>bp_used := bp_used bp + ?cur\<rparr>)"
    unfolding bp_take_next [OF bp] d2_block_def block_bits_def by simp
  have "d2_zeros 3 (?cur * 8) = Inr (d2_make 3 (8 * ?cur) (\<lambda>_ _. False))"
    using assms(4) d2_zeros_Ok [of "8 * ?cur" 3] by (simp add: mult.commute)
  moreover have "ly_state ?ly = Ticketing" "ly_current_size ?ly = ?cur"
    by (simp_all add: level_layer_def)
  ultimately have e: "end_ticketing_phase ?ly bp = Inr (?init, bp\<lparr>bp_used := bp_used bp + ?cur\<rparr>)"
    using take by (intro end_ticketing_Ok) simp_all
  have "rfold (\<lambda>op ly. exec_operation P op (prev p) ly) (rev (concat (map (gate_ops p) (snd (C ! k)))))
      (?init\<lparr>ly_operations := []\<rparr>)
    = Inr (?init\<lparr>ly_operations := [], ly_and_data := Some (d2_make 3 (8 * ?cur) F)\<rparr>)"
    unfolding F
    using assms(2) gate_data_ok [OF assms(1) _ assms(3)]
    by (subst exec_gates [where k = k and cur = ?cur]) (simp_all add: level_ok_def level_layer_def)
  then have x: "execute_operations P (prev p) ?init
      = Inr (?init\<lparr>ly_operations := [], ly_and_data := Some (d2_make 3 (8 * ?cur) F), ly_state := OperationsExecuted\<rparr>)"
    by (simp add: execute_operations_def level_layer_def)
  have "\<not> F 2 i" for i by (simp add: F streams_def)
  moreover have "\<not> F j i \<and> \<not> ?B j i" if "8 * ?cur \<le> i" for j i
    using that assms(2) streams_beyond [of "snd (C ! k)" ?cur i]
    by (auto simp: F block_bits_def level_ok_def gate_ok_def)
  ultimately show ?thesis
    using e x by (auto simp: ly_loaded_def level_layer_def)
qed

text \<open>The sum of a stream over the parties, inside a gate.\<close>

lemma streams_sum:
  assumes "level_ok n C k" "g \<in> set (snd (C ! k))" "readable P n C (Suc k) prev" "0 < n"
    and "src_ok n C (Suc k) (snd (g_x g)) mx hx" "src_ok n C (Suc k) (snd (g_y g)) my hy"
    and "t_end_bit (g_ticket g) = t_st_bit (g_ticket g) + m" "m = sh_len (fst (g_x g)) mx" "m = sh_len (fst (g_y g)) my"
    and "F = (\<lambda>p. streams (\<lambda>g. src_data P prev (snd (g_x g)) p) (\<lambda>g. src_data P prev (snd (g_y g)) p) (snd (C ! k)))"
    and "i < m"
  shows "xors (map (\<lambda>p. F p 0 (t_st_bit (g_ticket g) + i)) [0..<n]) = sh_bit (fst (g_x g)) mx hx i"
    and "xors (map (\<lambda>p. F p 1 (t_st_bit (g_ticket g) + i)) [0..<n]) = sh_bit (fst (g_y g)) my hy i"
proof -
  let ?x = "src_data P prev (snd (g_x g))" and ?y = "src_data P prev (snd (g_y g))"
  have srt: "sorted_wrt (\<lambda>g g'. 8 * ticket_end_byte (g_ticket g) \<le> t_st_bit (g_ticket g')) (snd (C ! k))"
    using assms(1) by (simp add: level_ok_def)
  have sx: "shared n ?x mx hx" and sy: "shared n ?y my hy"
    using readable_data(2) [OF assms(3)] assms(5,6) by blast+
  have lt: "t_st_bit (g_ticket g) + i < t_end_bit (g_ticket g)" using assms(7,11) by simp
  have "map (\<lambda>p. F p 0 (t_st_bit (g_ticket g) + i)) [0..<n] = map (\<lambda>p. sh_bit (fst (g_x g)) mx (mbit (?x p)) i) [0..<n]"
    unfolding assms(10) streams_in(1) [OF srt assms(2) lt] using sx by (simp add: shared_def)
  then have "xors (map (\<lambda>p. F p 0 (t_st_bit (g_ticket g) + i)) [0..<n])
      = sh_bit (fst (g_x g)) mx (\<lambda>k. xors (map (\<lambda>p. mbit (?x p) k) [0..<n])) i"
    by (simp only: sh_bit_xors)
  also have "(\<lambda>k. xors (map (\<lambda>p. mbit (?x p) k) [0..<n])) = (\<lambda>k. k < mx \<and> hx k)"
    using sx by (simp add: shared_def)
  finally show "xors (map (\<lambda>p. F p 0 (t_st_bit (g_ticket g) + i)) [0..<n]) = sh_bit (fst (g_x g)) mx hx i"
    using assms(8,11) src_ok_pos [OF assms(5)] by (simp add: sh_bit_bounded)
  have "map (\<lambda>p. F p 1 (t_st_bit (g_ticket g) + i)) [0..<n] = map (\<lambda>p. sh_bit (fst (g_y g)) my (mbit (?y p)) i) [0..<n]"
    unfolding assms(10) streams_in(2) [OF srt assms(2) lt] using sy by (simp add: shared_def)
  then have "xors (map (\<lambda>p. F p 1 (t_st_bit (g_ticket g) + i)) [0..<n])
      = sh_bit (fst (g_y g)) my (\<lambda>k. xors (map (\<lambda>p. mbit (?y p) k) [0..<n])) i"
    by (simp only: sh_bit_xors)
  also have "(\<lambda>k. xors (map (\<lambda>p. mbit (?y p) k) [0..<n])) = (\<lambda>k. k < my \<and> hy k)"
    using sy by (simp add: shared_def)
  finally show "xors (map (\<lambda>p. F p 1 (t_st_bit (g_ticket g) + i)) [0..<n]) = sh_bit (fst (g_y g)) my hy i"
    using assms(9,11) src_ok_pos [OF assms(6)] by (simp add: sh_bit_bounded)
qed

text \<open>A finished layer whose output stream sums up to the conjunction of the input streams is readable.\<close>

lemma finished_readable:
  assumes lv: "level_ok n C k" "readable P n C (Suc k) prev" "0 < n"
    and F: "F = (\<lambda>p. streams (\<lambda>g. src_data P prev (snd (g_x g)) p) (\<lambda>g. src_data P prev (snd (g_y g)) p) (snd (C ! k)))"
    and z: "\<And>i. xors (map (\<lambda>p. z p i) [0..<n]) = (xors (map (\<lambda>p. F p 0 i) [0..<n]) \<and> xors (map (\<lambda>p. F p 1 i) [0..<n]))"
    and ly: "\<And>p. p < n \<Longrightarrow> ly_state (ly p) = Finished \<and> ly_layer_num (ly p) = k \<and> ly_current_size (ly p) = fst (C ! k) \<and>
      ly_and_data (ly p) = Some (d2_make 3 (8 * fst (C ! k)) ((F p)(2 := z p)))"
  shows "readable P n C k (\<lambda>p. Some (ly p))"
  unfolding readable_def
proof (intro allI impI)
  fix srcs m f
  assume "src_ok n C k srcs m f"
  then show "\<exists>a. (\<forall>p<n. extract_src_data P (srcs p) (Some (ly p)) = Inr (a p)) \<and> shared n a m f"
  proof (cases rule: src_ok.cases)
    case (inp a)
    then show ?thesis by (intro exI [of _ a]) (simp add: extract_src_data_def)
  next
    case (tkz g mx hx my hy)
    let ?t = "g_ticket g" and ?w = "8 * div_ceil m 8"
    have g: "gate_ok n C k g" using lv(1) tkz(2) by (simp add: level_ok_def)
    let ?a = "\<lambda>p. ba_make m (\<lambda>i. i < ?w \<and> z p (t_st_bit ?t + i))"
    have read: "extract_src_data P (srcs p) (Some (ly p)) = Inr (?a p)" if "p < n" for p
      using read_output_Ok [of "ly p" "fst (C ! k)" "(F p)(2 := z p)" ?t m P] ly [OF that] g tkz(7) tkz(9) [OF that]
      by (simp add: extract_src_data_def gate_ok_def)
    have srt: "sorted_wrt (\<lambda>g g'. 8 * ticket_end_byte (g_ticket g) \<le> t_st_bit (g_ticket g')) (snd (C ! k))"
      using lv(1) by (simp add: level_ok_def)
    have eb: "t_st_bit ?t + ?w = 8 * ticket_end_byte ?t"
    proof -
      obtain b where b: "t_st_bit ?t = 8 * b" using g by (auto simp: gate_ok_def)
      then show ?thesis using tkz(7) by (simp add: ticket_end_byte_def div_ceil_8_add)
    qed
    have "xors (map (\<lambda>p. mbit (?a p) i) [0..<n]) = (i < m \<and> f i)" for i
    proof (cases "i < ?w")
      case True
      then have "i < cap m" using align_max_len_ge [of "div_ceil m 8"] by (simp add: cap_def)
      then have "xors (map (\<lambda>p. mbit (?a p) i) [0..<n]) = (xors (map (\<lambda>p. F p 0 (t_st_bit ?t + i)) [0..<n]) \<and>
          xors (map (\<lambda>p. F p 1 (t_st_bit ?t + i)) [0..<n]))"
        using True z by simp
      also have "\<dots> = (i < m \<and> f i)"
      proof (cases "i < m")
        case True
        then show ?thesis
          using streams_sum [OF lv(1) tkz(2) lv(2,3) tkz(3,4,7,5,6) F True] tkz(10) by simp
      next
        case False
        then have "\<not> F p j (t_st_bit ?t + i)" for p j
          using streams_padding [OF srt tkz(2), of i] True eb tkz(7) by (simp add: F)
        then show ?thesis using False by simp
      qed
      finally show ?thesis .
    next
      case False
      then show ?thesis using div_ceil_8_ge [of m] by simp
    qed
    then have "shared n ?a m f" by (simp add: shared_def)
    with read show ?thesis by (intro exI [of _ ?a]) simp
  qed
qed

lemma run_level:
  assumes G: "codec_ok G" "0 < n" "n \<le> 256" "\<And>p. p < n \<Longrightarrow> mh_ready n p (hs p)"
    and lv: "level_ok n C k" "readable P n C (Suc k) prev" "0 < fst (C ! k)" "8 * fst (C ! k) < 2 ^ 32"
    and bps: "bps_ok n N bp u" "u + fst (C ! k) \<le> div_ceil N 8"
  shows "all_finish n (\<lambda>p. layer_interact P G (prev p) (bp p) (hs p) (level_layer p k (C ! k)))
    (\<lambda>out. \<exists>ly. readable P n C k (\<lambda>p. Some (ly p)) \<and>
      (\<forall>p<n. out p = (ly p, (bp p)\<lparr>bp_used := u + fst (C ! k)\<rparr>, hs p)))"
proof -
  obtain ds where ds: "\<And>p. p < n \<Longrightarrow> bp_beaver_storage (bp p) = Some (ds p)" "\<And>p. p < n \<Longrightarrow> d2_wf 3 N (ds p)"
      "\<And>p. p < n \<Longrightarrow> bp_used (bp p) = u" "triples_ok (map ds [0..<n])"
    using bps(1) by (auto simp: bps_ok_def)
  define F where "F = (\<lambda>p. streams (\<lambda>g. src_data P prev (snd (g_x g)) p) (\<lambda>g. src_data P prev (snd (g_y g)) p) (snd (C ! k)))"
  let ?B = "\<lambda>p. block_bits (ds p) u (fst (C ! k))"
  have "\<forall>p\<in>{..<n}. \<exists>l. end_ticketing_phase (level_layer p k (C ! k)) (bp p) = Inr (fst l, (bp p)\<lparr>bp_used := u + fst (C ! k)\<rparr>) \<and>
    execute_operations P (prev p) (fst l) = Inr (snd l) \<and> ly_loaded (snd l) (p = 0) (8 * fst (C ! k)) (F p) (?B p) \<and>
    ly_layer_num (snd l) = k \<and> ly_current_size (snd l) = fst (C ! k)"
    using level_load [OF lv(2,1) _ lv(3) ds(1,2)] ds(3) bps(2) by (fastforce simp: F_def)
  then obtain l where l: "\<And>p. p < n \<Longrightarrow> end_ticketing_phase (level_layer p k (C ! k)) (bp p) = Inr (fst (l p), (bp p)\<lparr>bp_used := u + fst (C ! k)\<rparr>)"
      "\<And>p. p < n \<Longrightarrow> execute_operations P (prev p) (fst (l p)) = Inr (snd (l p))"
      "\<And>p. p < n \<Longrightarrow> ly_loaded (snd (l p)) (p = 0) (8 * fst (C ! k)) (F p) (?B p)"
      "\<And>p. p < n \<Longrightarrow> ly_layer_num (snd (l p)) = k \<and> ly_current_size (snd (l p)) = fst (C ! k)"
    by (rule bchoice [THEN exE]) auto
  have m: "0 < 8 * fst (C ! k)" using lv(3) by simp
  show ?thesis
  proof (rule all_finish_mono [OF layer_interact_and [OF G m lv(4) l(1-3) block_triples [OF ds(4)]]])
    fix out
    assume "\<exists>z. (\<forall>i. xors (map (\<lambda>p. z p i) [0..<n]) = (xors (map (\<lambda>p. F p 0 i) [0..<n]) \<and> xors (map (\<lambda>p. F p 1 i) [0..<n]))) \<and>
      (\<forall>p<n. \<exists>bd. out p = ((snd (l p))\<lparr>ly_and_data := Some (d2_make 3 (8 * fst (C ! k)) ((F p)(2 := z p))),
        ly_beaver_data := bd, ly_state := Finished\<rparr>, (bp p)\<lparr>bp_used := u + fst (C ! k)\<rparr>, hs p))"
    then obtain z where z: "\<And>i. xors (map (\<lambda>p. z p i) [0..<n]) = (xors (map (\<lambda>p. F p 0 i) [0..<n]) \<and> xors (map (\<lambda>p. F p 1 i) [0..<n]))"
      and o: "\<And>p. p < n \<Longrightarrow> \<exists>bd. out p = ((snd (l p))\<lparr>ly_and_data := Some (d2_make 3 (8 * fst (C ! k)) ((F p)(2 := z p))),
        ly_beaver_data := bd, ly_state := Finished\<rparr>, (bp p)\<lparr>bp_used := u + fst (C ! k)\<rparr>, hs p)" by blast
    have "readable P n C k (\<lambda>p. Some (fst (out p)))"
      by (rule finished_readable [OF lv(1,2) G(2) F_def z]) (use o l(4) in fastforce)
    moreover have "out p = (fst (out p), (bp p)\<lparr>bp_used := u + fst (C ! k)\<rparr>, hs p)" if "p < n" for p
      using o [OF that] by auto
    ultimately show "\<exists>ly. readable P n C k (\<lambda>p. Some (ly p)) \<and>
        (\<forall>p<n. out p = (ly p, (bp p)\<lparr>bp_used := u + fst (C ! k)\<rparr>, hs p))"
      by (intro exI [of _ "\<lambda>p. fst (out p)"]) simp
  qed
qed

section \<open>Running all levels\<close>

definition party_layers :: "nat \<Rightarrow> level list \<Rightarrow> layer list" where
  "party_layers p C = map (\<lambda>k. level_layer p k (C ! k)) [0..<length C]"

definition circuit_bytes :: "level list \<Rightarrow> nat" where
  "circuit_bytes C = sum_list (map fst C)"

lemma bps_ok_advance:
  "bps_ok n N bp u \<Longrightarrow> (\<And>p. p < n \<Longrightarrow> bp' p = (bp p)\<lparr>bp_used := u'\<rparr>) \<Longrightarrow> bps_ok n N bp' u'"
  unfolding bps_ok_def by fastforce

lemma run_levels_from:
  assumes G: "codec_ok G" "0 < n" "n \<le> 256" "\<And>p. p < n \<Longrightarrow> mh_ready n p (hs p)"
    and lv: "\<And>k. k < length C \<Longrightarrow> level_ok n C k \<and> 0 < fst (C ! k) \<and> 8 * fst (C ! k) < 2 ^ 32"
    and "j \<le> length C" "readable P n C j prev"
    and "bps_ok n N bp u" "u + sum_list (map fst (take j C)) \<le> div_ceil N 8"
  shows "all_finish n (\<lambda>p. run_layers P G (rev (map (\<lambda>k. level_layer p k (C ! k)) [0..<j])) (prev p) (bp p) (hs p))
    (\<lambda>out. \<exists>prev. readable P n C 0 prev \<and>
      (\<forall>p<n. out p = (prev p, (bp p)\<lparr>bp_used := u + sum_list (map fst (take j C))\<rparr>, hs p)))"
  using assms(6-)
proof (induction j arbitrary: prev bp u)
  case 0
  have "(bp p)\<lparr>bp_used := u\<rparr> = bp p" if "p < n" for p using 0(3) that by (auto simp: bps_ok_def)
  with 0 show ?case
    by (intro all_finish.finish [where xs = "\<lambda>p. (prev p, bp p, hs p)"]) auto
next
  case (Suc j)
  have j: "j < length C" using Suc.prems(1) by simp
  let ?cur = "fst (C ! j)"
  have sum: "sum_list (map fst (take (Suc j) C)) = sum_list (map fst (take j C)) + ?cur"
    using j by (simp add: take_Suc_conv_app_nth)
  have "all_finish n (\<lambda>p. pbind (layer_interact P G (prev p) (bp p) (hs p) (level_layer p j (C ! j)))
      (\<lambda>(ly, bp, mh). run_layers P G (rev (map (\<lambda>k. level_layer p k (C ! k)) [0..<j])) (Some ly) bp mh))
    (\<lambda>out. \<exists>prev. readable P n C 0 prev \<and>
      (\<forall>p<n. out p = (prev p, (bp p)\<lparr>bp_used := u + sum_list (map fst (take (Suc j) C))\<rparr>, hs p)))"
  proof (rule all_finish_bind [OF all_finish_mono [OF run_level [OF G, where k = j and C = C]]])
    fix out
    assume "\<exists>ly. readable P n C j (\<lambda>p. Some (ly p)) \<and> (\<forall>p<n. out p = (ly p, (bp p)\<lparr>bp_used := u + ?cur\<rparr>, hs p))"
    then obtain ly where ly: "readable P n C j (\<lambda>p. Some (ly p))"
        "\<And>p. p < n \<Longrightarrow> out p = (ly p, (bp p)\<lparr>bp_used := u + ?cur\<rparr>, hs p)" by blast
    let ?bp = "\<lambda>p. (bp p)\<lparr>bp_used := u + ?cur\<rparr>"
    have "all_finish n (\<lambda>p. run_layers P G (rev (map (\<lambda>k. level_layer p k (C ! k)) [0..<j])) (Some (ly p)) (?bp p) (hs p))
      (\<lambda>out. \<exists>prev. readable P n C 0 prev \<and>
        (\<forall>p<n. out p = (prev p, (?bp p)\<lparr>bp_used := u + ?cur + sum_list (map fst (take j C))\<rparr>, hs p)))"
      using Suc.prems j sum by (intro Suc.IH [OF _ ly(1)] bps_ok_advance [OF Suc.prems(3)]) simp_all
    then have "all_finish n (\<lambda>p. run_layers P G (rev (map (\<lambda>k. level_layer p k (C ! k)) [0..<j])) (Some (ly p)) (?bp p) (hs p))
      (\<lambda>out. \<exists>prev. readable P n C 0 prev \<and>
        (\<forall>p<n. out p = (prev p, (bp p)\<lparr>bp_used := u + sum_list (map fst (take (Suc j) C))\<rparr>, hs p)))"
      by (simp add: sum add.assoc add.commute add.left_commute)
    then show "all_finish n (\<lambda>p. (case out p of (ly, bp, mh) \<Rightarrow>
        run_layers P G (rev (map (\<lambda>k. level_layer p k (C ! k)) [0..<j])) (Some ly) bp mh))
      (\<lambda>out. \<exists>prev. readable P n C 0 prev \<and>
        (\<forall>p<n. out p = (prev p, (bp p)\<lparr>bp_used := u + sum_list (map fst (take (Suc j) C))\<rparr>, hs p)))"
      by (rule all_finish_cong) (simp add: ly(2))
  next
    show "u + ?cur \<le> div_ceil N 8" using Suc.prems(4) sum by linarith
  qed (use lv [OF j] Suc.prems in simp_all)
  then show ?case by simp
qed

text \<open>The whole circuit: afterwards its sources can be read from the first layer.\<close>

lemma run_levels:
  assumes G: "codec_ok G" "0 < n" "n \<le> 256" "\<And>p. p < n \<Longrightarrow> mh_ready n p (mp_message_handler (mp p))"
    and lv: "\<And>k. k < length C \<Longrightarrow> level_ok n C k \<and> 0 < fst (C ! k) \<and> 8 * fst (C ! k) < 2 ^ 32"
    and mp: "\<And>p. p < n \<Longrightarrow> mp_layers (mp p) = party_layers p C"
    and bps: "bps_ok n N (\<lambda>p. mp_beaver_provider (mp p)) u" "u + circuit_bytes C \<le> div_ceil N 8"
  shows "all_finish n (\<lambda>p. mp_run P G (mp p)) (\<lambda>out. \<exists>prev. readable P n C 0 prev \<and>
    (\<forall>p<n. out p = (mp p)\<lparr>mp_layers := [], mp_output_layer := prev p,
      mp_beaver_provider := (mp_beaver_provider (mp p))\<lparr>bp_used := u + circuit_bytes C\<rparr>\<rparr>))"
proof -
  let ?bp = "\<lambda>p. mp_beaver_provider (mp p)" and ?hs = "\<lambda>p. mp_message_handler (mp p)"
  have "all_finish n (\<lambda>p. pbind (run_layers P G (rev (map (\<lambda>k. level_layer p k (C ! k)) [0..<length C])) None (?bp p) (?hs p))
      (\<lambda>(prev_layer, bp, mh). Done ((mp p)\<lparr>mp_layers := [], mp_beaver_provider := bp, mp_message_handler := mh,
              mp_output_layer := prev_layer\<rparr>)))
    (\<lambda>out. \<exists>prev. readable P n C 0 prev \<and> (\<forall>p<n. out p = (mp p)\<lparr>mp_layers := [], mp_output_layer := prev p,
      mp_beaver_provider := (?bp p)\<lparr>bp_used := u + circuit_bytes C\<rparr>\<rparr>))"
  proof (rule all_finish_bind [OF all_finish_mono [OF run_levels_from [OF G lv order.refl]]])
    fix out
    assume "\<exists>prev. readable P n C 0 prev \<and>
      (\<forall>p<n. out p = (prev p, (?bp p)\<lparr>bp_used := u + sum_list (map fst (take (length C) C))\<rparr>, ?hs p))"
    then obtain prev where prev: "readable P n C 0 prev"
        "\<And>p. p < n \<Longrightarrow> out p = (prev p, (?bp p)\<lparr>bp_used := u + circuit_bytes C\<rparr>, ?hs p)"
      by (auto simp: circuit_bytes_def)
    show "all_finish n (\<lambda>p. (case out p of (prev_layer, bp, mh) \<Rightarrow> Done ((mp p)\<lparr>mp_layers := [], mp_beaver_provider := bp,
          mp_message_handler := mh, mp_output_layer := prev_layer\<rparr>)))
      (\<lambda>out. \<exists>prev. readable P n C 0 prev \<and> (\<forall>p<n. out p = (mp p)\<lparr>mp_layers := [], mp_output_layer := prev p,
        mp_beaver_provider := (?bp p)\<lparr>bp_used := u + circuit_bytes C\<rparr>\<rparr>))"
      by (rule all_finish.finish [where xs = "\<lambda>p. (mp p)\<lparr>mp_layers := [], mp_output_layer := prev p,
        mp_beaver_provider := (?bp p)\<lparr>bp_used := u + circuit_bytes C\<rparr>\<rparr>"]) (use prev in auto)
  qed (use bps in \<open>simp_all add: readable_end circuit_bytes_def\<close>)
  then show ?thesis
    by (rule all_finish_cong) (simp add: mp_run_def mp party_layers_def)
qed

section \<open>Building circuits\<close>

definition circuit_ok :: "nat \<Rightarrow> level list \<Rightarrow> bool" where
  "circuit_ok n C \<longleftrightarrow> (\<forall>k<length C. level_ok n C k)"

text \<open>A circuit with more gates.\<close>

definition extends :: "level list \<Rightarrow> level list \<Rightarrow> bool" where
  "extends C C' \<longleftrightarrow> length C \<le> length C' \<and>
     (\<forall>k<length C. set (snd (C ! k)) \<subseteq> set (snd (C' ! k)) \<and> fst (C ! k) \<le> fst (C' ! k))"

lemma extends_refl: "extends C C"
  by (simp add: extends_def)

lemma extends_trans: "extends C C' \<Longrightarrow> extends C' C'' \<Longrightarrow> extends C C''"
  unfolding extends_def by (meson le_trans less_le_trans subset_trans)

lemma src_ok_extends:
  assumes "src_ok n C k srcs m f" "extends C C'"
  shows "src_ok n C' k srcs m f"
  using assms
proof (induction rule: src_ok.induct)
  case (inp srcs a m f k)
  show ?case by (rule src_ok.inp) (use inp in auto)
next
  case (tkz k g mx hx my hy m srcs f)
  show ?case
    by (rule src_ok.tkz [where g = g and mx = mx and my = my and hx = hx and hy = hy])
      (use tkz in \<open>auto simp: extends_def\<close>)
qed

lemma gate_ok_extends: "gate_ok n C k g \<Longrightarrow> extends C C' \<Longrightarrow> k < length C \<Longrightarrow> gate_ok n C' k g"
  unfolding gate_ok_def by (meson extends_def le_trans src_ok_extends)

text \<open>Making room for a level, and adding a gate to one.\<close>

definition ext_levels :: "level list \<Rightarrow> nat \<Rightarrow> level list" where
  "ext_levels C k = C @ replicate (Suc k - length C) (0, [])"

definition new_ticket :: "level list \<Rightarrow> nat \<Rightarrow> nat \<Rightarrow> ticket" where
  "new_ticket C k m = \<lparr>t_layer_num = k, t_st_bit = fst (C ! k) * 8, t_end_bit = fst (C ! k) * 8 + m\<rparr>"

definition add_gate ::
  "level list \<Rightarrow> nat \<Rightarrow> nat \<Rightarrow> shape \<times> (nat \<Rightarrow> layer_source) \<Rightarrow> shape \<times> (nat \<Rightarrow> layer_source) \<Rightarrow> level list" where
  "add_gate C k m x y = C[k := (fst (C ! k) + div_ceil m 8,
     snd (C ! k) @ [\<lparr>g_ticket = new_ticket C k m, g_x = x, g_y = y\<rparr>])]"

lemma ext_levels_nth: "j < length C \<Longrightarrow> ext_levels C k ! j = C ! j"
    "length C \<le> j \<Longrightarrow> j < length (ext_levels C k) \<Longrightarrow> ext_levels C k ! j = (0, [])"
  by (auto simp: ext_levels_def nth_append)

lemma length_ext_levels [simp]: "length (ext_levels C k) = max (length C) (Suc k)"
  by (simp add: ext_levels_def)

lemma extends_ext: "extends C (ext_levels C k)"
  by (simp add: extends_def ext_levels_nth)

lemma circuit_ok_ext:
  assumes "circuit_ok n C"
  shows "circuit_ok n (ext_levels C k)"
  unfolding circuit_ok_def
proof (intro allI impI)
  fix j assume j: "j < length (ext_levels C k)"
  show "level_ok n (ext_levels C k) j"
  proof (cases "j < length C")
    case True
    then show ?thesis
      using assms gate_ok_extends [OF _ extends_ext True] by (auto simp: circuit_ok_def level_ok_def ext_levels_nth)
  next
    case False
    then show ?thesis using j by (simp add: level_ok_def ext_levels_nth(2))
  qed
qed

lemma circuit_bytes_ext [simp]: "circuit_bytes (ext_levels C k) = circuit_bytes C"
  by (simp add: circuit_bytes_def ext_levels_def)

lemma circuit_bytes_add: "k < length C \<Longrightarrow> circuit_bytes (add_gate C k m x y) = circuit_bytes C + div_ceil m 8"
  by (simp add: circuit_bytes_def add_gate_def map_update sum_list_update)

lemma extends_add: "extends C (add_gate C k m x y)"
  unfolding extends_def
proof (intro conjI allI impI)
  fix j assume "j < length C"
  then show "set (snd (C ! j)) \<subseteq> set (snd (add_gate C k m x y ! j))" "fst (C ! j) \<le> fst (add_gate C k m x y ! j)"
    by (cases "j = k"; auto simp: add_gate_def)+
qed (simp add: add_gate_def)

lemma new_ticket_end: "ticket_end_byte (new_ticket C k m) = fst (C ! k) + div_ceil m 8"
  using div_ceil_8_add [of "fst (C ! k)" m] by (simp add: ticket_end_byte_def new_ticket_def mult.commute)

lemma new_gate_ok:
  assumes "k < length C" "0 < m" "sh_ok (fst x)" "sh_ok (fst y)"
    and "src_ok n C (Suc k) (snd x) mx hx" "m = sh_len (fst x) mx"
    and "src_ok n C (Suc k) (snd y) my hy" "m = sh_len (fst y) my"
  shows "gate_ok n (add_gate C k m x y) k \<lparr>g_ticket = new_ticket C k m, g_x = x, g_y = y\<rparr>"
proof -
  have "src_ok n (add_gate C k m x y) (Suc k) (snd x) mx hx" "src_ok n (add_gate C k m x y) (Suc k) (snd y) my hy"
    using src_ok_extends [OF assms(5) extends_add] src_ok_extends [OF assms(7) extends_add] by blast+
  moreover have "ticket_end_byte (new_ticket C k m) \<le> fst (add_gate C k m x y ! k)"
    using assms(1) by (simp add: new_ticket_end add_gate_def)
  ultimately show ?thesis
    using assms by (auto simp: gate_ok_def new_ticket_def)
qed

lemma circuit_ok_add:
  assumes "circuit_ok n C" "k < length C" "0 < m" "sh_ok (fst x)" "sh_ok (fst y)"
    and "src_ok n C (Suc k) (snd x) mx hx" "m = sh_len (fst x) mx"
    and "src_ok n C (Suc k) (snd y) my hy" "m = sh_len (fst y) my"
  shows "circuit_ok n (add_gate C k m x y)"
  unfolding circuit_ok_def
proof (intro allI impI)
  let ?C = "add_gate C k m x y"
  fix j assume "j < length ?C"
  then have j: "j < length C" by (simp add: add_gate_def)
  have old: "gate_ok n ?C j g" if "g \<in> set (snd (C ! j))" for g
    using assms(1) that j gate_ok_extends [OF _ extends_add j] by (auto simp: circuit_ok_def level_ok_def)
  show "level_ok n ?C j"
  proof (cases "j = k")
    case False
    then have "?C ! j = C ! j" by (simp add: add_gate_def)
    then show ?thesis using assms(1) j old by (simp add: circuit_ok_def level_ok_def)
  next
    case True
    have "8 * ticket_end_byte (g_ticket g) \<le> t_st_bit (new_ticket C k m)" if "g \<in> set (snd (C ! k))" for g
      using assms(1) that j True by (simp add: circuit_ok_def level_ok_def gate_ok_def new_ticket_def)
    moreover have "snd (?C ! k) = snd (C ! k) @ [\<lparr>g_ticket = new_ticket C k m, g_x = x, g_y = y\<rparr>]"
      using assms(2) by (simp add: add_gate_def)
    ultimately show ?thesis
      using True old new_gate_ok [OF assms(2-9)] assms(1,2)
      by (auto simp: level_ok_def circuit_ok_def sorted_wrt_append)
  qed
qed

lemma src_ok_new:
  assumes "k < length C" "0 < m"
    and "src_ok n C (Suc k) (snd x) mx hx" "m = sh_len (fst x) mx"
    and "src_ok n C (Suc k) (snd y) my hy" "m = sh_len (fst y) my"
    and "\<And>i. i < m \<Longrightarrow> f i = (sh_bit (fst x) mx hx i \<and> sh_bit (fst y) my hy i)"
  shows "src_ok n (add_gate C k m x y) k (\<lambda>_. TakeZ (new_ticket C k m)) m f"
proof (rule src_ok.tkz [where g = "\<lparr>g_ticket = new_ticket C k m, g_x = x, g_y = y\<rparr>"
      and mx = mx and my = my and hx = hx and hy = hy])
  show "src_ok n (add_gate C k m x y) (Suc k) (snd (g_x \<lparr>g_ticket = new_ticket C k m, g_x = x, g_y = y\<rparr>)) mx hx"
    using src_ok_extends [OF assms(3) extends_add] by simp
  show "src_ok n (add_gate C k m x y) (Suc k) (snd (g_y \<lparr>g_ticket = new_ticket C k m, g_x = x, g_y = y\<rparr>)) my hy"
    using src_ok_extends [OF assms(5) extends_add] by simp
qed (use assms in \<open>simp_all add: add_gate_def new_ticket_def\<close>)

text \<open>The executors of all parties hold the layers of one circuit.\<close>

definition builds :: "nat \<Rightarrow> level list \<Rightarrow> (nat \<Rightarrow> ('s, 'g) mpc_provider) \<Rightarrow> bool" where
  "builds n C mp \<longleftrightarrow> (\<forall>p<n. mp_layers (mp p) = party_layers p C \<and> mp_party_const (mp p) = (p = 0))"

lemma get_layer_ext:
  assumes "mp_layers mp = party_layers p C" "mp_party_const mp = (p = 0)"
  shows "get_layer mp k = mp\<lparr>mp_layers := party_layers p (ext_levels C k)\<rparr>"
  using assms
proof (induction "Suc k - length C" arbitrary: C mp)
  case 0
  then have "ext_levels C k = C" by (simp add: ext_levels_def)
  then show ?case using 0 by (subst get_layer.simps) (simp add: party_layers_def)
next
  case (Suc d)
  have len: "length (mp_layers mp) = length C" using Suc.prems(1) by (simp add: party_layers_def)
  let ?C = "C @ [(0, [])]"
  have "mp_layers (create_new_layer mp) = party_layers p ?C"
    using Suc.prems len
    by (simp add: create_new_layer_def party_layers_def layer_new_def level_layer_def nth_append)
  moreover have "d = Suc k - length ?C" using Suc.hyps(2) by simp
  ultimately have "get_layer (create_new_layer mp) k
      = (create_new_layer mp)\<lparr>mp_layers := party_layers p (ext_levels ?C k)\<rparr>"
    using Suc.prems(2) by (intro Suc.hyps(1)) (simp_all add: create_new_layer_def)
  moreover have "ext_levels ?C k = ext_levels C k"
    using Suc.hyps(2) by (simp add: ext_levels_def replicate_app_Cons_same Suc_diff_le)
  ultimately show ?case
    using Suc.hyps(2) len by (subst get_layer.simps) (simp add: create_new_layer_def)
qed

lemma with_layer_add_gate:
  assumes "mp_layers mp = party_layers p C" "mp_party_const mp = (p = 0)"
  shows "with_layer mp k (\<lambda>ly.
      rbind (request_ticket ly m) (\<lambda>(t, ly).
      rbind (add_operation ly (mk_op (fst x) (snd x p) (Relay t 0))) (\<lambda>ly.
      rbind (add_operation ly (mk_op (fst y) (snd y p) (Relay t 1))) (\<lambda>ly.
      Ok (TakeZ t, ly)))))
    = Inr (TakeZ (new_ticket (ext_levels C k) k m), mp\<lparr>mp_layers := party_layers p (add_gate (ext_levels C k) k m x y)\<rparr>)"
proof -
  let ?C = "ext_levels C k"
  have k: "k < length ?C" by simp
  have "(party_layers p ?C)[k := level_layer p k (fst (?C ! k) + div_ceil m 8,
      snd (?C ! k) @ [\<lparr>g_ticket = new_ticket ?C k m, g_x = x, g_y = y\<rparr>])] = party_layers p (add_gate ?C k m x y)"
    using k by (intro nth_equalityI) (auto simp: party_layers_def add_gate_def nth_list_update)
  moreover have "index (party_layers p ?C) k = Inr (level_layer p k (?C ! k))"
    using k by (simp add: index_def party_layers_def)
  ultimately show ?thesis
    by (simp add: with_layer_def get_layer_ext [OF assms] request_ticket_def add_operation_def level_layer_def
        new_ticket_def gate_ops_def Let_def)
qed

end
