(* ===== verification/Util.thy ===== *)
theory Util
  imports Sharing
begin

unbundle bit_operations_syntax

text \<open>
  \<open>src/prc/util.rs\<close>: secret sharing and reconstruction of \<open>u32\<close>, \<open>l\<close>-bit, arithmetic and
  Boolean values, and the transposition of a matrix of shares. Random masks come from a
  random source that is a parameter. The share lists are those of the interface
  \<open>sharing_scheme\<close>, so the round trips are its lemma \<open>reconstruct_shares\<close>. \<open>get_cpu_time\<close>
  is in \<open>Printing\<close>.
\<close>

section \<open>Secret sharing\<close>

definition secret_share_u32 ::
  "profile \<Rightarrow> 'r rng_ops \<Rightarrow> u32 \<Rightarrow> nat \<Rightarrow> 'r \<Rightarrow> (u32 list \<times> 'r) res" where
  "secret_share_u32 P R x party_num rng =
     rbind (sub_usize P party_num 1) (\<lambda>n.
     rbind (rtimes n (\<lambda>rng. Ok (rng_next_u32 R rng)) rng) (\<lambda>(shares, rng).
     let last_share = foldl (\<lambda>acc s. acc XOR s) x shares in
     Ok (shares @ [last_share], rng)))"

definition secret_share_lbit ::
  "profile \<Rightarrow> 'r rng_ops \<Rightarrow> u32 \<Rightarrow> nat \<Rightarrow> nat \<Rightarrow> 'r \<Rightarrow> (u32 list \<times> 'r) res" where
  "secret_share_lbit P R x party_num l rng =
     rbind (rassert (l \<le> 32) AssertionFailed) (\<lambda>_.
     rbind (shl_u32 P 1 l) (\<lambda>bound.
     rbind (rassert (x < bound) AssertionFailed) (\<lambda>_.
     rbind (shl_u32 P 1 l) (\<lambda>pow.
     rbind (sub_u32 P pow 1) (\<lambda>mask.
     rbind (sub_usize P party_num 1) (\<lambda>n.
     rbind (rtimes n (\<lambda>rng. let (v, rng) = rng_next_u32 R rng in Ok (v AND mask, rng)) rng)
       (\<lambda>(shares, rng).
     let last_share = foldl (\<lambda>acc s. acc XOR s) x shares in
     Ok (shares @ [last_share], rng))))))))"

definition secret_share_arith ::
  "profile \<Rightarrow> ('s::comm_ring_1, 'r) scalar_ops \<Rightarrow> 's arith_value \<Rightarrow> nat \<Rightarrow> 'r \<Rightarrow>
     ('s arith_value list \<times> 'r) res" where
  "secret_share_arith P S x party_num rng =
     rbind (sub_usize P party_num 1) (\<lambda>n.
     rbind (rtimes n (\<lambda>rng. Ok (av_random S rng)) rng) (\<lambda>(shares, rng).
     let last_share = foldl (\<lambda>acc s. av_sub acc s) x shares in
     Ok (shares @ [last_share], rng)))"

definition secret_share_boolean ::
  "profile \<Rightarrow> 'r rng_ops \<Rightarrow> boolean_value \<Rightarrow> nat \<Rightarrow> 'r \<Rightarrow> (boolean_value list \<times> 'r) res" where
  "secret_share_boolean P R x party_num rng =
     rbind (shl_u32 P 1 (bv_bit_len x)) (\<lambda>pow.
     rbind (sub_u32 P pow 1) (\<lambda>mask.
     rbind (sub_usize P party_num 1) (\<lambda>n.
     rbind (rtimes n (\<lambda>rng. let (v, rng) = rng_next_u32 R rng in
         rbind (bv_new (bv_bit_len x) (v AND mask)) (\<lambda>b. Ok (b, rng))) rng) (\<lambda>(shares, rng).
     let last_share_val = foldl (\<lambda>acc s. acc XOR bv_value s) (bv_value x) shares in
     rbind (bv_new (bv_bit_len x) last_share_val) (\<lambda>last.
     Ok (shares @ [last], rng))))))"

section \<open>Reconstruction\<close>

definition reconstruct_u32 :: "u32 list \<Rightarrow> u32" where
  "reconstruct_u32 shares = foldl (\<lambda>acc s. acc XOR s) 0 shares"

definition reconstruct_boolean :: "boolean_value list \<Rightarrow> u32" where
  "reconstruct_boolean shares = foldl (\<lambda>acc s. acc XOR bv_value s) 0 shares"

definition reconstruct_arith :: "'s::comm_ring_1 arith_value list \<Rightarrow> 's arith_value" where
  "reconstruct_arith shares = foldl (\<lambda>acc s. av_add acc s) av_zero shares"

section \<open>Transposition\<close>

text \<open>One row: its \<open>j\<close>-th element goes to the end of the \<open>j\<close>-th output vector.\<close>

definition transpose_row :: "'a list \<Rightarrow> 'a list list \<Rightarrow> 'a list list res" where
  "transpose_row row out =
     rfold (\<lambda>(j, v) out. rbind (index out j) (\<lambda>col. Ok (out[j := col @ [v]])))
       (zip [0..<length row] row) out"

definition transpose_vec :: "'a list list \<Rightarrow> 'a list list res" where
  "transpose_vec inp =
     (if inp = [] \<or> hd inp = [] then Ok []
      else rfold transpose_row inp (replicate (length (hd inp)) []))"

section \<open>Lemmas\<close>

lemma rtimes_next: "\<exists>ss rng'. rtimes n (\<lambda>rng. Inr (f rng)) rng = Inr (ss, rng') \<and> length ss = n"
  using rtimes_Ok [of "\<lambda>rng. Inr (f rng)" "\<lambda>_. True" n rng] by (metis surj_pair)

lemma secret_share_u32_Ok:
  assumes "0 < n"
  obtains ss rng' where "secret_share_u32 P R x n rng = Inr (ss @ [foldl (XOR) x ss], rng')"
    and "length ss = n - 1"
  using rtimes_next [of "n - 1" "rng_next_u32 R" rng] assms
  by (auto simp: secret_share_u32_def)

lemma secret_share_arith_Ok:
  assumes "0 < n"
  obtains ss rng' where "secret_share_arith P S x n rng = Inr (ss @ [foldl av_sub x ss], rng')"
    and "length ss = n - 1"
  using rtimes_next [of "n - 1" "av_random S" rng] assms
  by (auto simp: secret_share_arith_def)

lemma unat_mask: "l < 32 \<Longrightarrow> unat (push_bit l (1 :: u32) - 1) = 2 ^ l - 1"
  by (subst unat_sub) (simp_all add: unat_exp_u32 word_le_nat_alt del: push_bit_of_1)

lemma unat_and_mask: "l < 32 \<Longrightarrow> unat (v AND (push_bit l 1 - 1)) < 2 ^ l" for v :: u32
proof -
  assume l: "l < 32"
  have "v AND (push_bit l 1 - 1) \<le> push_bit l 1 - 1" by (rule word_and_le1)
  then have "unat (v AND (push_bit l 1 - 1)) \<le> 2 ^ l - 1"
    using unat_mask [OF l] by (simp only: word_le_nat_alt)
  then show ?thesis by (simp add: le_diff_conv2 Suc_le_eq [symmetric])
qed

lemma xor_bound: "unat v < 2 ^ l \<Longrightarrow> unat w < 2 ^ l \<Longrightarrow> unat (v XOR w) < 2 ^ l" for v w :: u32
  by (simp add: unat_bit_bound bit_xor_iff)

lemma foldl_xor_bound:
  "unat (x :: u32) < 2 ^ l \<Longrightarrow> \<forall>s\<in>set ss. unat (f s) < 2 ^ l \<Longrightarrow>
     unat (foldl (\<lambda>acc s. acc XOR f s) x ss) < 2 ^ l"
  by (induction ss arbitrary: x) (simp_all add: xor_bound)

lemma one_le_exp_u32: "l < 32 \<Longrightarrow> 1 \<le> push_bit l (1 :: u32)"
  by (simp add: word_le_nat_alt unat_exp_u32 del: push_bit_of_1)

text \<open>Below 32 bits every share stays within \<open>l\<close> bits.\<close>

lemma secret_share_lbit_Ok:
  assumes "0 < n" "l < 32" "unat x < 2 ^ l"
  obtains ss rng' where "secret_share_lbit P R x n l rng = Inr (ss @ [foldl (XOR) x ss], rng')"
    and "length ss = n - 1" and "\<forall>s\<in>set (ss @ [foldl (XOR) x ss]). unat s < 2 ^ l"
proof -
  let ?f = "\<lambda>rng. let (v, rng) = rng_next_u32 R rng in Inr (v AND (push_bit l 1 - 1), rng) :: (u32 \<times> 'a) res"
  have step: "\<exists>v r'. ?f r = Inr (v, r') \<and> unat v < 2 ^ l" for r
    using assms(2) by (cases "rng_next_u32 R r") (simp add: unat_and_mask del: push_bit_of_1)
  obtain ss rng' where ss: "rtimes (n - 1) ?f rng = Inr (ss, rng')" "length ss = n - 1"
      "\<forall>s\<in>set ss. unat s < 2 ^ l"
    using rtimes_Ok [of ?f "\<lambda>s. unat s < 2 ^ l" "n - 1" rng, OF step] by blast
  have "x < push_bit l 1"
    using assms by (simp add: word_less_nat_alt unat_exp_u32 del: push_bit_of_1)
  then have "secret_share_lbit P R x n l rng = Inr (ss @ [foldl (XOR) x ss], rng')"
    using assms ss(1) one_le_exp_u32 [OF assms(2)]
    by (simp add: secret_share_lbit_def del: push_bit_of_1)
  then show ?thesis
    using that ss foldl_xor_bound [OF assms(3), of ss id] by simp
qed

lemma secret_share_boolean_Ok:
  assumes "0 < n" "bv_wf x" "bv_bit_len x < 32"
  obtains ss rng' where "secret_share_boolean P R x n rng = Inr (ss, rng')"
    and "length ss = n" and "\<forall>s\<in>set ss. bv_wf s \<and> bv_bit_len s = bv_bit_len x"
    and "reconstruct_boolean ss = bv_value x"
proof -
  let ?l = "bv_bit_len x"
  let ?f = "\<lambda>rng. let (v, rng) = rng_next_u32 R rng in
     rbind (bv_new ?l (v AND (push_bit ?l 1 - 1))) (\<lambda>b. Inr (b, rng))"
  have step: "\<exists>b r'. ?f r = Inr (b, r') \<and> bv_wf b \<and> bv_bit_len b = ?l" for r
    using assms(3)
    by (cases "rng_next_u32 R r") (simp add: unat_and_mask bv_new_eq bv_wf_def del: push_bit_of_1)
  obtain ss rng' where ss: "rtimes (n - 1) ?f rng = Inr (ss, rng')" "length ss = n - 1"
      "\<forall>s\<in>set ss. bv_wf s \<and> bv_bit_len s = ?l"
    using rtimes_Ok [of ?f "\<lambda>s. bv_wf s \<and> bv_bit_len s = ?l" "n - 1" rng, OF step] by blast
  let ?last = "foldl (\<lambda>acc s. acc XOR bv_value s) (bv_value x) ss"
  have last: "unat ?last < 2 ^ ?l"
    using assms(2) ss(3) by (intro foldl_xor_bound) (auto simp: bv_wf_def)
  then have new: "bv_new ?l ?last = Inr \<lparr>bv_bit_len = ?l, bv_value = ?last\<rparr>"
    using assms(3) by (simp add: bv_new_eq)
  have eq: "secret_share_boolean P R x n rng
      = Inr (ss @ [\<lparr>bv_bit_len = ?l, bv_value = ?last\<rparr>], rng')"
    using assms(1,3) ss(1) new one_le_exp_u32 [OF assms(3)]
    by (simp add: secret_share_boolean_def del: push_bit_of_1)
  have "reconstruct_boolean (ss @ [\<lparr>bv_bit_len = ?l, bv_value = ?last\<rparr>])
      = foldl (XOR) 0 (map bv_value ss @ [foldl (XOR) (bv_value x) (map bv_value ss)])"
    by (simp add: reconstruct_boolean_def foldl_map)
  also have "\<dots> = bv_value x" by (rule xor_u32.reconstruct_shares)
  finally show ?thesis
    using assms(1,2) ss(2,3) last by (intro that [OF eq]) (auto simp: bv_wf_def)
qed

lemma reconstruct_boolean_mset: "mset ss = mset ts \<Longrightarrow> reconstruct_boolean ss = reconstruct_boolean ts"
  using xor_u32.foldl_comb_mset [of "map bv_value ss" "map bv_value ts" 0]
  by (simp add: reconstruct_boolean_def foldl_map)

lemma foldl_xor_zeros:
  "foldl (\<lambda>acc s. acc XOR bv_value s) v (replicate n \<lparr>bv_bit_len = l, bv_value = 0\<rparr>) = v"
  by (induction n) simp_all

text \<open>A row of the right width adds one element to every column.\<close>

lemma transpose_row_Ok:
  assumes "length row \<le> length out"
  shows "transpose_row row out
    = Inr (map (\<lambda>j. if j < length row then out ! j @ [row ! j] else out ! j) [0..<length out])"
proof -
  let ?I = "\<lambda>k (s :: 'a list list). s = map (\<lambda>j. if j < k then out ! j @ [row ! j] else out ! j) [0..<length out]"
  have "\<exists>s'. transpose_row row out = Inr s' \<and> ?I (length (zip [0..<length row] row)) s'"
    unfolding transpose_row_def
  proof (rule rfold_invariant)
    show "?I 0 out" by (simp add: map_nth)
  next
    fix k s
    assume "k < length (zip [0..<length row] row)" and s: "?I k s"
    then have k: "k < length row" by simp
    with s assms show "\<exists>s'. (case zip [0..<length row] row ! k of
        (j, v) \<Rightarrow> \<lambda>out. rbind (index out j) (\<lambda>col. Inr (out[j := col @ [v]]))) s = Inr s' \<and> ?I (Suc k) s'"
      by (auto simp: index_def intro!: nth_equalityI simp: nth_list_update less_Suc_eq)
  qed
  then show ?thesis by simp
qed

lemma transpose_fold:
  assumes "\<forall>row\<in>set rows. length row = m" "length out = m"
  shows "rfold transpose_row rows out
    = Inr (map (\<lambda>j. out ! j @ map (\<lambda>row. row ! j) rows) [0..<m])"
  using assms
proof (induction rows arbitrary: out)
  case Nil
  then show ?case by (auto intro!: nth_equalityI)
next
  case (Cons r rows)
  then show ?case by (simp add: transpose_row_Ok)
qed

lemma transpose_vec_Ok:
  assumes "inp \<noteq> []" "0 < m" "\<forall>row\<in>set inp. length row = m"
  shows "transpose_vec inp = Inr (map (\<lambda>j. map (\<lambda>row. row ! j) inp) [0..<m])"
proof -
  have "length (hd inp) = m" using assms by (cases inp) auto
  moreover have "hd inp \<noteq> []" using calculation assms(2) by auto
  ultimately show ?thesis
    using assms transpose_fold [of inp m "replicate m []"] by (simp add: transpose_vec_def)
qed

section \<open>Properties\<close>

text \<open>C35. Sharing a Boolean value of fewer than 32 bits never panics: it gives one share per
  party, each a well-formed value of the same bit length, and the exclusive-or of the shares,
  received in any order, is the value.\<close>

theorem secret_share_boolean_roundtrip:
  assumes "0 < party_num" and "bv_wf x" and "bv_bit_len x < 32"
  shows "\<exists>shares rng'. secret_share_boolean P R x party_num rng = Inr (shares, rng') \<and>
    length shares = party_num \<and> (\<forall>s\<in>set shares. bv_wf s \<and> bv_bit_len s = bv_bit_len x) \<and>
    (\<forall>received. mset received = mset shares \<longrightarrow> reconstruct_boolean received = bv_value x)"
proof -
  obtain ss rng' where ss: "secret_share_boolean P R x party_num rng = Inr (ss, rng')"
      "length ss = party_num" "\<forall>s\<in>set ss. bv_wf s \<and> bv_bit_len s = bv_bit_len x"
      "reconstruct_boolean ss = bv_value x"
    by (rule secret_share_boolean_Ok [OF assms])
  have "reconstruct_boolean received = bv_value x" if "mset received = mset ss" for received
    using reconstruct_boolean_mset [OF that] ss(4) by (rule trans)
  with ss(1-3) show ?thesis by blast
qed

text \<open>The 6-bit value 45 between three parties, whose masks come from a counter.\<close>

theorem secret_share_boolean_roundtrip_witness:
  "\<exists>shares rng'. secret_share_boolean Dev
      counter_rng \<lparr>bv_bit_len = 6, bv_value = 45\<rparr> 3 7 = Inr (shares, rng') \<and>
    length shares = 3 \<and> (\<forall>s\<in>set shares. bv_wf s \<and> bv_bit_len s = 6) \<and>
    (\<forall>received. mset received = mset shares \<longrightarrow> reconstruct_boolean received = 45)"
  using secret_share_boolean_roundtrip [of 3 "\<lparr>bv_bit_len = 6, bv_value = 45\<rparr>" Dev
      counter_rng 7]
  by (simp add: bv_wf_def)

text \<open>C37. A Boolean value of the full 32 bits cannot be shared: with overflow checks the mask
  \<open>1 << 32\<close> panics; without them the mask is zero, so every share but the last is zero and the
  last one is the value in the clear.\<close>

theorem secret_share_boolean_32:
  assumes "0 < party_num" and "bv_bit_len x = 32"
  shows "secret_share_boolean Dev R x party_num rng = Inl ArithOverflow \<and>
    (\<exists>rng'. secret_share_boolean Release R x party_num rng
       = Inr (replicate (party_num - 1) \<lparr>bv_bit_len = 32, bv_value = 0\<rparr> @ [x], rng'))"
proof -
  let ?z = "\<lparr>bv_bit_len = 32, bv_value = 0\<rparr>"
  let ?f = "\<lambda>rng. let (v, rng) = rng_next_u32 R rng in rbind (bv_new 32 (v AND 0)) (\<lambda>b. Inr (b, rng))"
  have step: "\<exists>b r'. ?f r = Inr (b, r') \<and> b = ?z" for r
    by (cases "rng_next_u32 R r") (simp add: bv_new_eq)
  obtain ss rng' where ss: "rtimes (party_num - 1) ?f rng = Inr (ss, rng')"
      "length ss = party_num - 1" "\<forall>b\<in>set ss. b = ?z"
    using rtimes_Ok [of ?f "\<lambda>b. b = ?z" "party_num - 1" rng, OF step] by blast
  then have eq: "ss = replicate (party_num - 1) ?z" by (simp add: replicate_eqI)
  have fold: "foldl (\<lambda>acc s. acc XOR bv_value s) (bv_value x) ss = bv_value x"
    unfolding eq by (rule foldl_xor_zeros)
  have shl: "shl_u32 Release 1 32 = Inr 1" and ovf: "shl_u32 Dev 1 32 = Inl ArithOverflow"
    by (simp_all add: shl_u32_def arith_u32_def)
  have last: "bv_new 32 (bv_value x) = Inr x"
    using assms(2) unat_u32_less [of "bv_value x"] by (simp add: bv_new_eq)
  show ?thesis
    using assms ss(1) fold last eq by (simp add: secret_share_boolean_def shl ovf)
qed

theorem secret_share_boolean_32_witness:
  "secret_share_boolean Dev counter_rng \<lparr>bv_bit_len = 32, bv_value = 99\<rparr> 2 7 = Inl ArithOverflow \<and>
    (\<exists>rng'. secret_share_boolean Release counter_rng \<lparr>bv_bit_len = 32, bv_value = 99\<rparr> 2 7
       = Inr ([\<lparr>bv_bit_len = 32, bv_value = 0\<rparr>, \<lparr>bv_bit_len = 32, bv_value = 99\<rparr>], rng'))"
  using secret_share_boolean_32 [of 2 "\<lparr>bv_bit_len = 32, bv_value = 99\<rparr>"
      counter_rng 7]
  by simp

text \<open>Sharing a \<open>u32\<close> within \<open>l < 32\<close> bits gives one share per party, all of them within
  \<open>l\<close> bits, and reconstructing the shares gives the value.\<close>

lemma secret_share_lbit_roundtrip:
  assumes "0 < party_num" and "l < 32" and "unat x < 2 ^ l"
  shows "\<exists>shares rng'. secret_share_lbit P R x party_num l rng = Inr (shares, rng') \<and>
    length shares = party_num \<and> (\<forall>s\<in>set shares. unat s < 2 ^ l) \<and> reconstruct_u32 shares = x"
proof -
  obtain ss rng' where ss: "secret_share_lbit P R x party_num l rng = Inr (ss @ [foldl (XOR) x ss], rng')"
      "length ss = party_num - 1" "\<forall>s\<in>set (ss @ [foldl (XOR) x ss]). unat s < 2 ^ l"
    by (rule secret_share_lbit_Ok [OF assms])
  have "reconstruct_u32 (ss @ [foldl (XOR) x ss]) = x"
    unfolding reconstruct_u32_def by (rule xor_u32.reconstruct_shares)
  moreover have "length (ss @ [foldl (XOR) x ss]) = party_num" using ss(2) assms(1) by simp
  ultimately show ?thesis using ss(1,3) by blast
qed

text \<open>Sharing a value over the scalars gives one share per party whose sum, in any order of
  the shares, is the value.\<close>

lemma secret_share_arith_roundtrip:
  assumes "0 < party_num"
  shows "\<exists>shares rng'. secret_share_arith P S x party_num rng = Inr (shares, rng') \<and>
    length shares = party_num \<and>
    (\<forall>received. mset received = mset shares \<longrightarrow> reconstruct_arith received = x)"
proof -
  obtain ss rng' where ss: "secret_share_arith P S x party_num rng = Inr (ss @ [foldl av_sub x ss], rng')"
      "length ss = party_num - 1"
    by (rule secret_share_arith_Ok [OF assms])
  have "reconstruct_arith received = x" if "mset received = mset (ss @ [foldl av_sub x ss])" for received
    unfolding reconstruct_arith_def
    using arith.foldl_comb_mset [OF that] arith.reconstruct_shares by (rule trans)
  moreover have "length (ss @ [foldl av_sub x ss]) = party_num" using ss(2) assms by simp
  ultimately show ?thesis using ss(1) by blast
qed

text \<open>Transposing a rectangular matrix puts the element of row \<open>i\<close> and column \<open>j\<close> at row \<open>j\<close>
  and column \<open>i\<close>, and transposing twice gives the matrix back.\<close>

lemma transpose_vec_involutive:
  assumes "inp \<noteq> []" and "0 < m" and "\<forall>row\<in>set inp. length row = m"
  shows "\<exists>out. transpose_vec inp = Inr out \<and> length out = m \<and>
    (\<forall>j<m. length (out ! j) = length inp \<and> (\<forall>i<length inp. out ! j ! i = inp ! i ! j)) \<and>
    transpose_vec out = Inr inp"
proof -
  let ?out = "map (\<lambda>j. map (\<lambda>row. row ! j) inp) [0..<m]"
  have out: "transpose_vec inp = Inr ?out" by (rule transpose_vec_Ok [OF assms])
  have "transpose_vec ?out = Inr (map (\<lambda>j. map (\<lambda>row. row ! j) ?out) [0..<length inp])"
    using assms by (intro transpose_vec_Ok) auto
  also have "map (\<lambda>j. map (\<lambda>row. row ! j) ?out) [0..<length inp] = inp"
    using assms(3) by (intro nth_equalityI) (auto intro!: nth_equalityI)
  finally show ?thesis using out by simp
qed

end
