(* ===== verification/Ohe.thy ===== *)
theory Ohe
  imports Circuit Util
begin

unbundle bit_operations_syntax

text \<open>
  The one-hot encoding of a shared index (\<open>recursive_ohe_vec\<close> and \<open>ohe_vec\<close> of \<open>src/prc/mpc.rs\<close>).
  \<open>ohe_builds\<close>: the executors of all parties build the same circuit, and the source they return
  stands for the unit vector of the index. \<open>ohe_bytes\<close> is the number of bytes of Beaver triples it
  takes. With \<open>run_levels\<close> this gives the correctness of building, running and reading the circuit.
\<close>

section \<open>The triples the circuit takes\<close>

function ohe_bytes :: "nat \<Rightarrow> nat" where
  "ohe_bytes b = (if b \<le> 1 then 0
     else ohe_bytes (div_ceil b 2) + ohe_bytes (b - div_ceil b 2) + div_ceil (2 ^ b) 8)"
  by pat_completeness auto
termination
  by (relation "measure id") (auto simp: div_ceil_def)

declare ohe_bytes.simps [simp del]

text \<open>At most a quarter of the vector's length, in bytes.\<close>

lemma two_powers_le:
  assumes "k \<le> a" "k \<le> b" "1 \<le> k"
  shows "2 ^ a + 2 ^ b \<le> (2 :: nat) ^ (a + b - (k - 1))"
proof -
  obtain i j where ij: "a = k + i" "b = k + j" using assms by (meson le_Suc_ex)
  have "x + y \<le> 2 * (x * y)" if "1 \<le> x" "1 \<le> y" for x y :: nat using that by (cases x; cases y) simp_all
  from this [of "2 ^ i" "2 ^ j"] have "2 ^ i + 2 ^ j \<le> (2 :: nat) ^ (i + j + 1)" by (simp add: power_add)
  then have "2 ^ k * (2 ^ i + 2 ^ j) \<le> (2 :: nat) ^ k * 2 ^ (i + j + 1)" by (rule mult_le_mono2)
  moreover have "a + b - (k - 1) = k + (i + j + 1)" using assms(3) ij by simp
  ultimately show ?thesis by (simp add: ij power_add distrib_left)
qed

lemma div_ceil_exp: "3 \<le> b \<Longrightarrow> 8 * div_ceil (2 ^ b) 8 = 2 ^ b"
proof (rule div_ceil_8_aligned)
  assume "3 \<le> b"
  then obtain c where "b = 3 + c" by (metis le_Suc_ex)
  then show "2 ^ b mod 8 = (0 :: nat)" by (simp add: power_add)
qed

lemma ohe_bytes_step:
  assumes "2 \<le> b"
  obtains l h where "l + h = b" "h \<le> l" "l \<le> h + 1" "ohe_bytes b = ohe_bytes l + ohe_bytes h + div_ceil (2 ^ b) 8"
  using assms by (intro that [of "div_ceil b 2" "b - div_ceil b 2"]) (simp_all add: ohe_bytes.simps [of b] div_ceil_def)

lemma ohe_bytes_small: "ohe_bytes 1 = 0" "ohe_bytes (Suc 0) = 0" "ohe_bytes 2 = 1" "ohe_bytes 3 = 2" "ohe_bytes 4 = 4" "ohe_bytes 5 = 7"
  by (simp_all add: ohe_bytes.simps div_ceil_def)

lemma ohe_bytes_bound: "2 \<le> b \<Longrightarrow> 4 * ohe_bytes b \<le> 2 ^ b"
proof (induction b rule: less_induct)
  case (less b)
  show ?case
  proof (cases "4 \<le> b")
    case True
    obtain l h where lh: "l + h = b" "h \<le> l" "l \<le> h + 1" "ohe_bytes b = ohe_bytes l + ohe_bytes h + div_ceil (2 ^ b) 8"
      by (rule ohe_bytes_step [OF less.prems])
    have ge: "2 \<le> l" "2 \<le> h" "l < b" "h < b" using lh(1-3) True by linarith+
    have "4 * ohe_bytes l \<le> 2 ^ l" "4 * ohe_bytes h \<le> 2 ^ h" using less.IH ge by simp_all
    moreover have "2 ^ l + 2 ^ h \<le> (2 :: nat) ^ (b - 1)" using two_powers_le [OF ge(1,2)] lh(1) by simp
    moreover have "2 * (2 :: nat) ^ (b - 1) = 2 ^ b" using True by (cases b) simp_all
    ultimately show ?thesis using div_ceil_exp [of b] True lh(4) by linarith
  next
    case False
    then have "b = 2 \<or> b = 3" using less.prems by linarith
    then show ?thesis by (elim disjE) (simp_all add: ohe_bytes_small)
  qed
qed

text \<open>At most one and a half bits of triples for each bit of the vector, up to one byte.\<close>

lemma ohe_bits: "1 \<le> b \<Longrightarrow> 16 * ohe_bytes b \<le> 3 * 2 ^ b + 16"
proof (cases "6 \<le> b")
  case True
  obtain l h where lh: "l + h = b" "h \<le> l" "l \<le> h + 1" "ohe_bytes b = ohe_bytes l + ohe_bytes h + div_ceil (2 ^ b) 8"
    using ohe_bytes_step [of b] True by auto
  have ge: "3 \<le> l" "3 \<le> h" using lh(1-3) True by linarith+
  have "4 * ohe_bytes l \<le> 2 ^ l" "4 * ohe_bytes h \<le> 2 ^ h" using ge by (simp_all add: ohe_bytes_bound)
  moreover have "2 ^ l + 2 ^ h \<le> (2 :: nat) ^ (b - 2)" using two_powers_le [OF ge] lh(1) by simp
  moreover obtain c where "b = Suc (Suc c)" using True by (cases b rule: nat.exhaust; cases "b - 1") auto
  then have "(2 :: nat) ^ b = 4 * 2 ^ (b - 2)" by simp
  ultimately show ?thesis using div_ceil_exp [of b] True lh(4) by linarith
next
  case False
  moreover assume "1 \<le> b"
  ultimately have "b = 1 \<or> b = 2 \<or> b = 3 \<or> b = 4 \<or> b = 5" by linarith
  then show ?thesis by (elim disjE) (simp_all add: ohe_bytes_small)
qed

section \<open>The circuit of the encoding\<close>

text \<open>What a call of \<open>recursive_ohe_vec\<close> at layer \<open>l\<close> with the shares \<open>v\<close> has done to the circuit.\<close>

definition ohe_built ::
  "nat \<Rightarrow> level list \<Rightarrow> nat \<Rightarrow> nat \<Rightarrow> (nat \<Rightarrow> u32) \<Rightarrow> level list \<Rightarrow> (nat \<Rightarrow> layer_source) \<Rightarrow> bool" where
  "ohe_built n C l bn v C' srcs \<longleftrightarrow>
     circuit_ok n C' \<and> extends C C' \<and> circuit_bytes C' = circuit_bytes C + ohe_bytes bn \<and>
     (\<forall>k\<ge>l. k < length C' \<longrightarrow> 0 < fst (C' ! k)) \<and>
     src_ok n C' l srcs (2 ^ bn) (\<lambda>i. i = unat (xor_of n v))"

text \<open>One bit: the vector of party \<open>p\<close> is \<open>(\<not>v, v)\<close> for the first party and \<open>(v, v)\<close> for the others.\<close>

definition ohe_bit_share :: "nat \<Rightarrow> u32 \<Rightarrow> bitarray" where
  "ohe_bit_share p v = ba_make 2 (\<lambda>i. i = 0 \<and> (v \<noteq> 0) \<noteq> (p = 0) \<or> i = 1 \<and> v \<noteq> 0)"

lemma ohe_one_bit:
  fixes mp :: "('s, 'g) mpc_provider"
  assumes "mp_party_const mp = (p = 0)"
  shows "recursive_ohe_vec P mp l 1 v = Inr (Input (ohe_bit_share p v), mp)"
proof -
  have "ba_make 2 ((mbit (ba_make 2 ((mbit (ba_make 2 (\<lambda>_. False)))(0 := b))))(1 := c))
      = ba_make 2 (\<lambda>i. i = 0 \<and> b \<or> i = 1 \<and> c)" for b c
    by (intro ba_make_cong) auto
  then show ?thesis
    using assms by (subst recursive_ohe_vec.simps) (simp add: res_simps ohe_bit_share_def)
qed

lemma one_bit_word:
  fixes v :: u32
  assumes "unat v < 2"
  shows "unat v = of_bool (bit v 0)" "(v \<noteq> 0) = bit v 0"
proof -
  have "bit v 0 = odd (unat v)" by (simp only: bit_unsigned_iff flip: bit_0) simp
  with assms show "unat v = of_bool (bit v 0)" by (cases "odd (unat v)") (auto elim!: oddE)
  then show "(v \<noteq> 0) = bit v 0" by (auto simp flip: unat_eq_zero)
qed

lemma ohe_built_one:
  assumes "circuit_ok n C" "\<And>p. p < n \<Longrightarrow> unat (v p) < 2" "\<And>k. l \<le> k \<Longrightarrow> k < length C \<Longrightarrow> 0 < fst (C ! k)" "0 < n"
  shows "ohe_built n C l 1 v C (\<lambda>p. Input (ohe_bit_share p (v p)))"
proof -
  have bits: "xors (map (\<lambda>p. v p \<noteq> 0) [0..<n]) = bit (xor_of n v) 0"
    unfolding bit_xor_of by (rule arg_cong [where f = xors]) (use assms(2) one_bit_word in auto)
  have first: "xors (map (\<lambda>p. p = 0) [0..<n])"
    using assms(4) by (auto simp: upt_conv_Cons intro!: xors_all_False)
  have idx: "unat (xor_of n v) = of_bool (bit (xor_of n v) 0)"
    using xor_of_bound [of n v 1] assms(2) by (intro one_bit_word) simp
  have "xors (map (\<lambda>p. mbit (ohe_bit_share p (v p)) i) [0..<n]) = (i < 2 \<and> i = unat (xor_of n v))" for i
  proof -
    consider "i = 0" | "i = 1" | "2 \<le> i" by linarith
    then show ?thesis
    proof cases
      case 1
      have "xors (map (\<lambda>p. mbit (ohe_bit_share p (v p)) i) [0..<n]) = xors (map (\<lambda>p. (v p \<noteq> 0) \<noteq> (p = 0)) [0..<n])"
        using cap_ge [of 2] by (simp add: ohe_bit_share_def 1)
      then show ?thesis unfolding xors_map_neq bits using 1 idx first by simp
    next
      case 2
      have "xors (map (\<lambda>p. mbit (ohe_bit_share p (v p)) i) [0..<n]) = xors (map (\<lambda>p. v p \<noteq> 0) [0..<n])"
        using cap_ge [of 2] by (simp add: ohe_bit_share_def 2)
      then show ?thesis using 2 idx by (simp add: bits)
    next
      case 3
      then show ?thesis by (auto simp: ohe_bit_share_def intro!: xors_all_False)
    qed
  qed
  then have "shared n (\<lambda>p. ohe_bit_share p (v p)) 2 (\<lambda>i. i = unat (xor_of n v))"
    unfolding shared_def by (simp add: ohe_bit_share_def)
  from src_ok.inp [OF refl this] show ?thesis
    using assms(1,3) by (simp add: ohe_built_def extends_refl ohe_bytes.simps)
qed

text \<open>More bits: the AND of the low half repeated and the high half expanded.\<close>

lemma unit_index: "i < 2 ^ (h + s) \<Longrightarrow> i = x \<longleftrightarrow> i mod 2 ^ s = x mod 2 ^ s \<and> i div 2 ^ s = x div 2 ^ s" for i x h s :: nat
  by (metis div_mult_mod_eq)

lemma ohe_built_join:
  assumes b: "2 \<le> b" "s = div_ceil b 2"
    and lo: "ohe_built n C (Suc l) s (\<lambda>p. take_bit s (v p)) Cl lows"
    and hi: "ohe_built n Cl (Suc l) (b - s) (\<lambda>p. drop_bit s (v p)) Ch highs"
    and ne: "\<And>k. l \<le> k \<Longrightarrow> k < length C \<Longrightarrow> 0 < fst (C ! k)"
  shows "ohe_built n C l b v (add_gate (ext_levels Ch l) l (2 ^ b) (SRep (2 ^ (b - s)), lows) (SExp (2 ^ s), highs))
    (\<lambda>_. TakeZ (new_ticket (ext_levels Ch l) l (2 ^ b)))"
proof -
  let ?C = "ext_levels Ch l" and ?x = "(SRep (2 ^ (b - s)), lows)" and ?y = "(SExp (2 ^ s), highs)"
  let ?C' = "add_gate ?C l (2 ^ b) ?x ?y" and ?v = "unat (xor_of n v)"
  have s: "s \<le> b" using b by (simp add: div_ceil_def)
  have pw: "(2 :: nat) ^ b = 2 ^ (b - s) * 2 ^ s" using s by (simp flip: power_add)
  have "src_ok n Cl (Suc l) lows (2 ^ s) (\<lambda>i. i = ?v mod 2 ^ s)"
    using lo by (simp add: ohe_built_def xor_of_take unat_take_drop)
  then have x: "src_ok n ?C (Suc l) lows (2 ^ s) (\<lambda>i. i = ?v mod 2 ^ s)"
    using hi by (auto simp: ohe_built_def intro: src_ok_extends extends_ext)
  have "src_ok n Ch (Suc l) highs (2 ^ (b - s)) (\<lambda>i. i = ?v div 2 ^ s)"
    using hi by (simp add: ohe_built_def xor_of_drop unat_take_drop)
  then have y: "src_ok n ?C (Suc l) highs (2 ^ (b - s)) (\<lambda>i. i = ?v div 2 ^ s)"
    by (rule src_ok_extends [OF _ extends_ext])
  have l: "l < length ?C" by simp
  have f: "(i = ?v) = (sh_bit (fst ?x) (2 ^ s) (\<lambda>i. i = ?v mod 2 ^ s) i \<and>
      sh_bit (fst ?y) (2 ^ (b - s)) (\<lambda>i. i = ?v div 2 ^ s) i)" if "i < 2 ^ b" for i
    using unit_index [of i "b - s" s ?v] that s by simp
  have "circuit_ok n ?C" using hi by (simp add: ohe_built_def circuit_ok_ext)
  then have "circuit_ok n ?C'"
    by (rule circuit_ok_add [where mx = "2 ^ s" and my = "2 ^ (b - s)"]) (use x y pw in simp_all)
  moreover have "src_ok n ?C' l (\<lambda>_. TakeZ (new_ticket ?C l (2 ^ b))) (2 ^ b) (\<lambda>i. i = ?v)"
    by (rule src_ok_new [where mx = "2 ^ s" and my = "2 ^ (b - s)"]) (use x y pw f in simp_all)
  moreover have "extends C ?C'"
    using lo hi by (meson extends_add extends_ext extends_trans ohe_built_def)
  moreover have "circuit_bytes ?C' = circuit_bytes C + ohe_bytes b"
    using lo hi b by (subst circuit_bytes_add [OF l]) (simp add: ohe_built_def ohe_bytes.simps [of b])
  moreover have "0 < fst (?C' ! k)" if "l \<le> k" "k < length ?C'" for k
  proof (cases "k = l")
    case True
    then show ?thesis using l by (simp add: add_gate_def)
  next
    case False
    then show ?thesis
      using that hi by (auto simp: ohe_built_def add_gate_def ext_levels_nth)
  qed
  ultimately show ?thesis by (simp add: ohe_built_def)
qed

lemma recursive_ohe_join:
  fixes mp :: "('s, 'g) mpc_provider"
  assumes b: "2 \<le> b" "b \<le> 32" "s = div_ceil b 2"
    and mp: "mp_layers mp = party_layers p C" "mp_party_const mp = (p = 0)"
    and lo: "\<And>mp :: ('s, 'g) mpc_provider. mp_layers mp = party_layers p C \<Longrightarrow> mp_party_const mp = (p = 0) \<Longrightarrow>
      recursive_ohe_vec P mp (Suc l) s (take_bit s v) = Inr (lows p, mp\<lparr>mp_layers := party_layers p Cl\<rparr>)"
    and hi: "\<And>mp :: ('s, 'g) mpc_provider. mp_layers mp = party_layers p Cl \<Longrightarrow> mp_party_const mp = (p = 0) \<Longrightarrow>
      recursive_ohe_vec P mp (Suc l) (b - s) (drop_bit s v) = Inr (highs p, mp\<lparr>mp_layers := party_layers p Ch\<rparr>)"
  shows "recursive_ohe_vec P mp l b v = Inr (TakeZ (new_ticket (ext_levels Ch l) l (2 ^ b)),
    mp\<lparr>mp_layers := party_layers p (add_gate (ext_levels Ch l) l (2 ^ b) (SRep (2 ^ (b - s)), lows) (SExp (2 ^ s), highs))\<rparr>)"
proof -
  have s: "s < 32" "0 < s" using b by (simp_all add: div_ceil_def)
  let ?mp = "mp\<lparr>mp_layers := party_layers p Ch\<rparr>"
  have "with_layer ?mp l (\<lambda>ly.
      rbind (request_ticket ly (2 ^ b)) (\<lambda>(t, ly).
      rbind (add_operation ly (OpReplicate (2 ^ (b - s)) (lows p) (Relay t 0))) (\<lambda>ly.
      rbind (add_operation ly (OpBitExpand (2 ^ s) (highs p) (Relay t 1))) (\<lambda>ly.
      Ok (TakeZ t, ly)))))
    = Inr (TakeZ (new_ticket (ext_levels Ch l) l (2 ^ b)),
      ?mp\<lparr>mp_layers := party_layers p (add_gate (ext_levels Ch l) l (2 ^ b) (SRep (2 ^ (b - s)), lows) (SExp (2 ^ s), highs))\<rparr>)"
    using with_layer_add_gate [of ?mp p Ch l "2 ^ b" "(SRep (2 ^ (b - s)), lows)" "(SExp (2 ^ s), highs)"] mp by simp
  then show ?thesis
    using b s lo [OF mp] hi [of "mp\<lparr>mp_layers := party_layers p Cl\<rparr>"] mp(2) one_le_exp_u32 [OF s(1)] and_mask_u32 [OF s(1)]
    by (subst recursive_ohe_vec.simps) (simp add: Let_def del: push_bit_of_1)
qed

lemma ohe_builds:
  assumes "0 < b" "b \<le> 32" "0 < n" "circuit_ok n C" "\<And>p. p < n \<Longrightarrow> unat (v p) < 2 ^ b"
    and "\<And>k. l \<le> k \<Longrightarrow> k < length C \<Longrightarrow> 0 < fst (C ! k)"
  shows "\<exists>C' srcs. ohe_built n C l b v C' srcs \<and>
    (\<forall>p<n. \<forall>mp :: ('s, 'g) mpc_provider. mp_layers mp = party_layers p C \<longrightarrow> mp_party_const mp = (p = 0) \<longrightarrow>
        recursive_ohe_vec P mp l b (v p) = Inr (srcs p, mp\<lparr>mp_layers := party_layers p C'\<rparr>))"
  using assms
proof (induction b arbitrary: C l v rule: less_induct)
  case (less b)
  show ?case
  proof (cases "b = 1")
    case True
    have "ohe_built n C l 1 v C (\<lambda>p. Input (ohe_bit_share p (v p)))"
      using less.prems True by (intro ohe_built_one) simp_all
    then show ?thesis
      unfolding True
      by (intro exI [of _ C] exI [of _ "\<lambda>p. Input (ohe_bit_share p (v p))"] conjI allI impI) (simp_all add: ohe_one_bit del: One_nat_def)
  next
    case False
    define s where "s = div_ceil b 2"
    have s: "0 < s" "s < b" "0 < b - s" "b - s < b" using less.prems(1) False by (simp_all add: s_def div_ceil_def)
    have "\<exists>Cl lows. ohe_built n C (Suc l) s (\<lambda>p. take_bit s (v p)) Cl lows \<and>
      (\<forall>p<n. \<forall>mp :: ('s, 'g) mpc_provider. mp_layers mp = party_layers p C \<longrightarrow> mp_party_const mp = (p = 0) \<longrightarrow>
        recursive_ohe_vec P mp (Suc l) s (take_bit s (v p)) = Inr (lows p, mp\<lparr>mp_layers := party_layers p Cl\<rparr>))"
      using less.prems s by (intro less.IH) (simp_all add: unat_take_drop)
    then obtain Cl lows where lo: "ohe_built n C (Suc l) s (\<lambda>p. take_bit s (v p)) Cl lows"
      "\<And>p mp. p < n \<Longrightarrow> mp_layers (mp :: ('s, 'g) mpc_provider) = party_layers p C \<Longrightarrow> mp_party_const mp = (p = 0) \<Longrightarrow>
        recursive_ohe_vec P mp (Suc l) s (take_bit s (v p)) = Inr (lows p, mp\<lparr>mp_layers := party_layers p Cl\<rparr>)" by blast
    have "\<exists>Ch highs. ohe_built n Cl (Suc l) (b - s) (\<lambda>p. drop_bit s (v p)) Ch highs \<and>
      (\<forall>p<n. \<forall>mp :: ('s, 'g) mpc_provider. mp_layers mp = party_layers p Cl \<longrightarrow> mp_party_const mp = (p = 0) \<longrightarrow>
        recursive_ohe_vec P mp (Suc l) (b - s) (drop_bit s (v p)) = Inr (highs p, mp\<lparr>mp_layers := party_layers p Ch\<rparr>))"
      using less.prems s lo(1) by (intro less.IH) (auto simp: unat_take_drop ohe_built_def less_mult_imp_div_less simp flip: power_add)
    then obtain Ch highs where hi: "ohe_built n Cl (Suc l) (b - s) (\<lambda>p. drop_bit s (v p)) Ch highs"
      "\<And>p mp. p < n \<Longrightarrow> mp_layers (mp :: ('s, 'g) mpc_provider) = party_layers p Cl \<Longrightarrow> mp_party_const mp = (p = 0) \<Longrightarrow>
        recursive_ohe_vec P mp (Suc l) (b - s) (drop_bit s (v p)) = Inr (highs p, mp\<lparr>mp_layers := party_layers p Ch\<rparr>)" by blast
    have b: "2 \<le> b" "b \<le> 32" using less.prems(1,2) False by simp_all
    show ?thesis
      by (rule exI, rule exI, rule conjI, rule ohe_built_join [OF b(1) s_def lo(1) hi(1) less.prems(6)])
        (auto intro!: recursive_ohe_join [OF b s_def] lo(2) hi(2))
  qed
qed

section \<open>Running the encoding\<close>

lemma fst_le_bytes: "k < length C \<Longrightarrow> fst (C ! k) \<le> circuit_bytes C"
  unfolding circuit_bytes_def by (rule member_le_sum_list) auto

text \<open>The parties of one run: what their executors have in common and the triples they hold.\<close>

definition parties_ready ::
  "nat \<Rightarrow> nat \<Rightarrow> nat \<Rightarrow> level list \<Rightarrow> (nat \<Rightarrow> ('s, 'g) mpc_provider) \<Rightarrow> bool" where
  "parties_ready n N u C mp \<longleftrightarrow> 0 < n \<and> n \<le> 256 \<and>
     (\<forall>p<n. mh_ready n p (mp_message_handler (mp p)) \<and> mp_layers (mp p) = party_layers p C \<and>
       mp_party_const (mp p) = (p = 0)) \<and>
     bps_ok n N (\<lambda>p. mp_beaver_provider (mp p)) u"

lemma run_circuit:
  assumes "codec_ok G" "parties_ready n N u C mp" "circuit_ok n C" "\<And>k. k < length C \<Longrightarrow> 0 < fst (C ! k)"
    and "8 * circuit_bytes C < 2 ^ 32" "u + circuit_bytes C \<le> div_ceil N 8"
  shows "all_finish n (\<lambda>p. mp_run P G (mp p)) (\<lambda>out. \<exists>prev. readable P n C 0 prev \<and>
    (\<forall>p<n. out p = (mp p)\<lparr>mp_layers := [], mp_output_layer := prev p,
      mp_beaver_provider := (mp_beaver_provider (mp p))\<lparr>bp_used := u + circuit_bytes C\<rparr>\<rparr>))"
proof (rule run_levels [OF assms(1)])
  fix k assume k: "k < length C"
  have "8 * fst (C ! k) < 2 ^ 32" using fst_le_bytes [OF k] assms(5) by linarith
  then show "level_ok n C k \<and> 0 < fst (C ! k) \<and> 8 * fst (C ! k) < 2 ^ 32"
    using assms(3,4) k by (simp add: circuit_ok_def)
qed (use assms(2,6) in \<open>simp_all add: parties_ready_def\<close>)

text \<open>\<open>ohe_vec\<close> for all parties.\<close>

lemma ohe_vec_builds:
  fixes mp :: "nat \<Rightarrow> ('s, 'g) mpc_provider"
  assumes "parties_ready n N u C mp" "circuit_ok n C" "\<And>k. k < length C \<Longrightarrow> 0 < fst (C ! k)"
    and "0 < b" "b \<le> 32" "bv_shares n b bv x"
  shows "\<exists>C' srcs. circuit_ok n C' \<and> extends C C' \<and> (\<forall>k<length C'. 0 < fst (C' ! k)) \<and>
    circuit_bytes C' = circuit_bytes C + ohe_bytes b \<and> src_ok n C' 0 srcs (2 ^ b) (\<lambda>i. i = unat x) \<and>
    (\<forall>p<n. ohe_vec P (mp p) (bv p) = Inr (srcs p, (mp p)\<lparr>mp_layers := party_layers p C'\<rparr>))"
proof -
  let ?v = "\<lambda>p. bv_value (bv p)"
  have "0 < n" using assms(1) by (simp add: parties_ready_def)
  from ohe_builds [where v = ?v and l = 0 and P = P, OF assms(4,5) this assms(2)] assms(3,6)
  obtain C' srcs where "ohe_built n C 0 b ?v C' srcs"
    "\<And>p mp. p < n \<Longrightarrow> mp_layers (mp :: ('s, 'g) mpc_provider) = party_layers p C \<Longrightarrow> mp_party_const mp = (p = 0) \<Longrightarrow>
      recursive_ohe_vec P mp 0 b (?v p) = Inr (srcs p, mp\<lparr>mp_layers := party_layers p C'\<rparr>)"
    unfolding bv_shares_def by metis
  then show ?thesis
    using assms(1,6)
    by (intro exI [of _ C'] exI [of _ srcs]) (simp add: ohe_built_def ohe_vec_def parties_ready_def bv_shares_def)
qed

lemma parties_ready_layers:
  "parties_ready n N u C mp \<Longrightarrow> parties_ready n N u C' (\<lambda>p. (mp p)\<lparr>mp_layers := party_layers p C'\<rparr>)"
  by (simp add: parties_ready_def)

text \<open>Executors after a run: the triples up to byte \<open>v\<close> are spent, the layers are gone.\<close>

definition spent :: "nat \<Rightarrow> (nat \<Rightarrow> ('s, 'g) mpc_provider) \<Rightarrow> nat \<Rightarrow> (nat \<Rightarrow> ('s, 'g) mpc_provider) \<Rightarrow> bool" where
  "spent n mp v mp' \<longleftrightarrow> (\<forall>p<n. \<exists>o'. mp' p = (mp p)\<lparr>mp_layers := [], mp_output_layer := o',
     mp_beaver_provider := (mp_beaver_provider (mp p))\<lparr>bp_used := v\<rparr>\<rparr>)"

lemma party_layers_Nil [simp]: "party_layers p [] = []"
  by (simp add: party_layers_def)

lemma spentE:
  assumes "spent n mp v mp'" "p < n"
  obtains o' where "mp' p = (mp p)\<lparr>mp_layers := [], mp_output_layer := o',
     mp_beaver_provider := (mp_beaver_provider (mp p))\<lparr>bp_used := v\<rparr>\<rparr>"
  using assms unfolding spent_def by blast

lemma parties_ready_spent:
  assumes "parties_ready n N u C mp" "spent n mp v mp'"
  shows "parties_ready n N v [] mp'"
proof -
  have eq: "mp_beaver_provider (mp' p) = (mp_beaver_provider (mp p))\<lparr>bp_used := v\<rparr>" "mp_layers (mp' p) = []"
      "mp_message_handler (mp' p) = mp_message_handler (mp p)" "mp_party_const (mp' p) = mp_party_const (mp p)" if p: "p < n" for p
  proof -
    obtain o' where "mp' p = (mp p)\<lparr>mp_layers := [], mp_output_layer := o',
      mp_beaver_provider := (mp_beaver_provider (mp p))\<lparr>bp_used := v\<rparr>\<rparr>" by (rule spentE [OF assms(2) p])
    then show "mp_beaver_provider (mp' p) = (mp_beaver_provider (mp p))\<lparr>bp_used := v\<rparr>" "mp_layers (mp' p) = []"
      "mp_message_handler (mp' p) = mp_message_handler (mp p)" "mp_party_const (mp' p) = mp_party_const (mp p)" by simp_all
  qed
  have "bps_ok n N (\<lambda>p. mp_beaver_provider (mp p)) u" "0 < n" "n \<le> 256"
      "\<forall>p<n. mh_ready n p (mp_message_handler (mp p)) \<and> mp_party_const (mp p) = (p = 0)"
    using assms(1) unfolding parties_ready_def by blast+
  moreover from this(1) have "bps_ok n N (\<lambda>p. mp_beaver_provider (mp' p)) v" by (rule bps_ok_advance) (rule eq(1))
  ultimately show ?thesis unfolding parties_ready_def by (simp add: eq(2-4))
qed

lemma spent_trans:
  assumes "spent n mp v mp'" "spent n mp' w mp''"
  shows "spent n mp w mp''"
  unfolding spent_def
proof (intro allI impI)
  fix p assume p: "p < n"
  show "\<exists>o'. mp'' p = (mp p)\<lparr>mp_layers := [], mp_output_layer := o', mp_beaver_provider := (mp_beaver_provider (mp p))\<lparr>bp_used := w\<rparr>\<rparr>"
    by (rule spentE [OF assms(1) p], rule spentE [OF assms(2) p]) (rule exI, simp)
qed

lemma spent_layers: "spent n (\<lambda>p. (mp p)\<lparr>mp_layers := ls p\<rparr>) v mp' \<longleftrightarrow> spent n mp v mp'"
  by (simp add: spent_def)

lemma spent_clear:
  assumes "spent n mp v mp'"
  shows "spent n mp v (\<lambda>p. mp_clear (mp' p))"
  unfolding spent_def
proof (intro allI impI)
  fix p assume p: "p < n"
  show "\<exists>o'. mp_clear (mp' p) = (mp p)\<lparr>mp_layers := [], mp_output_layer := o', mp_beaver_provider := (mp_beaver_provider (mp p))\<lparr>bp_used := v\<rparr>\<rparr>"
    by (rule spentE [OF assms p]) (rule exI [of _ None], simp add: mp_clear_def)
qed

text \<open>Running a circuit whose sources the parties know: afterwards they can all read them.\<close>

lemma run_sources:
  assumes "codec_ok G" "parties_ready n N u C mp" "circuit_ok n C" "\<And>k. k < length C \<Longrightarrow> 0 < fst (C ! k)"
    and "8 * circuit_bytes C < 2 ^ 32" "u + circuit_bytes C \<le> div_ceil N 8"
  shows "all_finish n (\<lambda>p. mp_run P G (mp p)) (\<lambda>mp'. spent n mp (u + circuit_bytes C) mp' \<and>
    (\<forall>srcs m f. src_ok n C 0 srcs m f \<longrightarrow> (\<exists>a. (\<forall>p<n. get_output P (mp' p) (srcs p) = Inr (a p)) \<and> shared n a m f)))"
proof (rule all_finish_mono [OF run_circuit [OF assms, where P = P]])
  fix out
  assume "\<exists>prev. readable P n C 0 prev \<and> (\<forall>p<n. out p = (mp p)\<lparr>mp_layers := [], mp_output_layer := prev p,
      mp_beaver_provider := (mp_beaver_provider (mp p))\<lparr>bp_used := u + circuit_bytes C\<rparr>\<rparr>)"
  then obtain prev where prev: "readable P n C 0 prev" "\<And>p. p < n \<Longrightarrow> out p = (mp p)\<lparr>mp_layers := [], mp_output_layer := prev p,
      mp_beaver_provider := (mp_beaver_provider (mp p))\<lparr>bp_used := u + circuit_bytes C\<rparr>\<rparr>" by blast
  then have "spent n mp (u + circuit_bytes C) out" unfolding spent_def by blast
  moreover have "\<exists>a. (\<forall>p<n. get_output P (out p) (srcs p) = Inr (a p)) \<and> shared n a m f" if "src_ok n C 0 srcs m f" for srcs m f
    using prev(1) that unfolding readable_def get_output_def by (simp add: prev(2))
  ultimately show "spent n mp (u + circuit_bytes C) out \<and>
    (\<forall>srcs m f. src_ok n C 0 srcs m f \<longrightarrow> (\<exists>a. (\<forall>p<n. get_output P (out p) (srcs p) = Inr (a p)) \<and> shared n a m f))" by blast
qed

text \<open>The AND of two shared arrays.\<close>

lemma mp_and_builds:
  fixes mp :: "nat \<Rightarrow> ('s, 'g) mpc_provider"
  assumes "parties_ready n N u [] mp" "shared n a m f" "shared n b m g" "0 < m"
  shows "\<exists>C srcs. circuit_ok n C \<and> (\<forall>k<length C. 0 < fst (C ! k)) \<and> circuit_bytes C = div_ceil m 8 \<and>
    src_ok n C 0 srcs m (\<lambda>i. f i \<and> g i) \<and>
    (\<forall>p<n. mp_and (mp p) m (Input (a p)) (Input (b p)) = Inr (srcs p, (mp p)\<lparr>mp_layers := party_layers p C\<rparr>))"
proof -
  let ?C = "ext_levels [] 0" and ?x = "(SCopy, \<lambda>p. Input (a p))" and ?y = "(SCopy, \<lambda>p. Input (b p))"
  let ?C' = "add_gate ?C 0 m ?x ?y"
  have x: "src_ok n ?C (Suc 0) (\<lambda>p. Input (a p)) m f" and y: "src_ok n ?C (Suc 0) (\<lambda>p. Input (b p)) m g"
    using assms(2-4) by (auto intro: src_ok.inp)
  have "circuit_ok n ?C" by (rule circuit_ok_ext) (simp add: circuit_ok_def)
  then have "circuit_ok n ?C'"
    by (rule circuit_ok_add [where mx = m and my = m]) (use x y assms(4) in simp_all)
  moreover have "src_ok n ?C' 0 (\<lambda>_. TakeZ (new_ticket ?C 0 m)) m (\<lambda>i. f i \<and> g i)"
    by (rule src_ok_new [where mx = m and my = m and hx = f and hy = g]) (use x y assms(4) in simp_all)
  moreover have "circuit_bytes ?C' = div_ceil m 8"
    by (subst circuit_bytes_add) (simp_all add: circuit_bytes_def ext_levels_def)
  moreover have "\<forall>k<length ?C'. 0 < fst (?C' ! k)" using assms(4) by (simp add: add_gate_def)
  moreover have "mp_and (mp p) m (Input (a p)) (Input (b p))
      = Inr (TakeZ (new_ticket ?C 0 m), (mp p)\<lparr>mp_layers := party_layers p ?C'\<rparr>)" if "p < n" for p
    using with_layer_add_gate [of "mp p" p "[]" 0 m ?x ?y] assms(1,4) that by (simp add: mp_and_def parties_ready_def)
  ultimately show ?thesis by (intro exI [of _ ?C'] exI [of _ "\<lambda>_. TakeZ (new_ticket ?C 0 m)"]) simp
qed

end
