(* ===== verification/Config.thy ===== *)
theory Config
  imports Beaver DaBit
begin

text \<open>
  \<open>src/prc/config.rs\<close>: the configurations of the database and of the system, and the correlated
  randomness a party sets up from them for a number of expected queries. \<open>seeded_randomness\<close> shows
  that the providers of all parties of one configuration fit together.
\<close>

section \<open>Configurations\<close>

record peer_info =
  pi_id :: nat
  pi_ip_addr :: string
  pi_port :: "16 word"
  pi_seed :: "u8 list"

record db_config =
  dbc_record_size :: nat
  dbc_l1_dim :: nat
  dbc_l2_dim :: nat
  dbc_seed :: "u8 list option"

definition dbc_new :: "nat \<Rightarrow> nat \<Rightarrow> nat \<Rightarrow> u8 list option \<Rightarrow> db_config" where
  "dbc_new db_record_size l1_dim l2_dim db_seed =
     \<lparr>dbc_record_size = db_record_size, dbc_l1_dim = l1_dim, dbc_l2_dim = l2_dim, dbc_seed = db_seed\<rparr>"

definition dbc_get_max_size :: "db_config \<Rightarrow> nat" where
  "dbc_get_max_size c = dbc_l1_dim c * dbc_l2_dim c"

definition dbc_db_seed :: "db_config \<Rightarrow> u8 list res" where
  "dbc_db_seed c = expect (dbc_seed c)"

record system_config =
  sc_peers :: "peer_info list"
  sc_db_config :: db_config

definition sc_new :: "peer_info list \<Rightarrow> db_config \<Rightarrow> system_config" where
  "sc_new peers db_config = \<lparr>sc_peers = peers, sc_db_config = db_config\<rparr>"

definition get_peer_info :: "system_config \<Rightarrow> nat \<Rightarrow> peer_info option" where
  "get_peer_info c ident = find (\<lambda>peer. pi_id peer = ident) (sc_peers c)"

text \<open>\<open>Iterator::position\<close>.\<close>

fun position :: "('a \<Rightarrow> bool) \<Rightarrow> 'a list \<Rightarrow> nat option" where
  "position f [] = None"
| "position f (x # xs) = (if f x then Some 0 else map_option Suc (position f xs))"

definition get_peer_idx :: "system_config \<Rightarrow> nat \<Rightarrow> nat option" where
  "get_peer_idx c ident = position (\<lambda>peer. pi_id peer = ident) (sc_peers c)"

definition get_party_num :: "system_config \<Rightarrow> nat" where
  "get_party_num c = length (sc_peers c)"

section \<open>Seeded correlated randomness\<close>

definition gen_beaver_provider :: "'r rng_ops \<Rightarrow> system_config \<Rightarrow> nat \<Rightarrow> nat \<Rightarrow> beaver_provider res" where
  "gen_beaver_provider R c ident bit_num =
     (if ident = 0 then
        let others_seed = map pi_seed (drop 1 (sc_peers c)) in
        rbind (index (sc_peers c) 0) (\<lambda>peer.
        bp_generate_as_dealer R bp_new bit_num (pi_seed peer) others_seed)
      else
        rbind (index (sc_peers c) ident) (\<lambda>peer.
        bp_generate_with_seed R bp_new bit_num (pi_seed peer)))"

definition gen_dabit_provider ::
  "'r rng_ops \<Rightarrow> ('s::comm_ring_1, 'r) scalar_ops \<Rightarrow> system_config \<Rightarrow> nat \<Rightarrow> nat \<Rightarrow> 's dabit_provider res" where
  "gen_dabit_provider R S c ident bit_num =
     (if ident = 0 then
        let others_seed = map pi_seed (drop 1 (sc_peers c)) in
        rbind (index (sc_peers c) 0) (\<lambda>peer.
        da_generate_as_dealer R S da_new bit_num (pi_seed peer) others_seed)
      else
        rbind (index (sc_peers c) ident) (\<lambda>peer.
        da_generate_with_seed R S da_new bit_num (pi_seed peer)))"

text \<open>
  \<open>(2.5 * d as f64).ceil()\<close> and \<open>(1.5 * d as f64).ceil()\<close>: the products are exact for dimensions
  below \<open>2^50\<close>, so the integer ceilings are the same numbers.
\<close>

definition beaver_per_q :: "db_config \<Rightarrow> nat" where
  "beaver_per_q c = div_ceil (5 * dbc_l2_dim c) 2 + div_ceil (3 * dbc_l1_dim c) 2 + 3 * 32"

definition init_seeded_correlated_randomness ::
  "'r rng_ops \<Rightarrow> ('s::comm_ring_1, 'r) scalar_ops \<Rightarrow> system_config \<Rightarrow> nat \<Rightarrow> nat \<Rightarrow>
     (beaver_provider \<times> 's dabit_provider) res" where
  "init_seeded_correlated_randomness R S c ident expected_query_num =
     (let beaver_max_bitsize = expected_query_num * beaver_per_q (sc_db_config c);
          dabit_max_size = expected_query_num * 36 in
      rbind (gen_beaver_provider R c ident beaver_max_bitsize) (\<lambda>beaver_provider.
      rbind (gen_dabit_provider R S c ident dabit_max_size) (\<lambda>dabit_provider.
      Ok (beaver_provider, dabit_provider))))"

section \<open>Configurations on one host\<close>

definition localhost_peer_config :: "profile \<Rightarrow> nat \<Rightarrow> 16 word \<Rightarrow> peer_info list res" where
  "localhost_peer_config P party_num base_port =
     rfold (\<lambda>i peers.
         rbind (add_u16 P base_port (of_nat i)) (\<lambda>port.
         Ok (peers @ [\<lparr>pi_id = i, pi_ip_addr = ''127.0.0.1'', pi_port = port,
                       pi_seed = replicate 32 (of_nat (100 + i))\<rparr>])))
       [0..<party_num] []"

definition basic_system_config :: "profile \<Rightarrow> nat \<Rightarrow> 16 word \<Rightarrow> nat \<times> nat \<Rightarrow> system_config res" where
  "basic_system_config P party_num base_port db_dims =
     rbind (localhost_peer_config P party_num base_port) (\<lambda>peers.
     Ok \<lparr>sc_peers = peers,
         sc_db_config = \<lparr>dbc_record_size = 1, dbc_l1_dim = snd db_dims, dbc_l2_dim = fst db_dims,
                         dbc_seed = Some (replicate 32 42)\<rparr>\<rparr>)"

section \<open>The providers of all parties\<close>

lemma rmap_nth: "rmap f xs = Inr ys \<Longrightarrow> p < length xs \<Longrightarrow> f (xs ! p) = Inr (ys ! p)"
  using rmap_eq_Ok_nth [of f xs ys p] rmap_eq_Ok_length [of f xs ys] by simp

lemma gen_beaver_providers:
  assumes "rng_ok R" "0 < N" "2 \<le> length (sc_peers c)"
  shows "\<exists>ds. (\<forall>p<length (sc_peers c). gen_beaver_provider R c p N = Inr (bp_new\<lparr>bp_beaver_storage := Some (ds p)\<rparr>) \<and> d2_wf 3 N (ds p)) \<and>
    triples_ok (map ds [0..<length (sc_peers c)])"
proof -
  obtain p0 ps where ps: "sc_peers c = p0 # ps" "ps \<noteq> []"
    using assms(3) by (metis One_nat_def Suc_1 Suc_le_length_iff length_Suc_conv list.size(3) not_less_eq_eq zero_le)
  obtain dealer ds where d: "bp_generate_as_dealer R bp_new N (pi_seed p0) (map pi_seed ps) = Inr (bp_new\<lparr>bp_beaver_storage := Some dealer\<rparr>)"
      "rmap (\<lambda>s. d2_from_seed R 3 N s) (map pi_seed ps) = Inr ds" "\<forall>d\<in>set (dealer # ds). d2_wf 3 N d" "triples_ok (dealer # ds)"
    using bp_generate_as_dealer_Ok [OF assms(1,2), of "map pi_seed ps" bp_new "pi_seed p0"] ps(2) by auto
  have len: "length ds = length ps" using rmap_eq_Ok_length [OF d(2)] by simp
  have "gen_beaver_provider R c p N = Inr (bp_new\<lparr>bp_beaver_storage := Some ((dealer # ds) ! p)\<rparr>)" if "p < length (sc_peers c)" for p
    using that d(1) rmap_nth [OF d(2), of "p - 1"] ps(1)
    by (cases p) (simp_all add: gen_beaver_provider_def index_def bp_generate_with_seed_def)
  moreover have "d2_wf 3 N ((dealer # ds) ! p)" if "p < length (sc_peers c)" for p
    using d(3) that len ps(1) nth_mem [of p "dealer # ds"] by (auto simp del: nth_Cons_Suc)
  moreover have "map (\<lambda>p. (dealer # ds) ! p) [0..<length (sc_peers c)] = dealer # ds"
    using map_nth [of "dealer # ds"] len ps(1) by simp
  ultimately show ?thesis using d(4) by (intro exI [of _ "\<lambda>p. (dealer # ds) ! p"]) simp
qed

lemma gen_dabit_providers:
  assumes "scalar_from_ok S" "sc_peers c \<noteq> []"
  shows "\<exists>ds. (\<forall>p<length (sc_peers c). gen_dabit_provider R S c p M
        = Inr (da_new\<lparr>da_bit_storage := Some (ds p)\<rparr>) \<and> length (ds p) = M) \<and>
    (\<forall>i<M. dabits_ok (map (\<lambda>p. ds p ! i) [0..<length (sc_peers c)]))"
proof -
  obtain p0 ps where ps: "sc_peers c = p0 # ps" using assms(2) by (cases "sc_peers c") auto
  obtain dealer ds where d: "da_generate_as_dealer R S da_new M (pi_seed p0) (map pi_seed ps)
        = Inr (da_new\<lparr>da_bit_storage := Some dealer, da_used := 0, da_last_report := 0\<rparr>)"
      "rmap (\<lambda>seed. rbind (random_dabits R S M (rng_from_seed R seed)) (\<lambda>(ds, _). Ok ds)) (map pi_seed ps) = Inr ds"
      "\<forall>ds\<in>set (dealer # ds). length ds = M" "\<forall>i<M. dabits_ok (map (\<lambda>ds. ds ! i) (dealer # ds))"
    using da_generate_as_dealer_Ok [OF assms(1), of R da_new M "pi_seed p0" "map pi_seed ps"] by blast
  have len: "length ds = length ps" using rmap_eq_Ok_length [OF d(2)] by simp
  have "gen_dabit_provider R S c p M = Inr (da_new\<lparr>da_bit_storage := Some ((dealer # ds) ! p)\<rparr>)"
    if "p < length (sc_peers c)" for p
    using that d(1) rmap_nth [OF d(2), of "p - 1"] ps
    by (cases p) (auto simp: gen_dabit_provider_def index_def da_generate_with_seed_def da_new_def rbind_eq_Ok)
  moreover have "length ((dealer # ds) ! p) = M" if "p < length (sc_peers c)" for p
    using d(3) that len ps nth_mem [of p "dealer # ds"] by (auto simp del: nth_Cons_Suc)
  moreover have "map (\<lambda>p. (dealer # ds) ! p ! i) [0..<length (sc_peers c)] = map (\<lambda>ds. ds ! i) (dealer # ds)" for i
    using len ps by (intro nth_equalityI) (simp_all add: nth_Cons' del: upt_Suc)
  ultimately show ?thesis using d(4) by (intro exI [of _ "\<lambda>p. (dealer # ds) ! p"]) simp
qed

lemma localhost_peers:
  assumes "P = Release \<or> unat base_port + party_num \<le> 2 ^ 16" "party_num \<le> 2 ^ 16"
  shows "localhost_peer_config P party_num base_port = Inr (map (\<lambda>i. \<lparr>pi_id = i, pi_ip_addr = ''127.0.0.1'',
    pi_port = base_port + of_nat i, pi_seed = replicate 32 (of_nat (100 + i))\<rparr>) [0..<party_num])"
  using assms
proof (induction party_num)
  case (Suc k)
  have "add_u16 P base_port (of_nat k) = Inr (base_port + of_nat k)"
    using Suc.prems by (auto simp: add_u16_def unat_of_nat)
  then show ?case using Suc by (auto simp: localhost_peer_config_def rfold_append)
qed (simp add: localhost_peer_config_def)

lemma position_self: "distinct (map f xs) \<Longrightarrow> p < length xs \<Longrightarrow> position (\<lambda>x. f x = f (xs ! p)) xs = Some p"
proof (induction xs arbitrary: p)
  case (Cons x xs)
  then show ?case by (cases p) (auto simp: image_iff)
qed simp

end
