(* ===== verification/Database.thy ===== *)
theory Database
  imports Config Circuit
begin

text \<open>
  \<open>src/prc/db.rs\<close>: the database. Record \<open>i\<close> of a database of single bits is bit \<open>i mod l1_dim\<close> of
  row \<open>i div l1_dim\<close>. The first level of the private retrieval takes the inner product of every row
  with a vector; on shares of a unit vector it gives shares of a column.
\<close>

section \<open>The database\<close>

record prc_database =
  db_bit_dbs :: "d2bitarray list"
  db_record_size :: nat
  db_l2_dim :: nat
  db_l1_dim :: nat

definition db_from_seed :: "'r rng_ops \<Rightarrow> nat \<Rightarrow> nat \<Rightarrow> nat \<Rightarrow> u8 list \<Rightarrow> prc_database res" where
  "db_from_seed R record_size l2_dim l1_dim seed =
     rbind (rassert (is_power_of_two l1_dim) AssertionFailed) (\<lambda>_.
     rbind (rassert (is_power_of_two l2_dim) AssertionFailed) (\<lambda>_.
     rbind (rassert (l1_dim \<ge> l2_dim) AssertionFailed) (\<lambda>_.
     rbind (rassert (l1_dim \<ge> 8) AssertionFailed) (\<lambda>_.
     rbind (rassert (record_size \<le> 32) AssertionFailed) (\<lambda>_.
     let rng = rng_from_seed R seed in
     rbind (rtimes record_size (d2_random R l2_dim l1_dim) rng) (\<lambda>(bit_dbs, rng).
     Ok \<lparr>db_bit_dbs = bit_dbs, db_record_size = record_size, db_l2_dim = l2_dim, db_l1_dim = l1_dim\<rparr>))))))"

definition db_from_config :: "'r rng_ops \<Rightarrow> db_config \<Rightarrow> prc_database res" where
  "db_from_config R config =
     rbind (dbc_db_seed config) (\<lambda>seed.
     db_from_seed R (dbc_record_size config) (dbc_l2_dim config) (dbc_l1_dim config) seed)"

definition db_total_size :: "prc_database \<Rightarrow> nat" where
  "db_total_size db = db_l1_dim db * db_l2_dim db"

definition db_idx_to_2dim :: "prc_database \<Rightarrow> nat \<Rightarrow> (nat \<times> nat) res" where
  "db_idx_to_2dim db idx =
     rbind (rassert (idx < db_total_size db) AssertionFailed) (\<lambda>_.
     let l2 = idx div db_l1_dim db; l1 = idx mod db_l1_dim db in
     Ok (l1, l2))"

definition get_record_bit :: "prc_database \<Rightarrow> nat \<Rightarrow> nat \<Rightarrow> bool res" where
  "get_record_bit db idx bit_choice =
     rbind (rassert (idx < db_total_size db) AssertionFailed) (\<lambda>_.
     rbind (rassert (bit_choice < db_record_size db) AssertionFailed) (\<lambda>_.
     rbind (db_idx_to_2dim db idx) (\<lambda>(l1, l2).
     rbind (index (db_bit_dbs db) bit_choice) (\<lambda>d.
     rbind (d2_get_array d l2) (\<lambda>a.
     ba_get a l1)))))"

definition get_record :: "profile \<Rightarrow> prc_database \<Rightarrow> nat \<Rightarrow> u32 res" where
  "get_record P db idx =
     rbind (rfold (\<lambda>i (out, pw).
              rbind (get_record_bit db idx i) (\<lambda>b.
              rbind (mul_u32 P pw (of_bool b)) (\<lambda>v.
              rbind (add_u32 P out v) (\<lambda>out.
              rbind (mul_u32 P pw 2) (\<lambda>pw.
              Ok (out, pw)))))) [0..<db_record_size db] (0, 1)) (\<lambda>(out, _).
     Ok out)"

definition db_get_logdim :: "prc_database \<Rightarrow> nat \<times> nat" where
  "db_get_logdim db = (trailing_zeros (db_l1_dim db), trailing_zeros (db_l2_dim db))"

definition db_get_dims :: "prc_database \<Rightarrow> nat \<times> nat" where
  "db_get_dims db = (db_l1_dim db, db_l2_dim db)"

definition lvl1_pir_retrieve :: "prc_database \<Rightarrow> bitarray \<Rightarrow> bitarray res" where
  "lvl1_pir_retrieve db ohe =
     (if db_record_size db > 1 then Panic NotImplemented
      else if ba_bit_size ohe \<noteq> db_l1_dim db then Panic ExplicitPanic
      else
        rbind (ba_new (db_l2_dim db)) (\<lambda>out.
        rfold (\<lambda>i out.
            rbind (index (db_bit_dbs db) 0) (\<lambda>d.
            rbind (d2_get_array d i) (\<lambda>row.
            rbind (ba_inner_prod ohe row) (\<lambda>res.
            ba_set_bit out i res))))
          [0..<db_l2_dim db] out))"

definition lvl1_plain_idx :: "prc_database \<Rightarrow> nat \<Rightarrow> bitarray res" where
  "lvl1_plain_idx db idx_lv_1 =
     rbind (ba_new (db_l2_dim db)) (\<lambda>out.
     rfold (\<lambda>i out.
         rbind (index (db_bit_dbs db) 0) (\<lambda>d.
         rbind (d2_get_array d i) (\<lambda>row.
         rbind (ba_get row idx_lv_1) (\<lambda>b.
         ba_set_bit out i b))))
       [0..<db_l2_dim db] out)"

section \<open>Well-formed databases\<close>

definition db_wf :: "prc_database \<Rightarrow> bool" where
  "db_wf db \<longleftrightarrow> length (db_bit_dbs db) = db_record_size db \<and> db_record_size db \<le> 32 \<and>
     (\<forall>d\<in>set (db_bit_dbs db). d2_wf (db_l2_dim db) (db_l1_dim db) d) \<and>
     is_power_of_two (db_l1_dim db) \<and> is_power_of_two (db_l2_dim db) \<and> db_l2_dim db \<le> db_l1_dim db \<and> 8 \<le> db_l1_dim db"

text \<open>Bit \<open>b\<close> of record \<open>i\<close>.\<close>

definition rec_bit :: "prc_database \<Rightarrow> nat \<Rightarrow> nat \<Rightarrow> bool" where
  "rec_bit db b i = mbit (d2_arrays (db_bit_dbs db ! b) ! (i div db_l1_dim db)) (i mod db_l1_dim db)"

lemma db_from_seed_Ok:
  assumes "rng_ok R" "is_power_of_two l1" "is_power_of_two l2" "l2 \<le> l1" "8 \<le> l1" "rs \<le> 32"
  shows "\<exists>db. db_from_seed R rs l2 l1 seed = Inr db \<and> db_wf db \<and>
    db_record_size db = rs \<and> db_l1_dim db = l1 \<and> db_l2_dim db = l2"
proof -
  have "\<exists>d s'. d2_random R l2 l1 s = Inr (d, s') \<and> d2_wf l2 l1 d" for s
    using d2_random_Ok [OF assms(1), of l1 l2 s] assms(5) by simp
  from rtimes_Ok [of "d2_random R l2 l1" "d2_wf l2 l1", OF this, of rs "rng_from_seed R seed"] assms(2-)
  show ?thesis by (auto simp: db_from_seed_def db_wf_def list_all_iff)
qed

lemma db_wf_dims: "db_wf db \<Longrightarrow> 0 < db_l1_dim db \<and> 0 < db_l2_dim db"
  by (simp add: db_wf_def is_power_of_two_def)

lemma db_row:
  assumes "db_wf db" "b < db_record_size db" "j < db_l2_dim db"
  shows "index (db_bit_dbs db) b = Inr (db_bit_dbs db ! b)" "d2_get_array (db_bit_dbs db ! b) j = Inr (d2_arrays (db_bit_dbs db ! b) ! j)"
    "ba_sized (db_l1_dim db) (d2_arrays (db_bit_dbs db ! b) ! j)"
proof -
  have "d2_wf (db_l2_dim db) (db_l1_dim db) (db_bit_dbs db ! b)" using assms by (simp add: db_wf_def)
  then show "d2_get_array (db_bit_dbs db ! b) j = Inr (d2_arrays (db_bit_dbs db ! b) ! j)"
      "ba_sized (db_l1_dim db) (d2_arrays (db_bit_dbs db ! b) ! j)"
    using d2_wf_nth [of "db_l2_dim db" "db_l1_dim db" _ j] assms(3) by (simp_all add: d2_get_array_Ok d2_wf_def)
qed (use assms in \<open>simp add: index_def db_wf_def\<close>)

lemma get_record_bit_Ok:
  assumes "db_wf db" "i < db_total_size db" "b < db_record_size db"
  shows "get_record_bit db i b = Inr (rec_bit db b i)"
proof -
  have "i div db_l1_dim db < db_l2_dim db" "i mod db_l1_dim db < db_l1_dim db"
    using assms(2) db_wf_dims [OF assms(1)]
    by (simp_all add: db_total_size_def less_mult_imp_div_less mult.commute)
  then show ?thesis
    using assms db_row [OF assms(1,3)] by (simp add: get_record_bit_def db_idx_to_2dim_def rec_bit_def ba_get_Ok)
qed

section \<open>The first level of the retrieval\<close>

text \<open>Setting every bit of a fresh array.\<close>

lemma set_all_bits:
  assumes "\<And>i. i < m \<Longrightarrow> f i = Inr (g i)"
  shows "rfold (\<lambda>i out. rbind (f i) (\<lambda>b. ba_set_bit out i b)) [0..<m] (ba_make m (\<lambda>_. False)) = Inr (ba_make m (\<lambda>i. i < m \<and> g i))"
proof -
  have "ba_make m (\<lambda>j. if 0 \<le> j \<and> j < 0 + m then g (j - 0) else mbit (ba_make m (\<lambda>_. False)) j) = ba_make m (\<lambda>i. i < m \<and> g i)"
    by (rule ba_make_cong) simp
  then show ?thesis using bits.write_loop [of "ba_make m (\<lambda>_. False)" 0 m f g] assms by simp
qed

lemma lvl1_pir_retrieve_Ok:
  assumes "db_wf db" "db_record_size db = 1" "ba_sized (db_l1_dim db) ohe"
  shows "lvl1_pir_retrieve db ohe = Inr (ba_make (db_l2_dim db) (\<lambda>j. j < db_l2_dim db \<and>
    xors (map (\<lambda>i. mbit ohe i \<and> mbit (d2_arrays (db_bit_dbs db ! 0) ! j) i) [0..<cap (db_l1_dim db)])))"
proof -
  have "rbind (index (db_bit_dbs db) 0) (\<lambda>d. rbind (d2_get_array d j) (\<lambda>row. ba_inner_prod ohe row))
      = Inr (xors (map (\<lambda>i. mbit ohe i \<and> mbit (d2_arrays (db_bit_dbs db ! 0) ! j) i) [0..<cap (db_l1_dim db)]))"
    if "j < db_l2_dim db" for j
    using db_row [OF assms(1), of 0 j] that assms by (simp add: ba_inner_prod_Ok)
  from set_all_bits [OF this] show ?thesis
    using assms(2,3) db_wf_dims [OF assms(1)] by (simp add: lvl1_pir_retrieve_def ba_new_Ok rbind_assoc)
qed

lemma lvl1_plain_idx_Ok:
  assumes "db_wf db" "db_record_size db = 1" "l1 < db_l1_dim db"
  shows "lvl1_plain_idx db l1 = Inr (ba_make (db_l2_dim db) (\<lambda>j. j < db_l2_dim db \<and> rec_bit db 0 (j * db_l1_dim db + l1)))"
proof -
  have "rbind (index (db_bit_dbs db) 0) (\<lambda>d. rbind (d2_get_array d j) (\<lambda>row. ba_get row l1)) = Inr (rec_bit db 0 (j * db_l1_dim db + l1))"
    if "j < db_l2_dim db" for j
    using db_row [OF assms(1), of 0 j] that assms(2,3) by (simp add: ba_get_Ok rec_bit_def)
  from set_all_bits [OF this] show ?thesis
    using db_wf_dims [OF assms(1)] by (simp add: lvl1_plain_idx_def ba_new_Ok rbind_assoc)
qed

text \<open>Linearity: on shares of the unit vector of \<open>l1\<close> the parties get shares of column \<open>l1\<close>.\<close>

lemma lvl1_pir_shares:
  assumes db: "db_wf db" "db_record_size db = 1" and l1: "l1 < db_l1_dim db"
    and sh: "shared n a (db_l1_dim db) (\<lambda>i. i = l1)"
  shows "\<exists>out. (\<forall>p<n. lvl1_pir_retrieve db (a p) = Inr (out p)) \<and>
    shared n out (db_l2_dim db) (\<lambda>j. rec_bit db 0 (j * db_l1_dim db + l1))"
proof -
  let ?l1 = "db_l1_dim db" and ?l2 = "db_l2_dim db"
  let ?row = "\<lambda>j. d2_arrays (db_bit_dbs db ! 0) ! j"
  have unit: "xors (map (\<lambda>p. mbit (a p) i) [0..<n]) = (i = l1)" for i using sh l1 by (auto simp: shared_def)
  define out where "out = (\<lambda>p. ba_make ?l2 (\<lambda>j. j < ?l2 \<and> xors (map (\<lambda>i. mbit (a p) i \<and> mbit (?row j) i) [0..<cap ?l1])))"
  have "lvl1_pir_retrieve db (a p) = Inr (out p)" if "p < n" for p
    using lvl1_pir_retrieve_Ok [OF db, of "a p"] sh that by (simp add: shared_def out_def)
  moreover have "xors (map (\<lambda>p. mbit (out p) j) [0..<n]) = (j < ?l2 \<and> rec_bit db 0 (j * ?l1 + l1))" for j
  proof (cases "j < ?l2")
    case True
    then have "xors (map (\<lambda>p. mbit (out p) j) [0..<n])
      = xors (map (\<lambda>p. xors (map (\<lambda>i. mbit (a p) i \<and> mbit (?row j) i) [0..<cap ?l1])) [0..<n])"
      using cap_ge [of ?l2] by (simp add: out_def)
    also have "\<dots> = xors (map (\<lambda>i. xors (map (\<lambda>p. mbit (a p) i \<and> mbit (?row j) i) [0..<n])) [0..<cap ?l1])"
      by (rule xors_swap)
    also have "\<dots> = xors (map (\<lambda>i. i = l1 \<and> mbit (?row j) i) [0..<cap ?l1])"
      by (simp add: xors_map_and_right unit)
    also have "\<dots> = mbit (?row j) l1" using l1 cap_ge [of ?l1] by (simp add: xors_one_hot)
    finally show ?thesis using True l1 by (simp add: rec_bit_def)
  next
    case False
    then show ?thesis by (auto simp: out_def intro!: xors_all_False)
  qed
  ultimately show ?thesis by (intro exI [of _ out]) (simp add: shared_def out_def)
qed

section \<open>Whole records\<close>

definition rec_word :: "prc_database \<Rightarrow> nat \<Rightarrow> nat \<Rightarrow> u32" where
  "rec_word db i k = horner_sum of_bool 2 (map (\<lambda>b. rec_bit db b i) [0..<k])"

lemma rec_word_Suc: "rec_word db i (Suc k) = rec_word db i k + 2 ^ k * of_bool (rec_bit db k i)"
  by (simp add: rec_word_def horner_sum_append)

lemma bit_rec_word: "bit (rec_word db i k) b \<longleftrightarrow> b < min 32 k \<and> rec_bit db b i"
  by (auto simp: rec_word_def bit_horner_sum_bit_word_iff)

lemma rec_word_bound: "unat (rec_word db i k) < 2 ^ k"
  by (simp add: unat_bit_bound bit_rec_word)

definition record_step :: "profile \<Rightarrow> prc_database \<Rightarrow> nat \<Rightarrow> nat \<Rightarrow> u32 \<times> u32 \<Rightarrow> (u32 \<times> u32) res" where
  "record_step P db idx i = (\<lambda>(out, pw).
     rbind (get_record_bit db idx i) (\<lambda>b.
     rbind (mul_u32 P pw (of_bool b)) (\<lambda>v.
     rbind (add_u32 P out v) (\<lambda>out.
     rbind (mul_u32 P pw 2) (\<lambda>pw.
     Ok (out, pw))))))"

lemma record_step_Ok:
  assumes "db_wf db" "i < db_total_size db" "k < db_record_size db" "k < 32"
  shows "record_step P db i k (rec_word db i k, 2 ^ k)
    = (if k < 31 \<or> P = Release then Inr (rec_word db i (Suc k), 2 ^ Suc k) else Inl ArithOverflow)"
proof -
  have pw: "unat (2 ^ k :: u32) = 2 ^ k" using unat_exp_u32 [OF assms(4)] by simp
  have le: "2 * 2 ^ k \<le> (2 :: nat) ^ 32" using power_increasing [of "Suc k" 32 "2 :: nat"] assms(4) by simp
  have "mul_u32 P (2 ^ k) (of_bool b) = Inr (2 ^ k * of_bool b)" for b
    using le by (simp add: mul_u32_def arith_u32_def pw)
  moreover have "unat (2 ^ k * of_bool b :: u32) \<le> 2 ^ k" for b by (simp add: pw)
  then have "add_u32 P (rec_word db i k) (2 ^ k * of_bool b) = Inr (rec_word db i k + 2 ^ k * of_bool b)" for b
    using rec_word_bound [of db i k] le add_less_le_mono [of "unat (rec_word db i k)" "2 ^ k" "unat (2 ^ k * of_bool b :: u32)" "2 ^ k"]
    by (simp add: add_u32_def arith_u32_def)
  moreover have "mul_u32 P (2 ^ k) 2 = (if k < 31 \<or> P = Release then Inr (2 ^ Suc k) else Inl ArithOverflow)"
  proof -
    have "unat (2 ^ k :: u32) * unat (2 :: u32) < 2 ^ 32 \<longleftrightarrow> k < 31"
      using power_strict_increasing_iff [of "2 :: nat" "Suc k" 32] by (simp add: pw mult.commute)
    then show ?thesis by (simp add: mul_u32_def arith_u32_def mult.commute)
  qed
  ultimately show ?thesis
    using get_record_bit_Ok [OF assms(1-3)] by (simp add: record_step_def rec_word_Suc)
qed

lemma get_record_fold:
  assumes "db_wf db" "i < db_total_size db" "k \<le> db_record_size db" "k < 32 \<or> P = Release"
  shows "rfold (record_step P db i) [0..<k] (0, 1) = Inr (rec_word db i k, 2 ^ k)"
  using assms(3,4)
proof (induction k)
  case 0
  then show ?case by (simp add: rec_word_def)
next
  case (Suc k)
  have "k < 32" using Suc.prems assms(1) by (simp add: db_wf_def)
  then show ?case using Suc record_step_Ok [OF assms(1,2), of k P] by (auto simp: rfold_append)
qed

lemma get_record_eq: "get_record P db i = rbind (rfold (record_step P db i) [0..<db_record_size db] (0, 1)) (\<lambda>(out, _). Ok out)"
  unfolding get_record_def record_step_def by simp

section \<open>Properties\<close>

text \<open>A database of 8 by 2 single bits, for concrete runs.\<close>

definition sample_db :: prc_database where
  "sample_db = \<lparr>db_bit_dbs = [d2_make 2 8 (\<lambda>j i. even (i + j))], db_record_size = 1, db_l2_dim = 2, db_l1_dim = 8\<rparr>"

lemma sample_db_wf: "db_wf sample_db"
  unfolding db_wf_def is_power_of_two_iff
  by (auto simp: sample_db_def intro: exI [of _ 1] exI [of _ 3])

text \<open>The first level of the private retrieval works on shares: when the parties hold arrays that
  reconstruct to the unit vector of a column index, \<open>lvl1_pir_retrieve\<close> succeeds for each of them and
  what they get reconstructs to that column, the answer of the plain retrieval \<open>_lvl1_plain_idx\<close>.\<close>

lemma lvl1_pir_reconstructs:
  assumes "db_wf db" and "db_record_size db = 1" and "l1 < db_l1_dim db"
    and "list_all (ba_sized (db_l1_dim db)) shares" and "shares \<noteq> []"
    and "ba_reconstruct shares = Inr (ba_make (db_l1_dim db) (\<lambda>i. i = l1))"
  shows "\<exists>outs. rmap (lvl1_pir_retrieve db) shares = Inr outs \<and> ba_reconstruct outs = lvl1_plain_idx db l1"
proof -
  let ?n = "length shares" and ?l1 = "db_l1_dim db" and ?l2 = "db_l2_dim db"
  have shares: "shares = map (\<lambda>p. shares ! p) [0..<?n]" by (simp add: map_nth)
  have xor: "xors (map (\<lambda>p. mbit (shares ! p) i) [0..<?n]) = xors (map (\<lambda>s. mbit s i) shares)" for i
    by (subst shares) (simp add: comp_def del: map_nth)
  have eq: "ba_make ?l1 (\<lambda>i. xors (map (\<lambda>s. mbit s i) shares)) = ba_make ?l1 (\<lambda>i. i = l1)"
    using assms(5,6) ba_reconstruct_Ok [OF assms(4)] by force
  have "shared ?n (\<lambda>p. shares ! p) ?l1 (\<lambda>i. i = l1)"
    unfolding shared_def
  proof (intro conjI allI impI)
    fix i
    show "xors (map (\<lambda>p. mbit (shares ! p) i) [0..<?n]) = (i < ?l1 \<and> i = l1)"
    proof (cases "i < cap ?l1")
      case True
      then show ?thesis unfolding xor using eq assms(3) by (auto simp: ba_make_inject)
    next
      case False
      then have "\<not> mbit s i" if "s \<in> set shares" for s
        using that assms(4) mbit_beyond [of s i] by (auto simp: list_all_iff)
      then show ?thesis unfolding xor using False cap_ge [of ?l1] by (auto intro!: xors_all_False)
    qed
  qed (use assms(4) in \<open>auto simp: list_all_length\<close>)
  from lvl1_pir_shares [OF assms(1-3) this]
  obtain out where out: "\<And>p. p < ?n \<Longrightarrow> lvl1_pir_retrieve db (shares ! p) = Inr (out p)"
      "shared ?n out ?l2 (\<lambda>j. rec_bit db 0 (j * ?l1 + l1))" by blast
  let ?outs = "map out [0..<?n]"
  have "rmap (lvl1_pir_retrieve db) shares = Inr ?outs"
    by (subst shares, subst rmap_map, rule rmap_Ok) (simp add: out(1))
  moreover have "ba_reconstruct ?outs = Inr (ba_make ?l2 (\<lambda>j. j < ?l2 \<and> rec_bit db 0 (j * ?l1 + l1)))"
    using out(2) assms(5) db_wf_dims [OF assms(1)]
    by (subst ba_reconstruct_Ok [where n = ?l2]) (auto simp: shared_def list_all_iff comp_def)
  ultimately show ?thesis using lvl1_plain_idx_Ok [OF assms(1-3)] by simp
qed

text \<open>C33. \<open>get_record\<close> reads the record: for every index in range each bit of the result is what
  \<open>get_record_bit\<close> gives, with nothing above the record size. The one exception are records of 32 bits
  in a build with overflow checks, where doubling the weight after the last bit panics.\<close>

theorem get_record_bits:
  assumes "db_wf db" and "i < db_total_size db"
  shows "if db_record_size db = 32 \<and> P = Dev then get_record P db i = Inl ArithOverflow
    else \<exists>w. get_record P db i = Inr w \<and> unat w < 2 ^ db_record_size db \<and>
      (\<forall>b<db_record_size db. get_record_bit db i b = Inr (bit w b))"
proof (cases "db_record_size db = 32 \<and> P = Dev")
  case True
  have "[0..<32] = [0..<31] @ [31 :: nat]" using upt_Suc_append [of 0 31] by simp
  then show ?thesis
    using True get_record_fold [OF assms, of 31 P] record_step_Ok [OF assms, of 31 P]
    by (simp add: get_record_eq rfold_append del: upt_rec_numeral)
next
  case False
  have rs: "db_record_size db \<le> 32" using assms(1) by (simp add: db_wf_def)
  have "P = Release" if "P \<noteq> Dev" using that by (cases P) simp_all
  then have "get_record P db i = Inr (rec_word db i (db_record_size db))"
    using False rs get_record_fold [OF assms order.refl, of P] by (auto simp: get_record_eq)
  then show ?thesis
    using False rs get_record_bit_Ok [OF assms] by (auto simp: rec_word_bound bit_rec_word)
qed

theorem get_record_bits_witness:
  "\<exists>w. get_record Dev sample_db 9 = Inr w \<and> unat w < 2 \<and> get_record_bit sample_db 9 0 = Inr (bit w 0)"
  using get_record_bits [OF sample_db_wf, of 9 Dev] by (simp add: sample_db_def db_total_size_def)

end
