(* ===== verification/Client.thy ===== *)
theory Client
  imports Config Commitment Util
begin

text \<open>
  \<open>src/prc/client.rs\<close>: the client. It shares the two parts of an index and the randomness of a
  commitment among the servers, and checks the token it gets back. Signatures are those of
  \<open>ed25519_dalek\<close>, a parameter.
\<close>

section \<open>Signatures\<close>

record ('sk, 'vk, 'sg) sig_ops =
  sg_sign :: "'sk \<Rightarrow> u8 list \<Rightarrow> 'sg"
  sg_verifying_key :: "'sk \<Rightarrow> 'vk"
  sg_verify_strict :: "'vk \<Rightarrow> u8 list \<Rightarrow> 'sg \<Rightarrow> bool"

text \<open>A signature verifies under the key of its signer.\<close>

definition sig_ok :: "('sk, 'vk, 'sg) sig_ops \<Rightarrow> bool" where
  "sig_ok V \<longleftrightarrow> (\<forall>sk m. sg_verify_strict V (sg_verifying_key V sk) m (sg_sign V sk m))"

text \<open>A signature that is the key with the message, for concrete runs.\<close>

definition toy_sigs :: "(u8, u8, u8 list) sig_ops" where
  "toy_sigs = \<lparr>sg_sign = (\<lambda>sk m. sk # m), sg_verifying_key = (\<lambda>sk. sk), sg_verify_strict = (\<lambda>vk m s. s = vk # m)\<rparr>"

lemma sig_ok_toy: "sig_ok toy_sigs"
  by (simp add: sig_ok_def toy_sigs_def)

section \<open>Queries and tokens\<close>

record prc_client =
  pc_party_num :: nat
  pc_db_conf :: db_config
  pc_sys_conf :: system_config

record 's prc_client_st =
  st_idx :: 's
  st_crnd :: 's

definition st_get_commitment ::
  "('s::comm_ring_1, 'r) scalar_ops \<Rightarrow> ('s, 'g::ab_group_add) group_ops \<Rightarrow> 's prc_client_st \<Rightarrow> u32 \<Rightarrow> 'g commitment" where
  "st_get_commitment S G st rec_value =
     (let op = opening_new (st_crnd st) (st_idx st) (sc_from_u32 S rec_value) in
      commit G op)"

record 's prc_query =
  q_l1_bss :: boolean_value
  q_l2_bss :: boolean_value
  q_rnd_ass :: "'s arith_value"

record ('g, 'sg) prc_token =
  tok_commitment :: "'g commitment option"
  tok_sig :: 'sg

definition check_for_rec_val ::
  "('s::comm_ring_1, 'r) scalar_ops \<Rightarrow> ('s, 'g::ab_group_add) group_ops \<Rightarrow> ('sk, 'vk, 'sg) sig_ops \<Rightarrow>
     ('g, 'sg) prc_token \<Rightarrow> 's prc_client_st \<Rightarrow> u32 \<Rightarrow> 'vk \<Rightarrow> bool \<times> ('g, 'sg) prc_token" where
  "check_for_rec_val S G V tok st rec_val server_pk =
     (let cm = st_get_commitment S G st rec_val in
      if sg_verify_strict V server_pk (commitment_serialize G cm) (tok_sig tok)
      then (True, tok\<lparr>tok_commitment := Some cm\<rparr>)
      else (False, tok))"

datatype token_error = MissingValue | BadSignature

definition token_verify ::
  "('s, 'g) group_ops \<Rightarrow> ('sk, 'vk, 'sg) sig_ops \<Rightarrow> ('g, 'sg) prc_token \<Rightarrow> 'vk \<Rightarrow> token_error + unit" where
  "token_verify G V tok server_pk =
     (case tok_commitment tok of
        None \<Rightarrow> Inl MissingValue
      | Some cm \<Rightarrow>
          if sg_verify_strict V server_pk (commitment_serialize G cm) (tok_sig tok) then Inr ()
          else Inl BadSignature)"

section \<open>The client\<close>

definition pc_new :: "nat \<Rightarrow> db_config \<Rightarrow> system_config \<Rightarrow> prc_client" where
  "pc_new party_num db_conf sys_conf =
     \<lparr>pc_party_num = party_num, pc_db_conf = db_conf, pc_sys_conf = sys_conf\<rparr>"

definition pc_get_logdim :: "prc_client \<Rightarrow> nat \<times> nat" where
  "pc_get_logdim c = (trailing_zeros (dbc_l1_dim (pc_db_conf c)), trailing_zeros (dbc_l2_dim (pc_db_conf c)))"

definition pc_get_dims :: "prc_client \<Rightarrow> nat \<times> nat" where
  "pc_get_dims c = (dbc_l1_dim (pc_db_conf c), dbc_l2_dim (pc_db_conf c))"

definition pc_idx_to_2dim :: "prc_client \<Rightarrow> nat \<Rightarrow> (nat \<times> nat) res" where
  "pc_idx_to_2dim c idx =
     rbind (rassert (idx < dbc_get_max_size (pc_db_conf c)) AssertionFailed) (\<lambda>_.
     let l2 = idx div dbc_l1_dim (pc_db_conf c); l1 = idx mod dbc_l1_dim (pc_db_conf c) in
     Ok (l1, l2))"

definition pc_total_db_size :: "prc_client \<Rightarrow> nat" where
  "pc_total_db_size c = dbc_get_max_size (pc_db_conf c)"

definition query_index ::
  "profile \<Rightarrow> 'r rng_ops \<Rightarrow> prc_client \<Rightarrow> nat \<Rightarrow> 'r \<Rightarrow> ((boolean_value list \<times> boolean_value list) \<times> 'r) res" where
  "query_index P R c idx rng =
     (let (dim1, dim2) = pc_get_logdim c in
      rbind (pc_idx_to_2dim c idx) (\<lambda>(l1, l2).
      rbind (bv_new dim1 (of_nat l1)) (\<lambda>l1.
      rbind (bv_new dim2 (of_nat l2)) (\<lambda>l2.
      rbind (secret_share_boolean P R l1 (pc_party_num c) rng) (\<lambda>(s1, rng).
      rbind (secret_share_boolean P R l2 (pc_party_num c) rng) (\<lambda>(s2, rng).
      Ok ((s1, s2), rng)))))))"

definition query_commit_rnd ::
  "profile \<Rightarrow> ('s::comm_ring_1, 'r) scalar_ops \<Rightarrow> prc_client \<Rightarrow> 'r \<Rightarrow> (('s arith_value \<times> 's arith_value list) \<times> 'r) res" where
  "query_commit_rnd P S c rng =
     (let (rnd, rng) = av_random S rng in
      rbind (secret_share_arith P S rnd (pc_party_num c) rng) (\<lambda>(rnd_shares, rng).
      Ok ((rnd, rnd_shares), rng)))"

definition query_all_servers ::
  "profile \<Rightarrow> 'r rng_ops \<Rightarrow> ('s::comm_ring_1, 'r) scalar_ops \<Rightarrow> prc_client \<Rightarrow> nat \<Rightarrow> 'r \<Rightarrow>
     (('s prc_client_st \<times> 's prc_query list) \<times> 'r) res" where
  "query_all_servers P R S c idx rng =
     rbind (query_index P R c idx rng) (\<lambda>((l1, l2), rng).
     rbind (query_commit_rnd P S c rng) (\<lambda>((rnd, rnd_shares), rng).
     let st = \<lparr>st_idx = sc_from_u32 S (of_nat idx), st_crnd = av_as_scalar rnd\<rparr> in
     rbind (rmap (\<lambda>i.
         rbind (index l1 i) (\<lambda>a.
         rbind (index l2 i) (\<lambda>b.
         rbind (index rnd_shares i) (\<lambda>r.
         Ok \<lparr>q_l1_bss = a, q_l2_bss = b, q_rnd_ass = r\<rparr>))))
       [0..<get_party_num (pc_sys_conf c)]) (\<lambda>queries.
     Ok ((st, queries), rng))))"

definition query_single_server ::
  "profile \<Rightarrow> 'r rng_ops \<Rightarrow> ('s::comm_ring_1, 'r) scalar_ops \<Rightarrow> prc_client \<Rightarrow> nat \<Rightarrow> nat \<Rightarrow> 'r \<Rightarrow>
     (('s prc_client_st \<times> 's prc_query) \<times> 'r) res" where
  "query_single_server P R S c idx server_id rng =
     rbind (query_all_servers P R S c idx rng) (\<lambda>((st, queries), rng).
     rbind (expect (get_peer_idx (pc_sys_conf c) server_id)) (\<lambda>peer_idx.
     rbind (index queries peer_idx) (\<lambda>q.
     Ok ((st, q), rng))))"

section \<open>What the servers get\<close>

lemma bit_foldl_xor: "bit (foldl (\<lambda>acc s. acc XOR bv_value s) a ss) i = (bit a i \<noteq> xors (map (\<lambda>s. bit (bv_value s) i) ss))"
  by (induction ss arbitrary: a) (auto simp: bit_xor_iff)

lemma xor_of_reconstruct: "xor_of (length ss) (\<lambda>p. bv_value (ss ! p)) = reconstruct_boolean ss"
proof (rule bit_word_eqI)
  fix i
  have "xors (map (\<lambda>p. bit (bv_value (ss ! p)) i) [0..<length ss]) = xors (map (\<lambda>s. bit (bv_value s) i) (map ((!) ss) [0..<length ss]))"
    by (simp only: map_map comp_def)
  then show "bit (xor_of (length ss) (\<lambda>p. bv_value (ss ! p))) i = bit (reconstruct_boolean ss) i"
    by (simp add: bit_xor_of reconstruct_boolean_def bit_foldl_xor map_nth)
qed

lemma share_boolean:
  assumes "0 < n" "k < 32" "x < 2 ^ k"
  shows "\<exists>ss rng'. rbind (bv_new k (of_nat x)) (\<lambda>b. secret_share_boolean P R b n rng) = Inr (ss, rng') \<and>
    length ss = n \<and> bv_shares n k (\<lambda>p. ss ! p) (of_nat x)"
proof -
  have "(2 :: nat) ^ k < 2 ^ 32" using assms(2) by (rule power_strict_increasing) simp
  then have x: "unat (of_nat x :: u32) = x" using assms(3) by (simp add: unat_of_nat)
  let ?b = "\<lparr>bv_bit_len = k, bv_value = of_nat x\<rparr>"
  have "bv_wf ?b" using assms(2,3) x by (simp add: bv_wf_def)
  then obtain ss rng' where ss: "secret_share_boolean P R ?b n rng = Inr (ss, rng')" "length ss = n"
      "\<forall>s\<in>set ss. bv_wf s \<and> bv_bit_len s = k" "reconstruct_boolean ss = of_nat x"
    using secret_share_boolean_Ok [OF assms(1), of ?b P R rng] assms(2) by auto
  moreover have "bv_new k (of_nat x) = Inr ?b" using assms(2,3) x by (simp add: bv_new_eq)
  moreover have "bv_shares n k (\<lambda>p. ss ! p) (of_nat x)"
    using ss(2-4) xor_of_reconstruct [of ss] by (auto simp: bv_shares_def bv_wf_def)
  ultimately show ?thesis by auto
qed

lemma av_value_foldl: "av_value (foldl av_add z xs) = av_value z + sum_list (map av_value xs)"
  by (induction xs arbitrary: z) (simp_all add: add.assoc)

lemma share_arith:
  assumes "0 < n"
  shows "\<exists>ss rng'. secret_share_arith P S x n rng = Inr (ss, rng') \<and> length ss = n \<and> (\<Sum>p<n. av_value (ss ! p)) = av_value x"
proof -
  obtain ss rng' where ss: "secret_share_arith P S x n rng = Inr (ss @ [foldl av_sub x ss], rng')" "length ss = n - 1"
    by (rule secret_share_arith_Ok [OF assms])
  let ?ss = "ss @ [foldl av_sub x ss]"
  have "sum_list (map av_value ?ss) = av_value x"
    using arg_cong [OF arith.reconstruct_shares [of ss x], of av_value] by (simp add: av_value_foldl)
  moreover have "sum_list (map av_value ?ss) = (\<Sum>p<length ?ss. av_value (?ss ! p))"
    unfolding sum_list_sum_nth by (rule sum.cong) (simp_all only: length_map lessThan_atLeast0 nth_map atLeastLessThan_iff)
  ultimately have "(\<Sum>p<n. av_value (?ss ! p)) = av_value x" using ss(2) assms by simp
  then show ?thesis using ss assms by auto
qed

text \<open>The queries are shares of the two parts of the index and of the randomness of the client's state.\<close>

lemma query_all_servers_Ok:
  assumes "0 < n" "pc_party_num c = n" "get_party_num (pc_sys_conf c) = n"
    and "dbc_l1_dim (pc_db_conf c) = 2 ^ k1" "dbc_l2_dim (pc_db_conf c) = 2 ^ k2" "k1 < 32" "k2 < 32" "idx < 2 ^ k1 * 2 ^ k2"
  shows "\<exists>st qs rng'. query_all_servers P R S c idx rng = Inr ((st, qs), rng') \<and> length qs = n \<and>
    bv_shares n k1 (\<lambda>p. q_l1_bss (qs ! p)) (of_nat (idx mod 2 ^ k1)) \<and>
    bv_shares n k2 (\<lambda>p. q_l2_bss (qs ! p)) (of_nat (idx div 2 ^ k1)) \<and>
    st_idx st = sc_from_u32 S (of_nat idx) \<and> (\<Sum>p<n. av_value (q_rnd_ass (qs ! p))) = st_crnd st"
proof -
  have i: "idx mod 2 ^ k1 < 2 ^ k1" "idx div 2 ^ k1 < 2 ^ k2" using assms(8) by (simp_all add: less_mult_imp_div_less mult.commute)
  obtain s1 r1 where s1: "rbind (bv_new k1 (of_nat (idx mod 2 ^ k1))) (\<lambda>b. secret_share_boolean P R b n rng) = Inr (s1, r1)"
      "length s1 = n" "bv_shares n k1 (\<lambda>p. s1 ! p) (of_nat (idx mod 2 ^ k1))" using share_boolean [OF assms(1,6) i(1), of P R rng] by blast
  obtain s2 r2 where s2: "rbind (bv_new k2 (of_nat (idx div 2 ^ k1))) (\<lambda>b. secret_share_boolean P R b n r1) = Inr (s2, r2)"
      "length s2 = n" "bv_shares n k2 (\<lambda>p. s2 ! p) (of_nat (idx div 2 ^ k1))" using share_boolean [OF assms(1,7) i(2), of P R r1] by blast
  obtain rnd r3 where rnd: "av_random S r2 = (rnd, r3)" by fastforce
  obtain s3 r4 where s3: "secret_share_arith P S rnd n r3 = Inr (s3, r4)" "length s3 = n" "(\<Sum>p<n. av_value (s3 ! p)) = av_value rnd"
    using share_arith [OF assms(1), of P S rnd r3] by blast
  have "query_index P R c idx rng = Inr ((s1, s2), r2)"
    using s1(1) s2(1) assms by (auto simp: query_index_def pc_get_logdim_def pc_idx_to_2dim_def dbc_get_max_size_def rbind_eq_Ok)
  moreover have "query_commit_rnd P S c r2 = Inr ((rnd, s3), r4)"
    using s3(1) assms(2) by (simp add: query_commit_rnd_def rnd)
  moreover have "rmap (\<lambda>i. rbind (index s1 i) (\<lambda>a. rbind (index s2 i) (\<lambda>b. rbind (index s3 i) (\<lambda>r.
      Ok \<lparr>q_l1_bss = a, q_l2_bss = b, q_rnd_ass = r\<rparr>)))) [0..<n]
    = Inr (map (\<lambda>i. \<lparr>q_l1_bss = s1 ! i, q_l2_bss = s2 ! i, q_rnd_ass = s3 ! i\<rparr>) [0..<n])"
    using s1(2) s2(2) s3(2) by (intro rmap_Ok) (simp add: index_def)
  moreover let ?q = "\<lambda>i. \<lparr>q_l1_bss = s1 ! i, q_l2_bss = s2 ! i, q_rnd_ass = s3 ! i\<rparr>"
  have "bv_shares n k1 (\<lambda>p. q_l1_bss (map ?q [0..<n] ! p)) (of_nat (idx mod 2 ^ k1))"
      "bv_shares n k2 (\<lambda>p. q_l2_bss (map ?q [0..<n] ! p)) (of_nat (idx div 2 ^ k1))"
    by (rule bv_shares_cong [OF _ s1(3)], simp) (rule bv_shares_cong [OF _ s2(3)], simp)
  ultimately show ?thesis
    using s3(3) assms(3) by (simp add: query_all_servers_def Let_def)
qed

section \<open>Properties\<close>

text \<open>The client's check of a token and the check everybody can make agree: a successful check for a record value stores the
  commitment to that value, so that the token then verifies; an unsuccessful one changes nothing. A token nobody
  checked does not verify.\<close>

lemma checked_token_verifies:
  "(case check_for_rec_val S G V tok st v pk of (ok, tok') \<Rightarrow>
      tok_sig tok' = tok_sig tok \<and>
      (if ok then tok_commitment tok' = Some (st_get_commitment S G st v) \<and> token_verify G V tok' pk = Inr ()
       else tok' = tok \<and> \<not> sg_verify_strict V pk (commitment_serialize G (st_get_commitment S G st v)) (tok_sig tok))) \<and>
   token_verify G V (tok\<lparr>tok_commitment := None\<rparr>) pk = Inl MissingValue"
  by (simp add: check_for_rec_val_def token_verify_def Let_def)

text \<open>The client shares what it asks for: for an index inside the database, \<open>query_all_servers\<close> succeeds with one query per
  server, the shares of the two index parts have the lengths of the two dimensions and reconstruct to the row and the
  column that \<open>idx_to_2dim\<close> gives, and the shares of the commitment's randomness add up to the one in the client's
  state; for an index outside it panics.\<close>

lemma queries_share_index:
  assumes "0 < n" "pc_party_num c = n" "get_party_num (pc_sys_conf c) = n"
    and "dbc_l1_dim (pc_db_conf c) = 2 ^ k1" "dbc_l2_dim (pc_db_conf c) = 2 ^ k2" "k1 < 32" "k2 < 32"
  shows "if idx < pc_total_db_size c then
      \<exists>st qs rng' l1 l2. query_all_servers P R S c idx rng = Inr ((st, qs), rng') \<and> length qs = n \<and>
        pc_idx_to_2dim c idx = Inr (l1, l2) \<and> l2 * dbc_l1_dim (pc_db_conf c) + l1 = idx \<and>
        bv_shares n k1 (\<lambda>p. q_l1_bss (qs ! p)) (of_nat l1) \<and> bv_shares n k2 (\<lambda>p. q_l2_bss (qs ! p)) (of_nat l2) \<and>
        st_idx st = sc_from_u32 S (of_nat idx) \<and> (\<Sum>p<n. av_value (q_rnd_ass (qs ! p))) = st_crnd st
    else query_all_servers P R S c idx rng = Inl AssertionFailed"
proof (cases "idx < pc_total_db_size c")
  case True
  then have idx: "idx < 2 ^ k1 * 2 ^ k2" by (simp add: pc_total_db_size_def dbc_get_max_size_def assms(4,5))
  have "pc_idx_to_2dim c idx = Inr (idx mod 2 ^ k1, idx div 2 ^ k1)"
    using True by (simp add: pc_idx_to_2dim_def pc_total_db_size_def assms(4) Let_def)
  moreover have "idx div 2 ^ k1 * dbc_l1_dim (pc_db_conf c) + idx mod 2 ^ k1 = idx"
    unfolding assms(4) by (simp only: div_mult_mod_eq)
  ultimately show ?thesis
    using True query_all_servers_Ok [OF assms idx, of P R S rng] by simp
next
  case False
  then show ?thesis
    by (simp add: query_all_servers_def query_index_def pc_idx_to_2dim_def pc_total_db_size_def pc_get_logdim_def rassert_def)
qed

end
