(* ===== verification/Server.thy ===== *)
theory Server
  imports Ohe Database Client
begin

unbundle bit_operations_syntax

text \<open>
  \<open>src/prc/server.rs\<close>: a server. It retrieves a share of the requested record with two one-hot
  encodings and an AND, converts the index and the record to additive shares, commits to them and
  takes part in the aggregation; server 0 signs the result.
\<close>

section \<open>The server\<close>

record ('s, 'g, 'sk, 'vk) prc_server =
  sv_id :: nat
  sv_config :: system_config
  sv_db :: prc_database
  sv_pk :: 'vk
  sv_mpc_provider :: "('s, 'g) mpc_provider"
  sv_sk :: 'sk

text \<open>The signing key the operating system's randomness gives is an argument.\<close>

definition sv_new_with_message_handler ::
  "'r rng_ops \<Rightarrow> ('s::comm_ring_1, 'r) scalar_ops \<Rightarrow> ('sk, 'vk, 'sg) sig_ops \<Rightarrow> 'sk \<Rightarrow> nat \<Rightarrow> system_config \<Rightarrow>
     'g message_handler \<Rightarrow> nat \<Rightarrow> ('s, 'g, 'sk, 'vk) prc_server res" where
  "sv_new_with_message_handler R S V sk ident config message_handler expected_query_num =
     rbind (db_from_config R (sc_db_config config)) (\<lambda>db.
     rbind (init_seeded_correlated_randomness R S config ident expected_query_num) (\<lambda>(beaver, dabit).
     let mpc_provider = mp_new (ident = 0) beaver dabit message_handler;
         pk = sg_verifying_key V sk in
     Ok \<lparr>sv_id = ident, sv_config = config, sv_db = db, sv_pk = pk, sv_mpc_provider = mpc_provider, sv_sk = sk\<rparr>))"

definition sv_ohe ::
  "profile \<Rightarrow> ('s, 'g) group_ops \<Rightarrow> ('s, 'g, 'sk, 'vk) prc_server \<Rightarrow> boolean_value \<Rightarrow>
     (u8 list, bitarray \<times> ('s, 'g, 'sk, 'vk) prc_server) prog" where
  "sv_ohe P G sv idx_bshare =
     pbind (lift_res (ohe_vec P (sv_mpc_provider sv) idx_bshare)) (\<lambda>(ohe_src, mp).
     pbind (mp_run P G mp) (\<lambda>mp.
     pbind (lift_res (get_output P mp ohe_src)) (\<lambda>ohe_sh.
     let mp = mp_clear mp in
     Done (ohe_sh, sv\<lparr>sv_mpc_provider := mp\<rparr>))))"

definition rec_retrieve ::
  "profile \<Rightarrow> ('s, 'g) group_ops \<Rightarrow> ('s, 'g, 'sk, 'vk) prc_server \<Rightarrow> boolean_value \<Rightarrow> boolean_value \<Rightarrow>
     (u8 list, bool \<times> ('s, 'g, 'sk, 'vk) prc_server) prog" where
  "rec_retrieve P G sv l1_idx_share l2_idx_share =
     pbind (lift_res (ohe_vec P (sv_mpc_provider sv) l1_idx_share)) (\<lambda>(l1_ohe_src, mp).
     pbind (lift_res (ohe_vec P mp l2_idx_share)) (\<lambda>(l2_ohe_src, mp).
     pbind (mp_run P G mp) (\<lambda>mp.
     pbind (lift_res (get_output P mp l1_ohe_src)) (\<lambda>l1_ohe.
     pbind (lift_res (get_output P mp l2_ohe_src)) (\<lambda>l2_ohe.
     let mp = mp_clear mp in
     pbind (lift_res (lvl1_pir_retrieve (sv_db sv) l1_ohe)) (\<lambda>l1_pir_ans.
     pbind (lift_res (rassert (ba_bit_size l1_pir_ans = ba_bit_size l2_ohe) AssertionFailed)) (\<lambda>_.
     pbind (lift_res (mp_and mp (ba_bit_size l1_pir_ans) (Input l1_pir_ans) (Input l2_ohe))) (\<lambda>(p2_ans_src, mp).
     pbind (mp_run P G mp) (\<lambda>mp.
     pbind (lift_res (get_output P mp p2_ans_src)) (\<lambda>p2_ans.
     pbind (lift_res (ba_parity p2_ans)) (\<lambda>par.
     Done (par, sv\<lparr>sv_mpc_provider := mp\<rparr>))))))))))))"

definition sv_conv_b2a ::
  "('s::comm_ring_1, 'r) scalar_ops \<Rightarrow> ('s, 'g) group_ops \<Rightarrow> ('s, 'g, 'sk, 'vk) prc_server \<Rightarrow> boolean_value list \<Rightarrow>
     (u8 list, 's arith_value list \<times> ('s, 'g, 'sk, 'vk) prc_server) prog" where
  "sv_conv_b2a S G sv binaries =
     pbind (run_conv_B2A S G (sv_mpc_provider sv) binaries) (\<lambda>(arith, mp).
     Done (arith, sv\<lparr>sv_mpc_provider := mp\<rparr>))"

definition prc_protocol ::
  "profile \<Rightarrow> ('s::comm_ring_1, 'r) scalar_ops \<Rightarrow> ('s, 'g::ab_group_add) group_ops \<Rightarrow> ('sk, 'vk, 'sg) sig_ops \<Rightarrow>
     ('s, 'g, 'sk, 'vk) prc_server \<Rightarrow> 's prc_query \<Rightarrow>
     (u8 list, ('g, 'sg) prc_token option \<times> ('s, 'g, 'sk, 'vk) prc_server) prog" where
  "prc_protocol P S G V sv query =
     pbind (rec_retrieve P G sv (q_l1_bss query) (q_l2_bss query)) (\<lambda>(record_share, sv).
     pbind (lift_res (join_boolean P (q_l1_bss query) (q_l2_bss query))) (\<lambda>joined.
     pbind (lift_res (bv_new 1 (of_bool record_share))) (\<lambda>rec.
     pbind (sv_conv_b2a S G sv [joined, rec]) (\<lambda>(arith, sv).
     pbind (lift_res (index arith 0)) (\<lambda>a0.
     pbind (lift_res (index arith 1)) (\<lambda>a1.
     let opn = opening_new (av_as_scalar (q_rnd_ass query)) (av_as_scalar a0) (av_as_scalar a1);
         peer_commit = commit G opn in
     pbind (aggregate_commitments G (sv_mpc_provider sv) peer_commit) (\<lambda>(agg_commit, mp).
     let token = (case agg_commit of
           Some cm \<Rightarrow> Some \<lparr>tok_commitment = None, tok_sig = sg_sign V (sv_sk sv) (commitment_serialize G cm)\<rparr>
         | None \<Rightarrow> None) in
     Done (token, sv\<lparr>sv_mpc_provider := mp\<rparr>))))))))"

definition sv_get_preproc_stat ::
  "profile \<Rightarrow> ('s::comm_ring_1, 'g, 'sk, 'vk) prc_server \<Rightarrow> ((nat \<times> nat) \<times> ('s, 'g, 'sk, 'vk) prc_server) res" where
  "sv_get_preproc_stat P sv =
     rbind (get_preproc_stat P (sv_mpc_provider sv)) (\<lambda>(st, mp).
     Ok (st, sv\<lparr>sv_mpc_provider := mp\<rparr>))"

section \<open>Retrieving a record\<close>

lemma all_finish_pure:
  assumes "\<And>p. p < n \<Longrightarrow> r p = Inr (x p)" "all_finish n (\<lambda>p. f p (x p)) Q"
  shows "all_finish n (\<lambda>p. pbind (lift_res (r p)) (f p)) Q"
  by (rule all_finish_cong [OF assms(2)]) (simp add: assms(1))

text \<open>Both one-hot encodings in one run.\<close>

definition retrieve_ohe ::
  "profile \<Rightarrow> ('s, 'g) group_ops \<Rightarrow> ('s, 'g) mpc_provider \<Rightarrow> boolean_value \<Rightarrow> boolean_value \<Rightarrow>
     (u8 list, bitarray \<times> bitarray \<times> ('s, 'g) mpc_provider) prog" where
  "retrieve_ohe P G mp b1 b2 =
     pbind (lift_res (ohe_vec P mp b1)) (\<lambda>(s1, mp).
     pbind (lift_res (ohe_vec P mp b2)) (\<lambda>(s2, mp).
     pbind (mp_run P G mp) (\<lambda>mp.
     pbind (lift_res (get_output P mp s1)) (\<lambda>o1.
     pbind (lift_res (get_output P mp s2)) (\<lambda>o2.
     Done (o1, o2, mp))))))"

lemma retrieve_ohe_shares:
  fixes mp :: "nat \<Rightarrow> ('s, 'g) mpc_provider"
  assumes G: "codec_ok G" and mp: "parties_ready n N u [] mp"
    and k: "0 < k1" "k1 \<le> 32" "0 < k2" "k2 \<le> 32" and b: "bv_shares n k1 b1 x1" "bv_shares n k2 b2 x2"
    and N: "8 * (ohe_bytes k1 + ohe_bytes k2) < 2 ^ 32" "u + ohe_bytes k1 + ohe_bytes k2 \<le> div_ceil N 8"
  shows "all_finish n (\<lambda>p. retrieve_ohe P G (mp p) (b1 p) (b2 p)) (\<lambda>out. \<exists>a1 a2 mp'. (\<forall>p<n. out p = (a1 p, a2 p, mp' p)) \<and>
    shared n a1 (2 ^ k1) (\<lambda>i. i = unat x1) \<and> shared n a2 (2 ^ k2) (\<lambda>i. i = unat x2) \<and>
    spent n mp (u + ohe_bytes k1 + ohe_bytes k2) mp')"
proof -
  have "circuit_ok n []" by (simp add: circuit_ok_def)
  from ohe_vec_builds [OF mp this _ k(1,2) b(1), of P]
  obtain C1 s1 where C1: "circuit_ok n C1" "\<forall>k<length C1. 0 < fst (C1 ! k)" "circuit_bytes C1 = ohe_bytes k1"
      "src_ok n C1 0 s1 (2 ^ k1) (\<lambda>i. i = unat x1)"
      "\<And>p. p < n \<Longrightarrow> ohe_vec P (mp p) (b1 p) = Inr (s1 p, (mp p)\<lparr>mp_layers := party_layers p C1\<rparr>)"
    by (auto simp: circuit_bytes_def)
  let ?mp1 = "\<lambda>p. (mp p)\<lparr>mp_layers := party_layers p C1\<rparr>"
  from ohe_vec_builds [OF parties_ready_layers [OF mp, of C1] C1(1) _ k(3,4) b(2), of P] C1(2)
  obtain C2 s2 where C2: "circuit_ok n C2" "extends C1 C2" "\<And>k. k < length C2 \<Longrightarrow> 0 < fst (C2 ! k)"
      "circuit_bytes C2 = ohe_bytes k1 + ohe_bytes k2" "src_ok n C2 0 s2 (2 ^ k2) (\<lambda>i. i = unat x2)"
      "\<And>p. p < n \<Longrightarrow> ohe_vec P (?mp1 p) (b2 p) = Inr (s2 p, (mp p)\<lparr>mp_layers := party_layers p C2\<rparr>)"
    by (auto simp: C1(3))
  let ?mp2 = "\<lambda>p. (mp p)\<lparr>mp_layers := party_layers p C2\<rparr>"
  let ?Q = "\<lambda>out. \<exists>a1 a2 mp'. (\<forall>p<n. out p = (a1 p, a2 p, mp' p)) \<and>
    shared n a1 (2 ^ k1) (\<lambda>i. i = unat x1) \<and> shared n a2 (2 ^ k2) (\<lambda>i. i = unat x2) \<and>
    spent n mp (u + ohe_bytes k1 + ohe_bytes k2) mp'"
  have "all_finish n (\<lambda>p. pbind (mp_run P G (?mp2 p)) (\<lambda>mp.
     pbind (lift_res (get_output P mp (s1 p))) (\<lambda>o1. pbind (lift_res (get_output P mp (s2 p))) (\<lambda>o2. Done (o1, o2, mp))))) ?Q"
  proof (rule all_finish_bind [OF all_finish_mono [OF run_sources [OF G parties_ready_layers [OF mp] C2(1,3)]]])
    fix mp' :: "nat \<Rightarrow> ('s, 'g) mpc_provider"
    assume run: "spent n ?mp2 (u + circuit_bytes C2) mp' \<and>
      (\<forall>srcs m f. src_ok n C2 0 srcs m f \<longrightarrow> (\<exists>a. (\<forall>p<n. get_output P (mp' p) (srcs p) = Inr (a p)) \<and> shared n a m f))"
    obtain a1 where a1: "\<And>p. p < n \<Longrightarrow> get_output P (mp' p) (s1 p) = Inr (a1 p)" "shared n a1 (2 ^ k1) (\<lambda>i. i = unat x1)"
      using run src_ok_extends [OF C1(4) C2(2)] by blast
    obtain a2 where a2: "\<And>p. p < n \<Longrightarrow> get_output P (mp' p) (s2 p) = Inr (a2 p)" "shared n a2 (2 ^ k2) (\<lambda>i. i = unat x2)"
      using run C2(5) by blast
    have "spent n mp (u + ohe_bytes k1 + ohe_bytes k2) mp'"
      using run unfolding spent_layers C2(4) by (simp add: add.assoc)
    with a1 a2 show "all_finish n (\<lambda>p. pbind (lift_res (get_output P (mp' p) (s1 p))) (\<lambda>o1.
        pbind (lift_res (get_output P (mp' p) (s2 p))) (\<lambda>o2. Done (o1, o2, mp' p)))) ?Q"
      by (intro all_finish.finish [where xs = "\<lambda>p. (a1 p, a2 p, mp' p)"]) auto
  qed (use N C2(4) in simp_all)
  then show ?thesis
    by (rule all_finish_cong) (simp add: retrieve_ohe_def C1(5) C2(6))
qed

text \<open>One one-hot encoding, as a server runs it on its own.\<close>

lemma sv_ohe_shares:
  fixes sv :: "nat \<Rightarrow> ('s, 'g, 'sk, 'vk) prc_server"
  assumes G: "codec_ok G" and mp: "parties_ready n N u [] (\<lambda>p. sv_mpc_provider (sv p))"
    and k: "0 < k" "k \<le> 32" and b: "bv_shares n k b x"
    and N: "8 * ohe_bytes k < 2 ^ 32" "u + ohe_bytes k \<le> div_ceil N 8"
  shows "all_finish n (\<lambda>p. sv_ohe P G (sv p) (b p)) (\<lambda>out. \<exists>a mp'. (\<forall>p<n. out p = (a p, (sv p)\<lparr>sv_mpc_provider := mp' p\<rparr>)) \<and>
    shared n a (2 ^ k) (\<lambda>i. i = unat x) \<and> spent n (\<lambda>p. sv_mpc_provider (sv p)) (u + ohe_bytes k) mp')" (is "all_finish n _ ?Q")
proof -
  let ?mp = "\<lambda>p. sv_mpc_provider (sv p)"
  have "circuit_ok n []" by (simp add: circuit_ok_def)
  from ohe_vec_builds [OF mp this _ k b, of P]
  obtain C s where C: "circuit_ok n C" "\<And>k. k < length C \<Longrightarrow> 0 < fst (C ! k)" "circuit_bytes C = ohe_bytes k"
      "src_ok n C 0 s (2 ^ k) (\<lambda>i. i = unat x)"
      "\<And>p. p < n \<Longrightarrow> ohe_vec P (?mp p) (b p) = Inr (s p, (?mp p)\<lparr>mp_layers := party_layers p C\<rparr>)"
    by (auto simp: circuit_bytes_def)
  let ?mp1 = "\<lambda>p. (?mp p)\<lparr>mp_layers := party_layers p C\<rparr>"
  have "all_finish n (\<lambda>p. pbind (mp_run P G (?mp1 p)) (\<lambda>mp. pbind (lift_res (get_output P mp (s p))) (\<lambda>ohe_sh.
      Done (ohe_sh, (sv p)\<lparr>sv_mpc_provider := mp_clear mp\<rparr>)))) ?Q"
  proof (rule all_finish_bind [OF all_finish_mono [OF run_sources [OF G parties_ready_layers [OF mp] C(1,2)]]])
    fix mp' :: "nat \<Rightarrow> ('s, 'g) mpc_provider"
    assume run: "spent n ?mp1 (u + circuit_bytes C) mp' \<and>
      (\<forall>srcs m f. src_ok n C 0 srcs m f \<longrightarrow> (\<exists>a. (\<forall>p<n. get_output P (mp' p) (srcs p) = Inr (a p)) \<and> shared n a m f))"
    then obtain a where a: "\<And>p. p < n \<Longrightarrow> get_output P (mp' p) (s p) = Inr (a p)" "shared n a (2 ^ k) (\<lambda>i. i = unat x)"
      using C(4) by blast
    have "spent n ?mp (u + ohe_bytes k) mp'" using run unfolding spent_layers C(3) by blast
    then have "spent n ?mp (u + ohe_bytes k) (\<lambda>p. mp_clear (mp' p))" by (rule spent_clear)
    with a show "all_finish n (\<lambda>p. pbind (lift_res (get_output P (mp' p) (s p))) (\<lambda>ohe_sh.
        Done (ohe_sh, (sv p)\<lparr>sv_mpc_provider := mp_clear (mp' p)\<rparr>))) ?Q"
      by (intro all_finish.finish [where xs = "\<lambda>p. (a p, (sv p)\<lparr>sv_mpc_provider := mp_clear (mp' p)\<rparr>)"])
        (simp, intro exI [of _ a] exI [of _ "\<lambda>p. mp_clear (mp' p)"], simp)
  qed (use N C(3) in simp_all)
  then show ?thesis by (rule all_finish_cong) (simp add: sv_ohe_def C(5) Let_def)
qed

text \<open>The AND of the column and the second unit vector, and the parity of what each party reads.\<close>

definition retrieve_and ::
  "profile \<Rightarrow> ('s, 'g) group_ops \<Rightarrow> ('s, 'g) mpc_provider \<Rightarrow> bitarray \<Rightarrow> bitarray \<Rightarrow>
     (u8 list, bool \<times> ('s, 'g) mpc_provider) prog" where
  "retrieve_and P G mp x y =
     pbind (lift_res (mp_and mp (ba_bit_size x) (Input x) (Input y))) (\<lambda>(src, mp).
     pbind (mp_run P G mp) (\<lambda>mp.
     pbind (lift_res (get_output P mp src)) (\<lambda>z.
     pbind (lift_res (ba_parity z)) (\<lambda>par.
     Done (par, mp)))))"

lemma shared_parity:
  assumes "shared n z m f"
  shows "xors (map (\<lambda>p. xors (map (mbit (z p)) [0..<cap (ba_bit_size (z p))])) [0..<n]) = xors (map f [0..<m])"
proof -
  have "xors (map (\<lambda>p. xors (map (mbit (z p)) [0..<cap (ba_bit_size (z p))])) [0..<n])
      = xors (map (\<lambda>p. xors (map (\<lambda>i. mbit (z p) i) [0..<cap m])) [0..<n])"
    using assms by (auto simp: shared_def intro!: arg_cong [where f = xors])
  also have "\<dots> = xors (map (\<lambda>i. xors (map (\<lambda>p. mbit (z p) i) [0..<n])) [0..<cap m])"
    by (rule xors_swap [symmetric])
  also have "\<dots> = xors (map (\<lambda>i. i < m \<and> f i) [0..<cap m])"
    using assms by (simp add: shared_def)
  also have "\<dots> = (xors (map (\<lambda>i. i < m \<and> f i) [0..<m]) \<noteq> xors (map (\<lambda>i. i < m \<and> f i) [m..<cap m]))"
    by (rule xors_map_upt_split) (rule cap_ge)
  also have "xors (map (\<lambda>i. i < m \<and> f i) [m..<cap m]) = False" by (auto intro!: xors_all_False)
  also have "map (\<lambda>i. i < m \<and> f i) [0..<m] = map f [0..<m]" by simp
  finally show ?thesis by simp
qed

lemma retrieve_and_shares:
  fixes mp :: "nat \<Rightarrow> ('s, 'g) mpc_provider"
  assumes G: "codec_ok G" and mp: "parties_ready n N u [] mp" and ab: "shared n a m f" "shared n b m g" and m: "0 < m"
    and N: "8 * div_ceil m 8 < 2 ^ 32" "u + div_ceil m 8 \<le> div_ceil N 8"
  shows "all_finish n (\<lambda>p. retrieve_and P G (mp p) (a p) (b p)) (\<lambda>out. \<exists>bs mp'. (\<forall>p<n. out p = (bs p, mp' p)) \<and>
    xors (map bs [0..<n]) = xors (map (\<lambda>i. f i \<and> g i) [0..<m]) \<and> spent n mp (u + div_ceil m 8) mp')"
proof -
  obtain C srcs where C: "circuit_ok n C" "\<And>k. k < length C \<Longrightarrow> 0 < fst (C ! k)" "circuit_bytes C = div_ceil m 8"
      "src_ok n C 0 srcs m (\<lambda>i. f i \<and> g i)"
      "\<And>p. p < n \<Longrightarrow> mp_and (mp p) m (Input (a p)) (Input (b p)) = Inr (srcs p, (mp p)\<lparr>mp_layers := party_layers p C\<rparr>)"
    using mp_and_builds [OF mp ab m] by blast
  let ?mp = "\<lambda>p. (mp p)\<lparr>mp_layers := party_layers p C\<rparr>"
  let ?Q = "\<lambda>out. \<exists>bs mp'. (\<forall>p<n. out p = (bs p, mp' p)) \<and>
    xors (map bs [0..<n]) = xors (map (\<lambda>i. f i \<and> g i) [0..<m]) \<and> spent n mp (u + div_ceil m 8) mp'"
  have "all_finish n (\<lambda>p. pbind (mp_run P G (?mp p)) (\<lambda>mp. pbind (lift_res (get_output P mp (srcs p))) (\<lambda>z.
     pbind (lift_res (ba_parity z)) (\<lambda>par. Done (par, mp))))) ?Q"
  proof (rule all_finish_bind [OF all_finish_mono [OF run_sources [OF G parties_ready_layers [OF mp] C(1,2)]]])
    fix mp' :: "nat \<Rightarrow> ('s, 'g) mpc_provider"
    assume run: "spent n ?mp (u + circuit_bytes C) mp' \<and>
      (\<forall>srcs m f. src_ok n C 0 srcs m f \<longrightarrow> (\<exists>a. (\<forall>p<n. get_output P (mp' p) (srcs p) = Inr (a p)) \<and> shared n a m f))"
    then obtain z where z: "\<And>p. p < n \<Longrightarrow> get_output P (mp' p) (srcs p) = Inr (z p)" "shared n z m (\<lambda>i. f i \<and> g i)"
      using C(4) by blast
    let ?bs = "\<lambda>p. xors (map (mbit (z p)) [0..<cap (ba_bit_size (z p))])"
    have "ba_parity (z p) = Inr (?bs p)" if "p < n" for p
      using z(2) that by (intro ba_parity_Ok) (simp add: shared_def)
    moreover have "spent n mp (u + div_ceil m 8) mp'" using run unfolding spent_layers C(3) by blast
    ultimately show "all_finish n (\<lambda>p. pbind (lift_res (get_output P (mp' p) (srcs p))) (\<lambda>z.
        pbind (lift_res (ba_parity z)) (\<lambda>par. Done (par, mp' p)))) ?Q"
      using z(1) shared_parity [OF z(2)] by (intro all_finish.finish [where xs = "\<lambda>p. (?bs p, mp' p)"]) auto
  qed (use N C(3) in simp_all)
  moreover have "ba_bit_size (a p) = m" if "p < n" for p using ab(1) that by (simp add: shared_def)
  ultimately show ?thesis
    by (elim all_finish_cong) (simp add: retrieve_and_def C(5))
qed

text \<open>The servers of one configuration.\<close>

definition db_dims :: "prc_database \<Rightarrow> nat \<Rightarrow> nat \<Rightarrow> bool" where
  "db_dims db k1 k2 \<longleftrightarrow> db_wf db \<and> db_record_size db = 1 \<and> db_l1_dim db = 2 ^ k1 \<and> db_l2_dim db = 2 ^ k2"

text \<open>The triples a query takes, in bytes.\<close>

definition query_bytes :: "nat \<Rightarrow> nat \<Rightarrow> nat" where
  "query_bytes k1 k2 = ohe_bytes k1 + ohe_bytes k2 + div_ceil (2 ^ k2) 8"

lemma rec_retrieve_eq:
  "rec_retrieve P G sv b1 b2 =
     pbind (retrieve_ohe P G (sv_mpc_provider sv) b1 b2) (\<lambda>(l1_ohe, l2_ohe, mp).
     pbind (lift_res (lvl1_pir_retrieve (sv_db sv) l1_ohe)) (\<lambda>l1_pir_ans.
     pbind (lift_res (rassert (ba_bit_size l1_pir_ans = ba_bit_size l2_ohe) AssertionFailed)) (\<lambda>_.
     pbind (retrieve_and P G (mp_clear mp) l1_pir_ans l2_ohe) (\<lambda>(par, mp).
     Done (par, sv\<lparr>sv_mpc_provider := mp\<rparr>)))))"
  by (simp add: rec_retrieve_def retrieve_ohe_def retrieve_and_def pbind_assoc case_prod_unfold Let_def)

lemma xors_selected: "k < m \<Longrightarrow> xors (map (\<lambda>i. f i \<and> i = k) [0..<m]) = f k"
  using xors_one_hot [of k f m] by (simp add: conj_commute)

lemma rec_retrieve_shares:
  fixes sv :: "nat \<Rightarrow> ('s, 'g, 'sk, 'vk) prc_server"
  assumes G: "codec_ok G" and mp: "parties_ready n N u [] (\<lambda>p. sv_mpc_provider (sv p))"
    and db: "db_dims db k1 k2" "\<And>p. p < n \<Longrightarrow> sv_db (sv p) = db"
    and k: "0 < k1" "k1 \<le> 32" "0 < k2" "k2 \<le> 32" and b: "bv_shares n k1 b1 x1" "bv_shares n k2 b2 x2"
    and N: "8 * query_bytes k1 k2 < 2 ^ 32" "u + query_bytes k1 k2 \<le> div_ceil N 8"
  shows "all_finish n (\<lambda>p. rec_retrieve P G (sv p) (b1 p) (b2 p)) (\<lambda>out. \<exists>bs mp'. (\<forall>p<n. out p = (bs p, (sv p)\<lparr>sv_mpc_provider := mp' p\<rparr>)) \<and>
    xors (map bs [0..<n]) = rec_bit db 0 (unat x2 * 2 ^ k1 + unat x1) \<and>
    spent n (\<lambda>p. sv_mpc_provider (sv p)) (u + query_bytes k1 k2) mp')"
proof -
  let ?mp = "\<lambda>p. sv_mpc_provider (sv p)"
  let ?Q = "\<lambda>out. \<exists>bs mp'. (\<forall>p<n. out p = (bs p, (sv p)\<lparr>sv_mpc_provider := mp' p\<rparr>)) \<and>
    xors (map bs [0..<n]) = rec_bit db 0 (unat x2 * 2 ^ k1 + unat x1) \<and> spent n ?mp (u + query_bytes k1 k2) mp'"
  have dbs: "db_wf db" "db_record_size db = 1" "db_l1_dim db = 2 ^ k1" "db_l2_dim db = 2 ^ k2" using db(1) by (simp_all add: db_dims_def)
  have x: "unat x1 < 2 ^ k1" "unat x2 < 2 ^ k2"
    using b xor_of_bound [of n _ k1] xor_of_bound [of n _ k2] by (auto simp: bv_shares_def)
  show ?thesis
    unfolding rec_retrieve_eq
  proof (rule all_finish_bind [OF all_finish_mono [OF retrieve_ohe_shares [OF G mp k b]]])
    fix out
    assume "\<exists>a1 a2 mp'. (\<forall>p<n. out p = (a1 p, a2 p, mp' p)) \<and> shared n a1 (2 ^ k1) (\<lambda>i. i = unat x1) \<and>
      shared n a2 (2 ^ k2) (\<lambda>i. i = unat x2) \<and> spent n ?mp (u + ohe_bytes k1 + ohe_bytes k2) mp'"
    then obtain a1 a2 mp' where out: "\<And>p. p < n \<Longrightarrow> out p = (a1 p, a2 p, mp' p)" "shared n a1 (2 ^ k1) (\<lambda>i. i = unat x1)"
        "shared n a2 (2 ^ k2) (\<lambda>i. i = unat x2)" "spent n ?mp (u + ohe_bytes k1 + ohe_bytes k2) mp'" by blast
    from lvl1_pir_shares [OF dbs(1,2), of "unat x1" n a1] x(1) out(2) obtain ans where
        ans: "\<And>p. p < n \<Longrightarrow> lvl1_pir_retrieve db (a1 p) = Inr (ans p)" "shared n ans (2 ^ k2) (\<lambda>j. rec_bit db 0 (j * 2 ^ k1 + unat x1))"
      unfolding dbs(3,4) by blast
    have sz: "ba_bit_size (ans p) = ba_bit_size (a2 p)" if "p < n" for p using ans(2) out(3) that by (simp add: shared_def)
    let ?mp' = "\<lambda>p. mp_clear (mp' p)"
    have sp: "spent n ?mp (u + ohe_bytes k1 + ohe_bytes k2) ?mp'" by (rule spent_clear [OF out(4)])
    have "all_finish n (\<lambda>p. pbind (retrieve_and P G (?mp' p) (ans p) (a2 p)) (\<lambda>(par, mp). Done (par, (sv p)\<lparr>sv_mpc_provider := mp\<rparr>))) ?Q"
    proof (rule all_finish_bind [OF all_finish_mono [OF retrieve_and_shares [OF G parties_ready_spent [OF mp sp] ans(2) out(3)]]])
      fix out'
      assume "\<exists>bs mp''. (\<forall>p<n. out' p = (bs p, mp'' p)) \<and>
        xors (map bs [0..<n]) = xors (map (\<lambda>i. rec_bit db 0 (i * 2 ^ k1 + unat x1) \<and> i = unat x2) [0..<2 ^ k2]) \<and>
        spent n ?mp' (u + ohe_bytes k1 + ohe_bytes k2 + div_ceil (2 ^ k2) 8) mp''"
      then obtain bs mp'' where o: "\<And>p. p < n \<Longrightarrow> out' p = (bs p, mp'' p)"
          "xors (map bs [0..<n]) = rec_bit db 0 (unat x2 * 2 ^ k1 + unat x1)"
          "spent n ?mp' (u + ohe_bytes k1 + ohe_bytes k2 + div_ceil (2 ^ k2) 8) mp''"
        unfolding xors_selected [OF x(2)] by blast
      have "spent n ?mp (u + query_bytes k1 k2) mp''"
        using spent_trans [OF sp o(3)] by (simp add: query_bytes_def add.assoc)
      with o(1,2) show "all_finish n (\<lambda>p. (case out' p of (par, mp) \<Rightarrow> Done (par, (sv p)\<lparr>sv_mpc_provider := mp\<rparr>))) ?Q"
        by (intro all_finish.finish [where xs = "\<lambda>p. (bs p, (sv p)\<lparr>sv_mpc_provider := mp'' p\<rparr>)"]) auto
    qed (use N in \<open>simp_all add: query_bytes_def\<close>)
    then show "all_finish n (\<lambda>p. (case out p of (l1_ohe, l2_ohe, mp) \<Rightarrow> pbind (lift_res (lvl1_pir_retrieve (sv_db (sv p)) l1_ohe)) (\<lambda>l1_pir_ans.
     pbind (lift_res (rassert (ba_bit_size l1_pir_ans = ba_bit_size l2_ohe) AssertionFailed)) (\<lambda>_.
     pbind (retrieve_and P G (mp_clear mp) l1_pir_ans l2_ohe) (\<lambda>(par, mp). Done (par, (sv p)\<lparr>sv_mpc_provider := mp\<rparr>)))))) ?Q"
      by (rule all_finish_cong) (simp add: out(1) db(2) ans(1) sz)
  qed (use N in \<open>simp_all add: query_bytes_def\<close>)
qed

section \<open>The whole protocol\<close>

text \<open>Servers between two queries, with the triples up to byte \<open>u\<close> and the daBits up to \<open>d\<close> spent.\<close>

definition servers_ready ::
  "nat \<Rightarrow> nat \<Rightarrow> nat \<Rightarrow> nat \<Rightarrow> nat \<Rightarrow> prc_database \<Rightarrow> (nat \<Rightarrow> ('s::comm_ring_1, 'g, 'sk, 'vk) prc_server) \<Rightarrow> bool" where
  "servers_ready n N u M d db sv \<longleftrightarrow> parties_ready n N u [] (\<lambda>p. sv_mpc_provider (sv p)) \<and>
     das_ok n M (\<lambda>p. mp_dabit_provider (sv_mpc_provider (sv p))) d \<and> (\<forall>p<n. sv_db (sv p) = db)"

text \<open>What a query changes: the triples up to byte \<open>v\<close> and the daBits up to \<open>w\<close> are spent.\<close>

definition served :: "nat \<Rightarrow> (nat \<Rightarrow> ('s::comm_ring_1, 'g, 'sk, 'vk) prc_server) \<Rightarrow> nat \<Rightarrow> nat \<Rightarrow> (nat \<Rightarrow> ('s, 'g, 'sk, 'vk) prc_server) \<Rightarrow> bool" where
  "served n sv v w sv' \<longleftrightarrow> (\<forall>p<n. \<exists>o'. sv' p = (sv p)\<lparr>sv_mpc_provider := (sv_mpc_provider (sv p))\<lparr>mp_layers := [], mp_output_layer := o',
     mp_beaver_provider := (mp_beaver_provider (sv_mpc_provider (sv p)))\<lparr>bp_used := v\<rparr>,
     mp_dabit_provider := (mp_dabit_provider (sv_mpc_provider (sv p)))\<lparr>da_used := w\<rparr>\<rparr>\<rparr>)"

lemma servedE:
  assumes "served n sv v w sv'" "p < n"
  obtains o' where "sv' p = (sv p)\<lparr>sv_mpc_provider := (sv_mpc_provider (sv p))\<lparr>mp_layers := [], mp_output_layer := o',
     mp_beaver_provider := (mp_beaver_provider (sv_mpc_provider (sv p)))\<lparr>bp_used := v\<rparr>,
     mp_dabit_provider := (mp_dabit_provider (sv_mpc_provider (sv p)))\<lparr>da_used := w\<rparr>\<rparr>\<rparr>"
  using assms unfolding served_def by blast

lemma served_fields:
  assumes "served n sv v w sv'" "p < n"
  shows "mp_beaver_provider (sv_mpc_provider (sv' p)) = (mp_beaver_provider (sv_mpc_provider (sv p)))\<lparr>bp_used := v\<rparr>"
    "mp_dabit_provider (sv_mpc_provider (sv' p)) = (mp_dabit_provider (sv_mpc_provider (sv p)))\<lparr>da_used := w\<rparr>"
    "mp_message_handler (sv_mpc_provider (sv' p)) = mp_message_handler (sv_mpc_provider (sv p))"
    "mp_party_const (sv_mpc_provider (sv' p)) = mp_party_const (sv_mpc_provider (sv p))"
    "mp_layers (sv_mpc_provider (sv' p)) = []" "sv_db (sv' p) = sv_db (sv p)" "sv_sk (sv' p) = sv_sk (sv p)" "sv_pk (sv' p) = sv_pk (sv p)"
proof -
  obtain o' where "sv' p = (sv p)\<lparr>sv_mpc_provider := (sv_mpc_provider (sv p))\<lparr>mp_layers := [], mp_output_layer := o',
     mp_beaver_provider := (mp_beaver_provider (sv_mpc_provider (sv p)))\<lparr>bp_used := v\<rparr>,
     mp_dabit_provider := (mp_dabit_provider (sv_mpc_provider (sv p)))\<lparr>da_used := w\<rparr>\<rparr>\<rparr>" by (rule servedE [OF assms])
  then show "mp_beaver_provider (sv_mpc_provider (sv' p)) = (mp_beaver_provider (sv_mpc_provider (sv p)))\<lparr>bp_used := v\<rparr>"
    "mp_dabit_provider (sv_mpc_provider (sv' p)) = (mp_dabit_provider (sv_mpc_provider (sv p)))\<lparr>da_used := w\<rparr>"
    "mp_message_handler (sv_mpc_provider (sv' p)) = mp_message_handler (sv_mpc_provider (sv p))"
    "mp_party_const (sv_mpc_provider (sv' p)) = mp_party_const (sv_mpc_provider (sv p))"
    "mp_layers (sv_mpc_provider (sv' p)) = []" "sv_db (sv' p) = sv_db (sv p)" "sv_sk (sv' p) = sv_sk (sv p)" "sv_pk (sv' p) = sv_pk (sv p)"
    by simp_all
qed

lemma servers_ready_served:
  assumes "servers_ready n N u M d db sv" "served n sv v w sv'"
  shows "servers_ready n N v M w db sv'"
proof -
  let ?mp = "\<lambda>p. sv_mpc_provider (sv p)" and ?mp' = "\<lambda>p. sv_mpc_provider (sv' p)"
  have r: "0 < n" "n \<le> 256" "bps_ok n N (\<lambda>p. mp_beaver_provider (?mp p)) u" "das_ok n M (\<lambda>p. mp_dabit_provider (?mp p)) d"
      "\<And>p. p < n \<Longrightarrow> mh_ready n p (mp_message_handler (?mp p)) \<and> mp_party_const (?mp p) = (p = 0) \<and> sv_db (sv p) = db"
    using assms(1) by (simp_all add: servers_ready_def parties_ready_def)
  note f = served_fields [OF assms(2)]
  have "bps_ok n N (\<lambda>p. mp_beaver_provider (?mp' p)) v" by (rule bps_ok_advance [OF r(3)]) (rule f(1))
  moreover have "das_ok n M (\<lambda>p. mp_dabit_provider (?mp' p)) w" by (rule das_ok_advance [OF r(4)]) (rule f(2))
  ultimately show ?thesis using r(1,2,5) unfolding servers_ready_def parties_ready_def by (simp add: f(3-6))
qed

text \<open>Joining the shares of the two parts of an index joins the parts.\<close>

lemma xor_of_join:
  assumes "\<And>p. p < n \<Longrightarrow> unat (l p) < 2 ^ k"
  shows "xor_of n (\<lambda>p. push_bit k (h p) OR l p) = push_bit k (xor_of n h) OR xor_of n l"
proof (rule bit_word_eqI)
  fix i assume "i < LENGTH(32)"
  then have i: "i < 32" by simp
  have low: "\<not> bit (l p) i" if "p < n" "k \<le> i" for p using assms [OF that(1)] that(2) by (simp add: unat_bit_bound)
  have "\<not> bit (xor_of n l) i" if "k \<le> i" using xor_of_bound [OF assms] that by (simp add: unat_bit_bound)
  then show "bit (xor_of n (\<lambda>p. push_bit k (h p) OR l p)) i = bit (push_bit k (xor_of n h) OR xor_of n l) i"
    unfolding bit_join using i low
    by (cases "k \<le> i") (auto simp: bit_xor_of bit_join intro!: arg_cong [where f = xors])
qed

lemma join_shares:
  assumes b: "bv_shares n k1 b1 x1" "bv_shares n k2 b2 x2" and k: "k1 < 32" "k1 + k2 \<le> 32"
  shows "\<exists>j. (\<forall>p<n. join_boolean P (b1 p) (b2 p) = Inr (j p)) \<and> bv_shares n (k1 + k2) j (push_bit k1 x2 OR x1)"
proof -
  let ?j = "\<lambda>p. \<lparr>bv_bit_len = k1 + k2, bv_value = push_bit k1 (bv_value (b2 p)) OR bv_value (b1 p)\<rparr>"
  have wf: "bv_wf (b1 p)" "bv_wf (b2 p)" "bv_bit_len (b1 p) = k1" "bv_bit_len (b2 p) = k2" if "p < n" for p
    using b that k by (simp_all add: bv_shares_def bv_wf_def)
  then have "join_boolean P (b1 p) (b2 p) = Inr (?j p)" if "p < n" for p
    using join_boolean_Ok [of "b1 p" "b2 p" P] that k by simp
  moreover have "xor_of n (\<lambda>p. bv_value (?j p)) = push_bit k1 x2 OR x1"
    using b xor_of_join [of n "\<lambda>p. bv_value (b1 p)" k1 "\<lambda>p. bv_value (b2 p)"] by (simp add: bv_shares_def)
  moreover have "unat (bv_value (?j p)) < 2 ^ (k1 + k2)" if "p < n" for p
  proof -
    have "unat (bv_value (b1 p)) < 2 ^ k1" "unat (bv_value (b2 p)) < 2 ^ k2" using b that by (simp_all add: bv_shares_def)
    then show ?thesis by (auto simp: unat_bit_bound bit_join)
  qed
  ultimately show ?thesis by (intro exI [of _ ?j]) (simp add: bv_shares_def)
qed

lemma xor_of_bool: "xor_of n (\<lambda>p. of_bool (bs p)) = of_bool (xors (map bs [0..<n]))"
  by (rule bit_word_eqI) (auto simp: bit_xor_of bit_of_bool_iff comp_def xors_map_and)

lemma record_shares: "bv_shares n 1 (\<lambda>p. \<lparr>bv_bit_len = 1, bv_value = of_bool (bs p)\<rparr>) (of_bool (xors (map bs [0..<n])))"
  by (simp add: bv_shares_def xor_of_bool)

text \<open>The second half of the protocol, from the share of the record on.\<close>

definition certify ::
  "profile \<Rightarrow> ('s::comm_ring_1, 'r) scalar_ops \<Rightarrow> ('s, 'g::ab_group_add) group_ops \<Rightarrow> ('sk, 'vk, 'sg) sig_ops \<Rightarrow>
     's prc_query \<Rightarrow> bool \<Rightarrow> ('s, 'g, 'sk, 'vk) prc_server \<Rightarrow>
     (u8 list, ('g, 'sg) prc_token option \<times> ('s, 'g, 'sk, 'vk) prc_server) prog" where
  "certify P S G V query record_share sv =
     pbind (lift_res (join_boolean P (q_l1_bss query) (q_l2_bss query))) (\<lambda>joined.
     pbind (lift_res (bv_new 1 (of_bool record_share))) (\<lambda>rec.
     pbind (run_conv_B2A S G (sv_mpc_provider sv) [joined, rec]) (\<lambda>(arith, mp).
     pbind (lift_res (index arith 0)) (\<lambda>a0.
     pbind (lift_res (index arith 1)) (\<lambda>a1.
     pbind (aggregate_commitments G mp (commit G (opening_new (av_value (q_rnd_ass query)) (av_value a0) (av_value a1)))) (\<lambda>(agg_commit, mp).
     Done (case agg_commit of
           Some cm \<Rightarrow> Some \<lparr>tok_commitment = None, tok_sig = sg_sign V (sv_sk sv) (commitment_serialize G cm)\<rparr>
         | None \<Rightarrow> None, sv\<lparr>sv_mpc_provider := mp\<rparr>)))))))"

lemma prc_protocol_eq:
  "prc_protocol P S G V sv query = pbind (rec_retrieve P G sv (q_l1_bss query) (q_l2_bss query)) (\<lambda>(record_share, sv).
     certify P S G V query record_share sv)"
  by (simp add: prc_protocol_def certify_def sv_conv_b2a_def pbind_assoc case_prod_unfold Let_def cong: option.case_cong)

text \<open>The commitment the client expects for the sum of the shares.\<close>

definition joint_commit ::
  "('s::comm_ring_1, 'g::ab_group_add) group_ops \<Rightarrow> nat \<Rightarrow> (nat \<Rightarrow> 's prc_query) \<Rightarrow> 's \<Rightarrow> 's \<Rightarrow> 'g commitment" where
  "joint_commit G n q idx resp = commit G (opening_new (\<Sum>p<n. av_value (q_rnd_ass (q p))) idx resp)"

definition token_of ::
  "('s, 'g) group_ops \<Rightarrow> ('sk, 'vk, 'sg) sig_ops \<Rightarrow> 'sk \<Rightarrow> 'g commitment \<Rightarrow> ('g, 'sg) prc_token" where
  "token_of G V sk cm = \<lparr>tok_commitment = None, tok_sig = sg_sign V sk (commitment_serialize G cm)\<rparr>"

lemma aggregate_openings:
  assumes "group_ok G"
  shows "commitment_aggregate (map (\<lambda>p. commit G (opening_new (r p) (i p) (b p))) [0..<n])
    = commit G (opening_new (\<Sum>p<n. r p) (\<Sum>p<n. i p) (\<Sum>p<n. b p))"
proof (rule commitment.equality)
  let ?ops = "map (\<lambda>p. opening_new (r p) (i p) (b p)) [0..<n]"
  have "sum_list (map (\<lambda>op. com_c (commit G op)) ?ops) = com_c (commit G \<lparr>op_rnd = sum_list (map op_rnd ?ops),
      op_idx = sum_list (map op_idx ?ops), op_resp = sum_list (map op_resp ?ops)\<rparr>)" by (rule commit_sum [OF assms])
  then show "com_c (commitment_aggregate (map (\<lambda>p. commit G (opening_new (r p) (i p) (b p))) [0..<n]))
    = com_c (commit G (opening_new (\<Sum>p<n. r p) (\<Sum>p<n. i p) (\<Sum>p<n. b p)))"
    by (simp add: commitment_aggregate_sum comp_def opening_new_def interv_sum_list_conv_sum_set_nat lessThan_atLeast0)
qed simp

text \<open>Aggregating and signing.\<close>

definition issue_token ::
  "('s, 'g::ab_group_add) group_ops \<Rightarrow> ('sk, 'vk, 'sg) sig_ops \<Rightarrow> ('s, 'g, 'sk, 'vk) prc_server \<Rightarrow> ('s, 'g) mpc_provider \<Rightarrow> 'g commitment \<Rightarrow>
     (u8 list, ('g, 'sg) prc_token option \<times> ('s, 'g, 'sk, 'vk) prc_server) prog" where
  "issue_token G V sv mp cm =
     pbind (aggregate_commitments G mp cm) (\<lambda>(agg_commit, mp).
     Done (case agg_commit of
           Some cm \<Rightarrow> Some \<lparr>tok_commitment = None, tok_sig = sg_sign V (sv_sk sv) (commitment_serialize G cm)\<rparr>
         | None \<Rightarrow> None, sv\<lparr>sv_mpc_provider := mp\<rparr>))"

lemma issue_tokens:
  assumes "codec_ok G" "n \<le> 256"
    and "\<And>p. p < n \<Longrightarrow> mh_ready n p (mp_message_handler (mp p)) \<and> mp_party_const (mp p) = (p = 0)"
  shows "all_finish n (\<lambda>p. issue_token G V (sv p) (mp p) (cm p)) (\<lambda>out. \<forall>p<n. out p =
    (if p = 0 then Some (token_of G V (sv_sk (sv 0)) (commitment_aggregate (map cm [0..<n]))) else None, (sv p)\<lparr>sv_mpc_provider := mp p\<rparr>))"
  unfolding issue_token_def
proof (rule all_finish_bind [OF all_finish_mono [OF aggregate_commitments_all [OF assms(1,2,3)]]])
  fix out
  assume "\<forall>p<n. out p = (if p = 0 then Some (commitment_aggregate (map cm [0..<n])) else None, mp p)"
  then show "all_finish n (\<lambda>p. (case out p of (ac, mp) \<Rightarrow>
      Done (case ac of
           Some cm \<Rightarrow> Some \<lparr>tok_commitment = None, tok_sig = sg_sign V (sv_sk (sv p)) (commitment_serialize G cm)\<rparr>
         | None \<Rightarrow> None, (sv p)\<lparr>sv_mpc_provider := mp\<rparr>)))
    (\<lambda>out. \<forall>p<n. out p =
      (if p = 0 then Some (token_of G V (sv_sk (sv 0)) (commitment_aggregate (map cm [0..<n]))) else None, (sv p)\<lparr>sv_mpc_provider := mp p\<rparr>))"
    by (intro all_finish_each) (auto simp: token_of_def)
qed

lemma certify_eq:
  assumes "join_boolean P (q_l1_bss q) (q_l2_bss q) = Inr j"
  shows "certify P S G V q b sv = pbind (run_conv_B2A S G (sv_mpc_provider sv) [j, \<lparr>bv_bit_len = 1, bv_value = of_bool b\<rparr>]) (\<lambda>(arith, mp).
     pbind (lift_res (index arith 0)) (\<lambda>a0. pbind (lift_res (index arith 1)) (\<lambda>a1.
     issue_token G V sv mp (commit G (opening_new (av_value (q_rnd_ass q)) (av_value a0) (av_value a1))))))"
  by (simp add: certify_def assms bv_new_eq issue_token_def)

lemma certify_shares:
  fixes sv :: "nat \<Rightarrow> ('s::comm_ring_1, 'g::ab_group_add, 'sk, 'vk) prc_server"
  assumes S: "scalar_from_ok S" and G: "group_ok G" "codec_ok G" and n: "2 \<le> n"
    and sv: "servers_ready n N u M d db sv"
    and k: "k1 < 32" "k1 + k2 \<le> 32" and q: "bv_shares n k1 (\<lambda>p. q_l1_bss (q p)) x1" "bv_shares n k2 (\<lambda>p. q_l2_bss (q p)) x2"
    and M: "d + (k1 + k2 + 1) \<le> M"
  shows "all_finish n (\<lambda>p. certify P S G V (q p) (bs p) (sv p)) (\<lambda>out. \<forall>p<n. out p =
    (if p = 0 then Some (token_of G V (sv_sk (sv 0))
      (joint_commit G n q (of_nat (unat (push_bit k1 x2 OR x1))) (of_bool (xors (map bs [0..<n]))))) else None,
     (sv p)\<lparr>sv_mpc_provider := (sv_mpc_provider (sv p))\<lparr>mp_dabit_provider :=
       (mp_dabit_provider (sv_mpc_provider (sv p)))\<lparr>da_used := d + (k1 + k2 + 1)\<rparr>\<rparr>\<rparr>))"
proof -
  let ?mp = "\<lambda>p. sv_mpc_provider (sv p)" and ?m = "k1 + k2 + 1"
  let ?X = "push_bit k1 x2 OR x1" and ?r = "xors (map bs [0..<n])"
  have mp: "n \<le> 256" "\<And>p. p < n \<Longrightarrow> mh_ready n p (mp_message_handler (?mp p)) \<and> mp_party_const (?mp p) = (p = 0)"
      "das_ok n M (\<lambda>p. mp_dabit_provider (?mp p)) d"
    using sv by (simp_all add: servers_ready_def parties_ready_def)
  obtain j where j: "\<And>p. p < n \<Longrightarrow> join_boolean P (q_l1_bss (q p)) (q_l2_bss (q p)) = Inr (j p)" "bv_shares n (k1 + k2) j ?X"
    using join_shares [OF q k] by blast
  let ?rec = "\<lambda>p. \<lparr>bv_bit_len = 1, bv_value = of_bool (bs p)\<rparr>" and ?ls = "[k1 + k2, 1]"
  have bvs: "bvs_shares n ?ls (\<lambda>p. [j p, ?rec p]) [?X, of_bool ?r]"
    using j(2) record_shares [of n bs] by (auto simp: bvs_shares_def less_Suc_eq simp del: One_nat_def)
  let ?mp' = "\<lambda>p. (?mp p)\<lparr>mp_dabit_provider := (mp_dabit_provider (?mp p))\<lparr>da_used := d + ?m\<rparr>\<rparr>"
  let ?Q = "\<lambda>out. \<forall>p<n. out p = (if p = 0 then Some (token_of G V (sv_sk (sv 0)) (joint_commit G n q (of_nat (unat ?X)) (of_bool ?r))) else None,
    (sv p)\<lparr>sv_mpc_provider := ?mp' p\<rparr>)"
  let ?cm = "\<lambda>vals p. commit G (opening_new (av_value (q_rnd_ass (q p))) (av_value (vals p ! 0)) (av_value (vals p ! 1)))"
  have "all_finish n (\<lambda>p. pbind (run_conv_B2A S G (?mp p) [j p, ?rec p]) (\<lambda>(arith, mp).
     pbind (lift_res (index arith 0)) (\<lambda>a0. pbind (lift_res (index arith 1)) (\<lambda>a1.
     issue_token G V (sv p) mp (commit G (opening_new (av_value (q_rnd_ass (q p))) (av_value a0) (av_value a1))))))) ?Q"
  proof (rule all_finish_bind [OF all_finish_mono [OF run_conv_shares [OF S G(2) n mp(1,2) bvs _ refl _ _ mp(3)]]])
    fix out :: "nat \<Rightarrow> 's arith_value list \<times> ('s, 'g) mpc_provider"
    assume "\<exists>vals. (\<forall>p<n. out p = (vals p, (?mp p)\<lparr>mp_dabit_provider := (mp_dabit_provider (?mp p))\<lparr>da_used := d + sum_list ?ls\<rparr>\<rparr>) \<and> length (vals p) = length ?ls) \<and>
      (\<forall>k<length ?ls. (\<Sum>p<n. av_value (vals p ! k)) = of_nat (unat ([?X, of_bool ?r] ! k)))"
    then obtain vals where v: "\<And>p. p < n \<Longrightarrow> out p = (vals p, ?mp' p)" "\<And>p. p < n \<Longrightarrow> length (vals p) = 2"
        and sum: "\<forall>k<2. (\<Sum>p<n. av_value (vals p ! k)) = of_nat (unat ([?X, of_bool ?r] ! k))"
      by auto
    have idx: "index (vals p) 0 = Inr (vals p ! 0)" "index (vals p) 1 = Inr (vals p ! 1)" if "p < n" for p
      unfolding index_def v(2) [OF that] by simp_all
    have cm: "commitment_aggregate (map (?cm vals) [0..<n]) = joint_commit G n q (of_nat (unat ?X)) (of_bool ?r)"
      unfolding aggregate_openings [OF G(1)] joint_commit_def using sum by simp
    have "all_finish n (\<lambda>p. issue_token G V (sv p) (?mp' p) (?cm vals p)) (\<lambda>out. \<forall>p<n. out p =
        (if p = 0 then Some (token_of G V (sv_sk (sv 0)) (commitment_aggregate (map (?cm vals) [0..<n]))) else None,
         (sv p)\<lparr>sv_mpc_provider := ?mp' p\<rparr>))"
      by (rule issue_tokens [OF G(2) mp(1)]) (simp add: mp(2))
    then have "all_finish n (\<lambda>p. issue_token G V (sv p) (?mp' p) (?cm vals p)) ?Q" unfolding cm .
    then show "all_finish n (\<lambda>p. (case out p of (arith, mp) \<Rightarrow> pbind (lift_res (index arith 0)) (\<lambda>a0. pbind (lift_res (index arith 1)) (\<lambda>a1.
     issue_token G V (sv p) mp (commit G (opening_new (av_value (q_rnd_ass (q p))) (av_value a0) (av_value a1))))))) ?Q"
      by (rule all_finish_cong) (simp add: v(1) idx del: One_nat_def)
  qed (use k M in auto)
  then show ?thesis by (rule all_finish_cong) (simp add: certify_eq [OF j(1)])
qed

lemma prc_protocol_shares:
  fixes sv :: "nat \<Rightarrow> ('s::comm_ring_1, 'g::ab_group_add, 'sk, 'vk) prc_server"
  assumes S: "scalar_from_ok S" and G: "group_ok G" "codec_ok G" and n: "2 \<le> n"
    and sv: "servers_ready n N u M d db sv" "db_dims db k1 k2"
    and k: "0 < k1" "k1 < 32" "0 < k2" "k1 + k2 \<le> 32"
    and q: "bv_shares n k1 (\<lambda>p. q_l1_bss (q p)) x1" "bv_shares n k2 (\<lambda>p. q_l2_bss (q p)) x2"
    and N: "8 * query_bytes k1 k2 < 2 ^ 32" "u + query_bytes k1 k2 \<le> div_ceil N 8" and M: "d + (k1 + k2 + 1) \<le> M"
  shows "all_finish n (\<lambda>p. prc_protocol P S G V (sv p) (q p)) (\<lambda>out. \<exists>sv'. served n sv (u + query_bytes k1 k2) (d + (k1 + k2 + 1)) sv' \<and>
    (\<forall>p<n. out p = (if p = 0 then Some (token_of G V (sv_sk (sv 0)) (joint_commit G n q
      (of_nat (unat x2 * 2 ^ k1 + unat x1)) (of_bool (rec_bit db 0 (unat x2 * 2 ^ k1 + unat x1))))) else None, sv' p)))"
proof -
  let ?i = "unat x2 * 2 ^ k1 + unat x1"
  let ?Q = "\<lambda>out. \<exists>sv'. served n sv (u + query_bytes k1 k2) (d + (k1 + k2 + 1)) sv' \<and>
    (\<forall>p<n. out p = (if p = 0 then Some (token_of G V (sv_sk (sv 0)) (joint_commit G n q
      (of_nat ?i) (of_bool (rec_bit db 0 ?i)))) else None, sv' p))"
  have x: "unat x1 < 2 ^ k1" "unat x2 < 2 ^ k2"
    using q xor_of_bound [of n _ k1] xor_of_bound [of n _ k2] by (auto simp: bv_shares_def)
  have idx: "unat (push_bit k1 x2 OR x1) = ?i"
    using unat_join [OF x(1,2) k(4)] by (simp add: mult.commute)
  have ready: "parties_ready n N u [] (\<lambda>p. sv_mpc_provider (sv p))" "\<And>p. p < n \<Longrightarrow> sv_db (sv p) = db"
    using sv(1) by (simp_all add: servers_ready_def)
  have k32: "k1 \<le> 32" "k2 \<le> 32" using k by simp_all
  show ?thesis
    unfolding prc_protocol_eq
  proof (rule all_finish_bind [OF all_finish_mono [OF rec_retrieve_shares [OF G(2) ready(1) sv(2) ready(2) k(1) k32(1) k(3) k32(2) q N]]])
    fix out
    assume "\<exists>bs mp'. (\<forall>p<n. out p = (bs p, (sv p)\<lparr>sv_mpc_provider := mp' p\<rparr>)) \<and> xors (map bs [0..<n]) = rec_bit db 0 ?i \<and>
      spent n (\<lambda>p. sv_mpc_provider (sv p)) (u + query_bytes k1 k2) mp'"
    then obtain bs mp' where o: "\<And>p. p < n \<Longrightarrow> out p = (bs p, (sv p)\<lparr>sv_mpc_provider := mp' p\<rparr>)"
        "xors (map bs [0..<n]) = rec_bit db 0 ?i" "spent n (\<lambda>p. sv_mpc_provider (sv p)) (u + query_bytes k1 k2) mp'" by blast
    let ?sv = "\<lambda>p. (sv p)\<lparr>sv_mpc_provider := mp' p\<rparr>"
    have da: "mp_dabit_provider (mp' p) = mp_dabit_provider (sv_mpc_provider (sv p))" if "p < n" for p
      by (rule spentE [OF o(3) that]) simp
    then have "das_ok n M (\<lambda>p. mp_dabit_provider (mp' p)) d" using sv(1) by (auto simp: servers_ready_def das_ok_def)
    then have sv': "servers_ready n N (u + query_bytes k1 k2) M d db ?sv"
      using parties_ready_spent [OF ready(1) o(3)] ready(2) by (simp add: servers_ready_def)
    have "all_finish n (\<lambda>p. certify P S G V (q p) (bs p) (?sv p)) ?Q"
    proof (rule all_finish_mono [OF certify_shares [OF S G n sv' k(2,4) q M]])
      let ?sv' = "\<lambda>p. (sv p)\<lparr>sv_mpc_provider := (mp' p)\<lparr>mp_dabit_provider := (mp_dabit_provider (mp' p))\<lparr>da_used := d + (k1 + k2 + 1)\<rparr>\<rparr>\<rparr>"
      fix out'
      assume "\<forall>p<n. out' p = (if p = 0 then Some (token_of G V (sv_sk (?sv 0)) (joint_commit G n q
          (of_nat (unat (push_bit k1 x2 OR x1))) (of_bool (xors (map bs [0..<n]))))) else None,
          (?sv p)\<lparr>sv_mpc_provider := (sv_mpc_provider (?sv p))\<lparr>mp_dabit_provider := (mp_dabit_provider (sv_mpc_provider (?sv p)))\<lparr>da_used := d + (k1 + k2 + 1)\<rparr>\<rparr>\<rparr>)"
      moreover have "served n sv (u + query_bytes k1 k2) (d + (k1 + k2 + 1)) ?sv'"
        unfolding served_def
      proof (intro allI impI)
        fix p assume p: "p < n"
        obtain o' where o': "mp' p = (sv_mpc_provider (sv p))\<lparr>mp_layers := [], mp_output_layer := o',
          mp_beaver_provider := (mp_beaver_provider (sv_mpc_provider (sv p)))\<lparr>bp_used := u + query_bytes k1 k2\<rparr>\<rparr>" by (rule spentE [OF o(3) p])
        show "\<exists>o'. ?sv' p = (sv p)\<lparr>sv_mpc_provider := (sv_mpc_provider (sv p))\<lparr>mp_layers := [], mp_output_layer := o',
          mp_beaver_provider := (mp_beaver_provider (sv_mpc_provider (sv p)))\<lparr>bp_used := u + query_bytes k1 k2\<rparr>,
          mp_dabit_provider := (mp_dabit_provider (sv_mpc_provider (sv p)))\<lparr>da_used := d + (k1 + k2 + 1)\<rparr>\<rparr>\<rparr>"
          unfolding o' by (intro exI [of _ o']) simp
      qed
      ultimately show "?Q out'" unfolding idx o(2) by (intro exI [of _ ?sv']) simp
    qed
    then show "all_finish n (\<lambda>p. (case out p of (record_share, sv) \<Rightarrow> certify P S G V (q p) record_share sv)) ?Q"
      by (rule all_finish_cong) (simp add: o(1))
  qed
qed

section \<open>Servers of a configuration\<close>

text \<open>What a configuration needs for the servers to run: two to 256 parties, a seeded database of single
  bits whose dimensions are powers of two in the range the index can have.\<close>

definition config_ok :: "system_config \<Rightarrow> nat \<Rightarrow> nat \<Rightarrow> bool" where
  "config_ok c k1 k2 \<longleftrightarrow> 2 \<le> length (sc_peers c) \<and> length (sc_peers c) \<le> 256 \<and>
     dbc_record_size (sc_db_config c) = 1 \<and> dbc_l1_dim (sc_db_config c) = 2 ^ k1 \<and> dbc_l2_dim (sc_db_config c) = 2 ^ k2 \<and>
     dbc_seed (sc_db_config c) \<noteq> None \<and> 3 \<le> k1 \<and> k1 < 32 \<and> 0 < k2 \<and> k2 \<le> k1 \<and> k1 + k2 \<le> 32"

text \<open>The triples generated for a query cover what it takes.\<close>

lemma query_budget:
  assumes "config_ok c k1 k2"
  shows "8 * query_bytes k1 k2 \<le> beaver_per_q (sc_db_config c)" "8 * query_bytes k1 k2 < 2 ^ 32"
proof -
  have c: "dbc_l1_dim (sc_db_config c) = 2 ^ k1" "dbc_l2_dim (sc_db_config c) = 2 ^ k2" "1 \<le> k1" "1 \<le> k2" "k1 \<le> 29 \<or> k2 \<le> 3"
      "k1 \<le> 31" "k2 \<le> k1" "k1 + k2 \<le> 32"
    using assms by (auto simp: config_ok_def)
  have o: "16 * ohe_bytes k1 \<le> 3 * 2 ^ k1 + 16" "16 * ohe_bytes k2 \<le> 3 * 2 ^ k2 + 16" "8 * div_ceil (2 ^ k2) 8 < 2 ^ k2 + 8"
    using ohe_bits [OF c(3)] ohe_bits [OF c(4)] by (simp_all add: div_ceil_def)
  have "5 * 2 ^ k2 \<le> 2 * div_ceil (5 * 2 ^ k2) 2" "3 * 2 ^ k1 \<le> 2 * div_ceil (3 * 2 ^ k1) 2"
    unfolding div_ceil_def by linarith+
  with o show "8 * query_bytes k1 k2 \<le> beaver_per_q (sc_db_config c)"
    unfolding query_bytes_def beaver_per_q_def c(1,2) by (simp add: algebra_simps)
  have "k2 \<le> 16" using c(7,8) by linarith
  then have "(2::nat) ^ k2 \<le> 2 ^ 16" by (rule power_increasing) simp
  moreover have "(2::nat) ^ k1 \<le> 2 ^ 31" using c(6) by (rule power_increasing) simp
  ultimately show "8 * query_bytes k1 k2 < 2 ^ 32"
    using o unfolding query_bytes_def by simp
qed

text \<open>The providers of all parties, with the preprocessing of \<open>Q\<close> queries.\<close>

lemma providers_of_config:
  fixes S :: "('s::comm_ring_1, 'r) scalar_ops"
  assumes R: "rng_ok R" and S: "scalar_from_ok S" and c: "config_ok c k1 k2" and Q: "0 < Q" and n: "n = length (sc_peers c)"
  obtains bp and da :: "nat \<Rightarrow> 's dabit_provider" where
    "\<And>p. p < n \<Longrightarrow> init_seeded_correlated_randomness R S c p Q = Inr (bp p, da p)"
    "bps_ok n (Q * beaver_per_q (sc_db_config c)) bp 0" "das_ok n (Q * 36) da 0"
proof -
  let ?N = "Q * beaver_per_q (sc_db_config c)" and ?M = "Q * 36"
  have N: "0 < ?N" using Q by (simp add: beaver_per_q_def)
  obtain ds where ds: "\<forall>p<n. gen_beaver_provider R c p ?N = Inr (bp_new\<lparr>bp_beaver_storage := Some (ds p)\<rparr>) \<and> d2_wf 3 ?N (ds p)"
      "triples_ok (map ds [0..<n])"
    using gen_beaver_providers [OF R N, of c] c unfolding n config_ok_def by blast
  obtain dd where dd: "\<forall>p<n. gen_dabit_provider R S c p ?M = Inr (da_new\<lparr>da_bit_storage := Some (dd p)\<rparr>) \<and> length (dd p) = ?M"
      "\<forall>i<?M. dabits_ok (map (\<lambda>p. dd p ! i) [0..<n])"
    using gen_dabit_providers [OF S, of c R ?M] c unfolding n config_ok_def by fastforce
  show ?thesis
  proof (rule that)
    show "init_seeded_correlated_randomness R S c p Q = Inr (bp_new\<lparr>bp_beaver_storage := Some (ds p)\<rparr>, da_new\<lparr>da_bit_storage := Some (dd p)\<rparr>)"
      if "p < n" for p using ds(1) dd(1) that by (simp add: init_seeded_correlated_randomness_def Let_def)
    show "bps_ok n ?N (\<lambda>p. bp_new\<lparr>bp_beaver_storage := Some (ds p)\<rparr>) 0"
      using ds unfolding bps_ok_def by (intro exI [of _ ds]) (simp add: bp_new_def)
    show "das_ok n ?M (\<lambda>p. da_new\<lparr>da_bit_storage := Some (dd p)\<rparr>) 0"
      using dd unfolding das_ok_def by (intro exI [of _ dd]) (simp add: da_new_def)
  qed
qed

lemma servers_of_config:
  fixes mh :: "nat \<Rightarrow> 'g message_handler"
  assumes R: "rng_ok R" and S: "scalar_from_ok S" and c: "config_ok c k1 k2" and Q: "0 < Q" and n: "n = length (sc_peers c)"
    and mh: "\<And>p. p < n \<Longrightarrow> mh_ready n p (mh p)"
  shows "\<exists>db sv. db_from_config R (sc_db_config c) = Inr db \<and> db_dims db k1 k2 \<and>
    servers_ready n (Q * beaver_per_q (sc_db_config c)) 0 (Q * 36) 0 db sv \<and>
    (\<forall>p<n. sv_new_with_message_handler R S V (sk p) p c (mh p) Q = Inr (sv p) \<and> sv_sk (sv p) = sk p \<and>
      sv_pk (sv p) = sg_verifying_key V (sk p))"
proof -
  let ?dbc = "sc_db_config c"
  obtain s where s: "dbc_seed ?dbc = Some s" using c by (auto simp: config_ok_def)
  have "(8 :: nat) \<le> 2 ^ k1" "(2 :: nat) ^ k2 \<le> 2 ^ k1"
    using c power_increasing [of 3 k1 "2 :: nat"] by (simp_all add: config_ok_def)
  then obtain db where db: "db_from_seed R 1 (2 ^ k2) (2 ^ k1) s = Inr db" "db_dims db k1 k2"
    using db_from_seed_Ok [OF R, of "2 ^ k1" "2 ^ k2" 1 s] by (auto simp: is_power_of_two_iff db_dims_def)
  then have db': "db_from_config R ?dbc = Inr db" using c s by (simp add: db_from_config_def dbc_db_seed_def config_ok_def)
  obtain bp da where pr: "\<And>p. p < n \<Longrightarrow> init_seeded_correlated_randomness R S c p Q = Inr (bp p, da p)"
    "bps_ok n (Q * beaver_per_q ?dbc) bp 0" "das_ok n (Q * 36) da 0" using providers_of_config [OF R S c Q n] by blast
  let ?mp = "\<lambda>p. mp_new (p = 0) (bp p) (da p) (mh p)"
  let ?sv = "\<lambda>p. \<lparr>sv_id = p, sv_config = c, sv_db = db, sv_pk = sg_verifying_key V (sk p), sv_mpc_provider = ?mp p, sv_sk = sk p\<rparr>"
  have "sv_new_with_message_handler R S V (sk p) p c (mh p) Q = Inr (?sv p)" if "p < n" for p
    using pr(1) [OF that] that by (simp add: sv_new_with_message_handler_def db' Let_def)
  moreover have "bps_ok n (Q * beaver_per_q ?dbc) (\<lambda>p. mp_beaver_provider (?mp p)) 0" "das_ok n (Q * 36) (\<lambda>p. mp_dabit_provider (?mp p)) 0"
    using pr(2,3) by (simp_all add: mp_new_def)
  ultimately show ?thesis
    using db' db(2) mh c n
    by (intro exI [of _ db] exI [of _ ?sv]) (auto simp: servers_ready_def parties_ready_def mp_new_def config_ok_def)
qed

end
