(* ===== verification/Peers.thy ===== *)
theory Peers
  imports Connection Config "HOL-Library.AList"
begin

text \<open>
  The rest of \<open>src/prc/connection.rs\<close>: the traffic counters, the two kinds of connections between
  peers, and how a party gets a connection to every other one. \<open>peer_link\<close> is what the protocol
  relies on: commands arrive in the order in which they were sent. It is interpreted for
  in-memory channels and for framed byte streams.
\<close>

section \<open>Traffic counters\<close>

record net_stat =
  ns_sent :: u32
  ns_received :: u32

definition ns_new :: net_stat where
  "ns_new = \<lparr>ns_sent = 0, ns_received = 0\<rparr>"

definition ns_add :: "profile \<Rightarrow> net_stat \<Rightarrow> net_stat \<Rightarrow> net_stat res" where
  "ns_add P a b =
     rbind (add_u32 P (ns_sent a) (ns_sent b)) (\<lambda>s.
     rbind (add_u32 P (ns_received a) (ns_received b)) (\<lambda>r.
     Ok \<lparr>ns_sent = s, ns_received = r\<rparr>))"

text \<open>The counters of the peers are summed up and set back, one after the other.\<close>

definition get_then_reset_netstat :: "profile \<Rightarrow> net_stat list \<Rightarrow> (net_stat \<times> net_stat list) res" where
  "get_then_reset_netstat P stats =
     rfold (\<lambda>stat (out, done_stats).
         rbind (ns_add P out stat) (\<lambda>out.
         Ok (out, done_stats @ [ns_new])))
       stats (ns_new, [])"

section \<open>Wires\<close>

text \<open>A receiver that has nothing yet waits.\<close>

datatype 'a poll = Pending | Ready 'a

text \<open>
  A \<open>tokio::sync::mpsc\<close> channel: the messages in it, and whether its two ends still exist. \<open>send\<close> on
  a channel with 100 messages waits; it is a step of \<open>Network\<close>.
\<close>

record channel =
  ch_msgs :: "u8 list list"
  ch_tx_open :: bool
  ch_rx_open :: bool

definition channel_new :: channel where
  "channel_new = \<lparr>ch_msgs = [], ch_tx_open = True, ch_rx_open = True\<rparr>"

definition channel_send :: "u8 list \<Rightarrow> channel \<Rightarrow> channel" where
  "channel_send m ch = (if ch_rx_open ch then ch\<lparr>ch_msgs := ch_msgs ch @ [m]\<rparr> else ch)"

definition channel_recv :: "channel \<Rightarrow> (u8 list option \<times> channel) poll" where
  "channel_recv ch =
     (case ch_msgs ch of
        m # ms \<Rightarrow> Ready (Some m, ch\<lparr>ch_msgs := ms\<rparr>)
      | [] \<Rightarrow> if ch_tx_open ch then Pending else Ready (None, ch))"

text \<open>
  One direction of a TCP stream: the bytes under way, and whether the writer may add more. Here a command is written at once; that it is handed over in pieces,
  as the buffers of the connection have room for them, is in \<open>Sockets\<close>.
\<close>

record stream =
  ts_bytes :: "u8 list"
  ts_open :: bool

definition stream_new :: stream where
  "stream_new = \<lparr>ts_bytes = [], ts_open = True\<rparr>"

definition write_all :: "u8 list \<Rightarrow> stream \<Rightarrow> stream" where
  "write_all bs w = w\<lparr>ts_bytes := ts_bytes w @ bs\<rparr>"

text \<open>\<open>read_exact\<close> waits for the bytes, and fails at the end of the stream.\<close>

definition read_exact :: "nat \<Rightarrow> stream \<Rightarrow> (u8 list option \<times> stream) poll" where
  "read_exact n w =
     (if n \<le> length (ts_bytes w) then Ready (Some (take n (ts_bytes w)), w\<lparr>ts_bytes := drop n (ts_bytes w)\<rparr>)
      else if ts_open w then Pending
      else Ready (None, w\<lparr>ts_bytes := []\<rparr>))"

section \<open>Connections\<close>

record connection =
  cn_peer_id :: "nat option"
  cn_stat :: net_stat

definition cn_set_peer_id :: "connection \<Rightarrow> nat \<Rightarrow> connection" where
  "cn_set_peer_id c ident = c\<lparr>cn_peer_id := Some ident\<rparr>"

definition cn_get_peer_id :: "connection \<Rightarrow> nat option" where
  "cn_get_peer_id c = cn_peer_id c"

definition cn_get_stat :: "connection \<Rightarrow> net_stat" where
  "cn_get_stat c = \<lparr>ns_sent = ns_sent (cn_stat c), ns_received = ns_received (cn_stat c)\<rparr>"

definition cn_reset_stat :: "connection \<Rightarrow> connection" where
  "cn_reset_stat c = c\<lparr>cn_stat := (cn_stat c)\<lparr>ns_sent := 0, ns_received := 0\<rparr>\<rparr>"

definition cc_send :: "profile \<Rightarrow> ('s, 'g) group_ops \<Rightarrow> 'g cmd \<Rightarrow> connection \<times> channel \<Rightarrow> (connection \<times> channel) res" where
  "cc_send P G c = (\<lambda>(con, ch).
     let serialized = cmd_serialize G c in
     rbind (add_u32 P (ns_sent (cn_stat con)) (of_nat (length serialized))) (\<lambda>s.
     Ok (con\<lparr>cn_stat := (cn_stat con)\<lparr>ns_sent := s\<rparr>\<rparr>, channel_send serialized ch)))"

definition cc_receive ::
  "profile \<Rightarrow> ('s, 'g) group_ops \<Rightarrow> connection \<times> channel \<Rightarrow> ('g cmd option \<times> connection \<times> channel) poll res" where
  "cc_receive P G = (\<lambda>(con, ch).
     case channel_recv ch of
       Pending \<Rightarrow> Ok Pending
     | Ready (None, ch) \<Rightarrow> Ok (Ready (None, con, ch))
     | Ready (Some data, ch) \<Rightarrow>
         rbind (add_u32 P (ns_received (cn_stat con)) (of_nat (length data))) (\<lambda>r.
         rbind (cmd_deserialize G data) (\<lambda>c.
         Ok (Ready (Some c, con\<lparr>cn_stat := (cn_stat con)\<lparr>ns_received := r\<rparr>\<rparr>, ch)))))"

definition tcp_send :: "profile \<Rightarrow> ('s, 'g) group_ops \<Rightarrow> 'g cmd \<Rightarrow> connection \<times> stream \<Rightarrow> (connection \<times> stream) res" where
  "tcp_send P G c = (\<lambda>(con, w).
     let serialized = cmd_serialize G c in
     rbind (add_u32 P (of_nat (length serialized)) 4) (\<lambda>l.
     rbind (add_u32 P (ns_sent (cn_stat con)) l) (\<lambda>s.
     let w = write_all (to_le_bytes 4 (of_nat (length serialized) :: u32)) w;
         w = write_all serialized w in
     Ok (con\<lparr>cn_stat := (cn_stat con)\<lparr>ns_sent := s\<rparr>\<rparr>, w))))"

definition tcp_receive ::
  "profile \<Rightarrow> ('s, 'g) group_ops \<Rightarrow> connection \<times> stream \<Rightarrow> ('g cmd option \<times> connection \<times> stream) poll res" where
  "tcp_receive P G = (\<lambda>(con, w).
     case read_exact 4 w of
       Pending \<Rightarrow> Ok Pending
     | Ready (None, w) \<Rightarrow> Ok (Ready (None, con, w))
     | Ready (Some len_bytes, w) \<Rightarrow>
         let cmd_len = from_le_bytes len_bytes :: u32 in
         rbind (add_u32 P cmd_len 4) (\<lambda>l.
         rbind (add_u32 P (ns_received (cn_stat con)) l) (\<lambda>r.
         let con = con\<lparr>cn_stat := (cn_stat con)\<lparr>ns_received := r\<rparr>\<rparr> in
         case read_exact (unat cmd_len) w of
           Pending \<Rightarrow> Ok Pending
         | Ready (None, w) \<Rightarrow> Ok (Ready (None, con, w))
         | Ready (Some buffer, w) \<Rightarrow>
             rbind (cmd_deserialize G buffer) (\<lambda>c.
             Ok (Ready (Some c, con, w))))))"

section \<open>Commands arrive in order\<close>

text \<open>
  A sequence of sends and receives on one direction of a connection: the sender's end, the wire and the
  receiver's end, and what the receives give. The specification is a queue of commands.
\<close>

datatype 'g link_op = Send "'g cmd" | Receive

fun link_run ::
  "('g cmd \<Rightarrow> 'a \<times> 'w \<Rightarrow> ('a \<times> 'w) res) \<Rightarrow> ('b \<times> 'w \<Rightarrow> ('g cmd option \<times> 'b \<times> 'w) poll res) \<Rightarrow>
     'g link_op list \<Rightarrow> 'a \<times> 'w \<times> 'b \<Rightarrow> 'g cmd option poll list res" where
  "link_run snd_cmd rcv_cmd [] st = Ok []"
| "link_run snd_cmd rcv_cmd (Send c # ops) (a, w, b) =
     rbind (snd_cmd c (a, w)) (\<lambda>(a, w). link_run snd_cmd rcv_cmd ops (a, w, b))"
| "link_run snd_cmd rcv_cmd (Receive # ops) (a, w, b) =
     rbind (rcv_cmd (b, w)) (\<lambda>x. case x of
         Pending \<Rightarrow> rbind (link_run snd_cmd rcv_cmd ops (a, w, b)) (\<lambda>outs. Ok (Pending # outs))
       | Ready (c, b, w) \<Rightarrow> rbind (link_run snd_cmd rcv_cmd ops (a, w, b)) (\<lambda>outs. Ok (Ready c # outs)))"

fun queue_run :: "'g link_op list \<Rightarrow> 'g cmd list \<Rightarrow> 'g cmd option poll list" where
  "queue_run [] q = []"
| "queue_run (Send c # ops) q = queue_run ops (q @ [c])"
| "queue_run (Receive # ops) [] = Pending # queue_run ops []"
| "queue_run (Receive # ops) (c # q) = Ready (Some c) # queue_run ops q"

text \<open>What the sends of a sequence cost together.\<close>

fun ops_cost :: "('g cmd \<Rightarrow> nat) \<Rightarrow> 'g link_op list \<Rightarrow> nat" where
  "ops_cost cost [] = 0"
| "ops_cost cost (Send c # ops) = cost c + ops_cost cost ops"
| "ops_cost cost (Receive # ops) = ops_cost cost ops"

definition sendable :: "('s, 'g) group_ops \<Rightarrow> 'g link_op \<Rightarrow> bool" where
  "sendable G op \<longleftrightarrow> (case op of Send c \<Rightarrow> cmd_wf c \<and> length (cmd_serialize G c) < 2 ^ 32 | Receive \<Rightarrow> True)"

text \<open>
  The contract of a connection: what it holds is the queue, as long as the counters of its ends have room for what is sent. \<open>cost\<close> is
  what a command adds to a counter.
\<close>

locale peer_link =
  fixes G :: "('s, 'g) group_ops"
    and snd_cmd :: "'g cmd \<Rightarrow> 'a \<times> 'w \<Rightarrow> ('a \<times> 'w) res"
    and rcv_cmd :: "'b \<times> 'w \<Rightarrow> ('g cmd option \<times> 'b \<times> 'w) poll res"
    and holds :: "'w \<Rightarrow> 'g cmd list \<Rightarrow> bool"
    and cost :: "'g cmd \<Rightarrow> nat" and snd_room :: "'a \<Rightarrow> nat \<Rightarrow> bool" and rcv_room :: "'b \<Rightarrow> nat \<Rightarrow> bool"
  assumes snd_holds: "holds w q \<Longrightarrow> sendable G (Send c) \<Longrightarrow> snd_room a (cost c + m) \<Longrightarrow>
      \<exists>a' w'. snd_cmd c (a, w) = Inr (a', w') \<and> holds w' (q @ [c]) \<and> snd_room a' m"
    and rcv_Cons: "holds w (c # q) \<Longrightarrow> rcv_room b (cost c + m) \<Longrightarrow>
      \<exists>b' w'. rcv_cmd (b, w) = Inr (Ready (Some c, b', w')) \<and> holds w' q \<and> rcv_room b' m"
    and rcv_Nil: "holds w [] \<Longrightarrow> rcv_cmd (b, w) = Inr Pending"
begin

lemma run_queue:
  assumes "holds w q" "\<forall>op\<in>set ops. sendable G op" "snd_room a (ops_cost cost ops)" "rcv_room b (sum_list (map cost q) + ops_cost cost ops)"
  shows "link_run snd_cmd rcv_cmd ops (a, w, b) = Inr (queue_run ops q)"
  using assms
proof (induction ops q arbitrary: a w b rule: queue_run.induct)
  case (2 c ops q)
  obtain a' w' where "snd_cmd c (a, w) = Inr (a', w')" "holds w' (q @ [c])" "snd_room a' (ops_cost cost ops)"
    using snd_holds [of w q c a "ops_cost cost ops"] 2(2-4) by auto
  moreover have "rcv_room b (sum_list (map cost (q @ [c])) + ops_cost cost ops)" using 2(5) by (simp add: ac_simps)
  ultimately show ?case using 2(1) [of w' a' b] 2(3) by simp
next
  case (3 ops)
  then show ?case using rcv_Nil [of w b] by simp
next
  case (4 ops c q)
  obtain b' w' where "rcv_cmd (b, w) = Inr (Ready (Some c, b', w'))" "holds w' q" "rcv_room b' (sum_list (map cost q) + ops_cost cost ops)"
    using rcv_Cons [of w c q b "sum_list (map cost q) + ops_cost cost ops"] 4(2-5) by (auto simp: add.assoc)
  then show ?case using 4 by simp
qed simp

end

lemma add_u32_Release [simp]: "add_u32 Release a b = Inr (a + b)"
  by (simp add: add_u32_def arith_u32_def)

text \<open>A counter of 32 bits; without overflow checks it wraps around.\<close>

definition room :: "profile \<Rightarrow> u32 \<Rightarrow> nat \<Rightarrow> bool" where
  "room P v m \<longleftrightarrow> P = Release \<or> unat v + m < 2 ^ 32"

lemma room_add:
  assumes "room P v (k + m)" "unat x = k \<or> P = Release"
  shows "add_u32 P v x = Inr (v + x)" "room P (v + x) m"
proof -
  have "add_u32 P v x = Inr (v + x) \<and> room P (v + x) m"
  proof (cases "P = Release")
    case False
    then have "unat (v + x) = unat v + k"
      using assms by (subst unat_plus_simple [THEN iffD1]) (auto simp: no_olen_add_nat room_def)
    then show ?thesis using assms False by (auto simp: add_u32_def arith_u32_def room_def)
  qed (simp add: room_def)
  then show "add_u32 P v x = Inr (v + x)" "room P (v + x) m" by simp_all
qed

definition channel_holds :: "('s, 'g) group_ops \<Rightarrow> channel \<Rightarrow> 'g cmd list \<Rightarrow> bool" where
  "channel_holds G ch q \<longleftrightarrow> codec_ok G \<and> ch_tx_open ch \<and> ch_rx_open ch \<and> (\<forall>c\<in>set q. sendable G (Send c)) \<and> ch_msgs ch = map (cmd_serialize G) q"

interpretation channel_link: peer_link G "cc_send P G" "cc_receive P G" "channel_holds G"
    "\<lambda>c. length (cmd_serialize G c)" "\<lambda>con. room P (ns_sent (cn_stat con))" "\<lambda>con. room P (ns_received (cn_stat con))"
  for G :: "('s, 'g) group_ops" and P
proof
  have len: "unat (of_nat (length (cmd_serialize G c)) :: u32) = length (cmd_serialize G c)" if "sendable G (Send c)" for c
    using that by (intro unat_of_nat_u32) (simp add: sendable_def)
  show "\<exists>a' w'. cc_send P G c (a, w) = Inr (a', w') \<and> channel_holds G w' (q @ [c]) \<and> room P (ns_sent (cn_stat a')) m"
    if "channel_holds G w q" "sendable G (Send c)" "room P (ns_sent (cn_stat a)) (length (cmd_serialize G c) + m)" for w q c a m
    using that room_add [OF that(3) disjI1 [OF len [OF that(2)]]] by (auto simp: cc_send_def channel_holds_def channel_send_def Let_def)
  show "\<exists>b' w'. cc_receive P G (b, w) = Inr (Ready (Some c, b', w')) \<and> channel_holds G w' q \<and> room P (ns_received (cn_stat b')) m"
    if "channel_holds G w (c # q)" "room P (ns_received (cn_stat b)) (length (cmd_serialize G c) + m)" for w c q b m
  proof -
    have c: "sendable G (Send c)" "codec_ok G" "cmd_wf c" using that(1) by (simp_all add: channel_holds_def sendable_def)
    show ?thesis
      using that(1) room_add [OF that(2) disjI1 [OF len [OF c(1)]]] deserialize_serialize [OF c(2,3)]
      by (auto simp: cc_receive_def channel_holds_def channel_recv_def)
  qed
  show "cc_receive P G (b, w) = Inr Pending" if "channel_holds G w []" for w b
    using that by (simp add: cc_receive_def channel_holds_def channel_recv_def)
qed

text \<open>On a stream each command is a frame: its length in four bytes, then its encoding.\<close>

definition frame :: "('s, 'g) group_ops \<Rightarrow> 'g cmd \<Rightarrow> u8 list" where
  "frame G c = to_le_bytes 4 (of_nat (length (cmd_serialize G c)) :: u32) @ cmd_serialize G c"

definition stream_holds :: "('s, 'g) group_ops \<Rightarrow> stream \<Rightarrow> 'g cmd list \<Rightarrow> bool" where
  "stream_holds G w q \<longleftrightarrow> codec_ok G \<and> ts_open w \<and> (\<forall>c\<in>set q. sendable G (Send c)) \<and> ts_bytes w = concat (map (frame G) q)"

lemma tcp_receive_frame:
  assumes "codec_ok G" "sendable G (Send c)" "ts_bytes w = frame G c @ rest"
    and "P = Release \<or> unat (ns_received (cn_stat con)) + length (cmd_serialize G c) + 4 < 2 ^ 32"
  shows "tcp_receive P G (con, w) = Inr (Ready (Some c, con\<lparr>cn_stat := (cn_stat con)\<lparr>ns_received :=
    ns_received (cn_stat con) + (of_nat (length (cmd_serialize G c)) + 4)\<rparr>\<rparr>, w\<lparr>ts_bytes := rest\<rparr>))"
proof -
  let ?d = "cmd_serialize G c"
  have len: "length ?d < 2 ^ 32" "cmd_wf c" using assms(2) by (simp_all add: sendable_def)
  have u: "unat (of_nat (length ?d) :: u32) = length ?d" by (rule unat_of_nat_u32 [OF len(1)])
  have a: "add_u32 P (of_nat (length ?d)) 4 = Inr (of_nat (length ?d) + 4)"
    using assms(4) u by (auto simp: add_u32_def arith_u32_def)
  have "unat (of_nat (length ?d) + 4 :: u32) = length ?d + 4" if "P \<noteq> Release"
    using assms(4) that u by (subst unat_plus_simple [THEN iffD1]) (simp_all add: no_olen_add_nat u)
  then have b: "add_u32 P (ns_received (cn_stat con)) (of_nat (length ?d) + 4) = Inr (ns_received (cn_stat con) + (of_nat (length ?d) + 4))"
    using assms(4) by (auto simp: add_u32_def arith_u32_def)
  show ?thesis
    using deserialize_serialize [OF assms(1) len(2)]
    by (simp add: tcp_receive_def read_exact_def assms(3) frame_def a b u Let_def)
qed

interpretation tcp_link: peer_link G "tcp_send P G" "tcp_receive P G" "stream_holds G"
    "\<lambda>c. length (cmd_serialize G c) + 4" "\<lambda>con. room P (ns_sent (cn_stat con))" "\<lambda>con. room P (ns_received (cn_stat con))"
  for G :: "('s, 'g) group_ops" and P
proof
  have len: "add_u32 P (of_nat (length (cmd_serialize G c))) 4 = Inr (of_nat (length (cmd_serialize G c)) + 4)"
      "unat (of_nat (length (cmd_serialize G c)) + 4 :: u32) = length (cmd_serialize G c) + 4 \<or> P = Release"
    if "sendable G (Send c)" "room P v (length (cmd_serialize G c) + 4 + m)" for c v m
  proof -
    have l: "unat (of_nat (length (cmd_serialize G c)) :: u32) = length (cmd_serialize G c)"
      using that(1) by (intro unat_of_nat_u32) (simp add: sendable_def)
    then have "room P (of_nat (length (cmd_serialize G c))) (4 + 0)" using that(2) by (auto simp: room_def)
    from room_add(1) [OF this, of 4] show "add_u32 P (of_nat (length (cmd_serialize G c))) 4 = Inr (of_nat (length (cmd_serialize G c)) + 4)" by simp
    show "unat (of_nat (length (cmd_serialize G c)) + 4 :: u32) = length (cmd_serialize G c) + 4 \<or> P = Release"
      using that(2) l by (cases "P = Release") (auto simp: room_def unat_word_ariths)
  qed
  show "\<exists>a' w'. tcp_send P G c (a, w) = Inr (a', w') \<and> stream_holds G w' (q @ [c]) \<and> room P (ns_sent (cn_stat a')) m"
    if "stream_holds G w q" "sendable G (Send c)" "room P (ns_sent (cn_stat a)) (length (cmd_serialize G c) + 4 + m)" for w q c a m
    using that(1,2) len(1) [OF that(2,3)] room_add [OF that(3) len(2) [OF that(2,3)]]
    by (auto simp: tcp_send_def stream_holds_def write_all_def frame_def Let_def)
  show "\<exists>b' w'. tcp_receive P G (b, w) = Inr (Ready (Some c, b', w')) \<and> stream_holds G w' q \<and> room P (ns_received (cn_stat b')) m"
    if "stream_holds G w (c # q)" "room P (ns_received (cn_stat b)) (length (cmd_serialize G c) + 4 + m)" for w c q b m
  proof -
    have c: "codec_ok G" "sendable G (Send c)" "ts_bytes w = frame G c @ concat (map (frame G) q)" "stream_holds G (w\<lparr>ts_bytes := concat (map (frame G) q)\<rparr>) q"
      using that(1) by (auto simp: stream_holds_def)
    have "P = Release \<or> unat (ns_received (cn_stat b)) + length (cmd_serialize G c) + 4 < 2 ^ 32" using that(2) by (auto simp: room_def)
    from tcp_receive_frame [OF c(1-3) this] show ?thesis
      using room_add(2) [OF that(2) len(2) [OF c(2) that(2)]] c(4) by simp
  qed
  show "tcp_receive P G (b, w) = Inr Pending" if "stream_holds G w []" for w b
    using that by (simp add: tcp_receive_def stream_holds_def read_exact_def)
qed

section \<open>The channel manager\<close>

text \<open>A channel is known by its direction: \<open>(a, b)\<close> carries what \<open>a\<close> sends to \<open>b\<close>.\<close>

type_synonym channel_id = "nat \<times> nat"

record channel_manager =
  cm_num_peers :: nat
  cm_sender_channels :: "nat \<times> nat \<rightharpoonup> channel_id"
  cm_receiver_channels :: "nat \<times> nat \<rightharpoonup> channel_id"

record channel_connection =
  cc_connection :: connection
  cc_sender :: channel_id
  cc_receiver :: channel_id

definition cm_new :: "nat \<Rightarrow> channel_manager" where
  "cm_new num_peers =
     (let pairs = [(a, b). a \<leftarrow> [0..<num_peers], b \<leftarrow> [0..<num_peers], a \<noteq> b];
          (sender_channels, receiver_channels) =
            foldl (\<lambda>(s, r) (a, b). (s((a, b) \<mapsto> (a, b)), r((b, a) \<mapsto> (a, b)))) (Map.empty, Map.empty) pairs in
      \<lparr>cm_num_peers = num_peers, cm_sender_channels = sender_channels, cm_receiver_channels = receiver_channels\<rparr>)"

text \<open>The sender is gone even when there is no receiver.\<close>

definition cm_get_single_connection ::
  "channel_manager \<Rightarrow> nat \<Rightarrow> nat \<Rightarrow> channel_connection option \<times> channel_manager" where
  "cm_get_single_connection cm a b =
     (case cm_sender_channels cm (a, b) of
        None \<Rightarrow> (None, cm)
      | Some tx \<Rightarrow>
          let cm = cm\<lparr>cm_sender_channels := (cm_sender_channels cm)((a, b) := None)\<rparr> in
          (case cm_receiver_channels cm (a, b) of
             None \<Rightarrow> (None, cm)
           | Some rx \<Rightarrow>
               (Some \<lparr>cc_connection = \<lparr>cn_peer_id = Some b, cn_stat = ns_new\<rparr>, cc_sender = tx, cc_receiver = rx\<rparr>,
                cm\<lparr>cm_receiver_channels := (cm_receiver_channels cm)((a, b) := None)\<rparr>)))"

text \<open>A handler and the connections its peers stand for.\<close>

definition cm_get_handler ::
  "channel_manager \<Rightarrow> nat \<Rightarrow> (('g message_handler \<times> (nat \<rightharpoonup> channel_connection)) \<times> channel_manager) res" where
  "cm_get_handler cm ident =
     rfold (\<lambda>i ((h, cons), cm).
         if i = ident then Ok ((h, cons), cm)
         else case cm_get_single_connection cm ident i of
             (None, _) \<Rightarrow> Panic ExplicitPanic
           | (Some con, cm) \<Rightarrow> Ok ((mh_add_peer h i, cons(i \<mapsto> con)), cm))
       [0..<cm_num_peers cm] ((mh_new (of_nat ident), Map.empty), cm)"

definition channel_of :: "nat \<Rightarrow> nat \<Rightarrow> channel_connection" where
  "channel_of a b = \<lparr>cc_connection = \<lparr>cn_peer_id = Some b, cn_stat = ns_new\<rparr>, cc_sender = (a, b), cc_receiver = (b, a)\<rparr>"

text \<open>The manager before it has given handlers to the parties from \<open>p\<close> on.\<close>

definition cm_left :: "nat \<Rightarrow> nat \<Rightarrow> nat \<Rightarrow> channel_manager" where
  "cm_left n p i = \<lparr>cm_num_peers = n,
     cm_sender_channels = (\<lambda>(a, b). if a < n \<and> b < n \<and> a \<noteq> b \<and> (p < a \<or> a = p \<and> i \<le> b) then Some (a, b) else None),
     cm_receiver_channels = (\<lambda>(a, b). if a < n \<and> b < n \<and> a \<noteq> b \<and> (p < a \<or> a = p \<and> i \<le> b) then Some (b, a) else None)\<rparr>"

lemma foldl_channels:
  "foldl (\<lambda>(s, r) (a, b). (s((a, b) \<mapsto> (a, b)), r((b, a) \<mapsto> (a, b)))) (s, r) xs
     = (\<lambda>k. if k \<in> set xs then Some k else s k, \<lambda>(a, b). if (b, a) \<in> set xs then Some (b, a) else r (a, b))"
  by (induction xs arbitrary: s r) (auto simp: fun_eq_iff)

lemma cm_new_left: "cm_new n = cm_left n 0 0"
  by (auto simp: cm_new_def cm_left_def foldl_channels fun_eq_iff)

lemma cm_left_next: "cm_left n p n = cm_left n (Suc p) 0"
  by (auto simp: cm_left_def fun_eq_iff)

lemma cm_left_self: "cm_left n p (Suc p) = cm_left n p p"
  by (auto simp: cm_left_def fun_eq_iff le_less)

lemma cm_get_single_connection_left:
  assumes "p < n" "i < n" "i \<noteq> p"
  shows "cm_get_single_connection (cm_left n p i) p i = (Some (channel_of p i), cm_left n p (Suc i))"
  using assms by (auto simp: cm_get_single_connection_def cm_left_def channel_of_def fun_eq_iff)

lemma cm_get_handler_left:
  assumes "p < n"
  shows "cm_get_handler (cm_left n p 0) p = Inr (((foldl mh_add_peer (mh_new (of_nat p)) (others n p),
    \<lambda>q. if q < n \<and> q \<noteq> p then Some (channel_of p q) else None)), cm_left n (Suc p) 0)"
proof -
  let ?step = "\<lambda>i ((h, cons), cm). if i = p then Ok ((h, cons), cm)
     else case cm_get_single_connection cm p i of
         (None, _) \<Rightarrow> Panic ExplicitPanic
       | (Some con, cm) \<Rightarrow> Ok ((mh_add_peer h i, cons(i \<mapsto> con)), cm)"
  have "rfold ?step [0..<i] ((mh_new (of_nat p), Map.empty), cm_left n p 0)
      = Inr ((foldl mh_add_peer (mh_new (of_nat p)) (filter (\<lambda>q. q \<noteq> p) [0..<i]),
          \<lambda>q. if q < i \<and> q \<noteq> p then Some (channel_of p q) else None), cm_left n p i)" if "i \<le> n" for i
    using that
  proof (induction i)
    case (Suc i)
    then show ?case using assms cm_get_single_connection_left [OF assms, of i] cm_left_self [of n p]
      by (cases "i = p") (auto simp: rfold_append fun_eq_iff)
  qed simp
  from this [of n] show ?thesis
    by (simp add: cm_get_handler_def others_def cm_left_next) (simp add: cm_left_def)
qed

lemma foldl_add_peer: "foldl mh_add_peer h qs = h\<lparr>mh_peers := mh_peers h @ qs\<rparr>"
  by (induction qs arbitrary: h) (simp_all add: mh_add_peer_def)

lemma handler_ready: "length qs = n - 1 \<Longrightarrow> mh_ready n p (foldl mh_add_peer (mh_new (of_nat p)) qs)"
  by (simp add: foldl_add_peer mh_ready_def mh_new_def)

section \<open>The TCP connection factory\<close>

record tcp_connection =
  tc_connection :: connection
  tc_in :: stream
  tc_out :: stream

record tcp_factory =
  tf_id :: nat
  tf_party_num :: nat
  tf_connections :: "(nat \<times> tcp_connection) list"

definition tf_new :: "nat \<Rightarrow> nat \<Rightarrow> tcp_factory" where
  "tf_new ident party_num = \<lparr>tf_id = ident, tf_party_num = party_num, tf_connections = []\<rparr>"

text \<open>An accepted stream has to begin with a handshake, for which the listener waits.\<close>

definition tf_handle_new_listen_connection ::
  "profile \<Rightarrow> ('s, 'g) group_ops \<Rightarrow> (nat \<times> tcp_connection) list \<Rightarrow> stream \<times> stream \<Rightarrow> (nat \<times> tcp_connection) list poll res" where
  "tf_handle_new_listen_connection P G connections = (\<lambda>(inp, out).
     let con = \<lparr>cn_peer_id = None, cn_stat = ns_new\<rparr> in
     rbind (tcp_receive P G (con, inp)) (\<lambda>x.
     case x of
       Pending \<Rightarrow> Ok Pending
     | Ready (handshake_cmd, con, inp) \<Rightarrow>
         rbind (expect handshake_cmd) (\<lambda>c.
         case c of
           Handshake pid \<Rightarrow>
             let con = cn_set_peer_id con (unat pid) in
             Ok (Ready (AList.update (unat pid) \<lparr>tc_connection = con, tc_in = inp, tc_out = out\<rparr> connections))
         | _ \<Rightarrow> Panic ExplicitPanic)))"

text \<open>
  The accept loop on the streams that arrive, and the connections it leaves. It waits for the handshake of each stream; a panic
  there ends the task of the loop and nothing else, and no further connection is accepted.
\<close>

fun tf_accept ::
  "profile \<Rightarrow> ('s, 'g) group_ops \<Rightarrow> (stream \<times> stream) list \<Rightarrow> (nat \<times> tcp_connection) list \<Rightarrow> (nat \<times> tcp_connection) list" where
  "tf_accept P G [] connections = connections"
| "tf_accept P G (st # sts) connections =
     (case tf_handle_new_listen_connection P G connections st of
        Inl e \<Rightarrow> connections
      | Inr Pending \<Rightarrow> connections
      | Inr (Ready connections) \<Rightarrow> tf_accept P G sts connections)"

text \<open>
  The address of a peer is parsed and connected to by the operating system, an argument: \<open>None\<close> stands for
  an address or a connection that is refused, on which the code panics.
\<close>

definition tf_connect ::
  "profile \<Rightarrow> ('s, 'g) group_ops \<Rightarrow> (string \<Rightarrow> 16 word \<Rightarrow> (stream \<times> stream) option) \<Rightarrow> tcp_factory \<Rightarrow> peer_info list \<Rightarrow> tcp_factory res" where
  "tf_connect P G os_connect fac peer_infos =
     rfold (\<lambda>peer_info fac.
         if pi_id peer_info < tf_id fac then
           rbind (expect (os_connect (pi_ip_addr peer_info) (pi_port peer_info))) (\<lambda>(inp, out).
           let con = \<lparr>cn_peer_id = Some (pi_id peer_info), cn_stat = ns_new\<rparr> in
           rbind (tcp_send P G (Handshake (of_nat (tf_id fac))) (con, out)) (\<lambda>(con, out).
           Ok (fac\<lparr>tf_connections := AList.update (pi_id peer_info) \<lparr>tc_connection = con, tc_in = inp, tc_out = out\<rparr> (tf_connections fac)\<rparr>)))
         else Ok fac)
       peer_infos fac"

text \<open>
  What the connections have counted. After the set-up of party \<open>p\<close> these are handshakes of six bytes, sent to each peer of
  lower id and received from each one of higher id.
\<close>

type_synonym counters = "(nat \<times> net_stat) list"

definition tf_counters :: "(nat \<times> tcp_connection) list \<Rightarrow> counters" where
  "tf_counters conns = map (\<lambda>(q, tc). (q, cn_get_stat (tc_connection tc))) conns"

definition counters_start :: "nat \<Rightarrow> nat \<Rightarrow> counters" where
  "counters_start n p = map (\<lambda>q. (q, if q < p then \<lparr>ns_sent = 6, ns_received = 0\<rparr> else \<lparr>ns_sent = 0, ns_received = 6\<rparr>)) (others n p)"

lemma others_split: "p < n \<Longrightarrow> others n p = [0..<p] @ [Suc p..<n]"
proof -
  assume "p < n"
  then have "[0..<n] = [0..<p] @ p # [Suc p..<n]" using upt_add_eq_append [of 0 p "n - p"] by (simp add: upt_conv_Cons)
  then show ?thesis by (simp add: others_def filter_id_conv)
qed

lemma counters_start_split: "p < n \<Longrightarrow> counters_start n p = map (\<lambda>q. (q, \<lparr>ns_sent = 6, ns_received = 0\<rparr>)) [0..<p] @
    map (\<lambda>q. (q, \<lparr>ns_sent = 0, ns_received = 6\<rparr>)) [Suc p..<n]"
  by (simp add: counters_start_def others_split)

lemma tf_counters_update: "q \<notin> set (map fst conns) \<Longrightarrow> tf_counters (AList.update q tc conns) = tf_counters conns @ [(q, cn_get_stat (tc_connection tc))]"
  by (induction conns) (auto simp: tf_counters_def)

definition tf_get :: "tcp_factory \<Rightarrow> nat \<Rightarrow> tcp_connection option" where
  "tf_get fac ident = map_of (tf_connections fac) ident"

definition tf_is_ready :: "profile \<Rightarrow> tcp_factory \<Rightarrow> bool res" where
  "tf_is_ready P fac =
     rbind (sub_usize P (tf_party_num fac) 1) (\<lambda>m. Ok (length (tf_connections fac) = m))"

text \<open>
  \<open>get_handler\<close> waits until the factory is ready. The order in which it goes through the connections is
  that of a hash map, an argument.
\<close>

definition tf_get_handler ::
  "profile \<Rightarrow> tcp_factory \<Rightarrow> (nat \<times> tcp_connection) list \<Rightarrow> 'g message_handler poll res" where
  "tf_get_handler P fac iter =
     rbind (tf_is_ready P fac) (\<lambda>ready.
     if \<not> ready then Ok Pending
     else Ok (Ready (foldl (\<lambda>h (ident, con). if ident \<noteq> tf_id fac then mh_add_peer h ident else h)
       (mh_new (of_nat (tf_id fac))) iter)))"

lemma sendable_handshake [simp]: "sendable G (Send (Handshake pid))"
  by (simp add: sendable_def cmd_serialize_def)

lemma tcp_send_handshake:
  "tcp_send P G (Handshake pid) (\<lparr>cn_peer_id = x, cn_stat = ns_new\<rparr>, w)
     = Inr (\<lparr>cn_peer_id = x, cn_stat = \<lparr>ns_sent = 6, ns_received = 0\<rparr>\<rparr>, w\<lparr>ts_bytes := ts_bytes w @ frame G (Handshake pid)\<rparr>)"
  by (simp add: tcp_send_def ns_new_def add_u32_def arith_u32_def cmd_serialize_def write_all_def frame_def Let_def)

text \<open>Connecting: a connection to every peer of lower id, on which the handshake is the next frame.\<close>

lemma tf_connect_Ok:
  assumes "distinct (map pi_id infos)" "\<And>i. i \<in> set infos \<Longrightarrow> pi_id i < tf_id fac \<Longrightarrow>
      os_connect (pi_ip_addr i) (pi_port i) \<noteq> None" "set (map fst (tf_connections fac)) \<inter> set (map pi_id infos) = {}"
  shows "\<exists>fac'. tf_connect P G os_connect fac infos = Inr fac' \<and> tf_id fac' = tf_id fac \<and> tf_party_num fac' = tf_party_num fac \<and>
    map fst (tf_connections fac') = map fst (tf_connections fac) @ map pi_id (filter (\<lambda>i. pi_id i < tf_id fac) infos) \<and>
    tf_counters (tf_connections fac') = tf_counters (tf_connections fac) @
      map (\<lambda>i. (pi_id i, \<lparr>ns_sent = 6, ns_received = 0\<rparr>)) (filter (\<lambda>i. pi_id i < tf_id fac) infos) \<and>
    (\<forall>i\<in>set infos. pi_id i < tf_id fac \<longrightarrow> (\<exists>inp out con. os_connect (pi_ip_addr i) (pi_port i) = Some (inp, out) \<and>
       tf_get fac' (pi_id i) = Some \<lparr>tc_connection = con, tc_in = inp, tc_out = out\<lparr>ts_bytes := ts_bytes out @ frame G (Handshake (of_nat (tf_id fac)))\<rparr>\<rparr>)) \<and>
    (\<forall>q. q \<notin> pi_id ` set infos \<longrightarrow> tf_get fac' q = tf_get fac q)"
  using assms
proof (induction infos arbitrary: fac)
  case (Cons i infos)
  show ?case
  proof (cases "pi_id i < tf_id fac")
    case False
    then show ?thesis using Cons.IH [of fac] Cons.prems by (auto simp: tf_connect_def)
  next
    case True
    then obtain inp out where c: "os_connect (pi_ip_addr i) (pi_port i) = Some (inp, out)" using Cons.prems(2) [of i] by fastforce
    let ?tc = "\<lparr>tc_connection = \<lparr>cn_peer_id = Some (pi_id i), cn_stat = \<lparr>ns_sent = 6, ns_received = 0\<rparr>\<rparr>, tc_in = inp,
      tc_out = out\<lparr>ts_bytes := ts_bytes out @ frame G (Handshake (of_nat (tf_id fac)))\<rparr>\<rparr>"
    define fac1 where "fac1 = fac\<lparr>tf_connections := AList.update (pi_id i) ?tc (tf_connections fac)\<rparr>"
    have f1: "tf_id fac1 = tf_id fac" "tf_party_num fac1 = tf_party_num fac" by (simp_all add: fac1_def)
    have keys: "map fst (tf_connections fac1) = map fst (tf_connections fac) @ [pi_id i]"
      using Cons.prems(3) by (simp add: fac1_def update_keys)
    have cnt: "tf_counters (tf_connections fac1) = tf_counters (tf_connections fac) @ [(pi_id i, \<lparr>ns_sent = 6, ns_received = 0\<rparr>)]"
      unfolding fac1_def using Cons.prems(3) by (simp add: tf_counters_update cn_get_stat_def)
    have run: "tf_connect P G os_connect fac (i # infos) = tf_connect P G os_connect fac1 infos"
      using True c by (simp add: tf_connect_def tcp_send_handshake fac1_def)
    have get: "tf_get fac1 q = (if q = pi_id i then Some ?tc else tf_get fac q)" for q
      by (simp add: tf_get_def fac1_def update_conv)
    have "set (map fst (tf_connections fac1)) \<inter> set (map pi_id infos) = {}" using Cons.prems(1,3) unfolding keys by auto
    moreover have "os_connect (pi_ip_addr j) (pi_port j) \<noteq> None" if "j \<in> set infos" "pi_id j < tf_id fac1" for j
      using Cons.prems(2) [of j] that f1 by simp
    ultimately obtain fac' where IH: "tf_connect P G os_connect fac1 infos = Inr fac'" "tf_id fac' = tf_id fac" "tf_party_num fac' = tf_party_num fac"
        "map fst (tf_connections fac') = map fst (tf_connections fac1) @ map pi_id (filter (\<lambda>i. pi_id i < tf_id fac) infos)"
        "tf_counters (tf_connections fac') = tf_counters (tf_connections fac1) @
          map (\<lambda>i. (pi_id i, \<lparr>ns_sent = 6, ns_received = 0\<rparr>)) (filter (\<lambda>i. pi_id i < tf_id fac) infos)"
        "\<forall>j\<in>set infos. pi_id j < tf_id fac \<longrightarrow> (\<exists>inp out con. os_connect (pi_ip_addr j) (pi_port j) = Some (inp, out) \<and>
           tf_get fac' (pi_id j) = Some \<lparr>tc_connection = con, tc_in = inp, tc_out = out\<lparr>ts_bytes := ts_bytes out @ frame G (Handshake (of_nat (tf_id fac)))\<rparr>\<rparr>)"
        "\<forall>q. q \<notin> pi_id ` set infos \<longrightarrow> tf_get fac' q = tf_get fac1 q"
      using Cons.IH [of fac1] Cons.prems(1) unfolding f1 by auto
    have "tf_get fac' (pi_id i) = Some ?tc" using IH(7) Cons.prems(1) get by simp
    moreover have "tf_get fac' q = tf_get fac q" if "q \<notin> pi_id ` set (i # infos)" for q using IH(7) that get by simp
    ultimately show ?thesis
      using IH(1-6) keys cnt c True run by (intro exI [of _ fac']) auto
  qed
qed (simp add: tf_connect_def)

text \<open>Accepting: the peers whose handshakes arrive.\<close>

lemma tf_accept_Ok:
  assumes "codec_ok G" "distinct (map fst conns @ map fst inc)"
    "\<forall>(pid, inp, out)\<in>set inc. pid < 256 \<and> (\<exists>rest. ts_bytes inp = frame G (Handshake (of_nat pid)) @ rest)"
  shows "\<exists>conns'. tf_accept P G (map snd inc) conns = conns' \<and> map fst conns' = map fst conns @ map fst inc \<and>
    tf_counters conns' = tf_counters conns @ map (\<lambda>x. (fst x, \<lparr>ns_sent = 0, ns_received = 6\<rparr>)) inc"
  using assms(2,3)
proof (induction inc arbitrary: conns)
  case (Cons x inc)
  obtain pid inp out where x: "x = (pid, inp, out)" by (cases x)
  then obtain rest where f: "pid < 256" "ts_bytes inp = frame G (Handshake (of_nat pid)) @ rest" using Cons.prems(2) by auto
  have pid: "unat (of_nat pid :: u8) = pid" using f(1) by (simp add: unat_of_nat)
  have "P = Release \<or> unat (ns_received (cn_stat \<lparr>cn_peer_id = None, cn_stat = ns_new\<rparr>)) + length (cmd_serialize G (Handshake (of_nat pid))) + 4 < 2 ^ 32"
    by (simp add: ns_new_def cmd_serialize_def)
  from tcp_receive_frame [OF assms(1) sendable_handshake f(2) this]
  obtain con w where con: "tcp_receive P G (\<lparr>cn_peer_id = None, cn_stat = ns_new\<rparr>, inp) = Inr (Ready (Some (Handshake (of_nat pid)), con, w))"
      "cn_get_stat con = \<lparr>ns_sent = 0, ns_received = 6\<rparr>"
    by (simp add: cn_get_stat_def ns_new_def cmd_serialize_def)
  then have "tf_handle_new_listen_connection P G conns (inp, out)
      = Inr (Ready (AList.update pid \<lparr>tc_connection = cn_set_peer_id con pid, tc_in = w, tc_out = out\<rparr> conns))"
    by (simp add: tf_handle_new_listen_connection_def pid Let_def)
  moreover have "map fst (AList.update pid \<lparr>tc_connection = cn_set_peer_id con pid, tc_in = w, tc_out = out\<rparr> conns) = map fst conns @ [pid]"
    using Cons.prems(1) x by (simp add: update_keys)
  moreover have "tf_counters (AList.update pid \<lparr>tc_connection = cn_set_peer_id con pid, tc_in = w, tc_out = out\<rparr> conns)
      = tf_counters conns @ [(pid, \<lparr>ns_sent = 0, ns_received = 6\<rparr>)]"
    using Cons.prems(1) x con(2) by (simp add: tf_counters_update cn_get_stat_def cn_set_peer_id_def)
  ultimately show ?case using Cons.IH [of "AList.update pid \<lparr>tc_connection = cn_set_peer_id con pid, tc_in = w, tc_out = out\<rparr> conns"] Cons.prems x
    by auto
qed simp

lemma tf_handler_ready:
  assumes "tf_party_num fac = n" "tf_id fac = p" "p < n" "mset iter = mset (tf_connections fac)"
    "distinct (map fst (tf_connections fac))" "set (map fst (tf_connections fac)) = {q. q < n \<and> q \<noteq> p}"
  shows "\<exists>h :: 'g message_handler. tf_get_handler P fac iter = Inr (Ready h) \<and> mh_ready n p h"
proof -
  have "length (tf_connections fac) = card {q. q < n \<and> q \<noteq> p}"
    using distinct_card [OF assms(5)] assms(6) by simp
  also have "\<dots> = length (others n p)" using distinct_card [of "others n p"] by (simp add: others_def distinct_filter Collect_conj_eq) 
  finally have len: "length (tf_connections fac) = n - 1" using length_others [OF assms(3)] by simp
  have ids: "\<forall>x\<in>set iter. fst x \<noteq> p"
    using mset_eq_setD [OF assms(4)] assms(6) by auto
  have "foldl (\<lambda>h (ident, con). if ident \<noteq> p then mh_add_peer h ident else h) h iter = foldl mh_add_peer h (map fst iter)"
    for h :: "'g message_handler" using ids by (induction iter arbitrary: h) auto
  then have "tf_get_handler P fac iter = Inr (Ready (foldl mh_add_peer (mh_new (of_nat p) :: 'g message_handler) (map fst iter)))"
    using assms(1-3) len by (simp add: tf_get_handler_def tf_is_ready_def)
  moreover have "length (map fst iter) = n - 1" using len mset_eq_length [OF assms(4)] by simp
  ultimately show ?thesis using handler_ready by blast
qed

text \<open>
  The set-up of party \<open>p\<close>: it listens, connects to the peers of lower id, accepts those of higher id in
  any order, and then has its handler.
\<close>

lemma tcp_setup_ready:
  assumes G: "codec_ok G" and n: "n \<le> 256" "p < n" and infos: "map pi_id infos = [0..<n]"
    and conn: "\<forall>i\<in>set infos. pi_id i < p \<longrightarrow> os_connect (pi_ip_addr i) (pi_port i) \<noteq> None"
    and inc: "mset (map fst inc) = mset [Suc p..<n]"
      "\<forall>(pid, inp, out)\<in>set inc. \<exists>rest. ts_bytes inp = frame G (Handshake (of_nat pid)) @ rest"
  shows "\<exists>fac conns. tf_connect P G os_connect (tf_new p n) infos = Inr fac \<and>
    tf_accept P G (map snd inc) (tf_connections fac) = conns \<and> mset (tf_counters conns) = mset (counters_start n p) \<and>
    (\<forall>iter. mset iter = mset conns \<longrightarrow>
      (\<exists>h :: 'g message_handler. tf_get_handler P (fac\<lparr>tf_connections := conns\<rparr>) iter = Inr (Ready h) \<and> mh_ready n p h))"
proof -
  have "distinct (map pi_id infos)" by (simp add: infos)
  then obtain fac where fac: "tf_connect P G os_connect (tf_new p n) infos = Inr fac" "tf_id fac = p" "tf_party_num fac = n"
      "map fst (tf_connections fac) = map pi_id (filter (\<lambda>i. pi_id i < p) infos)"
      "tf_counters (tf_connections fac) = map (\<lambda>i. (pi_id i, \<lparr>ns_sent = 6, ns_received = 0\<rparr>)) (filter (\<lambda>i. pi_id i < p) infos)"
    using tf_connect_Ok [of infos "tf_new p n" os_connect P G] conn by (auto simp: tf_new_def tf_counters_def)
  have "map pi_id (filter (\<lambda>i. pi_id i < p) infos) = filter (\<lambda>i. i < p) (map pi_id infos)" by (simp add: filter_map comp_def)
  also have "\<dots> = [0..<p]"
  proof -
    have "filter (\<lambda>i. i < p) [0..<n] = filter (\<lambda>i. i < p) ([0..<p] @ [p..<n])" using n(2) upt_add_eq_append [of 0 p "n - p"] by simp
    also have "\<dots> = [0..<p]" by (simp add: filter_empty_conv)
    finally show ?thesis by (simp add: infos)
  qed
  finally have low: "map pi_id (filter (\<lambda>i. pi_id i < p) infos) = [0..<p]" .
  then have keys: "map fst (tf_connections fac) = [0..<p]" using fac(4) by simp
  have cnt: "tf_counters (tf_connections fac) = map (\<lambda>q. (q, \<lparr>ns_sent = 6, ns_received = 0\<rparr>)) [0..<p]"
    unfolding fac(5) low [symmetric] by (simp add: comp_def)
  have ids: "set (map fst inc) = {Suc p..<n}" "distinct (map fst inc)"
    using mset_eq_setD [OF inc(1)] mset_eq_imp_distinct_iff [OF inc(1)] by simp_all
  then have "distinct (map fst (tf_connections fac) @ map fst inc)" unfolding keys distinct_append by auto
  moreover have "\<forall>(pid, inp, out)\<in>set inc. pid < 256 \<and> (\<exists>rest. ts_bytes inp = frame G (Handshake (of_nat pid)) @ rest)"
  proof
    fix x assume x: "x \<in> set inc"
    then have "fst x \<in> set (map fst inc)" by simp
    then have "fst x < 256" using ids(1) n(1) by simp
    then show "case x of (pid, inp, out) \<Rightarrow> pid < 256 \<and> (\<exists>rest. ts_bytes inp = frame G (Handshake (of_nat pid)) @ rest)"
      using bspec [OF inc(2) x] by (simp add: case_prod_unfold)
  qed
  ultimately obtain conns where conns: "tf_accept P G (map snd inc) (tf_connections fac) = conns"
      "map fst conns = [0..<p] @ map fst inc"
      "tf_counters conns = map (\<lambda>q. (q, \<lparr>ns_sent = 6, ns_received = 0\<rparr>)) [0..<p] @ map (\<lambda>x. (fst x, \<lparr>ns_sent = 0, ns_received = 6\<rparr>)) inc"
    using tf_accept_Ok [OF G, of "tf_connections fac" inc P] keys cnt by auto
  have "mset (map (\<lambda>x. (fst x, \<lparr>ns_sent = 0, ns_received = 6\<rparr>)) inc) = image_mset (\<lambda>q. (q, \<lparr>ns_sent = 0, ns_received = 6\<rparr>)) (mset (map fst inc))"
    by (simp add: multiset.map_comp comp_def)
  then have "mset (tf_counters conns) = mset (counters_start n p)"
    unfolding conns(3) counters_start_split [OF n(2)] inc(1) by simp
  have dist: "distinct (map fst conns)" "set (map fst conns) = {q. q < n \<and> q \<noteq> p}"
    using ids n(2) unfolding conns(2) by auto
  have "\<exists>h :: 'g message_handler. tf_get_handler P (fac\<lparr>tf_connections := conns\<rparr>) iter = Inr (Ready h) \<and> mh_ready n p h"
    if "mset iter = mset conns" for iter
    by (rule tf_handler_ready [OF _ _ n(2)]) (use fac(2,3) that dist in simp_all)
  with fac(1) conns(1) \<open>mset (tf_counters conns) = _\<close> show ?thesis by blast
qed

section \<open>Totals\<close>

lemma add_u32_nat:
  assumes "a < 2 ^ 32"
  shows "add_u32 P (of_nat a) b = (if P = Release \<or> a + unat b < 2 ^ 32 then Inr (of_nat (a + unat b)) else Inl ArithOverflow)"
  using unat_of_nat_u32 [OF assms] by (auto simp: add_u32_def arith_u32_def)

lemma netstat_fold:
  assumes "P = Release \<or> s < 2 ^ 32 \<and> r < 2 ^ 32"
  shows "rfold (\<lambda>stat (out, done_stats). rbind (ns_add P out stat) (\<lambda>out. Ok (out, done_stats @ [ns_new]))) stats
      (\<lparr>ns_sent = of_nat s, ns_received = of_nat r\<rparr>, ds)
    = (if P = Release \<or> s + (\<Sum>x\<leftarrow>stats. unat (ns_sent x)) < 2 ^ 32 \<and> r + (\<Sum>x\<leftarrow>stats. unat (ns_received x)) < 2 ^ 32
       then Inr (\<lparr>ns_sent = of_nat (s + (\<Sum>x\<leftarrow>stats. unat (ns_sent x))), ns_received = of_nat (r + (\<Sum>x\<leftarrow>stats. unat (ns_received x)))\<rparr>,
         ds @ replicate (length stats) ns_new)
       else Inl ArithOverflow)"
  using assms
proof (induction stats arbitrary: s r ds)
  case (Cons x stats)
  let ?s = "s + unat (ns_sent x)" and ?r = "r + unat (ns_received x)"
  show ?case
  proof (cases "P = Release \<or> ?s < 2 ^ 32 \<and> ?r < 2 ^ 32")
    case True
    have "ns_add P \<lparr>ns_sent = of_nat s, ns_received = of_nat r\<rparr> x = Inr \<lparr>ns_sent = of_nat ?s, ns_received = of_nat ?r\<rparr>"
      using True Cons.prems by (cases "P = Release") (auto simp: ns_add_def add_u32_nat)
    then show ?thesis using Cons.IH [OF True, of "ds @ [ns_new]"] by (simp add: add.assoc)
  next
    case False
    then have "ns_add P \<lparr>ns_sent = of_nat s, ns_received = of_nat r\<rparr> x = Inl ArithOverflow"
      using Cons.prems by (auto simp: ns_add_def add_u32_nat)
    then show ?thesis using False by auto
  qed
qed simp

lemma distinct_pairs: "distinct [(p, q). p \<leftarrow> [0..<m], q \<leftarrow> [0..<n], q \<noteq> p]"
proof (induction m)
  case (Suc m)
  have "distinct [(m, q). q \<leftarrow> [0..<n], q \<noteq> m]"
    by (induction n) auto
  then show ?case using Suc by auto
qed simp

section \<open>Properties\<close>

text \<open>C20. A framed TCP connection refines a queue of commands: whatever the order of sends and receives, every receive
  gives the oldest command that was sent and not received yet, unchanged, and waits when there is none. A build without overflow checks
  needs nothing for that; with overflow checks the 32-bit counters of the two ends have to have room for what is sent, as the ends panic
  otherwise (\<open>tcp_send_overflow\<close>).\<close>

theorem tcp_refines_queue:
  assumes "codec_ok G" and "\<forall>op\<in>set ops. sendable G op" and "T = ops_cost (\<lambda>c. length (cmd_serialize G c) + 4) ops"
    and "P = Release \<or> unat (ns_sent (cn_stat a)) + T < 2 ^ 32 \<and> unat (ns_received (cn_stat b)) + T < 2 ^ 32"
  shows "link_run (tcp_send P G) (tcp_receive P G) ops (a, stream_new, b) = Inr (queue_run ops [])"
  by (rule tcp_link.run_queue) (use assms in \<open>auto simp: stream_holds_def stream_new_def room_def\<close>)

theorem tcp_refines_queue_witness:
  "link_run (tcp_send Dev ring256_group) (tcp_receive Dev ring256_group)
      [Send (Handshake 3), Send (DabitExchange 3 9 [1, 2]), Receive, Receive, Receive]
      (\<lparr>cn_peer_id = None, cn_stat = ns_new\<rparr>, stream_new, \<lparr>cn_peer_id = None, cn_stat = ns_new\<rparr>)
    = Inr [Ready (Some (Handshake 3)), Ready (Some (DabitExchange 3 9 [1, 2])), Pending]"
  by (subst tcp_refines_queue [OF _ _ refl]) (simp_all add: codec_ok_ring256 sendable_def cmd_serialize_def div_ceil_def ns_new_def)

lemma tcp_send_overflow:
  assumes "length (cmd_serialize G c) + 4 < 2 ^ 32" and "2 ^ 32 \<le> unat (ns_sent (cn_stat con)) + length (cmd_serialize G c) + 4"
  shows "tcp_send Dev G c (con, w) = Inl ArithOverflow"
proof -
  have l: "unat (of_nat (length (cmd_serialize G c)) :: u32) = length (cmd_serialize G c)" using assms(1) by (intro unat_of_nat_u32) simp
  have "room Dev (of_nat (length (cmd_serialize G c))) (4 + 0)" using assms(1) l by (simp add: room_def)
  from room_add(1) [OF this, of 4] have "add_u32 Dev (of_nat (length (cmd_serialize G c))) 4 = Inr (of_nat (length (cmd_serialize G c)) + 4)" by simp
  moreover have "unat (of_nat (length (cmd_serialize G c)) + 4 :: u32) = length (cmd_serialize G c) + 4" using assms(1) l by (simp add: unat_word_ariths)
  ultimately show ?thesis using assms(2) by (simp add: tcp_send_def Let_def) (simp add: add_u32_def arith_u32_def)
qed

text \<open>So does an in-memory channel connection.\<close>

lemma channel_refines_queue:
  assumes "codec_ok G" and "\<forall>op\<in>set ops. sendable G op" and "T = ops_cost (\<lambda>c. length (cmd_serialize G c)) ops"
    and "P = Release \<or> unat (ns_sent (cn_stat a)) + T < 2 ^ 32 \<and> unat (ns_received (cn_stat b)) + T < 2 ^ 32"
  shows "link_run (cc_send P G) (cc_receive P G) ops (a, channel_new, b) = Inr (queue_run ops [])"
  by (rule channel_link.run_queue) (use assms in \<open>auto simp: channel_holds_def channel_new_def room_def\<close>)

text \<open>C28. The channel manager sets up a complete network: asked for the handlers of all parties in turn it gives each one
  that is ready for the protocol, with a connection to every other party; the channel a party sends on is the one its
  peer receives on, and no channel is handed out twice.\<close>

theorem channel_handlers:
  "\<exists>hs :: nat \<Rightarrow> 'g message_handler. \<exists>cons cm. rfold (\<lambda>p (outs, cm). rbind (cm_get_handler cm p) (\<lambda>(h, cm). Ok (outs @ [h], cm))) [0..<n] ([], cm_new n)
      = Inr (map (\<lambda>p. (hs p, cons p)) [0..<n], cm) \<and>
    list_all (\<lambda>p. mh_ready n p (hs p) \<and> dom (cons p) = {q. q < n \<and> q \<noteq> p} \<and>
      list_all (\<lambda>q. q = p \<or> map_option cc_sender (cons p q) = map_option cc_receiver (cons q p)) [0..<n]) [0..<n] \<and>
    distinct (map (\<lambda>(p, q). map_option cc_sender (cons p q)) [(p, q). p \<leftarrow> [0..<n], q \<leftarrow> [0..<n], q \<noteq> p])"
proof -
  let ?hs = "\<lambda>p. foldl mh_add_peer (mh_new (of_nat p)) (others n p) :: 'g message_handler"
  let ?cons = "\<lambda>p q. if q < n \<and> q \<noteq> p then Some (channel_of p q) else None"
  have "rfold (\<lambda>p (outs, cm). rbind (cm_get_handler cm p) (\<lambda>(h, cm). Ok (outs @ [h], cm))) [0..<i] ([], cm_new n)
      = Inr (map (\<lambda>p. (?hs p, ?cons p)) [0..<i], cm_left n i 0)" if "i \<le> n" for i
    using that by (induction i) (simp_all add: cm_new_left rfold_append cm_get_handler_left)
  moreover have "mh_ready n p (?hs p)" if "p < n" for p by (rule handler_ready [OF length_others [OF that]])
  moreover have "distinct (map (\<lambda>(p, q). map_option cc_sender (?cons p q)) [(p, q). p \<leftarrow> [0..<n], q \<leftarrow> [0..<n], q \<noteq> p])"
  proof -
    have "distinct [(p, q). p \<leftarrow> [0..<n], q \<leftarrow> [0..<n], q \<noteq> p]" by (rule distinct_pairs)
    then show ?thesis by (auto simp: distinct_map inj_on_def channel_of_def)
  qed
  ultimately show ?thesis
    by (intro exI [of _ ?hs] exI [of _ ?cons] exI [of _ "cm_left n n 0"]) (auto simp: list_all_iff dom_def channel_of_def split: if_splits)
qed

text \<open>C29. The TCP set-up of a party ends with a handler that is ready for the protocol: when the operating system connects it
  to the peers of lower id, and the peers of higher id connect to it in any order and send their handshake first, the
  factory has exactly one connection per peer, so that \<open>get_handler\<close> stops waiting, whatever the order in which it goes
  through the connections. The handshake a connecting party sends is what the accepting one reads, and these handshakes are
  all the connections have counted.\<close>

theorem tcp_setup:
  assumes "codec_ok G" and "n \<le> 256" and "p < n" and "map pi_id infos = [0..<n]"
    and "\<forall>i\<in>set infos. pi_id i < p \<longrightarrow> os_connect (pi_ip_addr i) (pi_port i) \<noteq> None"
    and "mset (map fst inc) = mset [Suc p..<n]"
    and "\<forall>(pid, inp, out)\<in>set inc. \<exists>rest. ts_bytes inp = frame G (Handshake (of_nat pid)) @ rest"
  shows "\<exists>fac conns. tf_connect P G os_connect (tf_new p n) infos = Inr fac \<and>
    (\<forall>i\<in>set infos. pi_id i < p \<longrightarrow> (\<exists>inp out con. os_connect (pi_ip_addr i) (pi_port i) = Some (inp, out) \<and>
       tf_get fac (pi_id i) = Some \<lparr>tc_connection = con, tc_in = inp, tc_out = out\<lparr>ts_bytes := ts_bytes out @ frame G (Handshake (of_nat p))\<rparr>\<rparr>)) \<and>
    tf_accept P G (map snd inc) (tf_connections fac) = conns \<and> mset (tf_counters conns) = mset (counters_start n p) \<and>
    (\<forall>iter. mset iter = mset conns \<longrightarrow>
      (\<exists>h :: 'g message_handler. tf_get_handler P (fac\<lparr>tf_connections := conns\<rparr>) iter = Inr (Ready h) \<and> mh_ready n p h))"
proof -
  obtain fac conns where f: "tf_connect P G os_connect (tf_new p n) infos = Inr fac" "tf_accept P G (map snd inc) (tf_connections fac) = conns"
      "mset (tf_counters conns) = mset (counters_start n p)" "\<forall>iter. mset iter = mset conns \<longrightarrow>
      (\<exists>h :: 'g message_handler. tf_get_handler P (fac\<lparr>tf_connections := conns\<rparr>) iter = Inr (Ready h) \<and> mh_ready n p h)"
    using tcp_setup_ready [OF assms, of P] by blast
  have "distinct (map pi_id infos)" by (simp add: assms(4))
  then have "\<forall>i\<in>set infos. pi_id i < p \<longrightarrow> (\<exists>inp out con. os_connect (pi_ip_addr i) (pi_port i) = Some (inp, out) \<and>
       tf_get fac (pi_id i) = Some \<lparr>tc_connection = con, tc_in = inp, tc_out = out\<lparr>ts_bytes := ts_bytes out @ frame G (Handshake (of_nat p))\<rparr>\<rparr>)"
    using tf_connect_Ok [of infos "tf_new p n" os_connect P G] assms(5) f(1) by (simp add: tf_new_def)
  with f show ?thesis by blast
qed

text \<open>Three parties on one host, seen by the one in the middle.\<close>

definition sample_peers :: "peer_info list" where
  "sample_peers = map (\<lambda>i. \<lparr>pi_id = i, pi_ip_addr = ''127.0.0.1'', pi_port = 8000 + of_nat i, pi_seed = replicate 32 0\<rparr>) [0..<3]"

theorem tcp_setup_witness:
  "\<exists>fac conns h. tf_connect Dev ring256_group (\<lambda>_ _. Some (stream_new, stream_new)) (tf_new 1 3) sample_peers = Inr fac \<and>
    tf_accept Dev ring256_group [(\<lparr>ts_bytes = frame ring256_group (Handshake 2), ts_open = True\<rparr>, stream_new)] (tf_connections fac) = conns \<and>
    tf_get_handler Dev (fac\<lparr>tf_connections := conns\<rparr>) (rev conns) = Inr (Ready h) \<and> mh_ready 3 1 (h :: 256 word message_handler)"
proof -
  let ?inc = "[(2 :: nat, \<lparr>ts_bytes = frame ring256_group (Handshake 2), ts_open = True\<rparr>, stream_new)]"
  have "mset (map fst ?inc) = mset [Suc 1..<3]" by (simp add: upt_rec)
  moreover have "map pi_id sample_peers = [0..<3]" by (simp add: sample_peers_def comp_def)
  ultimately obtain fac conns where "tf_connect Dev ring256_group (\<lambda>_ _. Some (stream_new, stream_new)) (tf_new 1 3) sample_peers = Inr fac"
      "tf_accept Dev ring256_group (map snd ?inc) (tf_connections fac) = conns"
      "\<forall>iter. mset iter = mset conns \<longrightarrow> (\<exists>h :: 256 word message_handler. tf_get_handler Dev (fac\<lparr>tf_connections := conns\<rparr>) iter = Inr (Ready h) \<and> mh_ready 3 1 h)"
    using tcp_setup [OF codec_ok_ring256, of 3 1 sample_peers "\<lambda>_ _. Some (stream_new, stream_new)" ?inc Dev] by fastforce
  moreover have "mset (rev conns) = mset conns" by simp
  ultimately show ?thesis by fastforce
qed

text \<open>Summing up the traffic of all peers: the counters are 32-bit words, so that the sum of a connected handler's
  counters is right as long as it fits; with overflow checks it panics otherwise, without them it wraps. Afterwards
  every counter is zero.\<close>

lemma netstat_sums:
  "get_then_reset_netstat P stats =
     (if P = Release \<or> (\<Sum>s\<leftarrow>stats. unat (ns_sent s)) < 2 ^ 32 \<and> (\<Sum>s\<leftarrow>stats. unat (ns_received s)) < 2 ^ 32
      then Inr (\<lparr>ns_sent = of_nat (\<Sum>s\<leftarrow>stats. unat (ns_sent s)), ns_received = of_nat (\<Sum>s\<leftarrow>stats. unat (ns_received s))\<rparr>,
        replicate (length stats) ns_new)
      else Inl ArithOverflow)"
  using netstat_fold [of P 0 0 stats "[]"] by (simp add: get_then_reset_netstat_def ns_new_def)

end
