(* ===== verification/Network.thy ===== *)
theory Network
  imports Protocol
begin

text \<open>
  The parties as processes that run at their own pace. A broadcast joins one \<open>send\<close> per peer and a
  \<open>receive_all\<close> one \<open>receive\<close> per peer (\<open>MpcMessageHandler\<close> in \<open>src/prc/connection.rs\<close>), each
  connection is a queue with a bounded number of messages, as the channels of \<open>ChannelConnection\<close> are (the bytes of \<open>TcpConnection\<close> are in \<open>Sockets\<close>), and any party may take the next step. \<open>all_finish\<close>,
  which runs the parties in rounds, is sound for these executions: whatever the interleaving, no
  execution blocks or runs forever, and all end with the results \<open>all_finish\<close> promises.
\<close>

section \<open>Executions\<close>

text \<open>
  A party has its program, the peers the current operation has not served yet, and what it has received
  so far; \<open>nt_link s q p\<close> is what travels from \<open>q\<close> to \<open>p\<close>.
\<close>

record ('m, 'a) net =
  nt_prog :: "nat \<Rightarrow> ('m, 'a) prog"
  nt_todo :: "nat \<Rightarrow> nat set"
  nt_got :: "nat \<Rightarrow> (nat \<times> 'm option) list"
  nt_link :: "nat \<Rightarrow> nat \<Rightarrow> 'm list"

definition peers :: "nat \<Rightarrow> nat \<Rightarrow> nat set" where
  "peers n p = {q. q < n \<and> q \<noteq> p}"

definition net_init :: "nat \<Rightarrow> (nat \<Rightarrow> ('m, 'a) prog) \<Rightarrow> ('m, 'a) net" where
  "net_init n ps = \<lparr>nt_prog = ps, nt_todo = peers n, nt_got = (\<lambda>_. []), nt_link = (\<lambda>_ _. [])\<rparr>"

definition put_link :: "nat \<Rightarrow> nat \<Rightarrow> 'm list \<Rightarrow> ('m, 'a) net \<Rightarrow> ('m, 'a) net" where
  "put_link q p ms s = s\<lparr>nt_link := (nt_link s)(q := (nt_link s q)(p := ms))\<rparr>"

definition set_party :: "nat \<Rightarrow> ('m, 'a) prog \<Rightarrow> nat set \<Rightarrow> (nat \<times> 'm option) list \<Rightarrow> ('m, 'a) net \<Rightarrow> ('m, 'a) net" where
  "set_party p pr todo got s = s\<lparr>nt_prog := (nt_prog s)(p := pr), nt_todo := (nt_todo s)(p := todo), nt_got := (nt_got s)(p := got)\<rparr>"

inductive net_step :: "nat \<Rightarrow> nat \<Rightarrow> ('m, 'a) net \<Rightarrow> ('m, 'a) net \<Rightarrow> bool" for n cap :: nat where
  send: "p < n \<Longrightarrow> nt_prog s p = Broadcast m k \<Longrightarrow> q \<in> nt_todo s p \<Longrightarrow> length (nt_link s p q) < cap \<Longrightarrow>
     net_step n cap s (put_link p q (nt_link s p q @ [m]) (set_party p (Broadcast m k) (nt_todo s p - {q}) (nt_got s p) s))"
| sent: "p < n \<Longrightarrow> nt_prog s p = Broadcast m k \<Longrightarrow> nt_todo s p = {} \<Longrightarrow>
     net_step n cap s (set_party p k (peers n p) [] s)"
| receive: "p < n \<Longrightarrow> nt_prog s p = ReceiveAll k \<Longrightarrow> q \<in> nt_todo s p \<Longrightarrow> nt_link s q p = m # ms \<Longrightarrow>
     net_step n cap s (put_link q p ms (set_party p (ReceiveAll k) (nt_todo s p - {q}) (nt_got s p @ [(q, Some m)]) s))"
| received: "p < n \<Longrightarrow> nt_prog s p = ReceiveAll k \<Longrightarrow> nt_todo s p = {} \<Longrightarrow>
     net_step n cap s (set_party p (k (nt_got s p)) (peers n p) [] s)"

text \<open>
  \<open>inevitable n cap Q s\<close>: every execution from \<open>s\<close> comes to an end, only stops when all parties are
  done and no message is left, and then the results satisfy \<open>Q\<close>.
\<close>

inductive inevitable :: "nat \<Rightarrow> nat \<Rightarrow> ((nat \<Rightarrow> 'a) \<Rightarrow> bool) \<Rightarrow> ('m, 'a) net \<Rightarrow> bool" for n cap :: nat and Q where
  ends: "(\<And>p. p < n \<Longrightarrow> nt_prog s p = Done (xs p)) \<Longrightarrow> (\<And>p q. p < n \<Longrightarrow> q < n \<Longrightarrow> p \<noteq> q \<Longrightarrow> nt_link s q p = []) \<Longrightarrow>
     Q xs \<Longrightarrow> inevitable n cap Q s"
| goes_on: "net_step n cap s s0 \<Longrightarrow> (\<And>s'. net_step n cap s s' \<Longrightarrow> inevitable n cap Q s') \<Longrightarrow> inevitable n cap Q s"

section \<open>Rounds of the parties\<close>

text \<open>The peers a party has served in its current round.\<close>

definition sent_to :: "nat \<Rightarrow> ('m, 'a) net \<Rightarrow> nat \<Rightarrow> nat set" where
  "sent_to n s p = (case nt_prog s p of Broadcast _ _ \<Rightarrow> peers n p - nt_todo s p | ReceiveAll _ \<Rightarrow> peers n p | _ \<Rightarrow> {})"

definition heard_from :: "nat \<Rightarrow> ('m, 'a) net \<Rightarrow> nat \<Rightarrow> nat set" where
  "heard_from n s p = (case nt_prog s p of ReceiveAll _ \<Rightarrow> peers n p - nt_todo s p | _ \<Rightarrow> {})"

text \<open>How many messages a party in round \<open>r p\<close> has sent to \<open>q\<close>, and how many it has of \<open>q\<close>.\<close>

definition num_sent :: "nat \<Rightarrow> ('m, 'a) net \<Rightarrow> (nat \<Rightarrow> nat) \<Rightarrow> nat \<Rightarrow> nat \<Rightarrow> nat" where
  "num_sent n s r p q = r p + (if q \<in> sent_to n s p then 1 else 0)"

definition num_heard :: "nat \<Rightarrow> ('m, 'a) net \<Rightarrow> (nat \<Rightarrow> nat) \<Rightarrow> nat \<Rightarrow> nat \<Rightarrow> nat" where
  "num_heard n s r p q = r p + (if q \<in> heard_from n s p then 1 else 0)"

text \<open>Where a party is in the round that starts with the program \<open>b\<close>; \<open>mm q\<close> is what \<open>q\<close> sends in it.\<close>

definition in_round :: "nat \<Rightarrow> ('m, 'a) net \<Rightarrow> ('m, 'a) prog \<Rightarrow> (nat \<Rightarrow> 'm) \<Rightarrow> nat \<Rightarrow> bool" where
  "in_round n s b mm p \<longleftrightarrow> nt_todo s p \<subseteq> peers n p \<and>
     ((\<exists>x. b = Done x \<and> nt_prog s p = b) \<or>
      (\<exists>k. b = Broadcast (mm p) (ReceiveAll k) \<and>
        (nt_prog s p = b \<or> nt_prog s p = ReceiveAll k \<and> mset (nt_got s p) = image_mset (\<lambda>q. (q, Some (mm q))) (mset_set (peers n p - nt_todo s p)))))"

text \<open>
  Party \<open>p\<close> is in round \<open>r p\<close>, which starts with \<open>b p\<close>; \<open>m j q\<close> is what \<open>q\<close> sends in round \<open>j\<close>. A link holds
  the messages that were sent and not received.
\<close>

definition net_inv ::
  "nat \<Rightarrow> ('m, 'a) net \<Rightarrow> (nat \<Rightarrow> nat \<Rightarrow> 'm) \<Rightarrow> (nat \<Rightarrow> nat) \<Rightarrow> (nat \<Rightarrow> ('m, 'a) prog) \<Rightarrow> bool" where
  "net_inv n s m r b \<longleftrightarrow> (\<forall>p<n. in_round n s (b p) (m (r p)) p) \<and>
     (\<forall>p<n. \<forall>q<n. p \<noteq> q \<longrightarrow> num_heard n s r p q \<le> num_sent n s r q p \<and>
        nt_link s q p = map (\<lambda>j. m j q) [num_heard n s r p q..<num_sent n s r q p])"

text \<open>The operations left in the round of a party.\<close>

definition ops_left :: "nat \<Rightarrow> ('m, 'a) net \<Rightarrow> nat \<Rightarrow> nat" where
  "ops_left n s p = (case nt_prog s p of Broadcast _ _ \<Rightarrow> card (nt_todo s p) + n + 2 | ReceiveAll _ \<Rightarrow> card (nt_todo s p) + 1 | _ \<Rightarrow> 0)"

lemma finite_peers [simp]: "finite (peers n p)" by (simp add: peers_def)

lemma card_peers: "p < n \<Longrightarrow> card (peers n p) = n - 1"
proof -
  assume "p < n"
  then have "card ({..<n} - {p}) = n - 1" by simp
  moreover have "{..<n} - {p} = peers n p" by (auto simp: peers_def)
  ultimately show ?thesis by simp
qed

lemma put_link_simps [simp]:
  "nt_prog (put_link q p ms s) = nt_prog s" "nt_todo (put_link q p ms s) = nt_todo s" "nt_got (put_link q p ms s) = nt_got s"
  "nt_link (put_link q p ms s) q' p' = (if q' = q \<and> p' = p then ms else nt_link s q' p')"
  by (auto simp: put_link_def)

lemma set_party_simps [simp]:
  "nt_prog (set_party p pr td gt s) p' = (if p' = p then pr else nt_prog s p')"
  "nt_todo (set_party p pr td gt s) p' = (if p' = p then td else nt_todo s p')"
  "nt_got (set_party p pr td gt s) p' = (if p' = p then gt else nt_got s p')"
  "nt_link (set_party p pr td gt s) = nt_link s"
  by (simp_all add: set_party_def)

lemma sent_to_simps [simp]:
  "sent_to n (put_link q p ms s) = sent_to n s"
  "sent_to n (set_party p pr td gt s) p' = (if p' = p then
     (case pr of Broadcast _ _ \<Rightarrow> peers n p - td | ReceiveAll _ \<Rightarrow> peers n p | _ \<Rightarrow> {}) else sent_to n s p')"
  by (simp_all add: sent_to_def fun_eq_iff cong: prog.case_cong)

lemma heard_from_simps [simp]:
  "heard_from n (put_link q p ms s) = heard_from n s"
  "heard_from n (set_party p pr td gt s) p' = (if p' = p then (case pr of ReceiveAll _ \<Rightarrow> peers n p - td | _ \<Rightarrow> {}) else heard_from n s p')"
  by (simp_all add: heard_from_def fun_eq_iff cong: prog.case_cong)

lemma ops_left_simps [simp]:
  "ops_left n (put_link q p ms s) = ops_left n s"
  "ops_left n (set_party p pr td gt s) p' = (if p' = p then
     (case pr of Broadcast _ _ \<Rightarrow> card td + n + 2 | ReceiveAll _ \<Rightarrow> card td + 1 | _ \<Rightarrow> 0) else ops_left n s p')"
  by (simp_all add: ops_left_def fun_eq_iff cong: prog.case_cong)

lemma mset_others_peers: "mset (map f (others n p)) = image_mset f (mset_set (peers n p))"
proof -
  have "distinct (others n p)" "set (others n p) = peers n p" by (auto simp: others_def peers_def)
  then have "mset (others n p) = mset_set (peers n p)" by (metis mset_set_set)
  then show ?thesis by simp
qed

lemma net_invD:
  assumes "net_inv n s m r b" "p < n"
  shows "in_round n s (b p) (m (r p)) p"
    and "q < n \<Longrightarrow> p \<noteq> q \<Longrightarrow> num_heard n s r p q \<le> num_sent n s r q p"
    and "q < n \<Longrightarrow> p \<noteq> q \<Longrightarrow> nt_link s q p = map (\<lambda>j. m j q) [num_heard n s r p q..<num_sent n s r q p]"
  using assms by (auto simp: net_inv_def)

lemma in_roundE:
  assumes "in_round n s b mm p"
  obtains (finished) x where "b = Done x" "nt_prog s p = Done x" "nt_todo s p \<subseteq> peers n p"
  | (sending) k where "b = Broadcast (mm p) (ReceiveAll k)" "nt_prog s p = Broadcast (mm p) (ReceiveAll k)" "nt_todo s p \<subseteq> peers n p"
  | (receiving) k where "b = Broadcast (mm p) (ReceiveAll k)" "nt_prog s p = ReceiveAll k" "nt_todo s p \<subseteq> peers n p"
      "mset (nt_got s p) = image_mset (\<lambda>q. (q, Some (mm q))) (mset_set (peers n p - nt_todo s p))"
  using assms by (auto simp: in_round_def)

text \<open>A step that leaves the round of every party.\<close>

lemma send_keeps:
  assumes inv: "net_inv n s m r b" and p: "p < n" "nt_prog s p = Broadcast msg k" "q \<in> nt_todo s p"
  shows "net_inv n (put_link p q (nt_link s p q @ [msg]) (set_party p (Broadcast msg k) (nt_todo s p - {q}) (nt_got s p) s)) m r b"
    (is "net_inv n ?s m r b")
proof -
  have loc: "in_round n s (b p) (m (r p)) p" by (rule net_invD [OF inv p(1)])
  then have td: "nt_todo s p \<subseteq> peers n p" and msg: "msg = m (r p) p" using p(2) by (auto simp: in_round_def)
  have q: "q \<in> peers n p" using td p(3) by blast
  have "in_round n ?s (b p') (m (r p')) p'" if "p' < n" for p'
    using net_invD(1) [OF inv that] loc p(2) by (auto simp: in_round_def)
  moreover have e: "heard_from n s p = {}" "sent_to n s p = peers n p - nt_todo s p"
    using p(2) by (simp_all add: heard_from_def sent_to_def)
  have nh: "num_heard n ?s r p' q' = num_heard n s r p' q'" for p' q'
    by (simp add: num_heard_def e)
  have ns: "num_sent n ?s r p' q' = (if p' = p \<and> q' = q then Suc (r p) else num_sent n s r p' q')" for p' q'
    using p(3) q by (auto simp: num_sent_def e)
  have sp: "num_sent n s r p q = r p" using p(3) by (simp add: num_sent_def e)
  have "num_heard n ?s r p' q' \<le> num_sent n ?s r q' p' \<and> nt_link ?s q' p' = map (\<lambda>j. m j q') [num_heard n ?s r p' q'..<num_sent n ?s r q' p']"
    if "p' < n" "q' < n" "p' \<noteq> q'" for p' q'
    using net_invD(2,3) [OF inv that] sp unfolding nh ns by (auto simp: msg)
  ultimately show ?thesis unfolding net_inv_def by blast
qed

lemma sent_keeps:
  assumes inv: "net_inv n s m r b" and p: "p < n" "nt_prog s p = Broadcast msg k" "nt_todo s p = {}"
  shows "net_inv n (set_party p k (peers n p) [] s) m r b" (is "net_inv n ?s m r b")
proof -
  have loc: "in_round n s (b p) (m (r p)) p" by (rule net_invD [OF inv p(1)])
  then obtain k' where k: "k = ReceiveAll k'" "b p = Broadcast (m (r p) p) (ReceiveAll k')" using p(2) by (auto simp: in_round_def)
  have "in_round n ?s (b p') (m (r p')) p'" if "p' < n" for p'
    using net_invD(1) [OF inv that] k by (auto simp: in_round_def)
  moreover have e: "heard_from n s p = {}" "sent_to n s p = peers n p"
    using p(2,3) by (simp_all add: heard_from_def sent_to_def)
  have "num_heard n ?s r p' q' = num_heard n s r p' q'" "num_sent n ?s r p' q' = num_sent n s r p' q'" for p' q'
    by (simp_all add: num_heard_def num_sent_def e k(1))
  ultimately show ?thesis using inv by (simp add: net_inv_def)
qed

lemma receive_keeps:
  assumes inv: "net_inv n s m r b" and p: "p < n" "nt_prog s p = ReceiveAll k" "q \<in> nt_todo s p" and l: "nt_link s q p = msg # ms"
  shows "net_inv n (put_link q p ms (set_party p (ReceiveAll k) (nt_todo s p - {q}) (nt_got s p @ [(q, Some msg)]) s)) m r b"
    (is "net_inv n ?s m r b")
proof -
  have loc: "in_round n s (b p) (m (r p)) p" by (rule net_invD [OF inv p(1)])
  then have td: "nt_todo s p \<subseteq> peers n p" by (simp add: in_round_def)
  then have q: "q \<in> peers n p" "q < n" "p \<noteq> q" using p(3) by (auto simp: peers_def)
  have h: "num_heard n s r p q = r p" using p(2,3) by (simp add: num_heard_def heard_from_def)
  have "map (\<lambda>j. m j q) [r p..<num_sent n s r q p] = msg # ms" using net_invD(3) [OF inv p(1) q(2,3)] l h by simp
  then have up: "r p < num_sent n s r q p" "msg = m (r p) q" "ms = map (\<lambda>j. m j q) [Suc (r p)..<num_sent n s r q p]"
    by (auto simp: upt_eq_Cons_conv map_eq_Cons_conv)
  have td': "peers n p - (nt_todo s p - {q}) = insert q (peers n p - nt_todo s p)" "q \<notin> peers n p - nt_todo s p"
    using q(1) p(3) by auto
  have "in_round n ?s (b p') (m (r p')) p'" if "p' < n" for p'
  proof (cases "p' = p")
    case True
    then show ?thesis using loc td p(2) up(2) td' by (auto simp: in_round_def mset_set.insert)
  next
    case False
    then show ?thesis using net_invD(1) [OF inv that] by (simp add: in_round_def)
  qed
  moreover have e: "heard_from n s p = peers n p - nt_todo s p" "sent_to n s p = peers n p"
    using p(2) by (simp_all add: heard_from_def sent_to_def)
  have "num_sent n ?s r p' q' = num_sent n s r p' q'" for p' q'
    by (simp add: num_sent_def e)
  moreover have "num_heard n ?s r p' q' = (if p' = p \<and> q' = q then Suc (r p) else num_heard n s r p' q')" for p' q'
    using td' by (auto simp: num_heard_def e)
  ultimately show ?thesis
    using inv up(1,3) by (auto simp: net_inv_def)
qed

text \<open>A step into the next round.\<close>

lemma received_advances:
  assumes inv: "net_inv n s m r b" and p: "p < n" "nt_prog s p = ReceiveAll k" "nt_todo s p = {}"
    and next_round: "(\<exists>x. b' = Done x) \<or> (\<exists>k'. b' = Broadcast msg (ReceiveAll k'))" and b': "b' = k (nt_got s p)"
  shows "net_inv n (set_party p b' (peers n p) [] s) (m(Suc (r p) := (m (Suc (r p)))(p := msg))) (r(p := Suc (r p))) (b(p := b'))"
    (is "net_inv n ?s ?m ?r ?b")
proof -
  have heard: "heard_from n s p = peers n p" "sent_to n s p = peers n p" using p(2,3) by (simp_all add: heard_from_def sent_to_def)
  have heard': "heard_from n ?s p = {}" "sent_to n ?s p = {}" using next_round by auto
  have eq: "heard_from n ?s q = heard_from n s q" "sent_to n ?s q = sent_to n s q" if "q \<noteq> p" for q
    using that by simp_all
  have nums: "num_heard n ?s ?r p' q' = num_heard n s r p' q'" "num_sent n ?s ?r p' q' = num_sent n s r p' q'"
    if "p' < n" "q' < n" "p' \<noteq> q'" for p' q'
    using that heard heard' eq by (cases "p' = p"; simp add: num_heard_def num_sent_def peers_def)+
  have r_le: "num_sent n s r p q \<le> Suc (r p)" for q by (simp add: num_sent_def)
  have link: "map (\<lambda>j. ?m j q) [a..<num_sent n s r q p'] = map (\<lambda>j. m j q) [a..<num_sent n s r q p']" for q p' a
    using r_le [of p'] by (cases "q = p") auto
  have "in_round n ?s (?b p') (?m (?r p')) p'" if p': "p' < n" for p'
  proof (cases "p' = p")
    case True
    then show ?thesis using next_round by (auto simp: in_round_def)
  next
    case False
    have "?m (r p') q = m (r p') q" if q: "q \<in> insert p' (heard_from n s p')" for q
    proof -
      have "r p' \<noteq> Suc (r p)" if "q = p"
      proof
        assume "r p' = Suc (r p)"
        with that q False have "num_heard n s r p' p = Suc (Suc (r p))" by (simp add: num_heard_def)
        with net_invD(2) [OF inv p' p(1) False] r_le [of p'] show False by simp
      qed
      then show ?thesis by auto
    qed
    then have "?m (r p') p' = m (r p') p'" "\<And>q. q \<in> heard_from n s p' \<Longrightarrow> ?m (r p') q = m (r p') q" by simp_all
    with net_invD(1) [OF inv p'] False show ?thesis
      by (elim in_roundE) (auto simp: in_round_def heard_from_def intro!: image_mset_cong)
  qed
  moreover have "num_heard n ?s ?r p' q \<le> num_sent n ?s ?r q p' \<and>
      nt_link ?s q p' = map (\<lambda>j. ?m j q) [num_heard n ?s ?r p' q..<num_sent n ?s ?r q p']" if "p' < n" "q < n" "p' \<noteq> q" for p' q
    using net_invD(2,3) [OF inv that] unfolding nums [OF that] nums [OF that(2,1) that(3) [symmetric]] link by simp
  ultimately show ?thesis unfolding net_inv_def by blast
qed

section \<open>Soundness of the rounds\<close>

text \<open>
  The parties around round \<open>lo\<close>, which starts with the programs \<open>cur\<close>: some are in it, the others are ahead by one
  round, with the messages of \<open>lo\<close> in the order in which they got them.
\<close>

definition around ::
  "nat \<Rightarrow> (nat \<Rightarrow> ('m, 'a) prog) \<Rightarrow> nat \<Rightarrow> ('m, 'a) net \<Rightarrow> (nat \<Rightarrow> nat \<Rightarrow> 'm) \<Rightarrow> (nat \<Rightarrow> nat) \<Rightarrow> (nat \<Rightarrow> ('m, 'a) prog) \<Rightarrow> bool" where
  "around n cur lo s m r b \<longleftrightarrow> net_inv n s m r b \<and> (\<forall>p<n. r p = lo \<and> b p = cur p \<or>
     r p = Suc lo \<and> (\<exists>k arr. cur p = Broadcast (m lo p) (ReceiveAll k) \<and> b p = k arr \<and> mset arr = mset (map (\<lambda>q. (q, Some (m lo q))) (others n p))))"

text \<open>The operations left until every party is ahead.\<close>

definition work :: "nat \<Rightarrow> nat \<Rightarrow> ('m, 'a) net \<Rightarrow> (nat \<Rightarrow> nat) \<Rightarrow> nat" where
  "work n lo s r = (\<Sum>p<n. ops_left n s p + (if r p = lo then 3 * n + 3 else 0))"

lemma sum_decreases:
  fixes n p :: nat
  assumes "p < n" "f p < g p" "\<And>q. q \<noteq> p \<Longrightarrow> f q = (g q :: nat)"
  shows "(\<Sum>p<n. f p) < (\<Sum>p<n. g p)"
proof (rule sum_strict_mono_ex1)
  show "\<forall>x\<in>{..<n}. f x \<le> g x" using assms(2,3) by (metis le_less)
  show "\<exists>x\<in>{..<n}. f x < g x" using assms(1,2) by blast
qed simp

lemma around_cases:
  assumes "around n cur lo s m r b" "p < n"
  obtains (here) "r p = lo" "b p = cur p" "in_round n s (cur p) (m lo) p"
  | (ahead) k arr where "r p = Suc lo" "cur p = Broadcast (m lo p) (ReceiveAll k)" "b p = k arr" "mset arr = mset (map (\<lambda>q. (q, Some (m lo q))) (others n p))"
  using assms net_invD(1) [of n s m r b p] unfolding around_def by fastforce

lemma around_heard:
  assumes "around n cur lo s m r b" "p < n" "q < n" "p \<noteq> q" "r q = lo"
  shows "\<not> (r p = Suc lo \<and> q \<in> heard_from n s p)"
proof
  assume h: "r p = Suc lo \<and> q \<in> heard_from n s p"
  have "num_heard n s r p q \<le> num_sent n s r q p" using assms net_invD(2) [of n s m r b p q] by (simp add: around_def)
  then show False using h assms(5) by (simp add: num_heard_def num_sent_def split: if_splits)
qed

text \<open>As long as a party is in round \<open>lo\<close>, somebody can go on, and a message to send finds its link empty.\<close>

lemma around_enabled:
  assumes ar: "around n cur lo s m r b" and cur: "\<And>p. p < n \<Longrightarrow> cur p = Broadcast (ms p) (ReceiveAll (ks p))"
    and p: "p < n" "r p = lo"
  obtains (send) p m' k q where "p < n" "nt_prog s p = Broadcast m' k" "q \<in> nt_todo s p" "nt_link s p q = []"
  | (sent) p m' k where "p < n" "nt_prog s p = Broadcast m' k" "nt_todo s p = {}"
  | (receive) p k q m' ms' where "p < n" "nt_prog s p = ReceiveAll k" "q \<in> nt_todo s p" "nt_link s q p = m' # ms'"
  | (received) p k where "p < n" "nt_prog s p = ReceiveAll k" "nt_todo s p = {}"
proof (cases "\<exists>p<n. r p = lo \<and> (\<exists>m' k. nt_prog s p = Broadcast m' k)")
  case True
  then obtain p m' k where p: "p < n" "r p = lo" "nt_prog s p = Broadcast m' k" by blast
  have inv: "net_inv n s m r b" using ar by (simp add: around_def)
  show ?thesis
  proof (cases "nt_todo s p = {}")
    case True
    then show ?thesis using sent p by blast
  next
    case False
    then obtain q where q: "q \<in> nt_todo s p" by blast
    then have q': "q < n" "q \<noteq> p" using net_invD(1) [OF inv p(1)] by (auto simp: in_round_def peers_def)
    have "num_sent n s r p q = lo" using p q by (simp add: num_sent_def sent_to_def)
    moreover have "lo \<le> num_heard n s r q p" using ar q'(1) by (auto simp: around_def num_heard_def)
    ultimately have "nt_link s p q = []" using net_invD(3) [OF inv q'(1) p(1) q'(2)] by simp
    then show ?thesis using send p(1,3) q by blast
  qed
next
  case False
  have rec: "\<exists>k. nt_prog s q = ReceiveAll k" if "q < n" "r q = lo" for q
    using ar that(1)
  proof (cases rule: around_cases)
    case here
    then show ?thesis using False that cur [OF that(1)] by (auto elim!: in_roundE)
  qed (use that(2) in simp)
  obtain k where k: "nt_prog s p = ReceiveAll k" using rec p by blast
  have inv: "net_inv n s m r b" using ar by (simp add: around_def)
  show ?thesis
  proof (cases "nt_todo s p = {}")
    case True
    then show ?thesis using received p(1) k by blast
  next
    case False
    then obtain q where q: "q \<in> nt_todo s p" by blast
    then have q': "q < n" "p \<noteq> q" using net_invD(1) [OF inv p(1)] by (auto simp: in_round_def peers_def)
    have "Suc lo \<le> num_sent n s r q p"
      using ar q'(1)
    proof (cases rule: around_cases)
      case here
      then obtain k' where "nt_prog s q = ReceiveAll k'" using rec q'(1) by blast
      then show ?thesis using here(1) p(1) q'(2) by (simp add: num_sent_def sent_to_def peers_def)
    qed (simp add: num_sent_def)
    moreover have "num_heard n s r p q = lo" using q k p(2) by (simp add: num_heard_def heard_from_def)
    ultimately have "nt_link s q p \<noteq> []" using net_invD(3) [OF inv p(1) q'] by simp
    then obtain m' ms' where "nt_link s q p = m' # ms'" by (cases "nt_link s q p") auto
    then show ?thesis using receive p(1) k q by blast
  qed
qed

lemma around_progress:
  assumes "around n cur lo s m r b" "\<And>p. p < n \<Longrightarrow> cur p = Broadcast (ms p) (ReceiveAll (ks p))" "p < n" "r p = lo" "0 < cap"
  shows "\<exists>s'. net_step n cap s s'"
  by (rule around_enabled [OF assms(1-4)]) (metis assms(5) list.size(3) net_step.intros)+

text \<open>A party that has heard of everybody in its round goes on with the messages of the round.\<close>

lemma received_now:
  assumes ar: "around n cur lo s m r b" and cur: "\<And>p. p < n \<Longrightarrow> cur p = Broadcast (ms p) (ReceiveAll (ks p))"
    and here: "\<exists>p<n. r p = lo" and p: "p < n" "nt_prog s p = ReceiveAll k" "nt_todo s p = {}"
  shows "r p = lo" "b p = cur p" "k = ks p" "mset (nt_got s p) = mset (map (\<lambda>q. (q, Some (ms q))) (others n p))" "m lo p = ms p"
proof -
  have inv: "net_inv n s m r b" using ar by (simp add: around_def)
  have ml: "m lo q = ms q" if "q < n" for q
    by (rule around_cases [OF ar that]) (use cur [OF that] in \<open>auto simp: in_round_def\<close>)
  have heard: "heard_from n s p = peers n p" using p by (simp add: heard_from_def)
  obtain q where q: "q < n" "r q = lo" using here by blast
  then have "r p \<noteq> Suc lo"
    using around_heard [OF ar p(1) q(1)] heard by (cases "q = p") (auto simp: peers_def)
  then show rp: "r p = lo" "b p = cur p" using ar p(1) by (auto simp: around_def)
  have k: "k = ks p" "mset (nt_got s p) = mset (map (\<lambda>q. (q, Some (m lo q))) (others n p))"
    using net_invD(1) [OF inv p(1)] p(2,3) rp cur [OF p(1)] unfolding mset_others_peers by (auto simp: in_round_def)
  have same: "map (\<lambda>q. (q, Some (m lo q))) (others n p) = map (\<lambda>q. (q, Some (ms q))) (others n p)" using ml by simp
  show "k = ks p" "mset (nt_got s p) = mset (map (\<lambda>q. (q, Some (ms q))) (others n p))" "m lo p = ms p"
    using k ml [OF p(1)] unfolding same by simp_all
qed

text \<open>Every step leaves less to do in the round.\<close>

lemma around_step:
  assumes ar: "around n cur lo s m r b" and cur: "\<And>p. p < n \<Longrightarrow> cur p = Broadcast (ms p) (ReceiveAll (ks p))"
    and conts: "\<And>p arr. p < n \<Longrightarrow> mset arr = mset (map (\<lambda>q. (q, Some (ms q))) (others n p)) \<Longrightarrow>
      (\<exists>x. ks p arr = Done x) \<or> (\<exists>m' k. ks p arr = Broadcast m' (ReceiveAll k))"
    and here: "\<exists>p<n. r p = lo" and step: "net_step n cap s s'"
  shows "\<exists>m' r' b'. around n cur lo s' m' r' b' \<and> work n lo s' r' < work n lo s r"
proof -
  have inv: "net_inv n s m r b" using ar by (simp add: around_def)
  have keep: ?thesis if "net_inv n s' m r b" "p < n" "ops_left n s' p < ops_left n s p" "\<And>q. q \<noteq> p \<Longrightarrow> ops_left n s' q = ops_left n s q" for p
    using ar that(1) sum_decreases [OF that(2), of "\<lambda>p. ops_left n s' p + (if r p = lo then 3 * n + 3 else 0)"
      "\<lambda>p. ops_left n s p + (if r p = lo then 3 * n + 3 else 0)"] that(3,4) unfolding around_def work_def by fastforce
  have fin: "finite (nt_todo s p)" if "p < n" for p
    using net_invD(1) [OF inv that] finite_subset [OF _ finite_peers] by (auto simp: in_round_def)
  from step show ?thesis
  proof cases
    case (send p msg k q)
    then show ?thesis
      using keep [OF _ send(2)] send_keeps [OF inv send(2-4)] card_Diff1_less [OF fin [OF send(2)] send(4)] by (simp add: ops_left_def [of n s])
  next
    case (sent p msg k)
    have "\<exists>k'. k = ReceiveAll k'" using net_invD(1) [OF inv sent(2)] sent(3) by (auto simp: in_round_def)
    then show ?thesis
      using keep [OF _ sent(2)] sent_keeps [OF inv sent(2-4)] sent card_peers [OF sent(2)] by (auto simp: ops_left_def [of n s])
  next
    case (receive p k q msg rest)
    then show ?thesis
      using keep [OF _ receive(2)] receive_keeps [OF inv receive(2-5)] card_Diff1_less [OF fin [OF receive(2)] receive(4)] by (simp add: ops_left_def [of n s])
  next
    case (received p k)
    note now = received_now [OF ar cur here received(2-4)]
    have rp: "r p = lo" "b p = cur p" and k: "k = ks p" and arr: "mset (nt_got s p) = mset (map (\<lambda>q. (q, Some (ms q))) (others n p))"
      using now by simp_all
    let ?b' = "k (nt_got s p)"
    obtain msg where shape: "(\<exists>x. ?b' = Done x) \<or> (\<exists>k'. ?b' = Broadcast msg (ReceiveAll k'))"
      using conts [OF received(2) arr] unfolding k by blast
    let ?m = "m(Suc (r p) := (m (Suc (r p)))(p := msg))" and ?r = "r(p := Suc (r p))" and ?b = "b(p := ?b')"
    have "net_inv n s' ?m ?r ?b" unfolding received(1) by (rule received_advances [OF inv received(2-4) shape refl])
    moreover have "?m lo = m lo" by (simp add: rp)
    moreover have arr_lo: "mset (nt_got s p) = mset (map (\<lambda>q. (q, Some (m lo q))) (others n p))"
      using net_invD(1) [OF inv received(2)] received(3,4) rp cur [OF received(2)] unfolding mset_others_peers by (auto simp: in_round_def)
    ultimately have "around n cur lo s' ?m ?r ?b"
      using ar k rp cur [OF received(2)] arr_lo now(5) unfolding around_def by auto
    moreover have "ops_left n s' p < ops_left n s p + (3 * n + 3)"
      using shape card_peers [OF received(2)] by (auto simp: received(1))
    then have "work n lo s' ?r < work n lo s r"
      unfolding work_def by (intro sum_decreases [OF received(2)]) (simp_all add: rp(1) received(1))
    ultimately show ?thesis by blast
  qed
qed

text \<open>
  From the rounds to all executions: an execution around the first round of parties that all finish
  comes to its end.
\<close>

lemma all_finish_shape:
  assumes "all_finish n ps Q" "p < n"
  shows "(\<exists>x. ps p = Done x) \<or> (\<exists>m k. ps p = Broadcast m (ReceiveAll k))"
  using assms by (cases rule: all_finish.cases) auto

lemma next_shape:
  assumes conts: "\<And>arr. (\<And>p. p < n \<Longrightarrow> mset (arr p) = mset (map (\<lambda>q. (q, Some (ms q))) (others n p))) \<Longrightarrow> all_finish n (\<lambda>p. ks p (arr p)) Q"
    and p: "p < n" "mset got = mset (map (\<lambda>q. (q, Some (ms q))) (others n p))"
  shows "(\<exists>x. ks p got = Done x) \<or> (\<exists>m' k. ks p got = Broadcast m' (ReceiveAll k))"
proof -
  let ?arr = "(\<lambda>p. map (\<lambda>q. (q, Some (ms q))) (others n p))(p := got)"
  have "all_finish n (\<lambda>p. ks p (?arr p)) Q" using p(2) by (intro conts) simp
  from all_finish_shape [OF this p(1)] show ?thesis by simp
qed

lemma around_advance:
  assumes ar: "around n cur lo s m r b" and cur: "\<And>p. p < n \<Longrightarrow> cur p = Broadcast (ms p) (ReceiveAll (ks p))"
    and conts: "\<And>arr. (\<And>p. p < n \<Longrightarrow> mset (arr p) = mset (map (\<lambda>q. (q, Some (ms q))) (others n p))) \<Longrightarrow> all_finish n (\<lambda>p. ks p (arr p)) Q"
    and here: "\<exists>p<n. r p = lo" and step: "net_step n cap s s'"
  shows "(\<exists>m' r' b'. around n cur lo s' m' r' b' \<and> (\<exists>p<n. r' p = lo) \<and> work n lo s' r' < work n lo s r) \<or>
    (\<exists>arr m' r' b'. (\<forall>p<n. mset (arr p) = mset (map (\<lambda>q. (q, Some (ms q))) (others n p))) \<and>
      around n (\<lambda>p. ks p (arr p)) (Suc lo) s' m' r' b' \<and> (\<exists>p<n. r' p = Suc lo))"
proof -
  note shapes = next_shape [where ms = ms and ks = ks and Q = Q, OF conts]
  obtain m' r' b' where st: "around n cur lo s' m' r' b'" "work n lo s' r' < work n lo s r"
    using around_step [OF ar cur shapes here step] by blast
  show ?thesis
  proof (cases "\<exists>p<n. r' p = lo")
    case True
    then show ?thesis using st by blast
  next
    case False
    then have "\<forall>p\<in>{..<n}. \<exists>arr. r' p = Suc lo \<and> cur p = Broadcast (m' lo p) (ReceiveAll (ks p)) \<and> b' p = ks p arr \<and>
        mset arr = mset (map (\<lambda>q. (q, Some (m' lo q))) (others n p))"
      using st(1) cur unfolding around_def by fastforce
    then obtain arr where "\<forall>p\<in>{..<n}. r' p = Suc lo \<and> cur p = Broadcast (m' lo p) (ReceiveAll (ks p)) \<and> b' p = ks p (arr p) \<and>
        mset (arr p) = mset (map (\<lambda>q. (q, Some (m' lo q))) (others n p))" by (rule bchoice [THEN exE]) blast
    then have arr: "r' p = Suc lo \<and> m' lo p = ms p \<and> b' p = ks p (arr p) \<and> mset (arr p) = mset (map (\<lambda>q. (q, Some (m' lo q))) (others n p))"
      if "p < n" for p using that cur [OF that] by simp
    have eq: "map (\<lambda>q. (q, Some (m' lo q))) (others n p) = map (\<lambda>q. (q, Some (ms q))) (others n p)" for p using arr by simp
    have "mset (arr p) = mset (map (\<lambda>q. (q, Some (ms q))) (others n p))" if "p < n" for p using arr [OF that] unfolding eq by blast
    moreover have "around n (\<lambda>p. ks p (arr p)) (Suc lo) s' m' r' b'" using st(1) arr by (simp add: around_def)
    ultimately show ?thesis using here arr by blast
  qed
qed

lemma around_inevitable:
  assumes "all_finish n cur Q" "0 < cap" "around n cur lo s m r b" "\<exists>p<n. r p = lo"
  shows "inevitable n cap Q s"
  using assms
proof (induction arbitrary: lo s m r b rule: all_finish.induct)
  case (finish cur xs Q)
  have rp: "r p = lo \<and> nt_prog s p = Done (xs p)" if "p < n" for p
    using finish.prems(2) that finish.hyps(1) [OF that] by (cases rule: around_cases) (auto elim: in_roundE)
  moreover have "nt_link s q p = []" if "p < n" "q < n" "p \<noteq> q" for p q
    using net_invD(3) [of n s m r b p q] finish.prems(2) that rp
    by (simp add: around_def num_heard_def num_sent_def heard_from_def sent_to_def)
  ultimately show ?case using finish.hyps(2) by (intro inevitable.ends [of n s xs]) auto
next
  case (round cur ms ks Q)
  from round.prems show ?case
  proof (induction "work n lo s r" arbitrary: s m r b rule: less_induct)
    case less
    obtain s0 where s0: "net_step n cap s s0"
      using around_progress [OF less.prems(2) round.hyps(1) _ _ less.prems(1)] less.prems(3) by blast
    show ?case
    proof (rule inevitable.goes_on [OF s0])
      fix s' assume st: "net_step n cap s s'"
      consider (same) m' r' b' where "around n cur lo s' m' r' b'" "\<exists>p<n. r' p = lo" "work n lo s' r' < work n lo s r"
        | (advanced) arr m' r' b' where "\<And>p. p < n \<Longrightarrow> mset (arr p) = mset (map (\<lambda>q. (q, Some (ms q))) (others n p))"
            "around n (\<lambda>p. ks p (arr p)) (Suc lo) s' m' r' b'" "\<exists>p<n. r' p = Suc lo"
        using around_advance [OF less.prems(2) round.hyps(1,2) less.prems(3) st] by blast
      then show "inevitable n cap Q s'"
      proof cases
        case same
        then show ?thesis using less.hyps [OF same(3) less.prems(1) same(1,2)] by blast
      next
        case advanced
        then show ?thesis using round.IH [OF advanced(1) less.prems(1) advanced(2,3)] by blast
      qed
    qed
  qed
qed

lemma around_init:
  assumes "all_finish n ps Q" "0 < n"
  shows "\<exists>m. around n ps 0 (net_init n ps) m (\<lambda>_. 0) ps"
proof -
  let ?msg = "\<lambda>p. case ps p of Broadcast m _ \<Rightarrow> m | _ \<Rightarrow> undefined"
  let ?s = "net_init n ps"
  have "in_round n ?s (ps p) ?msg p" if "p < n" for p
    using all_finish_shape [OF assms(1) that] by (auto simp: in_round_def net_init_def)
  moreover have "heard_from n ?s p = {}" "sent_to n ?s p = {}" if "p < n" for p
    using all_finish_shape [OF assms(1) that] by (auto simp: heard_from_def sent_to_def net_init_def)
  ultimately have "around n ps 0 ?s (\<lambda>_. ?msg) (\<lambda>_. 0) ps"
    by (simp add: around_def net_inv_def num_heard_def num_sent_def) (simp add: net_init_def)
  then show ?thesis by blast
qed

lemma all_executions_finish:
  assumes "all_finish n ps Q" "0 < cap" "0 < n"
  shows "inevitable n cap Q (net_init n ps)"
  using around_init [OF assms(1,3)] around_inevitable [OF assms(1,2)] assms(3) by blast

text \<open>What holds in every state an execution reaches.\<close>

lemma reached_around:
  assumes "(net_step n cap)\<^sup>*\<^sup>* (net_init n ps) s" "all_finish n ps Q" "0 < n"
  obtains cur lo m r b where "all_finish n cur Q" "around n cur lo s m r b" "\<exists>p<n. r p = lo"
proof -
  have "\<exists>cur lo m r b. all_finish n cur Q \<and> around n cur lo s m r b \<and> (\<exists>p<n. r p = lo)"
    using assms(1)
  proof (induction rule: rtranclp_induct)
    case base
    then show ?case using around_init [OF assms(2,3)] assms(2,3) by blast
  next
    case (step s s')
    then obtain cur lo m r b where ar: "all_finish n cur Q" "around n cur lo s m r b" "\<exists>p<n. r p = lo" by blast
    from ar(1) show ?case
    proof (cases rule: all_finish.cases)
      case (finish xs)
      have "nt_prog s p = Done (xs p)" if "p < n" for p
        using ar(2) that finish(1) [OF that] by (cases rule: around_cases) (auto elim: in_roundE)
      with step.hyps(2) show ?thesis by (auto elim: net_step.cases)
    next
      case (round ms ks)
      show ?thesis using around_advance [OF ar(2) round(1,2) ar(3) step.hyps(2)] ar(1) round(2) by blast
    qed
  qed
  then show ?thesis using that by blast
qed

text \<open>Who has received everything is done or broadcasts next.\<close>

lemma next_round_shape:
  assumes "(net_step n cap)\<^sup>*\<^sup>* (net_init n ps) s" "all_finish n ps Q" "p < n" "nt_prog s p = ReceiveAll k" "nt_todo s p = {}"
  shows "(\<exists>x. k (nt_got s p) = Done x) \<or> (\<exists>m' k'. k (nt_got s p) = Broadcast m' (ReceiveAll k'))"
proof -
  have n: "0 < n" using assms(3) by simp
  obtain cur lo m r b where ar: "all_finish n cur Q" "around n cur lo s m r b" "\<exists>p<n. r p = lo" by (rule reached_around [OF assms(1,2) n])
  from ar(1) show ?thesis
  proof (cases rule: all_finish.cases)
    case (finish xs)
    show ?thesis using ar(2) assms(3,4) finish(1) [OF assms(3)] by (cases rule: around_cases) (auto elim!: in_roundE)
  next
    case (round ms ks)
    note now = received_now [OF ar(2) round(1) ar(3) assms(3-5)]
    have k: "k = ks p" "mset (nt_got s p) = mset (map (\<lambda>q. (q, Some (ms q))) (others n p))" using now by simp_all
    show ?thesis unfolding k(1) by (rule next_shape [where ms = ms and Q = Q, OF _ assms(3) k(2)]) (rule round(2))
  qed
qed

lemma reached_safe:
  assumes "(net_step n cap)\<^sup>*\<^sup>* (net_init n ps) s" "all_finish n ps Q" "p < n" "q < n" "p \<noteq> q"
  shows "length (nt_link s q p) \<le> 2 \<and> (\<forall>e. nt_prog s p \<noteq> Fail e)"
proof -
  have n: "0 < n" using assms(3) by simp
  obtain cur lo m r b where ar: "around n cur lo s m r b" by (rule reached_around [OF assms(1,2) n])
  then have inv: "net_inv n s m r b" by (simp add: around_def)
  have "r p = lo \<or> r p = Suc lo" "r q = lo \<or> r q = Suc lo" using ar assms(3,4) unfolding around_def by blast+
  then have "num_sent n s r q p \<le> num_heard n s r p q + 2" by (auto simp: num_sent_def num_heard_def)
  moreover have "\<forall>e. nt_prog s p \<noteq> Fail e" using net_invD(1) [OF inv assms(3)] by (auto elim!: in_roundE)
  ultimately show ?thesis using net_invD(3) [OF inv assms(3-)] by simp
qed

end
