(* ===== verification/Sockets.thy ===== *)
theory Sockets
  imports Network
begin

text \<open>
  The parties over sockets, byte by byte. \<open>TcpConnection\<close> in \<open>src/prc/connection.rs\<close> writes the length of a command
  and the command; \<open>write_u32_le\<close> and \<open>write_all\<close> hand over as many bytes as the buffers of the connection have room for and wait
  for the rest, and \<open>read_u32_le\<close> and \<open>read_exact\<close> take what has arrived. A broadcast is over when everything is written to every peer,
  and only then does the party read. With room for every single frame the executions end as those over queues of messages do (\<open>Network\<close>);
  when all parties have a frame to send that has no room, they wait for each other for ever.
\<close>

section \<open>Steps that stutter\<close>

text \<open>
  A detailed system whose steps are steps of an abstract one or change nothing there. Of the latter there are only finitely many in a row.
\<close>

locale stuttering =
  fixes astep :: "'a \<Rightarrow> 'a \<Rightarrow> bool" and cstep :: "'c \<Rightarrow> 'c \<Rightarrow> bool" and match :: "'c \<Rightarrow> 'a \<Rightarrow> bool" and left :: "'c \<Rightarrow> nat"
  assumes simulation: "match c a \<Longrightarrow> cstep c c' \<Longrightarrow> (\<exists>a'. astep a a' \<and> match c' a') \<or> match c' a \<and> left c' < left c"
begin

lemma reached:
  assumes "cstep\<^sup>*\<^sup>* c c'" "match c a"
  shows "\<exists>a'. astep\<^sup>*\<^sup>* a a' \<and> match c' a'"
  using assms
proof (induction rule: rtranclp_induct)
  case (step d d')
  then obtain a' where "astep\<^sup>*\<^sup>* a a'" "match d a'" by blast
  with simulation [OF this(2) step.hyps(2)] show ?case by (meson rtranclp.rtrancl_into_rtrancl)
qed blast

text \<open>When every abstract execution ends, so does every detailed one.\<close>

lemma terminates:
  assumes "termip astep a" "match c a"
  shows "termip cstep c"
  using assms
proof (induction arbitrary: c rule: accp.induct)
  case (accI a)
  from accI.prems show ?case
  proof (induction "left c" arbitrary: c rule: less_induct)
    case less
    show ?case
    proof (rule accp.accI)
      fix c' assume "cstep\<inverse>\<inverse> c' c"
      then have "cstep c c'" by simp
      from simulation [OF less.prems this] show "termip cstep c'" using accI.IH [OF conversepI] less.hyps by blast
    qed
  qed
qed

end

section \<open>Sockets\<close>

definition framed :: "u8 list \<Rightarrow> u8 list" where
  "framed m = to_le_bytes 4 (of_nat (length m) :: u32) @ m"

text \<open>
  \<open>so_written s p q\<close> bytes of its message has \<open>p\<close> written to \<open>q\<close>, \<open>so_wire s p q\<close> is what the connection from \<open>p\<close> to \<open>q\<close> holds,
  \<open>so_read s p q\<close> what \<open>p\<close> has read of the message of \<open>q\<close>. \<open>so_todo\<close> are the peers \<open>receive_all\<close> waits for and \<open>so_got\<close> what it has of the others.
\<close>

record 'a sockets =
  so_prog :: "nat \<Rightarrow> (u8 list, 'a) prog"
  so_written :: "nat \<Rightarrow> nat \<Rightarrow> nat"
  so_wire :: "nat \<Rightarrow> nat \<Rightarrow> u8 list"
  so_read :: "nat \<Rightarrow> nat \<Rightarrow> u8 list"
  so_todo :: "nat \<Rightarrow> nat set"
  so_got :: "nat \<Rightarrow> (nat \<times> u8 list option) list"

definition so_init :: "nat \<Rightarrow> (nat \<Rightarrow> (u8 list, 'a) prog) \<Rightarrow> 'a sockets" where
  "so_init n ps = \<lparr>so_prog = ps, so_written = (\<lambda>_ _. 0), so_wire = (\<lambda>_ _. []), so_read = (\<lambda>_ _. []), so_todo = peers n, so_got = (\<lambda>_. [])\<rparr>"

definition upd2 :: "(nat \<Rightarrow> nat \<Rightarrow> 'b) \<Rightarrow> nat \<Rightarrow> nat \<Rightarrow> 'b \<Rightarrow> nat \<Rightarrow> nat \<Rightarrow> 'b" where
  "upd2 f p q x = f(p := (f p)(q := x))"

lemma upd2_apply [simp]: "upd2 f p q x p' q' = (if p' = p \<and> q' = q then x else f p' q')"
  by (simp add: upd2_def)

text \<open>The next program of a party, with nothing written and nobody heard.\<close>

definition so_goto :: "nat \<Rightarrow> nat \<Rightarrow> (u8 list, 'a) prog \<Rightarrow> 'a sockets \<Rightarrow> 'a sockets" where
  "so_goto n p pr s = s\<lparr>so_prog := (so_prog s)(p := pr), so_written := (so_written s)(p := (\<lambda>_. 0)),
     so_todo := (so_todo s)(p := peers n p), so_got := (so_got s)(p := [])\<rparr>"

text \<open>The bytes that are read next: first the length, then as many as it says.\<close>

definition wanted :: "u8 list \<Rightarrow> nat" where
  "wanted bs = (if length bs < 4 then 4 - length bs else 4 + unat (from_le_bytes (take 4 bs) :: u32) - length bs)"

inductive so_step :: "nat \<Rightarrow> nat \<Rightarrow> 'a sockets \<Rightarrow> 'a sockets \<Rightarrow> bool" for n B :: nat where
  put: "p < n \<Longrightarrow> so_prog s p = Broadcast m k \<Longrightarrow> q \<in> peers n p \<Longrightarrow> w = so_written s p q \<Longrightarrow> 0 < j \<Longrightarrow> w + j \<le> length (framed m) \<Longrightarrow>
     length (so_wire s p q) + j \<le> B \<Longrightarrow>
     so_step n B s (s\<lparr>so_written := upd2 (so_written s) p q (w + j), so_wire := upd2 (so_wire s) p q (so_wire s p q @ take j (drop w (framed m)))\<rparr>)"
| sent: "p < n \<Longrightarrow> so_prog s p = Broadcast m k \<Longrightarrow> (\<forall>q\<in>peers n p. length (framed m) \<le> so_written s p q) \<Longrightarrow>
     so_step n B s (so_goto n p k s)"
| fetch: "p < n \<Longrightarrow> so_prog s p = ReceiveAll k \<Longrightarrow> q \<in> so_todo s p \<Longrightarrow> 0 < j \<Longrightarrow> j \<le> wanted (so_read s p q) \<Longrightarrow> j \<le> length (so_wire s q p) \<Longrightarrow>
     so_step n B s (s\<lparr>so_read := upd2 (so_read s) p q (so_read s p q @ take j (so_wire s q p)), so_wire := upd2 (so_wire s) q p (drop j (so_wire s q p))\<rparr>)"
| arrive: "p < n \<Longrightarrow> so_prog s p = ReceiveAll k \<Longrightarrow> q \<in> so_todo s p \<Longrightarrow> wanted (so_read s p q) = 0 \<Longrightarrow>
     so_step n B s (s\<lparr>so_read := upd2 (so_read s) p q [], so_todo := (so_todo s)(p := so_todo s p - {q}),
       so_got := (so_got s)(p := so_got s p @ [(q, Some (drop 4 (so_read s p q)))])\<rparr>)"
| received: "p < n \<Longrightarrow> so_prog s p = ReceiveAll k \<Longrightarrow> so_todo s p = {} \<Longrightarrow> so_step n B s (so_goto n p (k (so_got s p)) s)"

text \<open>\<open>so_ends n B F s\<close>: every execution from \<open>s\<close> comes to an end, in a state that satisfies \<open>F\<close>.\<close>

inductive so_ends :: "nat \<Rightarrow> nat \<Rightarrow> ('a sockets \<Rightarrow> bool) \<Rightarrow> 'a sockets \<Rightarrow> bool" for n B :: nat and F where
  "(\<And>s'. so_step n B s s' \<Longrightarrow> so_ends n B F s') \<Longrightarrow> ((\<forall>s'. \<not> so_step n B s s') \<Longrightarrow> F s) \<Longrightarrow> so_ends n B F s"

text \<open>All parties are done with results that satisfy \<open>Q\<close>, and no byte is left.\<close>

definition so_finished :: "nat \<Rightarrow> ((nat \<Rightarrow> 'a) \<Rightarrow> bool) \<Rightarrow> 'a sockets \<Rightarrow> bool" where
  "so_finished n Q s \<longleftrightarrow> (\<exists>xs. (\<forall>p<n. so_prog s p = Done (xs p)) \<and> Q xs) \<and> (\<forall>p<n. \<forall>q<n. p \<noteq> q \<longrightarrow> so_wire s p q = [] \<and> so_read s p q = [])"

lemma so_endsI:
  assumes "termip (so_step n B) s" "\<And>t. (so_step n B)\<^sup>*\<^sup>* s t \<Longrightarrow> (\<forall>t'. \<not> so_step n B t t') \<Longrightarrow> F t"
  shows "so_ends n B F s"
  using assms
proof (induction rule: accp.induct)
  case (accI s)
  show ?case
  proof (rule so_ends.intros)
    fix s' assume s': "so_step n B s s'"
    show "so_ends n B F s'"
      by (rule accI.IH [of s']) (use s' accI.prems converse_rtranclp_into_rtranclp [of "so_step n B" s s'] in \<open>auto simp del: not_all\<close>)
  qed (use accI.prems in blast)
qed

section \<open>Frames\<close>

text \<open>The length of a message has to fit its prefix.\<close>

abbreviation framable :: "u8 list \<Rightarrow> bool" where
  "framable m \<equiv> length m < 2 ^ 32"

lemma length_framed [simp]: "length (framed m) = 4 + length m"
  by (simp add: framed_def)

lemma framed_not_Nil [simp]: "framed m \<noteq> []"
  using length_framed [of m] by fastforce

lemma drop_framed [simp]: "drop 4 (framed m) = m"
  by (simp add: framed_def)

text \<open>What is read next of a frame never goes beyond it, and nothing more is wanted at its end.\<close>

lemma wanted_framed:
  assumes "framable m" "framed m = bs @ rest"
  shows "wanted bs \<le> length rest" "wanted bs = 0 \<longleftrightarrow> rest = []"
proof -
  have len: "4 + length m = length bs + length rest" using arg_cong [OF assms(2), of length] by simp
  have "take 4 bs = to_le_bytes 4 (of_nat (length m) :: u32)" if "4 \<le> length bs"
  proof -
    have "take 4 (framed m) = take 4 bs" using that by (simp add: assms(2))
    then show ?thesis by (simp add: framed_def)
  qed
  moreover have "unat (of_nat (length m) :: u32) = length m" using assms(1) by (simp add: unat_of_nat)
  ultimately have w: "wanted bs = (if length bs < 4 then 4 - length bs else length rest)" using len by (simp add: wanted_def)
  then show "wanted bs \<le> length rest" using len by auto
  show "wanted bs = 0 \<longleftrightarrow> rest = []" using w len by (cases rest) auto
qed

text \<open>A condition on all messages of a program.\<close>

primrec all_msgs :: "('m \<Rightarrow> bool) \<Rightarrow> ('m, 'a) prog \<Rightarrow> bool" where
  "all_msgs C (Done x) \<longleftrightarrow> True"
| "all_msgs C (Fail e) \<longleftrightarrow> True"
| "all_msgs C (Broadcast m k) \<longleftrightarrow> C m \<and> all_msgs C k"
| "all_msgs C (ReceiveAll k) \<longleftrightarrow> (\<forall>arr. all_msgs C (k arr))"

lemma all_msgs_mono: "all_msgs C p \<Longrightarrow> (\<And>m. C m \<Longrightarrow> D m) \<Longrightarrow> all_msgs D p"
  by (induction p) auto

lemma all_msgs_step:
  assumes "so_step n B s s'" "\<And>p. p < n \<Longrightarrow> all_msgs C (so_prog s p)" "p < n"
  shows "all_msgs C (so_prog s' p)"
  using assms(1)
proof cases
  case (sent p' m k)
  then show ?thesis using assms(2) [OF sent(2)] assms(2) [OF assms(3)] by (simp add: so_goto_def)
next
  case (received p' k)
  then show ?thesis using assms(2) [OF received(2)] assms(2) [OF assms(3)] by (simp add: so_goto_def)
qed (use assms(2,3) in simp_all)

lemma all_msgs_reached:
  assumes "(so_step n B)\<^sup>*\<^sup>* s s'" "\<And>p. p < n \<Longrightarrow> all_msgs C (so_prog s p)" "p < n"
  shows "all_msgs C (so_prog s' p)"
  using assms(1,3)
proof (induction arbitrary: p rule: rtranclp_induct)
  case (step s' s'')
  then show ?case using all_msgs_step [OF step.hyps(2)] by blast
qed (use assms(2) in simp)

section \<open>Queues behind the sockets\<close>

text \<open>The peers to which a party has not written everything, or of which \<open>receive_all\<close> has not heard.\<close>

definition open_peers :: "nat \<Rightarrow> 'a sockets \<Rightarrow> nat \<Rightarrow> nat set" where
  "open_peers n s p = (case so_prog s p of Broadcast m _ \<Rightarrow> {q \<in> peers n p. so_written s p q < length (framed m)} | _ \<Rightarrow> so_todo s p)"

text \<open>What is there of a message that is not completely written.\<close>

definition partly :: "'a sockets \<Rightarrow> nat \<Rightarrow> nat \<Rightarrow> u8 list" where
  "partly s p q = (case so_prog s p of
      Broadcast m _ \<Rightarrow> if so_written s p q < length (framed m) then take (so_written s p q) (framed m) else []
    | _ \<Rightarrow> [])"

text \<open>
  The bytes from \<open>p\<close> to \<open>q\<close>, those in the connection and those \<open>q\<close> has read, are the frames of the messages in a queue, and the part of
  a message that is being written. \<open>q\<close> has not read beyond the first frame.
\<close>

definition stream_ok :: "nat \<Rightarrow> 'a sockets \<Rightarrow> u8 list list \<Rightarrow> nat \<Rightarrow> nat \<Rightarrow> bool" where
  "stream_ok B s ms p q \<longleftrightarrow> length (so_wire s p q) \<le> B \<and> list_all framable ms \<and>
     so_read s q p @ so_wire s p q = concat (map framed ms) @ partly s p q \<and>
     (ms \<noteq> [] \<longrightarrow> length (so_read s q p) \<le> length (framed (hd ms))) \<and>
     (so_read s q p \<noteq> [] \<longrightarrow> (\<exists>k. so_prog s q = ReceiveAll k) \<and> p \<in> so_todo s q)"

definition party_ok :: "nat \<Rightarrow> 'a sockets \<Rightarrow> (u8 list, 'a) net \<Rightarrow> nat \<Rightarrow> bool" where
  "party_ok n s t p \<longleftrightarrow> nt_prog t p = so_prog s p \<and> nt_got t p = so_got s p \<and> nt_todo t p = open_peers n s p \<and> so_todo s p \<subseteq> peers n p \<and>
     all_msgs framable (so_prog s p) \<and> ((\<forall>m k. so_prog s p \<noteq> Broadcast m k) \<longrightarrow> so_written s p = (\<lambda>_. 0))"

definition so_match :: "nat \<Rightarrow> nat \<Rightarrow> 'a sockets \<Rightarrow> (u8 list, 'a) net \<Rightarrow> bool" where
  "so_match n B s t \<longleftrightarrow> (\<forall>p<n. party_ok n s t p) \<and> (\<forall>p<n. \<forall>q<n. p \<noteq> q \<longrightarrow> stream_ok B s (nt_link t p q) p q)"

lemma so_matchD:
  assumes "so_match n B s t" "p < n"
  shows "party_ok n s t p" "q < n \<Longrightarrow> p \<noteq> q \<Longrightarrow> stream_ok B s (nt_link t p q) p q"
  using assms by (simp_all add: so_match_def)

lemma party_receiving:
  assumes "party_ok n s t p" "nt_prog t p = ReceiveAll k"
  shows "so_prog s p = ReceiveAll k" "so_todo s p = nt_todo t p" "nt_todo t p \<subseteq> peers n p"
proof -
  show pr: "so_prog s p = ReceiveAll k" using assms by (simp add: party_ok_def)
  then show "so_todo s p = nt_todo t p" "nt_todo t p \<subseteq> peers n p" using assms(1) by (simp_all add: party_ok_def open_peers_def)
qed

lemma so_match_init:
  assumes "\<And>p. p < n \<Longrightarrow> all_msgs framable (ps p)"
  shows "so_match n B (so_init n ps) (net_init n ps)"
  using assms by (auto simp: so_match_def party_ok_def stream_ok_def so_init_def net_init_def open_peers_def partly_def split: prog.splits)

text \<open>A party goes on to its next program.\<close>

lemma goto_match:
  assumes "so_match n B s t" "p < n" "open_peers n s p = {}" "all_msgs framable pr" "\<And>m k q. so_prog s p = Broadcast m k \<Longrightarrow> q < n \<Longrightarrow> q \<noteq> p \<Longrightarrow> so_read s p q = []"
  shows "so_match n B (so_goto n p pr s) (set_party p pr (peers n p) [] t)"
proof -
  have "party_ok n (so_goto n p pr s) (set_party p pr (peers n p) [] t) r" if "r < n" for r
    using so_matchD(1) [OF assms(1) that] assms(4)
    by (auto simp: party_ok_def so_goto_def open_peers_def split: prog.splits)
  moreover have "stream_ok B (so_goto n p pr s) (nt_link t r q) r q" if rq: "r < n" "q < n" "r \<noteq> q" for r q
  proof -
    note old = so_matchD(2) [OF assms(1) rq]
    have "partly (so_goto n p pr s) r q = partly s r q"
      using assms(2,3) rq so_matchD(1) [OF assms(1) assms(2)]
      by (auto simp: partly_def so_goto_def open_peers_def party_ok_def peers_def split: prog.splits)
    moreover have "so_read s q r = []" if "q = p"
      using old that assms(2,3,5) rq by (auto simp: stream_ok_def open_peers_def split: prog.splits)
    ultimately show ?thesis using old by (auto simp: stream_ok_def so_goto_def)
  qed
  ultimately show ?thesis by (simp add: so_match_def)
qed

lemma take_drop_add: "take w xs @ take j (drop w xs) = take (w + j) xs"
  by (simp add: take_add)

text \<open>Writing a part of a message.\<close>

lemma put_match:
  assumes m: "so_match n B s t" and p: "p < n" "so_prog s p = Broadcast msg k" "q \<in> peers n p" "w = so_written s p q" "w + j \<le> length (framed msg)" "0 < j"
    and B: "length (so_wire s p q) + j \<le> B"
  defines "s' \<equiv> s\<lparr>so_written := upd2 (so_written s) p q (w + j), so_wire := upd2 (so_wire s) p q (so_wire s p q @ take j (drop w (framed msg)))\<rparr>"
  shows "if w + j < length (framed msg) then so_match n B s' t
    else so_match n B s' (put_link p q (nt_link t p q @ [msg]) (set_party p (Broadcast msg k) (nt_todo t p - {q}) (nt_got t p) t))"
proof -
  have q: "q < n" "p \<noteq> q" using p(3) by (auto simp: peers_def)
  note me = so_matchD(1) [OF m p(1)] and st = so_matchD(2) [OF m p(1) q]
  have w: "w < length (framed msg)" using p(5,6) by simp
  have bytes: "so_read s q p @ so_wire s p q @ take j (drop w (framed msg)) = concat (map framed (nt_link t p q)) @ take (w + j) (framed msg)"
  proof -
    have "so_read s q p @ so_wire s p q = concat (map framed (nt_link t p q)) @ take w (framed msg)"
      using st w p(2,4) by (simp add: stream_ok_def partly_def)
    then show ?thesis by (simp only: append_assoc [symmetric] take_drop_add [symmetric])
  qed
  have fields: "so_prog s' = so_prog s" "so_read s' = so_read s" "so_todo s' = so_todo s" "so_got s' = so_got s"
      "so_wire s' r x = (if r = p \<and> x = q then so_wire s p q @ take j (drop w (framed msg)) else so_wire s r x)"
      "so_written s' r = (if r = p then (so_written s p)(q := w + j) else so_written s r)" for r x
    by (auto simp: s'_def upd2_def)
  have part: "partly s' r x = (if r = p \<and> x = q then (if w + j < length (framed msg) then take (w + j) (framed msg) else []) else partly s r x)" for r x
    using p(2) by (auto simp: partly_def fields split: prog.splits)
  have other: "stream_ok B s' ms r x = stream_ok B s ms r x" if "\<not> (r = p \<and> x = q)" for ms r x
    using that by (auto simp: stream_ok_def part fields)
  have open': "open_peers n s' r = (if r = p \<and> w + j = length (framed msg) then open_peers n s p - {q} else open_peers n s r)" for r
    using p w by (auto simp: open_peers_def fields split: prog.splits)
  have parties: "party_ok n s' t r" if "r < n" "w + j < length (framed msg)" for r
    using so_matchD(1) [OF m that(1)] that(2) p(2) by (auto simp: party_ok_def open' fields)
  have first: "length (so_read s q p) \<le> w" if "nt_link t p q = []"
  proof -
    have "so_read s q p @ so_wire s p q = take w (framed msg)" using st w p(2,4) that by (simp add: stream_ok_def partly_def)
    from arg_cong [OF this, of length] w show ?thesis by simp
  qed
  show ?thesis
  proof (cases "w + j < length (framed msg)")
    case True
    have "stream_ok B s' (nt_link t p q) p q" using st bytes B True by (simp add: stream_ok_def part fields)
    then have "stream_ok B s' (nt_link t r x) r x" if "r < n" "x < n" "r \<noteq> x" for r x
      using other so_matchD(2) [OF m that] by (cases "r = p \<and> x = q") auto
    then show ?thesis using True parties by (simp add: so_match_def)
  next
    case False
    then have full: "w + j = length (framed msg)" using p(5) by simp
    let ?t = "put_link p q (nt_link t p q @ [msg]) (set_party p (Broadcast msg k) (nt_todo t p - {q}) (nt_got t p) t)"
    have fr: "framable msg" using me p(2) by (simp add: party_ok_def)
    have "party_ok n s' ?t r" if "r < n" for r
      using so_matchD(1) [OF m that] p(2) full by (auto simp: party_ok_def open' fields)
    moreover have "stream_ok B s' (nt_link t p q @ [msg]) p q"
      using st bytes B full fr first w by (auto simp: stream_ok_def part fields hd_append)
    then have "stream_ok B s' (nt_link ?t r x) r x" if "r < n" "x < n" "r \<noteq> x" for r x
      using other so_matchD(2) [OF m that] by (cases "r = p \<and> x = q") auto
    ultimately show ?thesis using False by (simp add: so_match_def)
  qed
qed

text \<open>What a party has read is a part of the frame that is next: the first of the queue, or the one that is being written.\<close>

lemma read_prefix:
  assumes "stream_ok B s ms p q" "list_all framable ms" "all_msgs framable (so_prog s p)"
  obtains (next_frame) m ms' rest where "ms = m # ms'" "framable m" "framed m = so_read s q p @ rest" "rest = take (length rest) (so_wire s p q)"
  | (unfinished) m rest where "ms = []" "framable m" "framed m = so_read s q p @ rest" "rest \<noteq> []" "so_read s q p \<noteq> []"
  | (nothing) "ms = []" "so_read s q p = []"
proof (cases ms)
  case (Cons m ms')
  have eq: "so_read s q p @ so_wire s p q = framed m @ concat (map framed ms') @ partly s p q" and le: "length (so_read s q p) \<le> length (framed m)"
    using assms(1) Cons by (simp_all add: stream_ok_def)
  let ?rest = "drop (length (so_read s q p)) (framed m)"
  have "take (length (so_read s q p)) (framed m @ concat (map framed ms') @ partly s p q) = so_read s q p" unfolding eq [symmetric] by simp
  then have "take (length (so_read s q p)) (framed m) = so_read s q p" using le by simp
  then have fr: "framed m = so_read s q p @ ?rest" by (metis append_take_drop_id)
  then have "so_wire s p q = ?rest @ concat (map framed ms') @ partly s p q"
    using eq by (metis append.assoc same_append_eq)
  then have "?rest = take (length ?rest) (so_wire s p q)" by simp
  then show ?thesis by (rule next_frame [OF Cons _ fr, rotated]) (use assms(2) Cons in simp)
next
  case Nil
  show ?thesis
  proof (cases "so_read s q p = []")
    case False
    have eq: "so_read s q p @ so_wire s p q = partly s p q" using assms(1) Nil by (simp add: stream_ok_def)
    then have "partly s p q \<noteq> []" using False by auto
    then obtain m k where m: "so_prog s p = Broadcast m k" "so_written s p q < length (framed m)" "partly s p q = take (so_written s p q) (framed m)"
      by (auto simp: partly_def split: prog.splits if_splits)
    have "framed m = so_read s q p @ so_wire s p q @ drop (so_written s p q) (framed m)"
      using eq m(3) append_take_drop_id [of "so_written s p q" "framed m"] by (metis append.assoc)
    then show ?thesis by (rule unfinished [OF Nil _ _ _ False, rotated]) (use assms(3) m(1,2) in simp_all)
  next
    case True
    with Nil show ?thesis by (rule nothing)
  qed
qed

lemma fetch_match:
  assumes m: "so_match n B s t" and p: "p < n" "so_prog s p = ReceiveAll k" "q \<in> so_todo s p" "j \<le> wanted (so_read s p q)" "j \<le> length (so_wire s q p)"
  defines "s' \<equiv> s\<lparr>so_read := upd2 (so_read s) p q (so_read s p q @ take j (so_wire s q p)), so_wire := upd2 (so_wire s) q p (drop j (so_wire s q p))\<rparr>"
  shows "so_match n B s' t"
proof -
  have q: "q < n" "q \<noteq> p" using so_matchD(1) [OF m p(1)] p(3) by (auto simp: party_ok_def peers_def)
  note st = so_matchD(2) [OF m q(1) p(1) q(2)]
  have fields: "so_prog s' = so_prog s" "so_written s' = so_written s" "so_todo s' = so_todo s" "so_got s' = so_got s"
      "so_wire s' r x = (if r = q \<and> x = p then drop j (so_wire s q p) else so_wire s r x)"
      "so_read s' x r = (if r = q \<and> x = p then so_read s p q @ take j (so_wire s q p) else so_read s x r)" for r x
    by (auto simp: s'_def)
  have same: "partly s' = partly s" "open_peers n s' = open_peers n s" by (auto simp: fun_eq_iff partly_def open_peers_def fields split: prog.splits)
  have "party_ok n s' t r" if "r < n" for r using so_matchD(1) [OF m that] by (simp add: party_ok_def same fields)
  moreover have "length (so_read s p q @ take j (so_wire s q p)) \<le> length (framed (hd (nt_link t q p)))" if "nt_link t q p \<noteq> []"
  proof -
    have fr: "list_all framable (nt_link t q p)" "all_msgs framable (so_prog s q)" using st so_matchD(1) [OF m q(1)] by (simp_all add: stream_ok_def party_ok_def)
    from st fr show ?thesis
    proof (cases rule: read_prefix)
      case (next_frame msg ms rest)
      then show ?thesis using wanted_framed(1) [OF next_frame(2,3)] p(4,5) unfolding next_frame(1) by (simp add: next_frame(3) del: length_framed)
    qed (use that in simp_all)
  qed
  then have "stream_ok B s' (nt_link t q p) q p" using st p(2,3) by (auto simp: stream_ok_def same fields)
  then have "stream_ok B s' (nt_link t r x) r x" if "r < n" "x < n" "r \<noteq> x" for r x
    using so_matchD(2) [OF m that] by (cases "r = q \<and> x = p") (auto simp: stream_ok_def same fields)
  ultimately show ?thesis by (simp add: so_match_def)
qed

lemma arrive_match:
  assumes m: "so_match n B s t" and p: "p < n" "so_prog s p = ReceiveAll k" "q \<in> so_todo s p" "wanted (so_read s p q) = 0"
  defines "s' \<equiv> s\<lparr>so_read := upd2 (so_read s) p q [], so_todo := (so_todo s)(p := so_todo s p - {q}),
       so_got := (so_got s)(p := so_got s p @ [(q, Some (drop 4 (so_read s p q)))])\<rparr>"
  shows "\<exists>t'. net_step n cap t t' \<and> so_match n B s' t'"
proof -
  have q: "q < n" "q \<noteq> p" using so_matchD(1) [OF m p(1)] p(3) by (auto simp: party_ok_def peers_def)
  note st = so_matchD(2) [OF m q(1) p(1) q(2)] and me = so_matchD(1) [OF m p(1)]
  have fr: "list_all framable (nt_link t q p)" "all_msgs framable (so_prog s q)" using st so_matchD(1) [OF m q(1)] by (simp_all add: stream_ok_def party_ok_def)
  from st fr obtain msg ms where msg: "nt_link t q p = msg # ms" "so_read s p q = framed msg"
  proof (cases rule: read_prefix)
    case (next_frame msg ms rest)
    then show ?thesis using wanted_framed(2) [OF next_frame(2,3)] p(4) that by simp
  next
    case (unfinished msg rest)
    then show ?thesis using wanted_framed(2) [OF unfinished(2,3)] p(4) by simp
  qed (use p(4) in \<open>simp add: wanted_def\<close>)
  let ?t = "put_link q p ms (set_party p (ReceiveAll k) (nt_todo t p - {q}) (nt_got t p @ [(q, Some msg)]) t)"
  have todo: "nt_prog t p = ReceiveAll k" "nt_todo t p = so_todo s p" "nt_got t p = so_got s p" using me p(2) by (simp_all add: party_ok_def open_peers_def)
  have step: "net_step n cap t ?t" using net_step.receive [OF p(1) todo(1) _ msg(1), of cap] p(3) todo(2) by simp
  have fields: "so_prog s' = so_prog s" "so_written s' = so_written s" "so_wire s' = so_wire s"
      "so_todo s' r = (if r = p then so_todo s p - {q} else so_todo s r)" "so_got s' r = (if r = p then so_got s p @ [(q, Some msg)] else so_got s r)"
      "so_read s' x r = (if r = q \<and> x = p then [] else so_read s x r)" for r x
    by (auto simp: s'_def msg(2))
  have same: "partly s' = partly s" "open_peers n s' r = (if r = p then so_todo s p - {q} else open_peers n s r)" for r
    using p(2) by (simp_all add: fun_eq_iff partly_def open_peers_def fields split: prog.splits)
  have "party_ok n s' ?t r" if "r < n" for r
    using so_matchD(1) [OF m that] p(2) todo(2,3) by (auto simp: party_ok_def same fields)
  moreover have "stream_ok B s' ms q p" using st msg by (auto simp: stream_ok_def same fields)
  then have "stream_ok B s' (nt_link ?t r x) r x" if "r < n" "x < n" "r \<noteq> x" for r x
    using so_matchD(2) [OF m that] p(2) by (cases "r = q \<and> x = p") (auto simp: stream_ok_def same fields)
  ultimately have "so_match n B s' ?t" by (simp add: so_match_def)
  with step show ?thesis by blast
qed

text \<open>The bytes that are still to be written and to be read.\<close>

definition unwritten :: "'a sockets \<Rightarrow> nat \<Rightarrow> nat \<Rightarrow> nat" where
  "unwritten s p q = (case so_prog s p of Broadcast m _ \<Rightarrow> length (framed m) - so_written s p q | _ \<Rightarrow> 0)"

definition bytes_left :: "nat \<Rightarrow> 'a sockets \<Rightarrow> nat" where
  "bytes_left n s = (\<Sum>(p, q)\<in>{..<n} \<times> {..<n}. 2 * unwritten s p q + length (so_wire s p q))"

lemma bytes_left_less:
  assumes "p < n" "q < n" "\<And>r x. (r, x) \<noteq> (p, q) \<Longrightarrow> unwritten s' r x = unwritten s r x \<and> so_wire s' r x = so_wire s r x"
    and "2 * unwritten s' p q + length (so_wire s' p q) < 2 * unwritten s p q + length (so_wire s p q)"
  shows "bytes_left n s' < bytes_left n s"
  unfolding bytes_left_def
proof (rule sum_strict_mono_ex1)
  show "\<forall>x\<in>{..<n} \<times> {..<n}. (case x of (p, q) \<Rightarrow> 2 * unwritten s' p q + length (so_wire s' p q))
      \<le> (case x of (p, q) \<Rightarrow> 2 * unwritten s p q + length (so_wire s p q))"
  proof clarify
    fix r x
    show "2 * unwritten s' r x + length (so_wire s' r x) \<le> 2 * unwritten s r x + length (so_wire s r x)"
      using assms(3) [of r x] assms(4) by (cases "(r, x) = (p, q)") auto
  qed
  show "\<exists>x\<in>{..<n} \<times> {..<n}. (case x of (p, q) \<Rightarrow> 2 * unwritten s' p q + length (so_wire s' p q))
      < (case x of (p, q) \<Rightarrow> 2 * unwritten s p q + length (so_wire s p q))"
    using assms(1,2,4) by (intro bexI [of _ "(p, q)"]) simp_all
qed simp

section \<open>Enough room\<close>

text \<open>
  The simulation: parties that all finish in rounds, and a state of the queues that can be reached, where no queue has more than two messages.
\<close>

definition so_sim :: "nat \<Rightarrow> nat \<Rightarrow> (nat \<Rightarrow> (u8 list, 'a) prog) \<Rightarrow> 'a sockets \<Rightarrow> (u8 list, 'a) net \<Rightarrow> bool" where
  "so_sim n B ps s t \<longleftrightarrow> all_finish n ps (\<lambda>_. True) \<and> (net_step n 3)\<^sup>*\<^sup>* (net_init n ps) t \<and> so_match n B s t"

interpretation tcp: stuttering "net_step n 3" "so_step n B" "so_sim n B ps" "bytes_left n" for n B ps
proof
  fix s s' :: "'a sockets" and t
  let ?goal = "(\<exists>t'. net_step n 3 t t' \<and> so_sim n B ps s' t') \<or> so_sim n B ps s' t \<and> bytes_left n s' < bytes_left n s"
  assume sim: "so_sim n B ps s t" and step: "so_step n B s s'"
  have m: "so_match n B s t" and fin: "all_finish n ps (\<lambda>_. True)" and re: "(net_step n 3)\<^sup>*\<^sup>* (net_init n ps) t" using sim by (simp_all add: so_sim_def)
  have goes: "?goal" if "\<exists>t'. net_step n 3 t t' \<and> so_match n B s' t'"
    using that fin re unfolding so_sim_def by (meson rtranclp.rtrancl_into_rtrancl)
  have stays: "?goal" if "so_match n B s' t" "bytes_left n s' < bytes_left n s"
    using that fin re by (simp add: so_sim_def)
  from step show ?goal
  proof cases
    case (put p msg k q w j)
    have q: "q < n" "p \<noteq> q" using put(4) by (auto simp: peers_def)
    note new = put_match [OF m put(2,3,4,5,7,6,8), folded put(1)]
    show ?thesis
    proof (cases "w + j < length (framed msg)")
      case True
      have "bytes_left n s' < bytes_left n s"
        by (rule bytes_left_less [OF put(2) q(1)]) (use put(3,5,6) True in \<open>auto simp: put(1) unwritten_def split: prog.splits\<close>)
      then show ?thesis using new True stays by simp
    next
      case False
      have "nt_prog t p = Broadcast msg k" "q \<in> nt_todo t p"
        using so_matchD(1) [OF m put(2)] put(3-7) by (auto simp: party_ok_def open_peers_def)
      moreover have "length (nt_link t p q) < 3" using reached_safe [OF re fin q(1) put(2)] q(2) by auto
      ultimately have "net_step n 3 t (put_link p q (nt_link t p q @ [msg]) (set_party p (Broadcast msg k) (nt_todo t p - {q}) (nt_got t p) t))"
        by (intro net_step.send [OF put(2)])
      then show ?thesis using new False goes by auto
    qed
  next
    case (sent p msg k)
    have me: "party_ok n s t p" by (rule so_matchD(1) [OF m sent(2)])
    have "open_peers n s p = {}" using sent(3,4) by (auto simp: open_peers_def)
    moreover have "so_read s p q = []" if "q < n" "q \<noteq> p" for q
      using so_matchD(2) [OF m that(1) sent(2) that(2)] sent(3) by (auto simp: stream_ok_def)
    ultimately have "so_match n B s' (set_party p k (peers n p) [] t)"
      unfolding sent(1) by (intro goto_match [OF m sent(2)]) (use me sent(3) in \<open>auto simp: party_ok_def\<close>)
    moreover have "net_step n 3 t (set_party p k (peers n p) [] t)"
      using me \<open>open_peers n s p = {}\<close> sent(3) by (intro net_step.sent [OF sent(2)]) (auto simp: party_ok_def)
    ultimately show ?thesis using goes by blast
  next
    case (fetch p k q j)
    have q: "q < n" using so_matchD(1) [OF m fetch(2)] fetch(4) by (auto simp: party_ok_def peers_def)
    have "bytes_left n s' < bytes_left n s"
      by (rule bytes_left_less [OF q fetch(2)]) (use fetch(5,7) in \<open>auto simp: fetch(1) unwritten_def split: prog.splits\<close>)
    then show ?thesis using fetch_match [OF m fetch(2-4,6,7), folded fetch(1)] stays by simp
  next
    case (arrive p k q)
    then show ?thesis using arrive_match [OF m arrive(2-5), where cap = 3, folded arrive(1)] goes by simp
  next
    case (received p k)
    have me: "party_ok n s t p" by (rule so_matchD(1) [OF m received(2)])
    have o: "open_peers n s p = {}" using received(3,4) by (simp add: open_peers_def)
    then have "so_match n B s' (set_party p (k (so_got s p)) (peers n p) [] t)"
      unfolding received(1) by (intro goto_match [OF m received(2)]) (use me received(3) in \<open>auto simp: party_ok_def\<close>)
    moreover have "net_step n 3 t (set_party p (k (so_got s p)) (peers n p) [] t)"
      using me o received(3) net_step.received [OF received(2), of t k 3] by (auto simp: party_ok_def)
    ultimately show ?thesis using goes by blast
  qed
qed

lemma inevitable_terminates: "inevitable n cap Q s \<Longrightarrow> termip (net_step n cap) s"
proof (induction rule: inevitable.induct)
  case (ends s xs)
  then have "\<not> net_step n cap s s'" for s' by (auto elim: net_step.cases)
  then show ?case by (auto intro: accp.accI)
next
  case (goes_on s s0)
  then show ?case by (auto intro: accp.accI)
qed

lemma so_sim_init:
  assumes "all_finish n ps Q" "\<And>p. p < n \<Longrightarrow> all_msgs framable (ps p)"
  shows "so_sim n B ps (so_init n ps) (net_init n ps)"
  using all_finish_mono [OF assms(1), of "\<lambda>_. True"] so_match_init [OF assms(2)] by (simp add: so_sim_def)

lemma so_terminates:
  assumes "all_finish n ps Q" "0 < n" "\<And>p. p < n \<Longrightarrow> all_msgs framable (ps p)"
  shows "termip (so_step n B) (so_init n ps)"
  using tcp.terminates [OF inevitable_terminates [OF all_executions_finish [OF assms(1)]] so_sim_init [OF assms(1,3)]] assms(2) by simp

text \<open>Sockets with room for every frame: a party that waits is waiting for one that does not.\<close>

lemma so_progress:
  assumes sim: "so_sim n B ps s t" and fin: "all_finish n ps Q" and n: "0 < n"
    and room: "\<And>p. p < n \<Longrightarrow> all_msgs (\<lambda>m. length (framed m) \<le> B) (so_prog s p)" and stuck: "\<forall>s'. \<not> so_step n B s s'"
  shows "so_finished n Q s"
proof -
  have m: "so_match n B s t" and re: "(net_step n 3)\<^sup>*\<^sup>* (net_init n ps) t" using sim by (simp_all add: so_sim_def)
  obtain cur lo ms' r b where ar: "all_finish n cur Q" "around n cur lo t ms' r b" "\<exists>p<n. r p = lo" by (rule reached_around [OF re fin n])
  from ar(1) show ?thesis
  proof (cases rule: all_finish.cases)
    case (finish xs)
    have fin_p: "nt_prog t p = Done (xs p) \<and> r p = lo" if "p < n" for p
      using ar(2) that finish(1) [OF that] by (cases rule: around_cases) (auto elim: in_roundE)
    have link: "nt_link t p q = []" if "p < n" "q < n" "p \<noteq> q" for p q
      using net_invD(3) [of n t ms' r b q p] ar(2) that fin_p by (simp add: around_def num_heard_def num_sent_def heard_from_def sent_to_def)
    have prog: "so_prog s p = Done (xs p)" if "p < n" for p using fin_p [OF that] so_matchD(1) [OF m that] by (simp add: party_ok_def)
    have "so_wire s p q = [] \<and> so_read s q p = []" if "p < n" "q < n" "p \<noteq> q" for p q
      using so_matchD(2) [OF m that] link [OF that] prog [OF that(1)] by (simp add: stream_ok_def partly_def)
    then show ?thesis unfolding so_finished_def using prog finish(2) by blast
  next
    case (round ms ks)
    obtain p where p: "p < n" "r p = lo" using ar(3) by blast
    have "\<exists>s'. so_step n B s s'"
    proof (rule around_enabled [OF ar(2) round(1) p])
      fix p msg k q assume e: "p < n" "nt_prog t p = Broadcast msg k" "q \<in> nt_todo t p" "nt_link t p q = []"
      have pr: "so_prog s p = Broadcast msg k" "q \<in> open_peers n s p" using so_matchD(1) [OF m e(1)] e(2,3) by (simp_all add: party_ok_def)
      then have q: "so_prog s p = Broadcast msg k" "q \<in> peers n p" "so_written s p q < length (framed msg)" by (simp_all add: open_peers_def)
      then have q': "q < n" "p \<noteq> q" by (auto simp: peers_def)
      have "so_read s q p @ so_wire s p q = take (so_written s p q) (framed msg)"
        using so_matchD(2) [OF m e(1) q'] e(4) q(1,3) by (simp add: stream_ok_def partly_def)
      from arg_cong [OF this, of length] have "length (so_wire s p q) < B" using room [OF e(1)] q(1,3) by simp
      then show "\<exists>s'. so_step n B s s'" using so_step.put [OF e(1) q(1,2) refl, of 1 B] q(3) by auto
    next
      fix p msg k assume e: "p < n" "nt_prog t p = Broadcast msg k" "nt_todo t p = {}"
      have pr: "so_prog s p = Broadcast msg k" "open_peers n s p = {}" using so_matchD(1) [OF m e(1)] e(2,3) by (simp_all add: party_ok_def)
      then have "\<forall>q\<in>peers n p. length (framed msg) \<le> so_written s p q" by (auto simp: open_peers_def)
      then show "\<exists>s'. so_step n B s s'" using so_step.sent [OF e(1) pr(1)] by blast
    next
      fix p k q msg ms' assume e: "p < n" "nt_prog t p = ReceiveAll k" "q \<in> nt_todo t p" "nt_link t q p = msg # ms'"
      have pr: "so_prog s p = ReceiveAll k" "q \<in> so_todo s p" "q < n" "q \<noteq> p"
        using party_receiving [OF so_matchD(1) [OF m e(1)] e(2)] e(3) by (auto simp: peers_def)
      have st: "stream_ok B s (msg # ms') q p" "list_all framable (msg # ms')" "all_msgs framable (so_prog s q)"
        using so_matchD(2) [OF m pr(3) e(1) pr(4)] so_matchD(1) [OF m pr(3)] e(4) by (auto simp: stream_ok_def party_ok_def)
      then show "\<exists>s'. so_step n B s s'"
      proof (cases rule: read_prefix)
        case (next_frame msg' ms'' rest)
        show ?thesis
        proof (cases "rest = []")
          case True
          then show ?thesis using so_step.arrive [OF e(1) pr(1,2)] wanted_framed(2) [OF next_frame(2,3)] by blast
        next
          case False
          then have "0 < wanted (so_read s p q)" "so_wire s q p \<noteq> []" using wanted_framed(2) [OF next_frame(2,3)] next_frame(4) by auto
          then show ?thesis using so_step.fetch [OF e(1) pr(1,2), of 1 B] by (auto simp: Suc_le_eq)
        qed
      qed simp_all
    next
      fix p k assume e: "p < n" "nt_prog t p = ReceiveAll k" "nt_todo t p = {}"
      have "so_prog s p = ReceiveAll k" "so_todo s p = {}" using party_receiving [OF so_matchD(1) [OF m e(1)] e(2)] e(3) by simp_all
      then show "\<exists>s'. so_step n B s s'" using so_step.received [OF e(1)] by blast
    qed
    with stuck show ?thesis by blast
  qed
qed

lemma so_all_end:
  assumes "all_finish n ps Q" "0 < n" "\<And>p. p < n \<Longrightarrow> all_msgs (\<lambda>m. framable m \<and> length (framed m) \<le> B) (ps p)"
  shows "so_ends n B (so_finished n Q) (so_init n ps)"
proof -
  have fr: "all_msgs framable (ps p)" and le: "all_msgs (\<lambda>m. length (framed m) \<le> B) (ps p)" if "p < n" for p
    using assms(3) [OF that] by (rule all_msgs_mono; simp)+
  show ?thesis
  proof (rule so_endsI [OF so_terminates [OF assms(1,2) fr]])
    fix s assume re: "(so_step n B)\<^sup>*\<^sup>* (so_init n ps) s" and stuck: "\<forall>s'. \<not> so_step n B s s'"
    obtain t where sim: "so_sim n B ps s t" using tcp.reached [OF re so_sim_init [OF assms(1) fr]] by blast
    have "all_msgs (\<lambda>m. length (framed m) \<le> B) (so_prog s p)" if "p < n" for p
      by (rule all_msgs_reached [OF re _ that]) (use le in \<open>simp add: so_init_def\<close>)
    then show "so_finished n Q s" by (rule so_progress [OF sim assms(1,2) _ stuck])
  qed
qed

section \<open>The lengths of messages\<close>

text \<open>
  \<open>talks p L Q\<close>: unless it panics, the program sends messages of the lengths \<open>L\<close>, whatever it receives, and
  its result satisfies \<open>Q\<close>.
\<close>

primrec talks :: "('b list, 'a) prog \<Rightarrow> nat list \<Rightarrow> ('a \<Rightarrow> bool) \<Rightarrow> bool" where
  "talks (Done x) L Q \<longleftrightarrow> L = [] \<and> Q x"
| "talks (Fail e) L Q \<longleftrightarrow> True"
| "talks (Broadcast m k) L Q \<longleftrightarrow> (case L of [] \<Rightarrow> False | l # L' \<Rightarrow> length m = l \<and> talks k L' Q)"
| "talks (ReceiveAll k) L Q \<longleftrightarrow> (\<forall>arr. talks (k arr) L Q)"

lemma talks_bind:
  "talks p L Q \<Longrightarrow> (\<And>x. Q x \<Longrightarrow> talks (f x) L' Q') \<Longrightarrow> talks (pbind p f) (L @ L') Q'"
  by (induction p arbitrary: L) (auto split: list.splits)

lemma talks_quiet: "talks p [] Q \<Longrightarrow> (\<And>x. Q x \<Longrightarrow> talks (f x) L Q') \<Longrightarrow> talks (pbind p f) L Q'"
  using talks_bind [of p "[]" Q f L Q'] by simp

lemma talks_lift: "(\<And>x. r = Inr x \<Longrightarrow> talks (f x) L Q) \<Longrightarrow> talks (pbind (lift_res r) f) L Q"
  by (cases r) simp_all

lemma talks_mono: "talks p L Q \<Longrightarrow> (\<And>x. Q x \<Longrightarrow> Q' x) \<Longrightarrow> talks p L Q'"
  by (induction p arbitrary: L) (auto split: list.splits)

lemma talks_all_msgs: "talks p L Q \<Longrightarrow> (\<forall>l\<in>set L. C l) \<Longrightarrow> all_msgs (\<lambda>m. C (length m)) p"
proof (induction p arbitrary: L)
  case (ReceiveAll k)
  then show ?case using ReceiveAll.IH [OF rangeI] by auto
qed (auto split: list.splits)

section \<open>Too little room\<close>

text \<open>
  The parties send messages of lengths \<open>L\<close>. No party gets beyond round \<open>i\<close>, and who is in this round is still writing.
\<close>

definition held_up :: "nat \<Rightarrow> nat list \<Rightarrow> nat \<Rightarrow> (u8 list, 'a) net \<Rightarrow> (nat \<Rightarrow> nat \<Rightarrow> u8 list) \<Rightarrow> (nat \<Rightarrow> nat) \<Rightarrow> (nat \<Rightarrow> (u8 list, 'a) prog) \<Rightarrow> bool" where
  "held_up n L i t m r b \<longleftrightarrow> net_inv n t m r b \<and>
     (\<forall>p<n. r p \<le> i \<and> talks (b p) (drop (r p) L) (\<lambda>_. True) \<and> (r p = i \<longrightarrow> (\<exists>msg k. nt_prog t p = Broadcast msg k)))"

lemma held_upD:
  assumes "held_up n L i t m r b" "p < n"
  shows "net_inv n t m r b" "r p \<le> i" "talks (b p) (drop (r p) L) (\<lambda>_. True)" "r p = i \<Longrightarrow> \<exists>msg k. nt_prog t p = Broadcast msg k"
  using assms by (simp_all add: held_up_def)

lemma held_up_init:
  assumes "all_finish n ps Q" "0 < n" "\<And>p. p < n \<Longrightarrow> talks (ps p) L (\<lambda>_. True)" "i < length L"
  shows "\<exists>m. held_up n L i (net_init n ps) m (\<lambda>_. 0) ps"
proof -
  have "\<exists>msg k. ps p = Broadcast msg k" if "p < n" for p
    using all_finish_shape [OF assms(1) that] assms(3) [OF that] assms(4) by (auto simp: neq_Nil_conv)
  moreover obtain m where "around n ps 0 (net_init n ps) m (\<lambda>_. 0) ps" using around_init [OF assms(1,2)] by blast
  ultimately show ?thesis using assms(3) by (auto simp: held_up_def around_def net_init_def)
qed

text \<open>Nobody has read of what a party writes in round \<open>i\<close>, so that it cannot write all of it.\<close>

lemma writer_waits:
  assumes h: "held_up n L i t m r b" and s: "so_match n B s t" and B: "i < length L" "B < L ! i + 4"
    and p: "p < n" "r p = i" "nt_prog t p = Broadcast msg k" "q < n" "p \<noteq> q"
  shows "q \<in> nt_todo t p"
proof (rule ccontr)
  assume q: "q \<notin> nt_todo t p"
  have inv: "net_inv n t m r b" by (rule held_upD(1) [OF h p(1)])
  have b: "b p = Broadcast msg k" "m i p = msg" using net_invD(1) [OF inv p(1)] p(2,3) by (auto simp: in_round_def)
  have len: "length msg = L ! i" using held_upD(3) [OF h p(1)] B(1) b(1) p(2) by (auto simp: Cons_nth_drop_Suc [symmetric])
  have "num_sent n t r p q = Suc i" using p q by (simp add: num_sent_def sent_to_def peers_def)
  moreover have le: "num_heard n t r q p \<le> i"
    using held_upD(2,4) [OF h p(4)] by (cases "r q = i") (auto simp: num_heard_def heard_from_def split: prog.splits)
  ultimately have link: "nt_link t p q = map (\<lambda>j. m j p) [num_heard n t r q p..<i] @ [msg]" (is "_ = ?ms @ _")
    using net_invD(3) [OF inv p(4,1)] p(5) b(2) by simp
  note st = so_matchD(2) [OF s p(1,4,5)]
  have "q \<notin> open_peers n s p" "so_prog s p = Broadcast msg k" using so_matchD(1) [OF s p(1)] q p(3) by (simp_all add: party_ok_def)
  then have "partly s p q = []" using p(4,5) by (simp add: open_peers_def partly_def peers_def)
  then have bytes: "so_read s q p @ so_wire s p q = concat (map framed ?ms) @ framed msg" using st by (simp add: stream_ok_def link)
  have "length (so_read s q p) \<le> length (concat (map framed ?ms))"
  proof (cases ?ms)
    case Nil
    then have "num_heard n t r q p = i" using le by auto
    have "so_read s q p = []"
    proof (rule ccontr)
      assume "so_read s q p \<noteq> []"
      then obtain k' where k': "so_prog s q = ReceiveAll k'" "p \<in> so_todo s q" using st by (auto simp: stream_ok_def)
      then have "nt_prog t q = ReceiveAll k'" using so_matchD(1) [OF s p(4)] by (simp add: party_ok_def)
      moreover from party_receiving [OF so_matchD(1) [OF s p(4)] this] have "p \<in> nt_todo t q" using k'(2) by simp
      ultimately have "r q = i" using \<open>num_heard n t r q p = i\<close> by (simp add: num_heard_def heard_from_def)
      then show False using held_upD(4) [OF h p(4)] \<open>nt_prog t q = ReceiveAll k'\<close> by simp
    qed
    then show ?thesis by simp
  next
    case (Cons a as)
    then show ?thesis using st by (auto simp: stream_ok_def link)
  qed
  then have "length (framed msg) \<le> length (so_wire s p q)" using arg_cong [OF bytes, of length] by simp
  then show False using st B(2) len by (simp add: stream_ok_def)
qed

lemma held_up_step:
  assumes h: "held_up n L i t m r b" and s: "so_match n B s t" and B: "i < length L" "B < L ! i + 4" and n: "2 \<le> n"
    and reach: "(net_step n cap)\<^sup>*\<^sup>* (net_init n ps) t" "all_finish n ps Q" and step: "net_step n cap t t'"
  shows "\<exists>m r b. held_up n L i t' m r b"
proof -
  note inv = held_upD(1) [OF h]
  have stay: "held_up n L i t' m r b" if "net_inv n t' m r b" "\<And>p. p < n \<Longrightarrow> r p = i \<Longrightarrow> nt_prog t' p = nt_prog t p"
    using h that by (simp add: held_up_def)
  from step show ?thesis
  proof cases
    case (send p msg k q)
    then have "held_up n L i t' m r b" using send_keeps [OF inv [OF send(2)] send(2-4)] by (intro stay) auto
    then show ?thesis by blast
  next
    case (sent p msg k)
    define q where "q = (if p = 0 then 1 else 0 :: nat)"
    have q: "q < n" "p \<noteq> q" using n by (auto simp: q_def)
    have "r p \<noteq> i" using writer_waits [OF h s B sent(2) _ sent(3) q] sent(4) by auto
    then have "held_up n L i t' m r b" using sent_keeps [OF inv [OF sent(2)] sent(2-4)] sent(1) by (intro stay) auto
    then show ?thesis by blast
  next
    case (receive p k q msg ms)
    then have "held_up n L i t' m r b" using receive_keeps [OF inv [OF receive(2)] receive(2-5)] by (intro stay) auto
    then show ?thesis by blast
  next
    case (received p k)
    let ?b = "k (nt_got t p)"
    obtain msg where shape: "(\<exists>x. ?b = Done x) \<or> (\<exists>k'. ?b = Broadcast msg (ReceiveAll k'))"
      using next_round_shape [OF reach received(2-4)] by blast
    have "r p \<noteq> i" using held_upD(4) [OF h received(2)] received(3) by auto
    then have lt: "r p < i" using held_upD(2) [OF h received(2)] by simp
    have "b p = Broadcast (m (r p) p) (ReceiveAll k)" using net_invD(1) [OF inv [OF received(2)] received(2)] received(3) by (auto simp: in_round_def)
    then have talk: "talks ?b (drop (Suc (r p)) L) (\<lambda>_. True)"
      using held_upD(3) [OF h received(2)] lt B(1) by (auto simp: Cons_nth_drop_Suc [symmetric])
    moreover have "drop (Suc (r p)) L \<noteq> []" using lt B(1) by simp
    ultimately obtain k' where "?b = Broadcast msg (ReceiveAll k')" using shape by auto
    then have "held_up n L i t' (m(Suc (r p) := (m (Suc (r p)))(p := msg))) (r(p := Suc (r p))) (b(p := ?b))"
      using received_advances [OF inv [OF received(2)] received(2-4) shape refl] h lt talk received(1) by (auto simp: held_up_def)
    then show ?thesis by blast
  qed
qed

lemma all_held_up:
  assumes fin: "all_finish n ps Q" and n: "2 \<le> n" and talk: "\<And>p. p < n \<Longrightarrow> talks (ps p) L (\<lambda>_. True)" and small: "\<forall>l\<in>set L. l < 2 ^ 32"
    and B: "i < length L" "B < L ! i + 4"
  shows "so_ends n B (\<lambda>s. \<forall>p<n. (\<exists>m k. so_prog s p = Broadcast m k) \<or> (\<exists>k. so_prog s p = ReceiveAll k)) (so_init n ps)"
proof -
  have n0: "0 < n" using n by simp
  have fr: "all_msgs framable (ps p)" if "p < n" for p using talks_all_msgs [OF talk [OF that] small] .
  show ?thesis
  proof (rule so_endsI [OF so_terminates [OF fin n0 fr]])
    fix s assume "(so_step n B)\<^sup>*\<^sup>* (so_init n ps) s"
    then have "\<exists>t m r b. so_sim n B ps s t \<and> held_up n L i t m r b"
    proof (induction rule: rtranclp_induct)
      case base
      then show ?case using held_up_init [OF fin n0 talk B(1)] so_sim_init [OF fin fr] by blast
    next
      case (step s s')
      then obtain t m r b where t: "so_sim n B ps s t" "held_up n L i t m r b" by blast
      have "\<exists>m r b. held_up n L i t' m r b" if "net_step n 3 t t'" for t'
        using t that held_up_step [OF t(2) _ B n _ fin] unfolding so_sim_def by blast
      then show ?case using tcp.simulation [OF t(1) step.hyps(2)] t by blast
    qed
    then obtain t m r b where t: "so_match n B s t" "held_up n L i t m r b" by (auto simp: so_sim_def)
    show "\<forall>p<n. (\<exists>m k. so_prog s p = Broadcast m k) \<or> (\<exists>k. so_prog s p = ReceiveAll k)"
    proof clarify
      fix p assume p: "p < n" "\<nexists>k. so_prog s p = ReceiveAll k"
      have "b p \<noteq> Done x" for x using held_upD(2,3) [OF t(2) p(1)] B(1) by (cases "b p") auto
      then show "\<exists>m k. so_prog s p = Broadcast m k"
        using net_invD(1) [OF held_upD(1) [OF t(2) p(1)] p(1)] so_matchD(1) [OF t(1) p(1)] p(2) by (auto simp: in_round_def party_ok_def)
    qed
  qed
qed

end
