(* ===== verification/Traffic.thy ===== *)
theory Traffic
  imports Layer_Machine Server Peers Sockets
begin

text \<open>
  The traffic of a party. Every connection counts the bytes it sends and receives
  (\<open>TcpConnection\<close> in \<open>src/prc/connection.rs\<close>); \<open>metered\<close> runs a program over counting connections. What a
  party sends depends on the sizes of the circuit only and not on data or on what arrives: \<open>talks\<close> gives the
  lengths of its messages. Together they give the exact bandwidth of a query, and the panics of the
  32-bit counters.
\<close>

section \<open>Counting connections\<close>

definition count_sent :: "profile \<Rightarrow> u8 list \<Rightarrow> net_stat \<Rightarrow> net_stat res" where
  "count_sent P serialized stat =
     rbind (add_u32 P (of_nat (length serialized)) 4) (\<lambda>l.
     rbind (add_u32 P (ns_sent stat) l) (\<lambda>s. Ok (stat\<lparr>ns_sent := s\<rparr>)))"

definition count_received :: "profile \<Rightarrow> u8 list \<Rightarrow> net_stat \<Rightarrow> net_stat res" where
  "count_received P buffer stat =
     rbind (add_u32 P (of_nat (length buffer)) 4) (\<lambda>l.
     rbind (add_u32 P (ns_received stat) l) (\<lambda>r. Ok (stat\<lparr>ns_received := r\<rparr>)))"

definition count_broadcast :: "profile \<Rightarrow> u8 list \<Rightarrow> counters \<Rightarrow> counters res" where
  "count_broadcast P m cs = rmap (\<lambda>(q, stat). rbind (count_sent P m stat) (\<lambda>stat. Ok (q, stat))) cs"

fun count_arrival :: "profile \<Rightarrow> nat \<times> u8 list option \<Rightarrow> counters \<Rightarrow> counters res" where
  "count_arrival P (q, None) cs = Ok cs"
| "count_arrival P (q, Some m) cs =
     rmap (\<lambda>(r, stat). if r = q then rbind (count_received P m stat) (\<lambda>stat. Ok (r, stat)) else Ok (r, stat)) cs"

text \<open>
  A program over connections that count. With overflow checks a counter that does not fit ends the party; the
  peers that were served before in the same broadcast do not matter then.
\<close>

primrec metered :: "(u8 list, 'a) prog \<Rightarrow> profile \<Rightarrow> counters \<Rightarrow> (u8 list, 'a \<times> counters) prog" where
  "metered (Done x) P cs = Done (x, cs)"
| "metered (Fail e) P cs = Fail e"
| "metered (Broadcast m k) P cs = pbind (lift_res (count_broadcast P m cs)) (\<lambda>cs. Broadcast m (metered k P cs))"
| "metered (ReceiveAll k) P cs = ReceiveAll (\<lambda>arr. pbind (lift_res (rfold (count_arrival P) arr cs)) (\<lambda>cs. metered (k arr) P cs))"

definition counters_new :: "nat list \<Rightarrow> counters" where
  "counters_new qs = map (\<lambda>q. (q, ns_new)) qs"

text \<open>\<open>get_then_reset_netstat\<close> of the message handler, which the executor and the server forward to.\<close>

definition sv_get_then_reset_netstat :: "profile \<Rightarrow> counters \<Rightarrow> (net_stat \<times> counters) res" where
  "sv_get_then_reset_netstat P cs =
     rbind (get_then_reset_netstat P (map snd cs)) (\<lambda>(out, stats). Ok (out, zip (map fst cs) stats))"

text \<open>The counters are those of the TCP connections.\<close>

lemma tcp_send_counts:
  "tcp_send P G c (con, w) = rbind (count_sent P (cmd_serialize G c) (cn_stat con)) (\<lambda>stat.
     Ok (con\<lparr>cn_stat := stat\<rparr>, w\<lparr>ts_bytes := ts_bytes w @ frame G c\<rparr>))"
  by (cases "add_u32 P (of_nat (length (cmd_serialize G c))) 4")
    (auto simp: tcp_send_def count_sent_def write_all_def frame_def Let_def rbind_assoc)

section \<open>Counters of a run\<close>

text \<open>Every message has a length prefix of four bytes.\<close>

definition traffic :: "nat list \<Rightarrow> nat" where
  "traffic L = (\<Sum>l\<leftarrow>L. l + 4)"

lemma traffic_simps [simp]: "traffic [] = 0" "traffic (l # L) = l + 4 + traffic L" "traffic (L @ L') = traffic L + traffic L'"
  by (simp_all add: traffic_def)

definition grown :: "nat \<Rightarrow> nat \<Rightarrow> net_stat \<Rightarrow> net_stat" where
  "grown a b stat = \<lparr>ns_sent = ns_sent stat + of_nat a, ns_received = ns_received stat + of_nat b\<rparr>"

definition fits :: "profile \<Rightarrow> nat \<Rightarrow> nat \<Rightarrow> net_stat \<Rightarrow> bool" where
  "fits P a b stat \<longleftrightarrow> P = Release \<or> unat (ns_sent stat) + a < 2 ^ 32 \<and> unat (ns_received stat) + b < 2 ^ 32"

lemma grown_grown [simp]: "grown a b (grown c d stat) = grown (c + a) (d + b) stat" "grown 0 0 stat = stat"
  by (simp_all add: grown_def add.assoc)

lemma unat_plus_u32: "unat (x :: u32) + a < 2 ^ 32 \<Longrightarrow> unat (x + of_nat a) = unat x + a"
  by (simp add: unat_word_ariths unat_of_nat)

lemma grown_fits: "fits P (a + c) (b + d) stat \<Longrightarrow> fits P c d (grown a b stat)"
  by (auto simp: fits_def grown_def unat_plus_u32)

lemma apsnd_apsnd: "apsnd f (apsnd g x) = apsnd (\<lambda>y. f (g y)) x"
  by (cases x) simp

lemma fits_mono: "fits P a b stat \<Longrightarrow> a' \<le> a \<Longrightarrow> b' \<le> b \<Longrightarrow> fits P a' b' stat"
  by (auto simp: fits_def)

lemma add_len_u32: "P = Release \<or> unat x + (n + 4) < 2 ^ 32 \<Longrightarrow>
  rbind (add_u32 P (of_nat n) 4) (\<lambda>l. rbind (add_u32 P x l) f) = f (x + of_nat (n + 4))"
  using unat_plus_u32 [of "of_nat n" 4] unat_of_nat_u32 [of n]
  by (auto simp: add_u32_def arith_u32_def add.assoc)

lemma count_sent_fits: "fits P (length m + 4) b stat \<Longrightarrow> count_sent P m stat = Inr (grown (length m + 4) 0 stat)"
  unfolding count_sent_def by (subst add_len_u32) (auto simp: fits_def grown_def)

lemma count_received_fits: "fits P a (length m + 4) stat \<Longrightarrow> count_received P m stat = Inr (grown 0 (length m + 4) stat)"
  unfolding count_received_def by (subst add_len_u32) (auto simp: fits_def grown_def)

lemma count_broadcast_fits:
  assumes "\<And>q stat. (q, stat) \<in> set cs \<Longrightarrow> fits P (length m + 4) b stat"
  shows "count_broadcast P m cs = Inr (map (apsnd (grown (length m + 4) 0)) cs)"
  unfolding count_broadcast_def using count_sent_fits [OF assms] by (intro rmap_Ok) auto

lemma count_arrivals_fit:
  assumes "distinct qs" "\<And>q. q \<in> set qs \<Longrightarrow> length (ms q) = l" "\<And>q stat. (q, stat) \<in> set cs \<Longrightarrow> q \<in> set qs \<Longrightarrow> fits P a (l + 4) stat"
  shows "rfold (count_arrival P) (map (\<lambda>q. (q, Some (ms q))) qs) cs
    = Inr (map (\<lambda>(r, stat). (r, if r \<in> set qs then grown 0 (l + 4) stat else stat)) cs)"
  using assms
proof (induction qs arbitrary: cs)
  case (Cons q qs)
  let ?cs = "map (\<lambda>(r, stat). (r, if r = q then grown 0 (l + 4) stat else stat)) cs"
  have "count_received P (ms q) stat = Inr (grown 0 (l + 4) stat)" if "(q, stat) \<in> set cs" for stat
    using count_received_fits [of P a "ms q" stat] Cons.prems(2,3) [of q] that by simp
  then have "count_arrival P (q, Some (ms q)) cs = Inr ?cs"
    unfolding count_arrival.simps by (intro rmap_Ok) auto
  moreover have "rfold (count_arrival P) (map (\<lambda>q. (q, Some (ms q))) qs) ?cs
      = Inr (map (\<lambda>(r, stat). (r, if r \<in> set qs then grown 0 (l + 4) stat else stat)) ?cs)"
    using Cons.prems by (intro Cons.IH) (auto split: if_splits)
  ultimately show ?case using Cons.prems(1) by (auto simp: case_prod_beta)
qed (simp add: case_prod_beta)

text \<open>
  Connections of party \<open>p\<close> to all others: when all parties finish and talk in lengths \<open>L\<close>, they finish over counting
  connections, which have counted the lengths in both directions.
\<close>

lemma all_finish_metered:
  assumes "all_finish n ps Q" and n: "0 < n"
    and "\<And>p. p < n \<Longrightarrow> talks (ps p) L (\<lambda>_. True)"
    and "\<And>p. p < n \<Longrightarrow> set (map fst (cs p)) \<subseteq> set (others n p)"
    and "\<And>p q stat. p < n \<Longrightarrow> (q, stat) \<in> set (cs p) \<Longrightarrow> fits P (traffic L) (traffic L) stat"
  shows "all_finish n (\<lambda>p. metered (ps p) P (cs p)) (\<lambda>out. \<exists>xs. Q xs \<and>
    (\<forall>p<n. out p = (xs p, map (apsnd (grown (traffic L) (traffic L))) (cs p))))"
  using assms(1,3-)
proof (induction arbitrary: L cs rule: all_finish.induct)
  case (finish ps xs Q)
  have "L = []" using finish.prems(1) [OF n] finish.hyps(1) [OF n] by simp
  then show ?case
    using finish.hyps by (intro all_finish.finish [where xs = "\<lambda>p. (xs p, cs p)"]) (auto simp: apsnd_def map_prod_def)
next
  case (round ps ms ks Q)
  obtain l L' where L: "L = l # L'" using round.prems(1) [OF n] round.hyps(1) [OF n] by (auto split: list.splits)
  have ms: "length (ms p) = l" and talk: "talks (ks p arr) L' (\<lambda>_. True)" if "p < n" for p arr
    using round.prems(1) [OF that] round.hyps(1) [OF that] by (auto simp: L)
  let ?cs1 = "\<lambda>p. map (apsnd (grown (l + 4) 0)) (cs p)" and ?cs2 = "\<lambda>p. map (apsnd (grown (l + 4) (l + 4))) (cs p)"
  have b: "count_broadcast P (ms p) (cs p) = Inr (?cs1 p)" if "p < n" for p
    using fits_mono [OF round.prems(3) [OF that]] ms [OF that] by (subst count_broadcast_fits [where b = 0]) (simp_all add: L)
  show ?case
  proof (rule all_finish.round [where ms = ms and ks = "\<lambda>p arr. pbind (lift_res (rfold (count_arrival P) arr (?cs1 p))) (\<lambda>cs. metered (ks p arr) P cs)"])
    show "metered (ps p) P (cs p) = Broadcast (ms p) (ReceiveAll (\<lambda>arr. pbind (lift_res (rfold (count_arrival P) arr (?cs1 p))) (\<lambda>cs. metered (ks p arr) P cs)))"
      if "p < n" for p using round.hyps(1) [OF that] b [OF that] by simp
  next
    fix arr
    assume arr: "\<And>p. p < n \<Longrightarrow> mset (arr p) = mset (map (\<lambda>q. (q, Some (ms q))) (others n p))"
    have rcv: "rfold (count_arrival P) (arr p) (?cs1 p) = Inr (?cs2 p)" if p: "p < n" for p
    proof -
      obtain qs where qs: "arr p = map (\<lambda>q. (q, Some (ms q))) qs" "mset qs = mset (others n p)" by (rule mset_mapE [OF arr [OF p]]) blast
      have set: "set qs = set (others n p)" by (rule mset_eq_setD [OF qs(2)])
      have "distinct qs" using qs(2) distinct_filter [of "[0..<n]" "\<lambda>q. q \<noteq> p"] mset_eq_imp_distinct_iff unfolding others_def by (metis distinct_upt)
      then have "rfold (count_arrival P) (arr p) (?cs1 p) = Inr (map (\<lambda>(r, stat). (r, if r \<in> set qs then grown 0 (l + 4) stat else stat)) (?cs1 p))"
        unfolding qs(1) using fits_mono [OF round.prems(3) [OF p]] ms set
        by (intro count_arrivals_fit [where a = 0]) (auto simp: L intro!: grown_fits)
      then show ?thesis using round.prems(2) [OF p] unfolding set by (auto simp: case_prod_beta)
    qed
    have "all_finish n (\<lambda>p. metered (ks p (arr p)) P (?cs2 p)) (\<lambda>out. \<exists>xs. Q xs \<and>
        (\<forall>p<n. out p = (xs p, map (apsnd (grown (traffic L') (traffic L'))) (?cs2 p))))"
      using round.prems(2,3) talk by (intro round.IH [OF arr]) (auto simp: L intro!: grown_fits)
    then have "all_finish n (\<lambda>p. pbind (lift_res (rfold (count_arrival P) (arr p) (?cs1 p))) (\<lambda>cs. metered (ks p (arr p)) P cs))
        (\<lambda>out. \<exists>xs. Q xs \<and> (\<forall>p<n. out p = (xs p, map (apsnd (grown (traffic L') (traffic L'))) (?cs2 p))))"
      by (rule all_finish_cong) (simp add: rcv)
    then show "all_finish n (\<lambda>p. pbind (lift_res (rfold (count_arrival P) (arr p) (?cs1 p))) (\<lambda>cs. metered (ks p (arr p)) P cs))
        (\<lambda>out. \<exists>xs. Q xs \<and> (\<forall>p<n. out p = (xs p, map (apsnd (grown (traffic L) (traffic L))) (cs p))))"
      by (simp add: L comp_def apsnd_apsnd)
  qed
qed

section \<open>Layers\<close>

lemma with_mut_array_size: "with_mut_array_from_destination ly dest f = Inr ly' \<Longrightarrow> ly_current_size ly' = ly_current_size ly"
  by (cases dest) (auto simp: with_mut_array_from_destination_def rbind_eq_Ok split: if_splits)

lemma exec_size: "exec_operation P op prev ly = Inr ly' \<Longrightarrow> ly_current_size ly' = ly_current_size ly"
  by (cases op) (auto simp: exec_operation_def rbind_eq_Ok dest: with_mut_array_size)

lemma execute_size:
  assumes "execute_operations P prev ly = Inr ly'"
  shows "ly_current_size ly' = ly_current_size ly"
proof -
  obtain ly1 where r: "rfold (\<lambda>op ly. exec_operation P op prev ly) (rev (ly_operations ly)) (ly\<lparr>ly_operations := []\<rparr>) = Inr ly1"
      "ly' = ly1\<lparr>ly_state := OperationsExecuted\<rparr>"
    using assms by (auto simp: execute_operations_def rbind_eq_Ok)
  have "ly_current_size ly1 = ly_current_size ly"
    by (rule rfold_keeps [where I = "\<lambda>l. ly_current_size l = ly_current_size ly", OF _ _ r(1)]) (simp_all add: exec_size)
  then show ?thesis by (simp add: r(2))
qed

lemma phase_size:
  "end_ticketing_phase ly bp = Inr (ly', bp') \<Longrightarrow> ly_current_size ly' = ly_current_size ly"
  "blind_and_with_beaver ly = Inr ly' \<Longrightarrow> ly_current_size ly' = ly_current_size ly"
  by (auto simp: end_ticketing_phase_def blind_and_with_beaver_def rbind_eq_Ok)

lemma bp_take_wf: "bp_wf bp \<Longrightarrow> bp_take bp k = Inr (b, bp') \<Longrightarrow> bp_wf bp'"
  by (auto simp: bp_take_def bp_wf_def rbind_eq_Ok)

lemma ticketing_ends_wf: "bp_wf bp \<Longrightarrow> end_ticketing_phase ly bp = Inr (ly', bp') \<Longrightarrow> bp_wf bp'"
  by (auto simp: end_ticketing_phase_def rbind_eq_Ok dest: bp_take_wf)

lemma ba_clone_sized: "ba_sized n a \<Longrightarrow> ba_clone a = Inr b \<Longrightarrow> ba_sized n b"
  by (cases "n = 0") (auto simp: ba_clone_Ok, auto simp: ba_clone_def au_clone_def create_layout_def ba_wf_def rbind_eq_Ok Let_def)

lemma out_shares_wf:
  assumes "layer_inv ly" "ly_state ly \<noteq> Ticketing" "get_beaver_out_shares ly = Inr s"
  shows "d2_wf 2 (8 * ly_current_size ly) s"
proof -
  obtain d where d: "ly_beaver_data ly = Some d" "d2_wf 3 (8 * ly_current_size ly) d" using assms(1,2) by (auto simp: layer_inv_def)
  obtain u v c u' v' where r: "d2_unpack_as_beaver d = Inr (u, v, c)" "ba_clone u = Inr u'" "ba_clone v = Inr v'" "s = d2_new [u', v']"
    using assms(3) d(1) by (auto simp: get_beaver_out_shares_def rbind_eq_Ok)
  have "ba_sized (8 * ly_current_size ly) u'" "ba_sized (8 * ly_current_size ly) v'"
    using d2_unpack_wf [OF d(2) r(1)] r(2,3) ba_clone_sized by blast+
  then show ?thesis by (simp add: r(4) d2_wf_def d2_new_def)
qed

lemma talks_send_beaver:
  assumes "d2_wf 2 (8 * b) s"
  shows "talks (mh_send_beaver_shares G h s) [6 + 2 * b] (\<lambda>_. True)"
  unfolding mh_send_beaver_shares_def
  using d2_wf_nth [OF assms]
  by (intro talks_lift) (auto simp: mh_broadcast_def cmd_serialize_def d2_get_array_def index_def rbind_eq_Ok div_ceil_def split: if_splits)

lemma talks_receive_all: "mh_wf h \<Longrightarrow> talks (mh_receive_all G h) [] mh_wf"
proof -
  assume h: "mh_wf h"
  have "talks (lift_res (rfold (mh_receive_one G) msgs h)) [] mh_wf" for msgs
    using receive_wf [OF h, of G msgs] by (cases "rfold (mh_receive_one G) msgs h") auto
  then show ?thesis unfolding mh_receive_all_def talks.simps by blast
qed

lemma talks_receive_beaver:
  assumes "mh_wf h"
  shows "talks (mh_receive_beaver_shares G h) [] (\<lambda>(shares, h). list_all (\<lambda>s. \<exists>m. d2_wf 2 m s) shares \<and> mh_wf h)"
  unfolding mh_receive_beaver_shares_def Let_def
  by (rule talks_quiet [OF talks_receive_all [OF assms]]) (auto simp: mh_wf_def intro!: talks_lift)

lemma talks_layer:
  assumes "layer_inv ly" "pred_option layer_inv prev" "bp_wf bp" "mh_wf mh"
  shows "talks (layer_interact P G prev bp mh ly) [6 + 2 * ly_current_size ly] (\<lambda>(ly, bp, mh). layer_inv ly \<and> bp_wf bp \<and> mh_wf mh)"
proof -
  { fix ly1 bp1 ly2 ly3 sh
    assume r: "end_ticketing_phase ly bp = Inr (ly1, bp1)" "execute_operations P prev ly1 = Inr ly2" "blind_and_with_beaver ly2 = Inr ly3"
      "get_beaver_out_shares ly3 = Inr sh"
    have inv: "layer_inv ly3" "ly_state ly3 \<noteq> Ticketing"
      using start_keeps [OF assms(1,3) r(1)] execute_keeps [OF _ assms(2) r(2)] blind_keeps [OF _ r(3)] by auto
    have size: "ly_current_size ly3 = ly_current_size ly" using phase_size(1) [OF r(1)] execute_size [OF r(2)] phase_size(2) [OF r(3)] by simp
    have send: "talks (mh_send_beaver_shares G mh sh) [6 + 2 * ly_current_size ly] (\<lambda>_. True)"
      using out_shares_wf [OF inv r(4)] unfolding size by (rule talks_send_beaver)
    have rest: "talks (pbind (lift_res (recons_beaver_uv shares ly3)) (\<lambda>ly. pbind (lift_res (finish_and_exchange ly)) (\<lambda>ly. Done (ly, bp1, mh')))) []
        (\<lambda>(ly, bp, mh). layer_inv ly \<and> bp_wf bp \<and> mh_wf mh)"
      if "list_all (\<lambda>s. \<exists>m. d2_wf 2 m s) shares" "mh_wf mh'" for shares mh'
      using recons_keeps [OF inv(1) that(1)] finish_keeps ticketing_ends_wf [OF assms(3) r(1)] that(2)
      by (intro talks_lift) auto
    have "talks (pbind (mh_receive_beaver_shares G mh) (\<lambda>(shares, mh'). pbind (lift_res (recons_beaver_uv shares ly3)) (\<lambda>ly.
        pbind (lift_res (finish_and_exchange ly)) (\<lambda>ly. Done (ly, bp1, mh'))))) []
        (\<lambda>(ly, bp, mh). layer_inv ly \<and> bp_wf bp \<and> mh_wf mh)"
      by (rule talks_quiet [OF talks_receive_beaver [OF assms(4)]]) (use rest in auto)
    from talks_bind [OF send this]
    have "talks (pbind (mh_send_beaver_shares G mh sh) (\<lambda>_. pbind (mh_receive_beaver_shares G mh) (\<lambda>(shares, mh'). pbind (lift_res (recons_beaver_uv shares ly3)) (\<lambda>ly.
        pbind (lift_res (finish_and_exchange ly)) (\<lambda>ly. Done (ly, bp1, mh')))))) [6 + 2 * ly_current_size ly]
        (\<lambda>(ly, bp, mh). layer_inv ly \<and> bp_wf bp \<and> mh_wf mh)" by simp }
  then show ?thesis unfolding layer_interact_def by (intro talks_lift) (auto intro!: talks_lift)
qed

section \<open>The executor\<close>

text \<open>Between two operations: layers that accept tickets, triples and a handler, all well-formed.\<close>

definition executor_ok :: "('s, 'g) mpc_provider \<Rightarrow> bool" where
  "executor_ok mp \<longleftrightarrow> list_all (\<lambda>ly. layer_inv ly \<and> ly_state ly = Ticketing) (mp_layers mp) \<and> bp_wf (mp_beaver_provider mp) \<and>
     mh_wf (mp_message_handler mp)"

definition executor_idle :: "('s, 'g) mpc_provider \<Rightarrow> bool" where
  "executor_idle mp \<longleftrightarrow> executor_ok mp \<and> mp_layers mp = []"

definition layer_sizes :: "('s, 'g) mpc_provider \<Rightarrow> nat list" where
  "layer_sizes mp = map ly_current_size (mp_layers mp)"

text \<open>Reserving \<open>b\<close> bits in layer \<open>l\<close>, which is created when it does not exist.\<close>

definition reserve :: "nat \<Rightarrow> nat \<Rightarrow> nat list \<Rightarrow> nat list" where
  "reserve l b ss = (let ss = ss @ replicate (Suc l - length ss) 0 in ss[l := ss ! l + div_ceil b 8])"

lemma length_reserve [simp]: "length (reserve l b ss) = max (length ss) (Suc l)"
  by (simp add: reserve_def Let_def)

lemma sum_reserve [simp]: "sum_list (reserve l b ss) = sum_list ss + div_ceil b 8"
proof -
  have "sum_list (xs[i := xs ! i + k]) = sum_list xs + k" if "i < length xs" for i k and xs :: "nat list"
    using that by (induction xs arbitrary: i) (auto simp: nth_Cons split: nat.splits)
  then show ?thesis by (simp add: reserve_def Let_def)
qed

lemma get_layer_eq:
  "get_layer mp l = mp\<lparr>mp_layers := mp_layers mp @ map (layer_new (mp_party_const mp)) [length (mp_layers mp)..<Suc l]\<rparr>"
proof (induction mp l rule: get_layer.induct)
  case (1 mp l)
  then show ?case
    by (subst get_layer.simps) (auto simp: create_new_layer_def upt_conv_Cons simp del: upt_Suc)
qed

lemma with_layer_keeps:
  assumes "executor_ok mp" "with_layer mp l f = Inr (x, mp')"
    and f: "\<And>ly ly'. layer_inv ly \<Longrightarrow> ly_state ly = Ticketing \<Longrightarrow> f ly = Inr (x, ly') \<Longrightarrow>
      layer_inv ly' \<and> ly_state ly' = Ticketing \<and> ly_current_size ly' = ly_current_size ly + div_ceil b 8"
  shows "executor_ok mp' \<and> layer_sizes mp' = reserve l b (layer_sizes mp) \<and> mp' = mp\<lparr>mp_layers := mp_layers mp'\<rparr>"
proof -
  define lys where "lys = mp_layers mp @ map (layer_new (mp_party_const mp)) [length (mp_layers mp)..<Suc l]"
  obtain ly' where r: "f (lys ! l) = Inr (x, ly')" "mp' = mp\<lparr>mp_layers := lys[l := ly']\<rparr>" "l < length lys"
    using assms(2) unfolding with_layer_def get_layer_eq lys_def [symmetric] by (auto simp: rbind_eq_Ok index_def Let_def split: if_splits)
  have all: "list_all (\<lambda>ly. layer_inv ly \<and> ly_state ly = Ticketing) lys"
    using assms(1) by (auto simp: lys_def executor_ok_def list_all_iff layer_inv_def layer_new_def)
  then have "layer_inv (lys ! l)" "ly_state (lys ! l) = Ticketing" using r(3) by (simp_all add: list_all_length)
  from f [OF this r(1)] have ly': "layer_inv ly'" "ly_state ly' = Ticketing" "ly_current_size ly' = ly_current_size (lys ! l) + div_ceil b 8" by simp_all
  have sizes: "map ly_current_size lys = layer_sizes mp @ replicate (Suc l - length (layer_sizes mp)) 0"
    by (simp add: lys_def layer_sizes_def layer_new_def comp_def map_replicate_const del: upt_Suc)
  have "layer_sizes mp' = (map ly_current_size lys)[l := map ly_current_size lys ! l + div_ceil b 8]"
    using r(3) ly'(3) by (simp add: layer_sizes_def r(2) map_update)
  then have "layer_sizes mp' = reserve l b (layer_sizes mp)" unfolding sizes reserve_def Let_def .
  moreover have "list_all (\<lambda>ly. layer_inv ly \<and> ly_state ly = Ticketing) (lys[l := ly'])"
    using all ly' by (auto simp: list_all_iff dest: set_update_subset_insert [THEN subsetD])
  ultimately show ?thesis using assms(1) by (simp add: executor_ok_def r(2))
qed

text \<open>A gate: a ticket and two operations.\<close>

lemma gate_keeps:
  assumes "layer_inv ly" "\<And>t. source_ok (op_source (f t)) \<and> source_ok (op_source (g t))"
    and "rbind (request_ticket ly b) (\<lambda>(t, ly). rbind (add_operation ly (f t)) (\<lambda>ly. rbind (add_operation ly (g t)) (\<lambda>ly. Ok (TakeZ t, ly)))) = Inr (x, ly')"
  shows "layer_inv ly' \<and> ly_state ly' = Ticketing \<and> ly_current_size ly' = ly_current_size ly + div_ceil b 8"
proof -
  obtain t l1 l2 where r: "request_ticket ly b = Inr (t, l1)" "add_operation l1 (f t) = Inr l2" "add_operation l2 (g t) = Inr ly'"
    using assms(3) by (auto simp: rbind_eq_Ok)
  have "ly_current_size l1 = ly_current_size ly + div_ceil b 8" using r(1) by (auto simp: request_ticket_def Let_def split: if_splits)
  moreover have "ly_current_size l2 = ly_current_size l1" "ly_current_size ly' = ly_current_size l2"
    using r(2,3) by (auto simp: add_operation_def split: if_splits)
  ultimately show ?thesis
    using ticket_keeps [OF assms(1) r(1)] add_keeps [OF _ _ r(2)] add_keeps [OF _ _ r(3)] assms(2) by auto
qed

function ohe_sizes :: "nat \<Rightarrow> nat \<Rightarrow> nat list \<Rightarrow> nat list" where
  "ohe_sizes l b ss =
     (if b \<le> 1 then ss
      else reserve l (2 ^ b) (ohe_sizes (Suc l) (b - div_ceil b 2) (ohe_sizes (Suc l) (div_ceil b 2) ss)))"
  by pat_completeness auto
termination
  by (relation "measure (\<lambda>(l, b, ss). b)") (auto simp: div_ceil_def)

declare ohe_sizes.simps [simp del]

text \<open>The number of rounds of the one-hot encoding: the halvings of the bits.\<close>

function ohe_depth :: "nat \<Rightarrow> nat" where
  "ohe_depth b = (if b \<le> 1 then 0 else Suc (ohe_depth (div_ceil b 2)))"
  by pat_completeness auto
termination
  by (relation "measure id") (auto simp: div_ceil_def)

declare ohe_depth.simps [simp del]

lemma ohe_depth_mono: "a \<le> b \<Longrightarrow> ohe_depth a \<le> ohe_depth b"
proof (induction b arbitrary: a rule: less_induct)
  case (less b)
  show ?case
  proof (cases "a \<le> 1")
    case False
    then have "div_ceil a 2 \<le> div_ceil b 2" "div_ceil b 2 < b" using less.prems by (auto simp: div_ceil_def)
    then show ?thesis using less.IH [of "div_ceil b 2" "div_ceil a 2"] False less.prems by (simp add: ohe_depth.simps [of a] ohe_depth.simps [of b])
  qed (simp add: ohe_depth.simps [of a])
qed

lemma ohe_sizes_sum: "sum_list (ohe_sizes l b ss) = sum_list ss + ohe_bytes b"
proof (induction l b ss rule: ohe_sizes.induct)
  case (1 l b ss)
  then show ?case by (cases "b \<le> 1") (simp_all add: ohe_sizes.simps [of l b] ohe_bytes.simps [of b])
qed

lemma ohe_sizes_length: "length (ohe_sizes l b ss) = (if b \<le> 1 then length ss else max (length ss) (l + ohe_depth b))"
proof (induction l b ss rule: ohe_sizes.induct)
  case (1 l b ss)
  show ?case
  proof (cases "b \<le> 1")
    case False
    let ?c = "div_ceil b 2" and ?d = "b - div_ceil b 2"
    have "?d \<le> ?c" by (simp add: div_ceil_def)
    then have "ohe_depth ?d \<le> ohe_depth ?c" by (rule ohe_depth_mono)
    moreover have "ohe_depth b = Suc (ohe_depth ?c)" using False by (simp add: ohe_depth.simps [of b])
    moreover have "ohe_depth k = 0" if "k \<le> 1" for k using that by (simp add: ohe_depth.simps [of k])
    ultimately show ?thesis using 1 [OF False] False by (simp add: ohe_sizes.simps [of l b]) (auto simp: max_def)
  qed (simp add: ohe_sizes.simps)
qed

lemma ohe_keeps:
  fixes mp :: "('s, 'g) mpc_provider"
  assumes "executor_ok mp" "b < 64" "recursive_ohe_vec P mp l b v = Inr (src, mp')"
  shows "executor_ok mp' \<and> source_ok src \<and> layer_sizes mp' = ohe_sizes l b (layer_sizes mp) \<and> mp' = mp\<lparr>mp_layers := mp_layers mp'\<rparr>"
  using assms
proof (induction b arbitrary: mp l v src mp' rule: less_induct)
  case (less b)
  show ?case
  proof (cases "b \<le> 1")
    case True
    then have b: "b = 1" using less.prems(3) by (cases b) (auto simp: recursive_ohe_vec.simps)
    then show ?thesis using less.prems
      by (auto simp: recursive_ohe_vec.simps [of P mp l 1] ba_new_Ok ba_set_bit_Ok ohe_sizes.simps rbind_eq_Ok simp del: One_nat_def)
  next
    case False
    let ?c = "div_ceil b 2"
    have c: "?c < b" "b - ?c < b" using False by (auto simp: div_ceil_def)
    obtain low high tb hn ln ls m1 hs m2 where r: "recursive_ohe_vec P mp (Suc l) ?c low = Inr (ls, m1)"
        "recursive_ohe_vec P m1 (Suc l) (b - ?c) high = Inr (hs, m2)" "shl1_usize P b = Inr tb"
        "with_layer m2 l (\<lambda>ly. rbind (request_ticket ly tb) (\<lambda>(t, ly). rbind (add_operation ly (OpReplicate hn ls (Relay t 0))) (\<lambda>ly.
          rbind (add_operation ly (OpBitExpand ln hs (Relay t 1))) (\<lambda>ly. Ok (TakeZ t, ly))))) = Inr (src, mp')"
      using less.prems(3) False by (subst (asm) recursive_ohe_vec.simps) (auto simp: rbind_eq_Ok Let_def)
    have c64: "?c < 64" "b - ?c < 64" using c less.prems(2) by simp_all
    note m1 = less.IH [OF c(1) less.prems(1) c64(1) r(1)]
    note m2 = less.IH [OF c(2) conjunct1 [OF m1] c64(2) r(2)]
    have tb: "tb = 2 ^ b" using r(3) less.prems(2) by (simp add: shl1_usize_def)
    have "executor_ok mp' \<and> layer_sizes mp' = reserve l (2 ^ b) (layer_sizes m2) \<and> mp' = m2\<lparr>mp_layers := mp_layers mp'\<rparr>"
      by (rule with_layer_keeps [OF conjunct1 [OF m2] r(4)])
        (rule gate_keeps [where f = "\<lambda>t. OpReplicate hn ls (Relay t 0)" and g = "\<lambda>t. OpBitExpand ln hs (Relay t 1)"], use m1 m2 in \<open>simp_all add: tb\<close>)
    moreover have "source_ok src" using r(4) by (auto simp: with_layer_def rbind_eq_Ok Let_def)
    moreover have "m2 = mp\<lparr>mp_layers := mp_layers m2\<rparr>" using m1 m2 by (metis mpc_provider.surjective mpc_provider.update_convs(4))
    ultimately show ?thesis using m1 m2 False by (simp add: ohe_sizes.simps [of l b]) (metis mpc_provider.surjective mpc_provider.update_convs(4))
  qed
qed


lemma talks_layers:
  "list_all layer_inv lys \<Longrightarrow> pred_option layer_inv prev \<Longrightarrow> bp_wf bp \<Longrightarrow> mh_wf mh \<Longrightarrow>
     talks (run_layers P G lys prev bp mh) (map (\<lambda>ly. 6 + 2 * ly_current_size ly) lys)
       (\<lambda>(prev, bp, mh). pred_option layer_inv prev \<and> bp_wf bp \<and> mh_wf mh)"
proof (induction lys arbitrary: prev bp mh)
  case (Cons ly lys)
  have "talks (pbind (layer_interact P G prev bp mh ly) (\<lambda>(ly, bp, mh). run_layers P G lys (Some ly) bp mh))
      ([6 + 2 * ly_current_size ly] @ map (\<lambda>ly. 6 + 2 * ly_current_size ly) lys) (\<lambda>(prev, bp, mh). pred_option layer_inv prev \<and> bp_wf bp \<and> mh_wf mh)"
    by (rule talks_bind [OF talks_layer]) (use Cons in auto)
  then show ?case by simp
qed simp

definition layer_msgs :: "nat list \<Rightarrow> nat list" where
  "layer_msgs ss = map (\<lambda>b. 6 + 2 * b) (rev ss)"

lemma talks_run:
  assumes "executor_ok mp"
  shows "talks (mp_run P G mp) (layer_msgs (layer_sizes mp)) (\<lambda>mp. executor_idle mp \<and> pred_option layer_inv (mp_output_layer mp))"
proof -
  have "talks (mp_run P G mp) (map (\<lambda>ly. 6 + 2 * ly_current_size ly) (rev (mp_layers mp)) @ []) (\<lambda>mp. executor_idle mp \<and> pred_option layer_inv (mp_output_layer mp))"
    unfolding mp_run_def by (rule talks_bind [OF talks_layers]) (use assms in \<open>auto simp: executor_idle_def executor_ok_def list_all_iff\<close>)
  then show ?thesis by (simp add: layer_msgs_def layer_sizes_def rev_map comp_def)
qed

lemma output_wf: "pred_option layer_inv (mp_output_layer mp) \<Longrightarrow> source_ok src \<Longrightarrow> get_output P mp src = Inr a \<Longrightarrow> ba_wf a"
  using source_data_wf [of src "mp_output_layer mp" P a] by (simp add: get_output_def)

lemma mp_and_keeps:
  assumes "executor_ok mp" "ba_wf a" "ba_wf b" "mp_and mp m (Input a) (Input b) = Inr (src, mp')"
  shows "executor_ok mp' \<and> layer_sizes mp' = reserve 0 m (layer_sizes mp) \<and> source_ok src"
proof -
  have r: "with_layer mp 0 (\<lambda>ly. rbind (request_ticket ly m) (\<lambda>(t, ly). rbind (add_operation ly (OpCopy (Input a) (Relay t 0))) (\<lambda>ly.
      rbind (add_operation ly (OpCopy (Input b) (Relay t 1))) (\<lambda>ly. Ok (TakeZ t, ly))))) = Inr (src, mp')"
    using assms(4) by (simp add: mp_and_def split: if_splits)
  have "executor_ok mp' \<and> layer_sizes mp' = reserve 0 m (layer_sizes mp) \<and> mp' = mp\<lparr>mp_layers := mp_layers mp'\<rparr>"
    by (rule with_layer_keeps [OF assms(1) r])
      (rule gate_keeps [where f = "\<lambda>t. OpCopy (Input a) (Relay t 0)" and g = "\<lambda>t. OpCopy (Input b) (Relay t 1)"], use assms(2,3) in simp_all)
  moreover have "source_ok src" using r by (auto simp: with_layer_def rbind_eq_Ok Let_def)
  ultimately show ?thesis by blast
qed

lemma ba_new_sized: "ba_new n = Inr a \<Longrightarrow> ba_sized n a"
  by (cases "n = 0") (auto simp: ba_new_Ok, auto simp: ba_new_def au_new_def create_layout_def rbind_eq_Ok Let_def)

lemma ba_set_bit_sized: "ba_sized n a \<Longrightarrow> ba_set_bit a i v = Inr b \<Longrightarrow> ba_sized n b"
  using ba_set_bit_out_of_bounds [of a i v] by (cases "i < n") (auto simp: ba_set_bit_Ok)

lemma lvl1_sized:
  assumes "lvl1_pir_retrieve db ohe = Inr out"
  shows "ba_sized (db_l2_dim db) out"
proof -
  let ?f = "\<lambda>i out. rbind (index (db_bit_dbs db) 0) (\<lambda>d. rbind (d2_get_array d i) (\<lambda>row. rbind (ba_inner_prod ohe row) (\<lambda>res. ba_set_bit out i res)))"
  obtain o' where o: "ba_new (db_l2_dim db) = Inr o'" "rfold ?f [0..<db_l2_dim db] o' = Inr out"
    using assms by (auto simp: lvl1_pir_retrieve_def rbind_eq_Ok split: if_splits)
  have step: "ba_sized (db_l2_dim db) a'" if a: "ba_sized (db_l2_dim db) a" "?f i a = Inr a'" for i a a'
  proof -
    obtain v where "ba_set_bit a i v = Inr a'" using a(2) by (auto simp: rbind_eq_Ok)
    then show ?thesis by (rule ba_set_bit_sized [OF a(1)])
  qed
  show ?thesis
    by (rule rfold_keeps [where I = "ba_sized (db_l2_dim db)", OF _ ba_new_sized [OF o(1)] o(2)]) (rule step)
qed

lemma blind_bits_sized:
  assumes "ba_sized n e" "blind_bits ds b e = Inr e'"
  shows "ba_sized n e'"
proof -
  let ?f = "\<lambda>(i, dabit) e. rbind (ba_get b i) (\<lambda>bi. ba_set_bit e i (bi \<noteq> r_z2 dabit))"
  have step: "ba_sized n a'" if a: "ba_sized n a" "?f x a = Inr a'" for x a a'
  proof -
    obtain i v where "ba_set_bit a i v = Inr a'" using a(2) by (auto simp: rbind_eq_Ok split: prod.splits)
    then show ?thesis by (rule ba_set_bit_sized [OF a(1)])
  qed
  show ?thesis
    by (rule rfold_keeps [where I = "ba_sized n", OF _ assms(1) assms(2) [unfolded blind_bits_def]]) (rule step)
qed

section \<open>One query\<close>

lemma talks_retrieve_ohe:
  fixes mp :: "('s, 'g) mpc_provider"
  assumes "executor_ok mp" "mp_layers mp = []" "bv_bit_len b1 < 64" "bv_bit_len b2 < 64"
  shows "talks (retrieve_ohe P G mp b1 b2) (layer_msgs (ohe_sizes 0 (bv_bit_len b2) (ohe_sizes 0 (bv_bit_len b1) [])))
    (\<lambda>(o1, o2, mp). ba_wf o1 \<and> ba_wf o2 \<and> executor_ok mp)"
proof -
  { fix s1 m1 s2 m2
    assume r: "ohe_vec P mp b1 = Inr (s1, m1)" "ohe_vec P m1 b2 = Inr (s2, m2)"
    note k1 = ohe_keeps [OF assms(1,3) r(1) [unfolded ohe_vec_def]]
    note k2 = ohe_keeps [OF conjunct1 [OF k1] assms(4) r(2) [unfolded ohe_vec_def]]
    have sizes: "layer_sizes m2 = ohe_sizes 0 (bv_bit_len b2) (ohe_sizes 0 (bv_bit_len b1) [])" using k1 k2 assms(2) by (simp add: layer_sizes_def)
    have "talks (pbind (mp_run P G m2) (\<lambda>mp. pbind (lift_res (get_output P mp s1)) (\<lambda>o1. pbind (lift_res (get_output P mp s2)) (\<lambda>o2.
        Done (o1, o2, mp))))) (layer_msgs (layer_sizes m2) @ []) (\<lambda>(o1, o2, mp). ba_wf o1 \<and> ba_wf o2 \<and> executor_ok mp)"
      by (rule talks_bind [OF talks_run [OF conjunct1 [OF k2]]])
        (intro talks_lift, use k1 k2 output_wf [of _ s1 P] output_wf [of _ s2 P] in \<open>auto simp: executor_idle_def\<close>)
    then have "talks (pbind (mp_run P G m2) (\<lambda>mp. pbind (lift_res (get_output P mp s1)) (\<lambda>o1. pbind (lift_res (get_output P mp s2)) (\<lambda>o2.
        Done (o1, o2, mp))))) (layer_msgs (ohe_sizes 0 (bv_bit_len b2) (ohe_sizes 0 (bv_bit_len b1) []))) (\<lambda>(o1, o2, mp). ba_wf o1 \<and> ba_wf o2 \<and> executor_ok mp)"
      by (simp add: sizes) }
  then show ?thesis unfolding retrieve_ohe_def by (intro talks_lift) (auto intro!: talks_lift)
qed

lemma talks_retrieve_and:
  fixes mp :: "('s, 'g) mpc_provider"
  assumes "executor_ok mp" "mp_layers mp = []" "ba_wf a" "ba_wf b"
  shows "talks (retrieve_and P G mp a b) [6 + 2 * div_ceil (ba_bit_size a) 8] (\<lambda>(_, mp). executor_idle mp)"
proof -
  { fix src mp'
    assume "mp_and mp (ba_bit_size a) (Input a) (Input b) = Inr (src, mp')"
    from mp_and_keeps [OF assms(1,3,4) this] assms(2)
    have m: "executor_ok mp'" "layer_msgs (layer_sizes mp') = [6 + 2 * div_ceil (ba_bit_size a) 8]"
      by (simp_all add: reserve_def layer_msgs_def layer_sizes_def)
    have "talks (pbind (mp_run P G mp') (\<lambda>mp. pbind (lift_res (get_output P mp src)) (\<lambda>z. pbind (lift_res (ba_parity z)) (\<lambda>par.
        Done (par, mp))))) (layer_msgs (layer_sizes mp') @ []) (\<lambda>(_, mp). executor_idle mp)"
      by (rule talks_bind [OF talks_run [OF m(1)]]) (auto intro!: talks_lift)
    then have "talks (pbind (mp_run P G mp') (\<lambda>mp. pbind (lift_res (get_output P mp src)) (\<lambda>z. pbind (lift_res (ba_parity z)) (\<lambda>par.
        Done (par, mp))))) [6 + 2 * div_ceil (ba_bit_size a) 8] (\<lambda>(_, mp). executor_idle mp)"
      by (simp add: m(2)) }
  then show ?thesis unfolding retrieve_and_def by (intro talks_lift) auto
qed

lemma talks_rec_retrieve:
  fixes sv :: "('s, 'g, 'sk, 'vk) prc_server"
  assumes "executor_ok (sv_mpc_provider sv)" "mp_layers (sv_mpc_provider sv) = []" "bv_bit_len b1 < 64" "bv_bit_len b2 < 64"
  shows "talks (rec_retrieve P G sv b1 b2)
    (layer_msgs (ohe_sizes 0 (bv_bit_len b2) (ohe_sizes 0 (bv_bit_len b1) [])) @ [6 + 2 * div_ceil (db_l2_dim (sv_db sv)) 8])
    (\<lambda>(_, sv'). executor_idle (sv_mpc_provider sv') \<and> sv_db sv' = sv_db sv)"
  unfolding rec_retrieve_eq
proof (rule talks_bind [OF talks_retrieve_ohe [OF assms]], clarify)
  fix o1 o2 and mp :: "('s, 'g) mpc_provider"
  assume o2: "ba_wf o2" and mp: "executor_ok mp"
  have clear: "executor_ok (mp_clear mp)" "mp_layers (mp_clear mp) = []" using mp by (simp_all add: executor_ok_def mp_clear_def)
  { fix ans
    assume "lvl1_pir_retrieve (sv_db sv) o1 = Inr ans"
    then have ans: "ba_wf ans" "ba_bit_size ans = db_l2_dim (sv_db sv)" using lvl1_sized by blast+
    have "talks (pbind (retrieve_and P G (mp_clear mp) ans o2) (\<lambda>(par, mp). Done (par, sv\<lparr>sv_mpc_provider := mp\<rparr>)))
        ([6 + 2 * div_ceil (ba_bit_size ans) 8] @ []) (\<lambda>(_, sv'). executor_idle (sv_mpc_provider sv') \<and> sv_db sv' = sv_db sv)"
      by (rule talks_bind [OF talks_retrieve_and [OF clear ans(1) o2]]) auto
    then have "talks (pbind (retrieve_and P G (mp_clear mp) ans o2) (\<lambda>(par, mp). Done (par, sv\<lparr>sv_mpc_provider := mp\<rparr>)))
        [6 + 2 * div_ceil (db_l2_dim (sv_db sv)) 8] (\<lambda>(_, sv'). executor_idle (sv_mpc_provider sv') \<and> sv_db sv' = sv_db sv)"
      by (simp add: ans(2)) }
  then show "talks (pbind (lift_res (lvl1_pir_retrieve (sv_db sv) o1)) (\<lambda>l1_pir_ans.
     pbind (lift_res (rassert (ba_bit_size l1_pir_ans = ba_bit_size o2) AssertionFailed)) (\<lambda>_.
     pbind (retrieve_and P G (mp_clear mp) l1_pir_ans o2) (\<lambda>(par, mp).
     Done (par, sv\<lparr>sv_mpc_provider := mp\<rparr>))))) [6 + 2 * div_ceil (db_l2_dim (sv_db sv)) 8] (\<lambda>(_, sv'). executor_idle (sv_mpc_provider sv') \<and> sv_db sv' = sv_db sv)"
    by (intro talks_lift)
qed


lemma talks_conv:
  fixes mp :: "('s::comm_ring_1, 'g) mpc_provider"
  assumes "executor_idle mp"
  shows "talks (run_conv_B2A S G mp bvs) [6 + div_ceil (sum_list (map bv_bit_len bvs)) 8] (\<lambda>(_, mp). executor_idle mp)"
proof -
  define m where "m = sum_list (map bv_bit_len bvs)"
  have mh: "mh_wf (mp_message_handler mp)" using assms by (simp add: executor_idle_def executor_ok_def)
  have rcv: "talks (mh_receive_dabit_shares G (mp_message_handler mp)) [] (\<lambda>(_, h). mh_wf h)"
    unfolding mh_receive_dabit_shares_def Let_def
    by (rule talks_quiet [OF talks_receive_all [OF mh]]) (auto simp: mh_wf_def intro!: talks_lift)
  { fix e e' and dabits :: "'s dabit list" and dp :: "'s dabit_provider"
    assume "ba_sized m e" "ba_clone e = Inr e'"
    then have e': "ba_sized m e'" by (rule ba_clone_sized)
    have send: "talks (mh_send_dabit_shares G (mp_message_handler mp) e') [6 + div_ceil m 8] (\<lambda>_. True)"
      using e' by (simp add: mh_send_dabit_shares_def mh_broadcast_def cmd_serialize_def div_ceil_def)
    have "talks (pbind (mh_receive_dabit_shares G (mp_message_handler mp)) (\<lambda>(rec_shares, message_handler).
        pbind (lift_res (ba_inplace_reconstruct e rec_shares)) (\<lambda>e.
        pbind (lift_res (conv_values S (cl_party_const (conv_layer_new (mp_party_const mp))) dabits e bvs)) (\<lambda>arith.
        Done (arith, dp, message_handler))))) [] (\<lambda>(_, _, h). mh_wf h)"
      by (rule talks_quiet [OF rcv]) (auto intro!: talks_lift)
    from talks_bind [OF send this] have "talks (pbind (mh_send_dabit_shares G (mp_message_handler mp) e') (\<lambda>_.
        pbind (mh_receive_dabit_shares G (mp_message_handler mp)) (\<lambda>(rec_shares, message_handler).
        pbind (lift_res (ba_inplace_reconstruct e rec_shares)) (\<lambda>e.
        pbind (lift_res (conv_values S (cl_party_const (conv_layer_new (mp_party_const mp))) dabits e bvs)) (\<lambda>arith.
        Done (arith, dp, message_handler)))))) [6 + div_ceil m 8] (\<lambda>(_, _, h). mh_wf h)" by simp }
  note exchange = this
  have "talks (conv_interact S G (conv_layer_new (mp_party_const mp)) bvs (mp_dabit_provider mp) (mp_message_handler mp))
      [6 + div_ceil m 8] (\<lambda>(_, _, h). mh_wf h)"
    unfolding conv_interact_def Let_def m_def [symmetric]
    by (intro talks_lift, clarsimp, intro talks_lift exchange, rule blind_bits_sized, rule ba_new_sized)
  then have "talks (run_conv_B2A S G mp bvs) ([6 + div_ceil m 8] @ []) (\<lambda>(_, mp). executor_idle mp)"
    unfolding run_conv_B2A_def by (rule talks_bind) (use assms in \<open>auto simp: executor_idle_def executor_ok_def\<close>)
  then show ?thesis by (simp add: m_def)
qed

lemma talks_issue:
  fixes mp :: "('s, 'g::ab_group_add) mpc_provider"
  assumes "executor_idle mp" "codec_ok G"
  shows "talks (aggregate_commitments G mp cm) [34] (\<lambda>(_, mp). executor_idle mp)"
proof -
  have mh: "mh_wf (mp_message_handler mp)" using assms by (simp add: executor_idle_def executor_ok_def)
  have send: "talks (mh_send_commit_to_agg G (mp_message_handler mp) cm) [34] (\<lambda>_. True)"
    using commitment_codec(2) [OF assms(2)] by (simp add: mh_send_commit_to_agg_def mh_broadcast_def cmd_serialize_def)
  have rcv: "talks (mh_receive_agg_commits G (mp_message_handler mp)) [] (\<lambda>(_, h). mh_wf h)"
    unfolding mh_receive_agg_commits_def Let_def
    by (rule talks_quiet [OF talks_receive_all [OF mh]]) (auto simp: mh_wf_def intro!: talks_lift)
  have "talks (aggregate_commitments G mp cm) ([34] @ []) (\<lambda>(_, mp). executor_idle mp)"
    unfolding aggregate_commitments_def
    by (rule talks_bind [OF send], rule talks_quiet [OF rcv]) (use assms(1) in \<open>auto simp: Let_def executor_idle_def executor_ok_def\<close>)
  then show ?thesis by simp
qed

lemma join_boolean_len: "join_boolean P b1 b2 = Inr j \<Longrightarrow> bv_bit_len j = bv_bit_len b1 + bv_bit_len b2"
  by (auto simp: join_boolean_def bv_new_def rbind_eq_Ok Let_def split: if_splits)

text \<open>The lengths of the messages of a query, and what they add up to.\<close>

definition query_msgs :: "nat \<Rightarrow> nat \<Rightarrow> nat list" where
  "query_msgs k1 k2 = layer_msgs (ohe_sizes 0 k2 (ohe_sizes 0 k1 [])) @ [6 + 2 * div_ceil (2 ^ k2) 8] @ [6 + div_ceil (k1 + k2 + 1) 8] @ [34]"

definition server_idle :: "nat \<Rightarrow> ('s::comm_ring_1, 'g, 'sk, 'vk) prc_server \<Rightarrow> bool" where
  "server_idle k2 sv \<longleftrightarrow> executor_idle (sv_mpc_provider sv) \<and> db_l2_dim (sv_db sv) = 2 ^ k2"

lemma talks_certify:
  fixes sv :: "('s::comm_ring_1, 'g::ab_group_add, 'sk, 'vk) prc_server"
  assumes "executor_idle (sv_mpc_provider sv)" "codec_ok G" "bv_bit_len (q_l1_bss q) = k1" "bv_bit_len (q_l2_bss q) = k2"
  shows "talks (certify P S G V q b sv) ([6 + div_ceil (k1 + k2 + 1) 8] @ [34])
    (\<lambda>(_, sv'). executor_idle (sv_mpc_provider sv') \<and> sv_db sv' = sv_db sv)" (is "talks _ _ ?idle")
proof -
  { fix j r
    assume "join_boolean P (q_l1_bss q) (q_l2_bss q) = Inr j" "bv_new 1 (of_bool b) = Inr r"
    then have len: "sum_list (map bv_bit_len [j, r]) = k1 + k2 + 1" using assms(3,4) by (auto simp: join_boolean_len bv_new_eq split: if_splits)
    have "talks (pbind (run_conv_B2A S G (sv_mpc_provider sv) [j, r]) (\<lambda>(arith, mp).
       pbind (lift_res (index arith 0)) (\<lambda>a0. pbind (lift_res (index arith 1)) (\<lambda>a1.
       pbind (aggregate_commitments G mp (commit G (opening_new (av_value (q_rnd_ass q)) (av_value a0) (av_value a1)))) (\<lambda>(agg, mp).
       Done (case agg of Some cm \<Rightarrow> Some \<lparr>tok_commitment = None, tok_sig = sg_sign V (sv_sk sv) (commitment_serialize G cm)\<rparr>
           | None \<Rightarrow> None, sv\<lparr>sv_mpc_provider := mp\<rparr>))))))
      ([6 + div_ceil (sum_list (map bv_bit_len [j, r])) 8] @ [34]) ?idle"
    proof (rule talks_bind [OF talks_conv [OF assms(1)]], clarify, intro talks_lift)
      fix arith a0 a1 and mp :: "('s, 'g) mpc_provider"
      assume "executor_idle mp"
      from talks_bind [OF talks_issue [OF this assms(2), where cm = "commit G (opening_new (av_value (q_rnd_ass q)) (av_value a0) (av_value a1))"],
          where L' = "[]" and Q' = ?idle and f = "\<lambda>(agg, mp). Done (case agg of
            Some cm \<Rightarrow> Some \<lparr>tok_commitment = None, tok_sig = sg_sign V (sv_sk sv) (commitment_serialize G cm)\<rparr>
          | None \<Rightarrow> None, sv\<lparr>sv_mpc_provider := mp\<rparr>)"]
      show "talks (pbind (aggregate_commitments G mp (commit G (opening_new (av_value (q_rnd_ass q)) (av_value a0) (av_value a1)))) (\<lambda>(agg, mp).
       Done (case agg of Some cm \<Rightarrow> Some \<lparr>tok_commitment = None, tok_sig = sg_sign V (sv_sk sv) (commitment_serialize G cm)\<rparr>
           | None \<Rightarrow> None, sv\<lparr>sv_mpc_provider := mp\<rparr>))) [34] ?idle"
        by (simp add: case_prod_beta)
    qed
    note this [unfolded len] }
  then show ?thesis unfolding certify_def by (intro talks_lift)
qed

lemma talks_protocol:
  fixes sv :: "('s::comm_ring_1, 'g::ab_group_add, 'sk, 'vk) prc_server"
  assumes sv: "server_idle k2 sv" and G: "codec_ok G"
    and q: "bv_bit_len (q_l1_bss q) = k1" "bv_bit_len (q_l2_bss q) = k2" "k1 < 64" "k2 < 64"
  shows "talks (prc_protocol P S G V sv q) (query_msgs k1 k2) (\<lambda>(_, sv). server_idle k2 sv)"
proof -
  have idle: "executor_ok (sv_mpc_provider sv)" "mp_layers (sv_mpc_provider sv) = []" "db_l2_dim (sv_db sv) = 2 ^ k2"
    using sv by (simp_all add: server_idle_def executor_idle_def)
  have "talks (certify P S G V q b sv') ([6 + div_ceil (k1 + k2 + 1) 8] @ [34]) (\<lambda>(_, sv). server_idle k2 sv)"
    if "executor_idle (sv_mpc_provider sv')" "sv_db sv' = sv_db sv" for b and sv' :: "('s, 'g, 'sk, 'vk) prc_server"
    by (rule talks_mono [OF talks_certify [OF that(1) G q(1,2)]]) (use that(2) idle(3) in \<open>auto simp: server_idle_def\<close>)
  then have "talks (prc_protocol P S G V sv q)
     ((layer_msgs (ohe_sizes 0 (bv_bit_len (q_l2_bss q)) (ohe_sizes 0 (bv_bit_len (q_l1_bss q)) [])) @ [6 + 2 * div_ceil (db_l2_dim (sv_db sv)) 8]) @
      [6 + div_ceil (k1 + k2 + 1) 8] @ [34]) (\<lambda>(_, sv). server_idle k2 sv)"
    unfolding prc_protocol_eq by (intro talks_bind [OF talks_rec_retrieve [OF idle(1,2)]]) (use q in auto)
  then show ?thesis by (simp add: query_msgs_def q idle(3))
qed

definition query_traffic :: "nat \<Rightarrow> nat \<Rightarrow> nat" where
  "query_traffic k1 k2 = 10 * (max (ohe_depth k1) (ohe_depth k2) + 1) + 2 * query_bytes k1 k2 + (10 + div_ceil (k1 + k2 + 1) 8) + 38"

lemma traffic_layer_msgs: "traffic (layer_msgs ss) = 10 * length ss + 2 * sum_list ss"
proof -
  have "traffic (map (\<lambda>b. 6 + 2 * b) xs) = 10 * length xs + 2 * sum_list xs" for xs by (induction xs) simp_all
  then show ?thesis by (simp add: layer_msgs_def)
qed

lemma traffic_query: "traffic (query_msgs k1 k2) = query_traffic k1 k2"
proof -
  have "ohe_depth k = 0" if "k \<le> 1" for k using that by (simp add: ohe_depth.simps [of k])
  then have "length (ohe_sizes 0 k2 (ohe_sizes 0 k1 [])) = max (ohe_depth k1) (ohe_depth k2)"
    by (simp add: ohe_sizes_length)
  then show ?thesis
    by (simp add: query_msgs_def query_traffic_def traffic_layer_msgs ohe_sizes_sum query_bytes_def)
qed


lemma query_traffic_bound: "k1 \<le> 32 \<Longrightarrow> k2 \<le> 32 \<Longrightarrow> 8 * query_bytes k1 k2 < 2 ^ 32 \<Longrightarrow> query_traffic k1 k2 < 2 ^ 32"
proof -
  assume k: "k1 \<le> 32" "k2 \<le> 32" "8 * query_bytes k1 k2 < 2 ^ 32"
  have "ohe_depth 32 = 5" by (simp add: ohe_depth.simps div_ceil_def)
  then have "ohe_depth k1 \<le> 5" "ohe_depth k2 \<le> 5" using ohe_depth_mono k(1,2) by metis+
  moreover have "div_ceil (k1 + k2 + 1) 8 \<le> 10" using k(1,2) by (simp add: div_ceil_def)
  ultimately show ?thesis using k(3) by (simp add: query_traffic_def)
qed

text \<open>Every server between two queries talks like this.\<close>

lemma servers_idle:
  fixes sv :: "nat \<Rightarrow> ('s::comm_ring_1, 'g, 'sk, 'vk) prc_server"
  assumes "servers_ready n N u M d db sv" "db_dims db k1 k2" "p < n"
  shows "server_idle k2 (sv p)"
proof -
  let ?mp = "sv_mpc_provider (sv p)"
  have r: "mh_ready n p (mp_message_handler ?mp)" "mp_layers ?mp = []" "bps_ok n N (\<lambda>p. mp_beaver_provider (sv_mpc_provider (sv p))) u" "sv_db (sv p) = db"
    using assms(1,3) by (simp_all add: servers_ready_def parties_ready_def party_layers_def)
  then have "executor_idle ?mp" using assms(3) by (auto simp: executor_idle_def executor_ok_def mh_wf_def mh_ready_def bps_ok_def bp_wf_def)
  then show ?thesis using assms(2) r(4) by (simp add: server_idle_def db_dims_def)
qed

lemma servers_talk:
  fixes sv :: "nat \<Rightarrow> ('s::comm_ring_1, 'g::ab_group_add, 'sk, 'vk) prc_server"
  assumes "servers_ready n N u M d db sv" "db_dims db k1 k2" "codec_ok G" "p < n" "k1 < 64" "k2 < 64"
    and "bv_bit_len (q_l1_bss q) = k1" "bv_bit_len (q_l2_bss q) = k2"
  shows "talks (prc_protocol P S G V (sv p) q) (query_msgs k1 k2) (\<lambda>_. True)"
  by (rule talks_mono [OF talks_protocol [OF servers_idle [OF assms(1,2,4)] assms(3,7,8,5,6)]]) simp

text \<open>A program over counting connections sends the same messages.\<close>

lemma talks_metered: "talks p L Q \<Longrightarrow> talks (metered p P cs) L (\<lambda>(x, _). Q x)"
proof (induction p arbitrary: L cs)
  case (Broadcast m k)
  then show ?case by (auto intro!: talks_lift split: list.splits)
next
  case (ReceiveAll k)
  then show ?case by (auto intro!: talks_lift)
qed simp_all

text \<open>The longest message of a query, with its length.\<close>

definition longest_frame :: "nat \<Rightarrow> nat \<Rightarrow> nat" where
  "longest_frame k1 k2 = Max (set (map (\<lambda>l. l + 4) (query_msgs k1 k2)))"

lemma frame_framed: "frame G c = framed (cmd_serialize G c)"
  by (simp add: frame_def framed_def)

lemma query_msgs_longest: "l \<in> set (query_msgs k1 k2) \<Longrightarrow> l + 4 \<le> longest_frame k1 k2"
  by (simp add: longest_frame_def)

lemma longest_frame_msg: obtains l where "l \<in> set (query_msgs k1 k2)" "longest_frame k1 k2 = l + 4"
proof -
  have "query_msgs k1 k2 \<noteq> []" by (simp add: query_msgs_def)
  then have "longest_frame k1 k2 \<in> set (map (\<lambda>l. l + 4) (query_msgs k1 k2))" unfolding longest_frame_def by (intro Max_in) simp_all
  then show ?thesis using that by auto
qed

lemma traffic_member: "l \<in> set L \<Longrightarrow> l + 4 \<le> traffic L"
  by (induction L) auto

text \<open>The last layer of the one-hot encodings alone sends a quarter of the first dimension in bytes.\<close>

definition first_size :: "nat list \<Rightarrow> nat" where
  "first_size ss = (if ss = [] then 0 else ss ! 0)"

lemma first_reserve: "first_size (reserve l b ss) = first_size ss + (if l = 0 then div_ceil b 8 else 0)"
  by (cases ss; cases l) (auto simp: first_size_def reserve_def nth_append)

lemma first_ohe_sizes: "first_size (ohe_sizes l b ss) = first_size ss + (if l = 0 \<and> 1 < b then div_ceil (2 ^ b) 8 else 0)"
proof (induction l b ss rule: ohe_sizes.induct)
  case (1 l b ss)
  then show ?case by (cases "b \<le> 1") (simp_all add: ohe_sizes.simps [of l b] first_reserve)
qed

lemma longest_frame_bounds:
  assumes "3 \<le> k1"
  shows "2 ^ (k1 - 2) + 10 \<le> longest_frame k1 k2" "longest_frame k1 k2 \<le> query_traffic k1 k2"
proof -
  let ?ss = "ohe_sizes 0 k2 (ohe_sizes 0 k1 [])"
  have "(2 :: nat) ^ k1 = 8 * 2 ^ (k1 - 3)" using assms power_add [of "2 :: nat" 3 "k1 - 3"] by simp
  then have "div_ceil (2 ^ k1) 8 = 2 ^ (k1 - 3)" by (simp add: div_ceil_def)
  then have le: "2 ^ (k1 - 3) \<le> first_size ?ss" using assms by (simp add: first_ohe_sizes first_size_def [of "[]"])
  moreover have "0 < (2 :: nat) ^ (k1 - 3)" by simp
  ultimately have "?ss \<noteq> []" by (metis first_size_def not_le)
  then have "6 + 2 * first_size ?ss \<in> set (query_msgs k1 k2)" by (simp add: query_msgs_def layer_msgs_def first_size_def)
  then have "6 + 2 * first_size ?ss + 4 \<le> longest_frame k1 k2" by (rule query_msgs_longest)
  moreover have "(2 :: nat) ^ (k1 - 2) = 2 * 2 ^ (k1 - 3)" using assms by (simp add: Suc_diff_le numeral_3_eq_3 numeral_2_eq_2 flip: power_Suc)
  ultimately show "2 ^ (k1 - 2) + 10 \<le> longest_frame k1 k2" using le by linarith
  obtain l where "l \<in> set (query_msgs k1 k2)" "longest_frame k1 k2 = l + 4" by (rule longest_frame_msg)
  then show "longest_frame k1 k2 \<le> query_traffic k1 k2" using traffic_member [of l "query_msgs k1 k2"] by (simp add: traffic_query)
qed

lemma query_msgs_framable: "k1 \<le> 32 \<Longrightarrow> k2 \<le> 32 \<Longrightarrow> 8 * query_bytes k1 k2 < 2 ^ 32 \<Longrightarrow> l \<in> set (query_msgs k1 k2) \<Longrightarrow> l < 2 ^ 32"
  using traffic_member [of l "query_msgs k1 k2"] query_traffic_bound [of k1 k2] by (simp add: traffic_query)

section \<open>The sum over the connections\<close>

definition sum_sent :: "counters \<Rightarrow> nat" where
  "sum_sent cs = (\<Sum>(q, stat)\<leftarrow>cs. unat (ns_sent stat))"

definition sum_received :: "counters \<Rightarrow> nat" where
  "sum_received cs = (\<Sum>(q, stat)\<leftarrow>cs. unat (ns_received stat))"

lemma sums_Cons [simp]: "sum_sent [] = 0" "sum_received [] = 0"
  "sum_sent ((q, stat) # cs) = unat (ns_sent stat) + sum_sent cs" "sum_received ((q, stat) # cs) = unat (ns_received stat) + sum_received cs"
  by (simp_all add: sum_sent_def sum_received_def)

lemma sums_new [simp]: "sum_sent (counters_new qs) = 0" "sum_received (counters_new qs) = 0"
  by (induction qs) (simp_all add: counters_new_def ns_new_def)

lemma sums_mset: "mset cs = mset cs' \<Longrightarrow> sum_sent cs = sum_sent cs' \<and> sum_received cs = sum_received cs'"
  unfolding sum_sent_def sum_received_def by (simp flip: sum_mset_sum_list)

lemma counter_le_sum: "(q, stat) \<in> set cs \<Longrightarrow> unat (ns_sent stat) \<le> sum_sent cs \<and> unat (ns_received stat) \<le> sum_received cs"
  by (induction cs) auto

lemma sums_words: "of_nat (sum_sent cs) = (\<Sum>(q, stat)\<leftarrow>cs. ns_sent stat)" "of_nat (sum_received cs) = (\<Sum>(q, stat)\<leftarrow>cs. ns_received stat)"
  by (induction cs) auto

lemma sums_grown: "of_nat (sum_sent (map (apsnd (grown a b)) cs)) = (of_nat (sum_sent cs + length cs * a) :: u32)"
  "of_nat (sum_received (map (apsnd (grown a b)) cs)) = (of_nat (sum_received cs + length cs * b) :: u32)"
  unfolding of_nat_add of_nat_mult sums_words
  by (simp_all add: case_prod_unfold comp_def grown_def sum_list_addf sum_list_triv)

lemma sums_grown_fits:
  assumes "\<forall>(q, stat)\<in>set cs. unat (ns_sent stat) + a < 2 ^ 32 \<and> unat (ns_received stat) + b < 2 ^ 32"
  shows "sum_sent (map (apsnd (grown a b)) cs) = sum_sent cs + length cs * a \<and>
    sum_received (map (apsnd (grown a b)) cs) = sum_received cs + length cs * b"
  using assms
proof (induction cs)
  case (Cons c cs)
  obtain q stat where c: "c = (q, stat)" by fastforce
  have "unat (ns_sent stat + of_nat a) = unat (ns_sent stat) + a" "unat (ns_received stat + of_nat b) = unat (ns_received stat) + b"
    using Cons.prems unfolding c by (intro unat_plus_u32; simp)+
  then show ?case using Cons by (simp add: c grown_def)
qed simp

text \<open>What a party reports when its counters have grown by \<open>T\<close> in both directions, from \<open>a\<close> bytes sent and \<open>b\<close> received.\<close>

definition bandwidth :: "nat \<Rightarrow> nat \<Rightarrow> nat \<Rightarrow> nat \<Rightarrow> net_stat" where
  "bandwidth n T a b = \<lparr>ns_sent = of_nat (a + (n - 1) * T), ns_received = of_nat (b + (n - 1) * T)\<rparr>"

lemma netstat_of_counters:
  assumes "length cs = n - 1" "P = Release \<or> sum_sent cs + (n - 1) * T < 2 ^ 32 \<and> sum_received cs + (n - 1) * T < 2 ^ 32"
  shows "sv_get_then_reset_netstat P (map (apsnd (grown T T)) cs) = Inr (bandwidth n T (sum_sent cs) (sum_received cs), counters_new (map fst cs))"
proof -
  let ?cs = "map (apsnd (grown T T)) cs"
  have sums: "(\<Sum>x\<leftarrow>map snd ?cs. unat (ns_sent x)) = sum_sent ?cs" "(\<Sum>x\<leftarrow>map snd ?cs. unat (ns_received x)) = sum_received ?cs"
    by (simp_all add: sum_sent_def sum_received_def comp_def case_prod_beta)
  have "P = Release \<or> sum_sent ?cs < 2 ^ 32 \<and> sum_received ?cs < 2 ^ 32"
  proof (cases "P = Release \<or> cs = []")
    case False
    have T: "T \<le> (n - 1) * T" using False assms(1) by (cases cs) simp_all
    have "\<forall>(q, stat)\<in>set cs. unat (ns_sent stat) + T < 2 ^ 32 \<and> unat (ns_received stat) + T < 2 ^ 32"
    proof clarify
      fix q stat assume "(q, stat) \<in> set cs"
      then show "unat (ns_sent stat) + T < 2 ^ 32 \<and> unat (ns_received stat) + T < 2 ^ 32"
        using counter_le_sum [of q stat cs] assms(2) False T by linarith
    qed
    then show ?thesis using assms False sums_grown_fits [of cs T T] by simp
  qed (use assms in auto)
  then have "get_then_reset_netstat P (map snd ?cs)
      = Inr (\<lparr>ns_sent = of_nat (sum_sent ?cs), ns_received = of_nat (sum_received ?cs)\<rparr>, replicate (length cs) ns_new)"
    using netstat_fold [of P 0 0 "map snd ?cs" "[]"] unfolding sums by (simp add: get_then_reset_netstat_def ns_new_def)
  moreover have "zip (map fst ?cs) (replicate (length cs) ns_new) = counters_new (map fst cs)"
    by (induction cs) (simp_all add: counters_new_def)
  ultimately show ?thesis
    by (simp add: sv_get_then_reset_netstat_def sums_grown bandwidth_def assms(1))
qed

lemma counters_fst: "map fst (counters_new qs) = qs" "map fst (counters_start n p) = others n p"
  by (simp_all add: counters_new_def counters_start_def comp_def)

lemma counters_start_sums:
  assumes "p < n"
  shows "sum_sent (counters_start n p) = 6 * p" "sum_received (counters_start n p) = 6 * (n - 1 - p)" "length (counters_start n p) = n - 1"
proof -
  have lo: "sum_sent (map (\<lambda>q. (q, \<lparr>ns_sent = 6, ns_received = 0\<rparr>)) qs) = 6 * length qs" "sum_received (map (\<lambda>q. (q, \<lparr>ns_sent = 6, ns_received = 0\<rparr>)) qs) = 0"
    "sum_sent (map (\<lambda>q. (q, \<lparr>ns_sent = 0, ns_received = 6\<rparr>)) qs) = 0" "sum_received (map (\<lambda>q. (q, \<lparr>ns_sent = 0, ns_received = 6\<rparr>)) qs) = 6 * length qs" for qs :: "nat list"
    by (induction qs) simp_all
  have app: "sum_sent (xs @ ys) = sum_sent xs + sum_sent ys" "sum_received (xs @ ys) = sum_received xs + sum_received ys" for xs ys
    by (simp_all add: sum_sent_def sum_received_def)
  show "sum_sent (counters_start n p) = 6 * p" "sum_received (counters_start n p) = 6 * (n - 1 - p)" "length (counters_start n p) = n - 1"
    unfolding counters_start_split [OF assms] app lo using assms by simp_all
qed

text \<open>Counters of the connections to all other parties that can grow by \<open>T\<close>, together and in both directions.\<close>

definition counters_ok :: "profile \<Rightarrow> nat \<Rightarrow> nat \<Rightarrow> nat \<Rightarrow> counters \<Rightarrow> bool" where
  "counters_ok P n T p cs \<longleftrightarrow> mset (map fst cs) = mset (others n p) \<and>
     (P = Release \<or> sum_sent cs + (n - 1) * T < 2 ^ 32 \<and> sum_received cs + (n - 1) * T < 2 ^ 32)"

lemma counters_okD:
  assumes "counters_ok P n T p cs" "p < n"
  shows "mset (map fst cs) = mset (others n p)" "length cs = n - 1"
    "P = Release \<or> sum_sent cs + (n - 1) * T < 2 ^ 32 \<and> sum_received cs + (n - 1) * T < 2 ^ 32"
    "(q, stat) \<in> set cs \<Longrightarrow> fits P T T stat"
proof -
  show fst: "mset (map fst cs) = mset (others n p)" and sum: "P = Release \<or> sum_sent cs + (n - 1) * T < 2 ^ 32 \<and> sum_received cs + (n - 1) * T < 2 ^ 32"
    using assms(1) by (simp_all add: counters_ok_def)
  show len: "length cs = n - 1" using arg_cong [OF fst, of size] assms(2) by (simp add: others_split)
  assume m: "(q, stat) \<in> set cs"
  then have "T \<le> (n - 1) * T" using len by (cases cs) auto
  then show "fits P T T stat" using counter_le_sum [OF m] sum unfolding fits_def by linarith
qed

lemma counters_new_ok: "P = Release \<or> (n - 1) * T < 2 ^ 32 \<Longrightarrow> mset qs = mset (others n p) \<Longrightarrow> counters_ok P n T p (counters_new qs)"
  by (simp add: counters_ok_def counters_fst del: mset_map)

text \<open>Over such counters every query counts \<open>query_traffic\<close> bytes to and from each peer.\<close>

lemma protocol_metered:
  fixes sv :: "nat \<Rightarrow> ('s::comm_ring_1, 'g::ab_group_add, 'sk, 'vk) prc_server"
  assumes fin: "all_finish n (\<lambda>p. prc_protocol P S G V (sv p) (q p)) Q" and n: "0 < n"
    and sv: "servers_ready n N u M d db sv" "db_dims db k1 k2" "codec_ok G" "k1 < 64" "k2 < 64"
    and len: "\<And>p. p < n \<Longrightarrow> bv_bit_len (q_l1_bss (q p)) = k1 \<and> bv_bit_len (q_l2_bss (q p)) = k2"
    and cs: "\<And>p. p < n \<Longrightarrow> mset (map fst (cs p)) = mset (others n p)"
      "\<And>p r stat. p < n \<Longrightarrow> (r, stat) \<in> set (cs p) \<Longrightarrow> fits P (query_traffic k1 k2) (query_traffic k1 k2) stat"
  shows "all_finish n (\<lambda>p. metered (prc_protocol P S G V (sv p) (q p)) P (cs p)) (\<lambda>out. \<exists>xs. Q xs \<and>
    (\<forall>p<n. out p = (xs p, map (apsnd (grown (query_traffic k1 k2) (query_traffic k1 k2))) (cs p))))"
proof (rule all_finish_metered [OF fin n, where L = "query_msgs k1 k2", unfolded traffic_query])
  show "talks (prc_protocol P S G V (sv p) (q p)) (query_msgs k1 k2) (\<lambda>_. True)" if "p < n" for p
    using len [OF that] by (intro servers_talk [OF sv(1-3) that sv(4,5)]) simp_all
  show "set (map fst (cs p)) \<subseteq> set (others n p)" if "p < n" for p
    using mset_eq_setD [OF cs(1) [OF that]] by simp
qed (rule cs(2))

text \<open>
  The counter of one connection has room for a query, but the sum over many peers may not: a build with overflow
  checks panics and one without reports the sum modulo \<open>2^32\<close>.
\<close>

lemma fresh_netstat:
  assumes "p < n" "T < 2 ^ 32"
  shows "sv_get_then_reset_netstat P (map (apsnd (grown T T)) (counters_new (others n p))) =
    (if P = Release \<or> (n - 1) * T < 2 ^ 32 then Inr (bandwidth n T 0 0, counters_new (others n p)) else Inl ArithOverflow)"
proof (cases "P = Release \<or> (n - 1) * T < 2 ^ 32")
  case True
  have "length (counters_new (others n p)) = n - 1" using assms(1) by (simp add: counters_new_def others_split)
  from netstat_of_counters [OF this, of P T] True show ?thesis by (simp add: counters_fst)
next
  case False
  let ?cs = "map (apsnd (grown T T)) (counters_new (others n p))"
  have len: "length (others n p) = n - 1" using assms(1) by (simp add: others_split)
  have "unat (of_nat T :: u32) = T" using assms(2) by (rule unat_of_nat_u32)
  then have "(\<Sum>x\<leftarrow>map snd ?cs. unat (ns_sent x)) = (n - 1) * T"
    by (simp add: counters_new_def comp_def grown_def ns_new_def sum_list_triv len)
  then show ?thesis
    using netstat_fold [of P 0 0 "map snd ?cs" "[]"] False
    by (simp add: sv_get_then_reset_netstat_def get_then_reset_netstat_def ns_new_def)
qed

end
