(* ===== verification/Printing.thy ===== *)
theory Printing
  imports Peers
begin

text \<open>
  What the program prints and measures: the \<open>Display\<close> and \<open>Debug\<close> output of its values, CPU times
  (\<open>get_cpu_time\<close> in \<open>src/prc/util.rs\<close>) and the lines of the measurement file (\<open>src/main.rs\<close>). Strings are lists of the bytes of
  their UTF-8 encoding. Reading functions say what a line contains.
\<close>

section \<open>Decimal numbers\<close>

definition digit :: "nat \<Rightarrow> char" where
  "digit d = char_of (48 + d)"

definition is_digit :: "char \<Rightarrow> bool" where
  "is_digit c \<longleftrightarrow> 48 \<le> (of_char c :: nat) \<and> (of_char c :: nat) < 58"

definition digit_val :: "char \<Rightarrow> nat" where
  "digit_val c = of_char c - 48"

function show_nat :: "nat \<Rightarrow> string" where
  "show_nat n = (if n < 10 then [digit n] else show_nat (n div 10) @ [digit (n mod 10)])"
  by pat_completeness auto
termination
  by (relation "measure id") auto

declare show_nat.simps [simp del]

definition digits_val :: "string \<Rightarrow> nat" where
  "digits_val s = foldl (\<lambda>a c. 10 * a + digit_val c) 0 s"

definition read_nat :: "string \<Rightarrow> nat option" where
  "read_nat s = (if s \<noteq> [] \<and> list_all is_digit s then Some (digits_val s) else None)"

lemma of_char_digit: "d < 10 \<Longrightarrow> (of_char (digit d) :: nat) = 48 + d"
  by (simp add: digit_def)

lemma digit_simps [simp]: "d < 10 \<Longrightarrow> is_digit (digit d)" "d < 10 \<Longrightarrow> digit_val (digit d) = d"
  by (simp_all add: is_digit_def digit_val_def of_char_digit)

lemma digits_foldl: "foldl (\<lambda>a c. 10 * a + digit_val c) a t = a * 10 ^ length t + foldl (\<lambda>a c. 10 * a + digit_val c) 0 t"
proof (induction t arbitrary: a)
  case (Cons c t)
  let ?f = "\<lambda>a c. 10 * a + digit_val c"
  have "foldl ?f a (c # t) = (10 * a + digit_val c) * 10 ^ length t + foldl ?f 0 t" unfolding foldl_Cons by (rule Cons)
  moreover have "foldl ?f 0 (c # t) = (10 * 0 + digit_val c) * 10 ^ length t + foldl ?f 0 t" unfolding foldl_Cons by (rule Cons)
  ultimately show ?case by (simp add: algebra_simps)
qed simp

lemma digits_val_append: "digits_val (s @ t) = digits_val s * 10 ^ length t + digits_val t"
  unfolding digits_val_def foldl_append by (rule digits_foldl)

lemma digits_val_Cons: "digits_val (c # t) = digit_val c * 10 ^ length t + digits_val t"
  using digits_val_append [of "[c]" t] by (simp add: digits_val_def)

lemma digits_val_Nil [simp]: "digits_val [] = 0" by (simp add: digits_val_def)

lemma show_nat_digits: "show_nat n \<noteq> [] \<and> list_all is_digit (show_nat n) \<and> digits_val (show_nat n) = n"
proof (induction n rule: show_nat.induct)
  case (1 n)
  show ?case
  proof (cases "n < 10")
    case True
    then show ?thesis by (simp add: show_nat.simps [of n] digits_val_Cons)
  next
    case False
    then show ?thesis using 1 by (subst (1 2 3) show_nat.simps) (simp add: digits_val_append digits_val_Cons)
  qed
qed

lemma read_show_nat [simp]: "read_nat (show_nat n) = Some n"
  using show_nat_digits [of n] by (simp add: read_nat_def)

lemma show_nat_chars: "c \<in> set (show_nat n) \<Longrightarrow> is_digit c"
  using show_nat_digits [of n] by (auto simp: list_all_iff)

section \<open>Durations\<close>

record duration =
  du_secs :: u64
  du_nanos :: u32

definition du_total :: "duration \<Rightarrow> nat" where
  "du_total d = unat (du_secs d) * 10 ^ 9 + unat (du_nanos d)"

definition du_wf :: "duration \<Rightarrow> bool" where
  "du_wf d \<longleftrightarrow> unat (du_nanos d) < 10 ^ 9"

text \<open>\<open>Duration::new\<close> carries full seconds over; \<open>-\<close> panics when the result would be negative.\<close>

definition du_new :: "u64 \<Rightarrow> u32 \<Rightarrow> duration res" where
  "du_new secs nanos =
     (if unat nanos < 10 ^ 9 then Ok \<lparr>du_secs = secs, du_nanos = nanos\<rparr>
      else if unat secs + unat nanos div 10 ^ 9 < 2 ^ 64
      then Ok \<lparr>du_secs = secs + of_nat (unat nanos div 10 ^ 9), du_nanos = of_nat (unat nanos mod 10 ^ 9)\<rparr>
      else Panic ArithOverflow)"

definition du_sub :: "duration \<Rightarrow> duration \<Rightarrow> duration res" where
  "du_sub a b =
     (if unat (du_secs b) \<le> unat (du_secs a) then
        if du_nanos b \<le> du_nanos a then Ok \<lparr>du_secs = du_secs a - du_secs b, du_nanos = du_nanos a - du_nanos b\<rparr>
        else if du_secs a - du_secs b = 0 then Panic ArithOverflow
        else Ok \<lparr>du_secs = du_secs a - du_secs b - 1, du_nanos = du_nanos a + 10 ^ 9 - du_nanos b\<rparr>
      else Panic ArithOverflow)"

text \<open>
  \<open>fmt_decimal\<close> of the standard library without a precision: the fraction is printed up to its last digit
  that is not zero.
\<close>

function frac_digits :: "nat \<Rightarrow> nat \<Rightarrow> string" where
  "frac_digits fr divisor =
     (if fr = 0 \<or> divisor = 0 then []
      else digit (fr div divisor) # frac_digits (fr mod divisor) (divisor div 10))"
  by pat_completeness auto
termination
  by (relation "measure snd") auto

declare frac_digits.simps [simp del]

definition fmt_decimal :: "nat \<Rightarrow> nat \<Rightarrow> nat \<Rightarrow> string" where
  "fmt_decimal integer_part fractional_part divisor =
     (let buf = frac_digits fractional_part divisor in
      show_nat integer_part @ (if buf = [] then [] else CHR ''.'' # buf))"

text \<open>\<open>{:?}\<close> of a duration; the micro sign is two bytes.\<close>

definition du_debug :: "duration \<Rightarrow> string" where
  "du_debug d =
     (let secs = unat (du_secs d); nanos = unat (du_nanos d) in
      if secs > 0 then fmt_decimal secs nanos (10 ^ 8) @ ''s''
      else if nanos \<ge> 10 ^ 6 then fmt_decimal (nanos div 10 ^ 6) (nanos mod 10 ^ 6) (10 ^ 5) @ ''ms''
      else if nanos \<ge> 10 ^ 3 then fmt_decimal (nanos div 10 ^ 3) (nanos mod 10 ^ 3) 100 @ [CHR 0xC2, CHR 0xB5, CHR ''s'']
      else fmt_decimal nanos 0 1 @ ''ns'')"

text \<open>Reading such a text: a decimal number with up to \<open>k\<close> digits after the point, in units of \<open>10^-k\<close>.\<close>

definition read_decimal :: "nat \<Rightarrow> string \<Rightarrow> nat option" where
  "read_decimal k s =
     (let i = takeWhile is_digit s; r = dropWhile is_digit s in
      case r of
        [] \<Rightarrow> map_option (\<lambda>n. n * 10 ^ k) (read_nat i)
      | c # f \<Rightarrow> if c = CHR ''.'' \<and> i \<noteq> [] \<and> f \<noteq> [] \<and> list_all is_digit f \<and> length f \<le> k
                 then Some (digits_val i * 10 ^ k + digits_val f * 10 ^ (k - length f)) else None)"

definition read_duration :: "string \<Rightarrow> nat option" where
  "read_duration s =
     (let num = takeWhile (\<lambda>c. is_digit c \<or> c = CHR ''.'') s; suffix = dropWhile (\<lambda>c. is_digit c \<or> c = CHR ''.'') s in
      if suffix = ''s'' then read_decimal 9 num
      else if suffix = ''ms'' then read_decimal 6 num
      else if suffix = [CHR 0xC2, CHR 0xB5, CHR ''s''] then read_decimal 3 num
      else if suffix = ''ns'' then read_decimal 0 num
      else None)"

lemma frac_digits_val:
  "fr < 10 ^ Suc j \<Longrightarrow> list_all is_digit (frac_digits fr (10 ^ j)) \<and> length (frac_digits fr (10 ^ j)) \<le> Suc j \<and>
     digits_val (frac_digits fr (10 ^ j)) * 10 ^ (Suc j - length (frac_digits fr (10 ^ j))) = fr \<and>
     (frac_digits fr (10 ^ j) = [] \<longleftrightarrow> fr = 0)"
proof (induction j arbitrary: fr)
  case 0
  then show ?case by (subst (1 2 3 4 5) frac_digits.simps) (simp add: frac_digits.simps [of 0] digits_val_Cons)
next
  case (Suc j)
  show ?case
  proof (cases "fr = 0")
    case False
    let ?q = "fr div 10 ^ Suc j" and ?r = "fr mod 10 ^ Suc j"
    have q: "?q < 10" using Suc.prems by (simp add: less_mult_imp_div_less)
    have step: "frac_digits fr (10 ^ Suc j) = digit ?q # frac_digits ?r (10 ^ j)"
      using False by (subst frac_digits.simps) simp
    define fs where "fs = frac_digits ?r (10 ^ j)"
    have IH: "list_all is_digit fs" "length fs \<le> Suc j" "digits_val fs * 10 ^ (Suc j - length fs) = ?r"
      unfolding fs_def using Suc.IH [of ?r] by auto
    have "digits_val (digit ?q # fs) * 10 ^ (Suc (Suc j) - length (digit ?q # fs))
        = ?q * (10 ^ length fs * 10 ^ (Suc j - length fs)) + digits_val fs * 10 ^ (Suc j - length fs)"
      using q by (simp add: digits_val_Cons algebra_simps)
    also have "10 ^ length fs * 10 ^ (Suc j - length fs) = (10 ^ Suc j :: nat)" using IH(2) by (simp flip: power_add)
    finally have "digits_val (digit ?q # fs) * 10 ^ (Suc (Suc j) - length (digit ?q # fs)) = fr"
      unfolding IH(3) by (simp only: div_mult_mod_eq)
    then show ?thesis unfolding step fs_def [symmetric] using IH(1,2) q False by simp
  qed (simp add: frac_digits.simps)
qed

lemma point_not_digit [simp]: "\<not> is_digit (CHR ''.'')" by (simp add: is_digit_def)

lemma read_fmt_decimal:
  assumes "fr < 10 ^ Suc j"
  shows "read_decimal (Suc j) (fmt_decimal i fr (10 ^ j)) = Some (i * 10 ^ Suc j + fr)"
proof -
  let ?b = "frac_digits fr (10 ^ j)"
  have tw: "takeWhile is_digit (show_nat i) = show_nat i" "takeWhile is_digit (show_nat i @ CHR ''.'' # ?b) = show_nat i"
    "dropWhile is_digit (show_nat i @ CHR ''.'' # ?b) = CHR ''.'' # ?b" "dropWhile is_digit (show_nat i) = []"
    using show_nat_digits [of i] by (auto simp: list_all_iff takeWhile_append dropWhile_append takeWhile_eq_all_conv dropWhile_eq_Nil_conv)
  note f = frac_digits_val [OF assms]
  show ?thesis
  proof (cases "fr = 0")
    case True
    then have "?b = []" using f by simp
    then have f0: "fmt_decimal i fr (10 ^ j) = show_nat i" by (simp add: fmt_decimal_def)
    show ?thesis unfolding f0 read_decimal_def tw Let_def by (simp add: True)
  next
    case False
    then have "?b \<noteq> []" using f by simp
    then have f1: "fmt_decimal i fr (10 ^ j) = show_nat i @ CHR ''.'' # ?b" by (simp add: fmt_decimal_def Let_def)
    show ?thesis unfolding f1 read_decimal_def tw Let_def using f show_nat_digits [of i] \<open>?b \<noteq> []\<close> by simp
  qed
qed

lemma fmt_decimal_chars: "fr < 10 ^ Suc j \<Longrightarrow> \<forall>c\<in>set (fmt_decimal i fr (10 ^ j)). is_digit c \<or> c = CHR ''.''"
  using frac_digits_val [of fr j] show_nat_chars [of _ i] by (auto simp: fmt_decimal_def Let_def list_all_iff split: if_splits)

lemma number_then_suffix:
  assumes "\<forall>c\<in>set num. is_digit c \<or> c = CHR ''.''" "\<not> is_digit x" "x \<noteq> CHR ''.''"
  shows "takeWhile (\<lambda>c. is_digit c \<or> c = CHR ''.'') (num @ x # suffix) = num"
    "dropWhile (\<lambda>c. is_digit c \<or> c = CHR ''.'') (num @ x # suffix) = x # suffix"
  using assms by (simp_all add: takeWhile_append dropWhile_append takeWhile_eq_all_conv)

lemma read_duration_suffix:
  assumes "\<forall>c\<in>set num. is_digit c \<or> c = CHR ''.''" "\<not> is_digit x" "x \<noteq> CHR ''.''"
  shows "read_duration (num @ x # suffix) =
     (if x # suffix = ''s'' then read_decimal 9 num
      else if x # suffix = ''ms'' then read_decimal 6 num
      else if x # suffix = [CHR 0xC2, CHR 0xB5, CHR ''s''] then read_decimal 3 num
      else if x # suffix = ''ns'' then read_decimal 0 num
      else None)"
  unfolding read_duration_def number_then_suffix [OF assms] Let_def ..

text \<open>A printed duration has its exact value.\<close>

lemma read_du_debug:
  assumes "du_wf d"
  shows "read_duration (du_debug d) = Some (du_total d)"
proof -
  define sc n where "sc = unat (du_secs d)" and "n = unat (du_nanos d)"
  have b: "n < 10 ^ Suc 8" "n mod 10 ^ 6 < 10 ^ Suc 5" "n mod 10 ^ 3 < 10 ^ Suc 2" "0 < (10 :: nat) ^ Suc 0" using assms by (simp_all add: du_wf_def n_def)
  have nd: "\<not> is_digit (CHR ''s'')" "\<not> is_digit (CHR ''m'')" "\<not> is_digit (CHR 0xC2)" "\<not> is_digit (CHR ''n'')" by (simp_all add: is_digit_def)
  have t: "du_total d = sc * 10 ^ 9 + n" by (simp add: du_total_def sc_def n_def)
  have dbg: "du_debug d = (if sc > 0 then fmt_decimal sc n (10 ^ 8) @ ''s''
      else if n \<ge> 10 ^ 6 then fmt_decimal (n div 10 ^ 6) (n mod 10 ^ 6) (10 ^ 5) @ ''ms''
      else if n \<ge> 10 ^ 3 then fmt_decimal (n div 10 ^ 3) (n mod 10 ^ 3) (10 ^ 2) @ [CHR 0xC2, CHR 0xB5, CHR ''s'']
      else fmt_decimal n 0 (10 ^ 0) @ ''ns'')"
    by (simp add: du_debug_def sc_def n_def Let_def)
  note r = read_duration_suffix [OF fmt_decimal_chars [OF b(1), of sc] nd(1)] read_duration_suffix [OF fmt_decimal_chars [OF b(2), of "n div 10 ^ 6"] nd(2)]
    read_duration_suffix [OF fmt_decimal_chars [OF b(3), of "n div 10 ^ 3"] nd(3)] read_duration_suffix [OF fmt_decimal_chars [OF b(4), of n] nd(4)]
  note v = read_fmt_decimal [OF b(1), of sc] read_fmt_decimal [OF b(2), of "n div 10 ^ 6"] read_fmt_decimal [OF b(3), of "n div 10 ^ 3"]
  have f0: "fmt_decimal n 0 (10 ^ 0) = show_nat n" by (simp add: fmt_decimal_def frac_digits.simps)
  have tw: "takeWhile is_digit (show_nat n) = show_nat n" "dropWhile is_digit (show_nat n) = []"
    using show_nat_digits [of n] by (auto simp: list_all_iff)
  have v0: "read_decimal 0 (fmt_decimal n 0 (10 ^ 0)) = Some n" unfolding f0 read_decimal_def tw Let_def by simp
  consider "sc > 0" | "sc = 0" "n \<ge> 10 ^ 6" | "sc = 0" "n < 10 ^ 6" "n \<ge> 10 ^ 3" | "sc = 0" "n < 10 ^ 3" by linarith
  then show ?thesis
  proof cases
    case 1
    then show ?thesis unfolding dbg using r(1) v(1) t by simp
  next
    case 2
    then show ?thesis unfolding dbg using r(2) v(2) t by simp
  next
    case 3
    then show ?thesis unfolding dbg using r(3) v(3) t by simp
  next
    case 4
    then show ?thesis unfolding dbg using r(4) v0 t by simp
  qed
qed

text \<open>It has neither a comma nor the end of a line.\<close>

lemma du_debug_chars:
  assumes "du_wf d" "c \<in> set (du_debug d)"
  shows "c \<noteq> CHR '','' \<and> c \<noteq> CHR 0x0A"
proof -
  have b: "unat (du_nanos d) < 10 ^ Suc 8" "unat (du_nanos d) mod 10 ^ 6 < 10 ^ Suc 5" "unat (du_nanos d) mod 10 ^ 3 < 10 ^ Suc 2" "0 < (10 :: nat) ^ Suc 0"
    using assms(1) by (simp_all add: du_wf_def)
  have "is_digit c \<or> c = CHR ''.'' \<or> c \<in> {CHR ''s'', CHR ''m'', CHR ''n'', CHR 0xC2, CHR 0xB5}"
    using assms(2) fmt_decimal_chars [OF b(1)] fmt_decimal_chars [OF b(2)] fmt_decimal_chars [OF b(3)] fmt_decimal_chars [OF b(4)]
    unfolding du_debug_def Let_def by (fastforce split: if_splits)
  then show ?thesis by (auto simp: is_digit_def)
qed

section \<open>CPU time\<close>

text \<open>\<open>i64\<close> as a word: whether the exact result is in its range decides on overflow.\<close>

definition in_i64 :: "int \<Rightarrow> bool" where
  "in_i64 x \<longleftrightarrow> - (2 ^ 63) \<le> x \<and> x < 2 ^ 63"

definition add_i64 :: "profile \<Rightarrow> u64 \<Rightarrow> u64 \<Rightarrow> u64 res" where
  "add_i64 P a b = (if P = Release \<or> in_i64 (sint a + sint b) then Ok (a + b) else Panic ArithOverflow)"

definition mul_i64 :: "profile \<Rightarrow> u64 \<Rightarrow> u64 \<Rightarrow> u64 res" where
  "mul_i64 P a b = (if P = Release \<or> in_i64 (sint a * sint b) then Ok (a * b) else Panic ArithOverflow)"

record timeval =
  tv_sec :: u64
  tv_usec :: u64

text \<open>What \<open>getrusage\<close> gives is an argument: user and system time, or nothing when it fails.\<close>

definition get_cpu_time :: "profile \<Rightarrow> (timeval \<times> timeval) option \<Rightarrow> duration res" where
  "get_cpu_time P usage =
     (case usage of
        None \<Rightarrow> Panic ExplicitPanic
      | Some (user, system) \<Rightarrow>
          rbind (add_i64 P (tv_sec user) (tv_sec system)) (\<lambda>secs.
          rbind (add_i64 P (tv_usec user) (tv_usec system)) (\<lambda>micros.
          rbind (mul_i64 P micros 1000) (\<lambda>nanos.
          du_new secs (ucast nanos)))))"

definition tv_wf :: "timeval \<Rightarrow> bool" where
  "tv_wf t \<longleftrightarrow> unat (tv_sec t) < 2 ^ 61 \<and> unat (tv_usec t) < 10 ^ 6"

definition tv_micros :: "timeval \<Rightarrow> nat" where
  "tv_micros t = unat (tv_sec t) * 10 ^ 6 + unat (tv_usec t)"

lemma sint_small:
  assumes "unat (x :: u64) < 2 ^ 63"
  shows "sint x = int (unat x)"
proof -
  have u: "uint x = int (unat x)" by (rule uint_nat)
  have "signed_take_bit 63 (uint x) = uint x"
  proof (rule signed_take_bit_int_eq_self)
    show "- (2 ^ 63) \<le> uint x" using uint_ge_0 [of x] by (rule order_trans [rotated]) simp
    have "int (unat x) < int (2 ^ 63)" using assms by (simp only: of_nat_less_iff)
    then show "uint x < 2 ^ 63" unfolding u by (simp only: of_nat_power of_nat_numeral)
  qed
  then show ?thesis unfolding sint_uint u by simp
qed

lemma i64_exact:
  fixes a b :: u64
  assumes "unat a < 2 ^ 63" "unat b < 2 ^ 63"
  shows "unat a + unat b < 2 ^ 63 \<Longrightarrow> add_i64 P a b = Inr (a + b) \<and> unat (a + b) = unat a + unat b"
    "unat a * unat b < 2 ^ 63 \<Longrightarrow> mul_i64 P a b = Inr (a * b) \<and> unat (a * b) = unat a * unat b"
proof -
  have e: "int (unat a) + int (unat b) = int (unat a + unat b)" "int (unat a) * int (unat b) = int (unat a * unat b)" by simp_all
  have i: "in_i64 (int k)" if "k < 2 ^ 63" for k using that unfolding in_i64_def by simp
  show "add_i64 P a b = Inr (a + b) \<and> unat (a + b) = unat a + unat b" if "unat a + unat b < 2 ^ 63"
    using i [OF that] that unfolding add_i64_def sint_small [OF assms(1)] sint_small [OF assms(2)] e by (simp add: unat_word_ariths)
  show "mul_i64 P a b = Inr (a * b) \<and> unat (a * b) = unat a * unat b" if "unat a * unat b < 2 ^ 63"
    using i [OF that] that unfolding mul_i64_def sint_small [OF assms(1)] sint_small [OF assms(2)] e by (simp add: unat_word_ariths)
qed

lemma du_new_total:
  assumes "unat secs < 2 ^ 63"
  shows "\<exists>d. du_new secs nanos = Inr d \<and> du_wf d \<and> du_total d = unat secs * 10 ^ 9 + unat nanos"
proof (cases "unat nanos < 10 ^ 9")
  case True
  then show ?thesis by (simp add: du_new_def du_wf_def du_total_def)
next
  case False
  let ?q = "unat nanos div 10 ^ 9" and ?r = "unat nanos mod 10 ^ 9"
  have n: "unat nanos < 2 ^ 32" using unsigned_less [of nanos, where 'a = nat] by simp
  have q: "?q < 5" "unat secs + ?q < 2 ^ 64" using n assms by simp_all
  have u: "unat (secs + of_nat ?q) = unat secs + ?q" "unat (of_nat ?r :: u32) = ?r"
    using q n by (simp_all add: unat_word_ariths unat_of_nat)
  have "?q * 10 ^ 9 + ?r = unat nanos" by simp
  then show ?thesis using False q(2) u unfolding du_new_def du_wf_def du_total_def by (simp add: add_mult_distrib)
qed

lemma cpu_time_exact:
  assumes "tv_wf user" "tv_wf system"
  shows "\<exists>d. get_cpu_time P (Some (user, system)) = Inr d \<and> du_wf d \<and> du_total d = 1000 * (tv_micros user + tv_micros system)"
proof -
  have w: "unat (tv_sec user) < 2 ^ 61" "unat (tv_sec system) < 2 ^ 61" "unat (tv_usec user) < 10 ^ 6" "unat (tv_usec system) < 10 ^ 6"
    using assms by (simp_all only: tv_wf_def)
  define sc m where "sc = tv_sec user + tv_sec system" and "m = tv_usec user + tv_usec system"
  have s: "add_i64 P (tv_sec user) (tv_sec system) = Inr sc \<and> unat sc = unat (tv_sec user) + unat (tv_sec system)"
    unfolding sc_def by (rule i64_exact(1)) (use w in simp_all)
  have mi: "add_i64 P (tv_usec user) (tv_usec system) = Inr m \<and> unat m = unat (tv_usec user) + unat (tv_usec system)"
    unfolding m_def by (rule i64_exact(1)) (use w in simp_all)
  have b: "unat sc < 2 ^ 63" "unat m < 2 * 10 ^ 6" using s mi w by simp_all
  have "mul_i64 P m 1000 = Inr (m * 1000) \<and> unat (m * 1000) = unat m * unat (1000 :: u64)"
    by (rule i64_exact(2)) (use b(2) in simp_all)
  then have n: "mul_i64 P m 1000 = Inr (m * 1000)" "unat (m * 1000) = unat m * 1000" by simp_all
  have "unat m * 1000 < 2 ^ LENGTH(32)" using b(2) by simp
  then have c: "unat (ucast (m * 1000) :: u32) = unat m * 1000" unfolding unsigned_ucast_eq n(2) by (rule take_bit_nat_eq_self)
  have "unat sc * 10 ^ 9 + unat m * 1000 = 1000 * (tv_micros user + tv_micros system)"
    using s mi by (simp add: tv_micros_def)
  then obtain d where "du_new sc (ucast (m * 1000)) = Inr d" "du_wf d" "du_total d = 1000 * (tv_micros user + tv_micros system)"
    using du_new_total [OF b(1), of "ucast (m * 1000)"] unfolding c by auto
  then show ?thesis using s mi n(1) by (auto simp: get_cpu_time_def)
qed

lemma du_sub_total:
  assumes "du_wf a" "du_wf b"
  shows "if du_total b \<le> du_total a then \<exists>d. du_sub a b = Inr d \<and> du_wf d \<and> du_total d = du_total a - du_total b
    else du_sub a b = Inl ArithOverflow"
proof -
  define s t m n where d: "s = unat (du_secs a)" "t = unat (du_secs b)" "m = unat (du_nanos a)" "n = unat (du_nanos b)"
  have w: "m < 10 ^ 9" "n < 10 ^ 9" using assms by (simp_all add: du_wf_def d)
  have le: "du_nanos b \<le> du_nanos a \<longleftrightarrow> n \<le> m" by (simp add: d word_le_nat_alt)
  have sub: "unat (du_secs a - du_secs b) = s - t" if "t \<le> s" using that by (simp add: d unat_sub word_le_nat_alt)
  have nsub: "unat (du_nanos a - du_nanos b) = m - n" if "n \<le> m" using that by (simp add: d unat_sub word_le_nat_alt)
  have z: "du_secs a - du_secs b = 0 \<longleftrightarrow> s = t" unfolding d by (metis right_minus_eq word_unat_eq_iff)
  have sub1: "unat (du_secs a - du_secs b - 1) = s - t - 1" if "t < s"
    using sub that z by (subst unat_sub) (simp_all add: word_le_nat_alt)
  have bor: "unat (du_nanos a + 10 ^ 9 - du_nanos b) = m + 10 ^ 9 - n" if "m < n"
  proof -
    have "unat (du_nanos a + 10 ^ 9) = m + 10 ^ 9" using w by (simp add: d unat_word_ariths)
    then show ?thesis using that w by (subst unat_sub) (simp_all add: word_le_nat_alt d)
  qed
  have tot: "du_total a = s * 10 ^ 9 + m" "du_total b = t * 10 ^ 9 + n" by (simp_all add: du_total_def d)
  consider "t \<le> s" "n \<le> m" | "t < s" "m < n" | "t = s" "m < n" | "s < t" by linarith
  then show ?thesis
  proof cases
    case 1
    then have "t * 10 ^ 9 + n \<le> s * 10 ^ 9 + m" by simp
    moreover have "(s - t) * 10 ^ 9 + (m - n) = s * 10 ^ 9 + m - (t * 10 ^ 9 + n)" using 1 by (simp add: diff_mult_distrib)
    ultimately show ?thesis using 1 w sub nsub by (simp add: du_sub_def tot le d(1,2)[symmetric]) (simp add: du_wf_def du_total_def)
  next
    case 2
    then have "Suc t * 10 ^ 9 \<le> s * 10 ^ 9" by (intro mult_le_mono1) simp
    then have "t * 10 ^ 9 + 10 ^ 9 \<le> s * 10 ^ 9" by simp
    moreover have "(s - t - 1) * 10 ^ 9 = s * 10 ^ 9 - t * 10 ^ 9 - 10 ^ 9" using 2 by (simp add: diff_mult_distrib)
    ultimately have "t * 10 ^ 9 + n \<le> s * 10 ^ 9 + m" "(s - t - 1) * 10 ^ 9 + (m + 10 ^ 9 - n) = s * 10 ^ 9 + m - (t * 10 ^ 9 + n)"
      using w 2 by linarith+
    moreover have "du_secs a \<noteq> du_secs b" using 2(1) by (auto simp: d)
    ultimately show ?thesis using 2 w sub1 bor by (simp add: du_sub_def tot le d(1,2)[symmetric]) (simp add: du_wf_def du_total_def)
  next
    case 3
    then have "du_secs a = du_secs b" by (simp add: d word_unat_eq_iff)
    then show ?thesis using 3 by (simp add: du_sub_def tot le d(1,2)[symmetric])
  next
    case 4
    then have "Suc s * 10 ^ 9 \<le> t * 10 ^ 9" by (intro mult_le_mono1) simp
    then have "\<not> t * 10 ^ 9 + n \<le> s * 10 ^ 9 + m" using w by simp
    then show ?thesis using 4 by (simp add: du_sub_def tot d(1,2)[symmetric])
  qed
qed

section \<open>The measurement file\<close>

text \<open>Two \<open>NetStat\<close> accessors, its \<open>Display\<close>, and that of a Boolean value.\<close>

definition ns_get_sent :: "net_stat \<Rightarrow> u32" where
  "ns_get_sent stat = ns_sent stat"

definition ns_get_received :: "net_stat \<Rightarrow> u32" where
  "ns_get_received stat = ns_received stat"

definition ns_display :: "net_stat \<Rightarrow> string" where
  "ns_display stat = ''NetStat { sent: '' @ show_nat (unat (ns_sent stat)) @ '', received: '' @ show_nat (unat (ns_received stat)) @ '' }''"

definition bv_display :: "boolean_value \<Rightarrow> string" where
  "bv_display v = show_nat (unat (bv_value v))"

text \<open>The line a repetition adds to the file.\<close>

definition log_line :: "nat \<Rightarrow> nat \<Rightarrow> nat \<times> nat \<Rightarrow> duration \<Rightarrow> duration \<Rightarrow> net_stat \<Rightarrow> string" where
  "log_line ident party_num dims end_wall_duration end_cpu_duration stat =
     show_nat ident @ '', '' @ show_nat party_num @ '', '' @ show_nat (fst dims) @ '', '' @ show_nat (snd dims) @ '', '' @
     du_debug end_wall_duration @ '', '' @ du_debug end_cpu_duration @ '', '' @
     show_nat (unat (ns_get_sent stat)) @ '', '' @ show_nat (unat (ns_get_received stat)) @ [CHR 0x0A]"

text \<open>What a line says: the party, the number of parties, the two dimensions, the two times in nanoseconds, the bytes sent and
  received.\<close>

record measurement =
  ms_id :: nat
  ms_party_num :: nat
  ms_db_l1 :: nat
  ms_db_l2 :: nat
  ms_wall :: nat
  ms_cpu :: nat
  ms_sent :: nat
  ms_received :: nat

fun split_on :: "char \<Rightarrow> string \<Rightarrow> string list" where
  "split_on c [] = [[]]"
| "split_on c (x # xs) = (if x = c then [] # split_on c xs else (x # hd (split_on c xs)) # tl (split_on c xs))"

definition read_measurement :: "string \<Rightarrow> measurement option" where
  "read_measurement line =
     (case split_on (CHR '','') line of
        [a, b, c, d, w, t, s, r] \<Rightarrow>
          Option.bind (read_nat a) (\<lambda>a. Option.bind (read_nat (tl b)) (\<lambda>b. Option.bind (read_nat (tl c)) (\<lambda>c.
          Option.bind (read_nat (tl d)) (\<lambda>d. Option.bind (read_duration (tl w)) (\<lambda>w. Option.bind (read_duration (tl t)) (\<lambda>t.
          Option.bind (read_nat (tl s)) (\<lambda>s. Option.bind (read_nat (tl r)) (\<lambda>r.
          Some \<lparr>ms_id = a, ms_party_num = b, ms_db_l1 = c, ms_db_l2 = d, ms_wall = w, ms_cpu = t, ms_sent = s, ms_received = r\<rparr>))))))))
      | _ \<Rightarrow> None)"

definition read_file :: "string \<Rightarrow> measurement option list" where
  "read_file contents = map read_measurement (butlast (split_on (CHR 0x0A) contents))"

lemma split_on_neq [simp]: "split_on c s \<noteq> []"
  by (cases s) auto

lemma split_on_append: "c \<notin> set f \<Longrightarrow> split_on c (f @ c # s) = f # split_on c s"
  by (induction f) auto

lemma split_on_single: "c \<notin> set f \<Longrightarrow> split_on c f = [f]"
  by (induction f) auto

lemma show_nat_plain: "CHR '','' \<notin> set (show_nat n)" "CHR 0x0A \<notin> set (show_nat n)"
  using show_nat_chars [of "CHR '',''" n] show_nat_chars [of "CHR 0x0A" n] by (auto simp: is_digit_def)

text \<open>A line without its end.\<close>

definition log_fields :: "nat \<Rightarrow> nat \<Rightarrow> nat \<times> nat \<Rightarrow> duration \<Rightarrow> duration \<Rightarrow> net_stat \<Rightarrow> string" where
  "log_fields ident party_num dims wall cpu stat = butlast (log_line ident party_num dims wall cpu stat)"

lemma log_line_fields: "log_line ident n dims wall cpu stat = log_fields ident n dims wall cpu stat @ [CHR 0x0A]"
  by (simp add: log_fields_def log_line_def butlast_append)

lemma log_fields_plain: "du_wf wall \<Longrightarrow> du_wf cpu \<Longrightarrow> CHR 0x0A \<notin> set (log_fields ident n dims wall cpu stat)"
  using show_nat_plain(2) du_debug_chars by (auto simp: log_fields_def log_line_def butlast_append)

lemma read_log_fields:
  assumes "du_wf wall" "du_wf cpu"
  shows "read_measurement (log_fields ident n dims wall cpu stat) = Some \<lparr>ms_id = ident, ms_party_num = n, ms_db_l1 = fst dims, ms_db_l2 = snd dims,
    ms_wall = du_total wall, ms_cpu = du_total cpu, ms_sent = unat (ns_sent stat), ms_received = unat (ns_received stat)\<rparr>"
proof -
  let ?c = "CHR '',''"
  have p: "?c \<notin> set (show_nat k)" "?c \<notin> set (CHR '' '' # show_nat k)" for k using show_nat_plain(1) by simp_all
  have d: "?c \<notin> set (CHR '' '' # du_debug wall)" "?c \<notin> set (CHR '' '' # du_debug cpu)"
    using du_debug_chars [OF assms(1)] du_debug_chars [OF assms(2)] by auto
  have "log_fields ident n dims wall cpu stat = show_nat ident @ ?c # (CHR '' '' # show_nat n) @ ?c # (CHR '' '' # show_nat (fst dims)) @
      ?c # (CHR '' '' # show_nat (snd dims)) @ ?c # (CHR '' '' # du_debug wall) @ ?c # (CHR '' '' # du_debug cpu) @
      ?c # (CHR '' '' # show_nat (unat (ns_sent stat))) @ ?c # (CHR '' '' # show_nat (unat (ns_received stat)))"
    by (simp add: log_fields_def log_line_def butlast_append ns_get_sent_def ns_get_received_def)
  then have "split_on ?c (log_fields ident n dims wall cpu stat) = [show_nat ident, CHR '' '' # show_nat n, CHR '' '' # show_nat (fst dims),
      CHR '' '' # show_nat (snd dims), CHR '' '' # du_debug wall, CHR '' '' # du_debug cpu, CHR '' '' # show_nat (unat (ns_sent stat)),
      CHR '' '' # show_nat (unat (ns_received stat))]"
    by (simp only: split_on_append [OF p(1)] split_on_append [OF p(2)] split_on_append [OF d(1)] split_on_append [OF d(2)] split_on_single [OF p(2)])
  then show ?thesis using read_du_debug [OF assms(1)] read_du_debug [OF assms(2)] by (simp add: read_measurement_def)
qed

lemma read_file_append:
  assumes "CHR 0x0A \<notin> set f"
  shows "read_file (f @ CHR 0x0A # s) = read_measurement f # read_file s"
  by (simp add: read_file_def split_on_append [OF assms])

section \<open>Bit arrays\<close>

text \<open>\<open>{:<4}\<close> fills up with blanks; \<open>{:08b}\<close> prints eight binary digits, the highest first.\<close>

definition pad4 :: "string \<Rightarrow> string" where
  "pad4 s = s @ replicate (4 - length s) (CHR '' '')"

definition show_bin8 :: "u8 \<Rightarrow> string" where
  "show_bin8 w = map (\<lambda>j. if bit w (7 - j) then CHR ''1'' else CHR ''0'') [0..<8]"

definition ba_debug :: "bitarray \<Rightarrow> string res" where
  "ba_debug ba =
     rbind (rmap (\<lambda>i. rbind (au_index (ba_data ba) i) (\<lambda>w. Ok (rev (show_bin8 w) @ '' ''))) [0..<min 4 (ba_byte_size ba)]) (\<lambda>bits.
     rbind (rmap (\<lambda>i. rbind (au_index (ba_data ba) i) (\<lambda>w. Ok (pad4 (show_nat (unat w)) @ '', ''))) [0..<min 16 (ba_byte_size ba)]) (\<lambda>nums.
     Ok (''BitArray(bit: '' @ pad4 (show_nat (ba_bit_size ba)) @ '', byte: '' @ pad4 (show_nat (ba_byte_size ba)) @ ''): ['' @
       '' ['' @ concat bits @ '']: {'' @ concat nums @ ''}'')))"

lemma rev_show_bin8: "rev (show_bin8 w) = map (\<lambda>j. if bit w j then CHR ''1'' else CHR ''0'') [0..<8]"
  by (rule nth_equalityI) (simp_all add: show_bin8_def rev_nth)

text \<open>Debug output never panics, and shows the first four bytes with the bits in the order of their indices.\<close>

lemma ba_debug_bits:
  assumes "ba_wf ba"
  shows "\<exists>nums. ba_debug ba = Inr (''BitArray(bit: '' @ pad4 (show_nat (ba_bit_size ba)) @ '', byte: '' @ pad4 (show_nat (ba_byte_size ba)) @ ''): [ ['' @
    concat (map (\<lambda>k. map (\<lambda>j. if mbit ba (8 * k + j) then CHR ''1'' else CHR ''0'') [0..<8] @ '' '') [0..<min 4 (ba_byte_size ba)]) @ '']: {'' @ nums @ ''}'')"
proof -
  have idx: "au_index (ba_data ba) i = Inr (au_mem (ba_data ba) ! i)" if "i < ba_byte_size ba" for i
    using assms that by (simp add: au_index_def ba_wf_def)
  have bit: "mbit ba (8 * i + j) = bit (au_mem (ba_data ba) ! i) j" if "i < ba_byte_size ba" "j < 8" for i j
  proof -
    have "ba_byte_size ba \<le> length (au_mem (ba_data ba))"
      using assms align_max_len_ge [of "au_len (ba_data ba)"] by (simp add: ba_wf_def au_wf_def)
    then show ?thesis using that by (simp add: mbit_def)
  qed
  have "rmap (\<lambda>i. rbind (au_index (ba_data ba) i) (\<lambda>w. Ok (rev (show_bin8 w) @ '' ''))) [0..<min 4 (ba_byte_size ba)]
      = Inr (map (\<lambda>k. map (\<lambda>j. if mbit ba (8 * k + j) then CHR ''1'' else CHR ''0'') [0..<8] @ '' '') [0..<min 4 (ba_byte_size ba)])"
    by (rule rmap_Ok) (simp add: idx bit rev_show_bin8)
  moreover have "rmap (\<lambda>i. rbind (au_index (ba_data ba) i) (\<lambda>w. Ok (pad4 (show_nat (unat w)) @ '', ''))) [0..<min 16 (ba_byte_size ba)]
      = Inr (map (\<lambda>i. pad4 (show_nat (unat (au_mem (ba_data ba) ! i))) @ '', '') [0..<min 16 (ba_byte_size ba)])"
    by (rule rmap_Ok) (simp add: idx)
  ultimately show ?thesis by (auto simp: ba_debug_def)
qed

section \<open>Properties\<close>

text \<open>CPU time is measured exactly: for the times that \<open>getrusage\<close> can give, \<open>get_cpu_time\<close> neither overflows nor loses anything,
  although the microseconds of user and system time together may exceed a second, and the difference of two readings is the
  time between them; it panics if the second reading is earlier.\<close>

lemma cpu_time_measured:
  assumes "tv_wf user" and "tv_wf system" and "tv_wf user'" and "tv_wf system'"
    and "start = tv_micros user + tv_micros system" and "stop = tv_micros user' + tv_micros system'"
  shows "case rbind (get_cpu_time P (Some (user, system))) (\<lambda>cpu_timer.
      rbind (get_cpu_time P (Some (user', system'))) (\<lambda>cpu_end. du_sub cpu_end cpu_timer)) of
      Inr d \<Rightarrow> start \<le> stop \<and> du_wf d \<and> du_total d = 1000 * (stop - start)
    | Inl e \<Rightarrow> stop < start \<and> e = ArithOverflow"
proof -
  obtain a b where "get_cpu_time P (Some (user, system)) = Inr a" "du_wf a" "du_total a = 1000 * start"
      "get_cpu_time P (Some (user', system')) = Inr b" "du_wf b" "du_total b = 1000 * stop"
    using cpu_time_exact [OF assms(1,2), of P] cpu_time_exact [OF assms(3,4), of P] assms(5,6) by blast
  then show ?thesis using du_sub_total [of b a] by (auto simp: diff_mult_distrib2 split: if_splits)
qed

text \<open>C36. The lines of the measurement file can be read back: the first line of a file that starts with \<open>log_line\<close> is split into exactly the fields
  that were printed, the numbers and the durations are read with their exact values, whatever unit \<open>Debug\<close> chose for them, and the
  rest of the file is read as if it stood alone.\<close>

theorem log_line_reads_back:
  assumes "du_wf wall" and "du_wf cpu"
  shows "read_file (log_line ident n dims wall cpu stat @ rest) =
    Some \<lparr>ms_id = ident, ms_party_num = n, ms_db_l1 = fst dims, ms_db_l2 = snd dims, ms_wall = du_total wall, ms_cpu = du_total cpu,
      ms_sent = unat (ns_sent stat), ms_received = unat (ns_received stat)\<rparr> # read_file rest"
  using read_file_append [OF log_fields_plain [OF assms]] read_log_fields [OF assms] by (simp add: log_line_fields)

theorem log_line_reads_back_witness:
  "read_file (log_line 1 2 (1024, 8) \<lparr>du_secs = 0, du_nanos = 20500\<rparr> \<lparr>du_secs = 2, du_nanos = 7\<rparr> \<lparr>ns_sent = 85, ns_received = 91\<rparr> @ []) =
    Some \<lparr>ms_id = 1, ms_party_num = 2, ms_db_l1 = 1024, ms_db_l2 = 8, ms_wall = 20500, ms_cpu = 2000000007, ms_sent = 85, ms_received = 91\<rparr> # read_file []"
  by (subst log_line_reads_back) (simp_all add: du_wf_def du_total_def)

end
