(* ===== verification/Run_Server.thy ===== *)
theory Run_Server
  imports Traffic Printing
begin

text \<open>
  The set-up of a server (\<open>PRCServer::new\<close>) and \<open>src/main.rs\<close>, the program of one party. Every party runs the client with the same random
  source, so that all of them agree on the queries, keeps its own share of each query, and runs the
  protocol on it. Party 0 gets a token for each query and checks it. The connections are in \<open>Peers\<close>, what they count
  in \<open>Traffic\<close>, and the printed lines in \<open>Printing\<close>.
\<close>

section \<open>Setting up a server\<close>

text \<open>
  \<open>PRCServer::new\<close>: the listener accepts the streams \<open>incoming\<close> while the factory connects to the peers of
  lower id; the server exists once the factory is ready. The operating system's part are arguments: connecting,
  the accepted streams, the order of the hash map, and the signing key. When the connections the listener leaves
  are not complete, the server waits for ever.
\<close>

definition sv_new ::
  "profile \<Rightarrow> 'r rng_ops \<Rightarrow> ('s::comm_ring_1, 'r) scalar_ops \<Rightarrow> ('s, 'g) group_ops \<Rightarrow> ('sk, 'vk, 'sg) sig_ops \<Rightarrow>
     (string \<Rightarrow> 16 word \<Rightarrow> (stream \<times> stream) option) \<Rightarrow> (stream \<times> stream) list \<Rightarrow>
     ((nat \<times> tcp_connection) list \<Rightarrow> (nat \<times> tcp_connection) list) \<Rightarrow> 'sk \<Rightarrow>
     nat \<Rightarrow> system_config \<Rightarrow> nat \<Rightarrow> ('s, 'g, 'sk, 'vk) prc_server poll res" where
  "sv_new P R S G V os_connect incoming hash_order sk ident config expected_query_num =
     (let tcp_factory = tf_new ident (get_party_num config) in
      rbind (expect (get_peer_info config ident)) (\<lambda>self_peer_config.
      rbind (tf_connect P G os_connect tcp_factory (sc_peers config)) (\<lambda>tcp_factory.
      let connections = tf_accept P G incoming (tf_connections tcp_factory) in
      rbind (tf_get_handler P (tcp_factory\<lparr>tf_connections := connections\<rparr>) (hash_order connections)) (\<lambda>x.
      case x of
        Pending \<Rightarrow> Ok Pending
      | Ready message_handler \<Rightarrow>
          rbind (sv_new_with_message_handler R S V sk ident config message_handler expected_query_num) (\<lambda>server.
          Ok (Ready server))))))"

text \<open>
  \<open>full_setup\<close> of \<open>src/prc/config.rs\<close>: all servers of a system on one machine, started together. The
  operating system's part of each server is an argument. Nothing is there before all servers are.
\<close>

fun join_polls :: "'a poll list \<Rightarrow> 'a list poll" where
  "join_polls [] = Ready []"
| "join_polls (Pending # xs) = Pending"
| "join_polls (Ready x # xs) = (case join_polls xs of Pending \<Rightarrow> Pending | Ready ys \<Rightarrow> Ready (x # ys))"

definition full_setup ::
  "profile \<Rightarrow> 'r rng_ops \<Rightarrow> ('s::comm_ring_1, 'r) scalar_ops \<Rightarrow> ('s, 'g) group_ops \<Rightarrow> ('sk, 'vk, 'sg) sig_ops \<Rightarrow>
     (nat \<Rightarrow> string \<Rightarrow> 16 word \<Rightarrow> (stream \<times> stream) option) \<Rightarrow> (nat \<Rightarrow> (stream \<times> stream) list) \<Rightarrow>
     (nat \<Rightarrow> (nat \<times> tcp_connection) list \<Rightarrow> (nat \<times> tcp_connection) list) \<Rightarrow> (nat \<Rightarrow> 'sk) \<Rightarrow>
     nat \<Rightarrow> 16 word \<Rightarrow> nat \<times> nat \<Rightarrow> nat \<Rightarrow> (prc_client \<times> ('s, 'g, 'sk, 'vk) prc_server list) poll res" where
  "full_setup P R S G V os_connect incoming hash_order sk party_num base_port dims max_req_num =
     rbind (basic_system_config P party_num base_port dims) (\<lambda>config.
     rbind (rmap (\<lambda>server_id. sv_new P R S G V (os_connect server_id) (incoming server_id) (hash_order server_id) (sk server_id)
         server_id config max_req_num) [0..<party_num]) (\<lambda>servers.
     Ok (case join_polls servers of
           Pending \<Rightarrow> Pending
         | Ready servers \<Rightarrow> Ready (pc_new party_num (sc_db_config config) config, servers))))"

lemma join_polls_Ready [simp]: "join_polls (map (\<lambda>x. Ready (f x)) xs) = Ready (map f xs)"
  by (induction xs) simp_all

text \<open>
  Set-up of all servers: each one is connected to the peers of lower id and accepts those of higher id.
\<close>

lemma servers_start:
  fixes G :: "('s::comm_ring_1, 'g) group_ops" and sk :: "nat \<Rightarrow> 'sk"
  assumes "rng_ok R" and "scalar_from_ok S" and "codec_ok G" and "config_ok c k1 k2" and "0 < Q" and "n = length (sc_peers c)"
    and "map pi_id (sc_peers c) = [0..<n]" and "\<forall>p<n. \<forall>i\<in>set (sc_peers c). pi_id i < p \<longrightarrow> os_connect p (pi_ip_addr i) (pi_port i) \<noteq> None"
    and "\<forall>p<n. mset (map fst (inc p)) = mset [Suc p..<n]"
    and "\<forall>p<n. \<forall>(pid, inp, out)\<in>set (inc p). \<exists>rest. ts_bytes inp = frame G (Handshake (of_nat pid)) @ rest"
    and "\<forall>p conns. mset (hash_order p conns) = mset conns"
  shows "\<exists>db sv. db_from_config R (sc_db_config c) = Inr db \<and> db_dims db k1 k2 \<and>
    (\<forall>p<n. sv_new P R S G V (os_connect p) (map snd (inc p)) (hash_order p) (sk p) p c Q = Inr (Ready (sv p)) \<and>
       sv_pk (sv p) = sg_verifying_key V (sk p)) \<and>
    servers_ready n (Q * beaver_per_q (sc_db_config c)) 0 (Q * 36) 0 db sv"
proof -
  have n: "n \<le> 256" using assms(4,6) by (simp add: config_ok_def)
  have "\<forall>p\<in>{..<n}. \<exists>h :: 'g message_handler. mh_ready n p h \<and> (\<exists>fac conns. tf_connect P G (os_connect p) (tf_new p n) (sc_peers c) = Inr fac \<and>
      tf_accept P G (map snd (inc p)) (tf_connections fac) = conns \<and>
      tf_get_handler P (fac\<lparr>tf_connections := conns\<rparr>) (hash_order p conns) = Inr (Ready h))"
  proof
    fix p assume "p \<in> {..<n}"
    then have p: "p < n" by simp
    show "\<exists>h :: 'g message_handler. mh_ready n p h \<and> (\<exists>fac conns. tf_connect P G (os_connect p) (tf_new p n) (sc_peers c) = Inr fac \<and>
      tf_accept P G (map snd (inc p)) (tf_connections fac) = conns \<and>
      tf_get_handler P (fac\<lparr>tf_connections := conns\<rparr>) (hash_order p conns) = Inr (Ready h))"
      using tcp_setup_ready [OF assms(3) n p assms(7) mp [OF spec [OF assms(8)] p] assms(9) [rule_format, OF p] mp [OF spec [OF assms(10)] p], of P] assms(11) by blast
  qed
  then obtain mh :: "nat \<Rightarrow> 'g message_handler" where "\<forall>p\<in>{..<n}. mh_ready n p (mh p) \<and> (\<exists>fac conns. tf_connect P G (os_connect p) (tf_new p n) (sc_peers c) = Inr fac \<and>
      tf_accept P G (map snd (inc p)) (tf_connections fac) = conns \<and>
      tf_get_handler P (fac\<lparr>tf_connections := conns\<rparr>) (hash_order p conns) = Inr (Ready (mh p)))"
    by (rule bchoice [THEN exE]) blast
  then have mh: "mh_ready n p (mh p)" and con: "\<exists>fac conns. tf_connect P G (os_connect p) (tf_new p n) (sc_peers c) = Inr fac \<and>
      tf_accept P G (map snd (inc p)) (tf_connections fac) = conns \<and>
      tf_get_handler P (fac\<lparr>tf_connections := conns\<rparr>) (hash_order p conns) = Inr (Ready (mh p))" if "p < n" for p
    using that by simp_all
  obtain db sv where s: "db_from_config R (sc_db_config c) = Inr db" "db_dims db k1 k2"
      "servers_ready n (Q * beaver_per_q (sc_db_config c)) 0 (Q * 36) 0 db sv"
      "\<forall>p<n. sv_new_with_message_handler R S V (sk p) p c (mh p) Q = Inr (sv p) \<and> sv_sk (sv p) = sk p \<and> sv_pk (sv p) = sg_verifying_key V (sk p)"
    using servers_of_config [OF assms(1,2,4,5,6) mh, of V sk] by blast
  have "sv_new P R S G V (os_connect p) (map snd (inc p)) (hash_order p) (sk p) p c Q = Inr (Ready (sv p))" if p: "p < n" for p
  proof -
    have "p \<in> pi_id ` set (sc_peers c)" using p assms(7) by (metis atLeastLessThan_upt list.set_map atLeastLessThan_iff zero_le)
    then have "get_peer_info c p \<noteq> None" by (auto simp: get_peer_info_def find_None_iff)
    then show ?thesis using con [OF p] s(4) p assms(6) by (auto simp: sv_new_def get_party_num_def Let_def)
  qed
  with s show ?thesis by blast
qed

section \<open>The program\<close>

record cli =
  cli_id :: nat
  cli_party_num :: nat
  cli_db_l1 :: nat
  cli_db_l2 :: nat
  cli_rep_num :: nat
  cli_base_port :: nat
  cli_out_fs :: string

text \<open>What one repetition reports: the index, the token after the checks, their results, the bytes sent and received,
  the preprocessing used, the message it logs and the line it adds to the measurement file.\<close>

record ('s, 'g, 'sg) report =
  rp_idx :: nat
  rp_state :: "'s prc_client_st"
  rp_token :: "('g, 'sg) prc_token option"
  rp_checks :: "(bool \<times> bool) option"
  rp_stat :: net_stat
  rp_preproc :: "nat \<times> nat"
  rp_info :: string
  rp_log :: string

text \<open>
  The operating system's part: whether a file can be opened for appending, whether the \<open>i\<close>-th write to it succeeds,
  the time the \<open>i\<close>-th repetition took, and the answer to the \<open>k\<close>-th call of \<open>getrusage\<close>.
\<close>

record os_env =
  os_open :: "string \<Rightarrow> bool"
  os_write :: "nat \<Rightarrow> bool"
  os_elapsed :: "nat \<Rightarrow> duration"
  os_usage :: "nat \<Rightarrow> (timeval \<times> timeval) option"

text \<open>The measurement file, when there is one, is the text this party has added to it.\<close>

definition get_measurement_file :: "os_env \<Rightarrow> cli \<Rightarrow> string option res" where
  "get_measurement_file env args =
     (if cli_out_fs args \<noteq> [] then rbind (rassert (os_open env (cli_out_fs args)) NoneUnwrapped) (\<lambda>_. Ok (Some []))
      else Ok None)"

definition write_measurement :: "os_env \<Rightarrow> nat \<Rightarrow> string \<Rightarrow> string option \<Rightarrow> string option res" where
  "write_measurement env i line fs =
     (case fs of
        Some text \<Rightarrow> rbind (rassert (os_write env i) NoneUnwrapped) (\<lambda>_. Ok (Some (text @ line)))
      | None \<Rightarrow> Ok None)"

definition info_line :: "nat \<Rightarrow> nat \<Rightarrow> nat \<Rightarrow> duration \<Rightarrow> duration \<Rightarrow> net_stat \<Rightarrow> nat \<times> nat \<Rightarrow> string" where
  "info_line party_num server_id db_size end_wall_duration end_cpu_duration stat usage =
     ''# PIR query with '' @ show_nat party_num @ '' party on server '' @ show_nat server_id @ '' and db size '' @ show_nat db_size @
     '' => latency: '' @ du_debug end_wall_duration @ ''. CPU Time: '' @ du_debug end_cpu_duration @ '', Bandwidth: '' @ ns_display stat @
     '', preproc used: (bt: '' @ show_nat (fst usage) @ '', dabit: '' @ show_nat (snd usage) @ '')''"

definition choose_idx :: "'r rng_ops \<Rightarrow> prc_client \<Rightarrow> 'r \<Rightarrow> (nat \<times> 'r) res" where
  "choose_idx R client rng =
     (let (v, rng) = rng_next_u32 R rng in
      rbind (rassert (pc_total_db_size client \<noteq> 0) DivisionByZero) (\<lambda>_.
      Ok (unat v mod pc_total_db_size client, rng)))"

definition check_token ::
  "('s::comm_ring_1, 'r) scalar_ops \<Rightarrow> ('s, 'g::ab_group_add) group_ops \<Rightarrow> ('sk, 'vk, 'sg) sig_ops \<Rightarrow>
     's prc_client_st \<Rightarrow> 'vk \<Rightarrow> ('g, 'sg) prc_token option \<Rightarrow>
     (('g, 'sg) prc_token option \<times> (bool \<times> bool) option) res" where
  "check_token S G V st pk resp =
     (case resp of
        None \<Rightarrow> Ok (None, None)
      | Some token \<Rightarrow>
          let (check_rec_0, token) = check_for_rec_val S G V token st 0 pk;
              (check_rec_1, token) = check_for_rec_val S G V token st 1 pk in
          rbind (rassert (isl (token_verify G V token pk) = False) AssertionFailed) (\<lambda>_.
          Ok (Some token, Some (check_rec_0, check_rec_1))))"

definition run_repetition ::
  "profile \<Rightarrow> 'r rng_ops \<Rightarrow> ('s::comm_ring_1, 'r) scalar_ops \<Rightarrow> ('s, 'g::ab_group_add) group_ops \<Rightarrow> ('sk, 'vk, 'sg) sig_ops \<Rightarrow>
     os_env \<Rightarrow> cli \<Rightarrow> prc_client \<Rightarrow> nat \<Rightarrow> ('s, 'g, 'sk, 'vk) prc_server \<Rightarrow> counters \<Rightarrow> string option \<Rightarrow> 'r \<Rightarrow>
     (u8 list, ('s, 'g, 'sg) report \<times> ('s, 'g, 'sk, 'vk) prc_server \<times> counters \<times> string option \<times> 'r) prog" where
  "run_repetition P R S G V env args client i server cs measure_fs rng =
     pbind (lift_res (get_cpu_time P (os_usage env (2 * i)))) (\<lambda>cpu_timer.
     pbind (lift_res (choose_idx R client rng)) (\<lambda>(idx, rng).
     pbind (lift_res (query_single_server P R S client idx (cli_id args) rng)) (\<lambda>((st, query), rng).
     pbind (metered (prc_protocol P S G V server query) P cs) (\<lambda>((resp, server), cs).
     let end_wall_duration = os_elapsed env i in
     pbind (lift_res (get_cpu_time P (os_usage env (2 * i + 1)))) (\<lambda>cpu_end.
     pbind (lift_res (du_sub cpu_end cpu_timer)) (\<lambda>end_cpu_duration.
     pbind (lift_res (sv_get_then_reset_netstat P cs)) (\<lambda>(stat, cs).
     pbind (lift_res (sv_get_preproc_stat P server)) (\<lambda>(usage, server).
     let info = info_line (cli_party_num args) (cli_id args) (pc_total_db_size client) end_wall_duration end_cpu_duration stat usage;
         log = log_line (cli_id args) (cli_party_num args) (db_get_dims (sv_db server)) end_wall_duration end_cpu_duration stat in
     pbind (lift_res (check_token S G V st (sv_pk server) resp)) (\<lambda>(token, checks).
     pbind (lift_res (write_measurement env i log measure_fs)) (\<lambda>measure_fs.
     Done (\<lparr>rp_idx = idx, rp_state = st, rp_token = token, rp_checks = checks, rp_stat = stat, rp_preproc = usage, rp_info = info, rp_log = log\<rparr>,
       server, cs, measure_fs, rng)))))))))))"

primrec run_repetitions ::
  "profile \<Rightarrow> 'r rng_ops \<Rightarrow> ('s::comm_ring_1, 'r) scalar_ops \<Rightarrow> ('s, 'g::ab_group_add) group_ops \<Rightarrow> ('sk, 'vk, 'sg) sig_ops \<Rightarrow>
     os_env \<Rightarrow> cli \<Rightarrow> prc_client \<Rightarrow> nat \<Rightarrow> nat \<Rightarrow> ('s, 'g, 'sk, 'vk) prc_server \<Rightarrow> counters \<Rightarrow> string option \<Rightarrow> 'r \<Rightarrow>
     (u8 list, ('s, 'g, 'sg) report list \<times> string option) prog" where
  "run_repetitions P R S G V env args client 0 i server cs measure_fs rng = Done ([], measure_fs)"
| "run_repetitions P R S G V env args client (Suc k) i server cs measure_fs rng =
     pbind (run_repetition P R S G V env args client i server cs measure_fs rng) (\<lambda>(rp, server, cs, measure_fs, rng).
     pbind (run_repetitions P R S G V env args client k (Suc i) server cs measure_fs rng) (\<lambda>(rps, measure_fs).
     Done (rp # rps, measure_fs)))"

text \<open>
  The signing key and the message handler, which \<open>PRCServer::new\<close> gets from the operating system and
  from its connections, and what the connections have counted so far are arguments. \<open>cli_args.base_port as u16\<close> truncates.
\<close>

definition run_server ::
  "profile \<Rightarrow> 'r rng_ops \<Rightarrow> ('s::comm_ring_1, 'r) scalar_ops \<Rightarrow> ('s, 'g::ab_group_add) group_ops \<Rightarrow> ('sk, 'vk, 'sg) sig_ops \<Rightarrow>
     'sk \<Rightarrow> 'g message_handler \<Rightarrow> counters \<Rightarrow> os_env \<Rightarrow> cli \<Rightarrow> (u8 list, ('s, 'g, 'sg) report list \<times> string option) prog" where
  "run_server P R S G V sk mh cs env args =
     pbind (lift_res (localhost_peer_config P (cli_party_num args) (of_nat (cli_base_port args)))) (\<lambda>peer_info.
     let server_db_config = dbc_new 1 (cli_db_l1 args) (cli_db_l2 args) (Some (replicate 32 42));
         client_db_config = dbc_new 1 (cli_db_l1 args) (cli_db_l2 args) None;
         config = \<lparr>sc_peers = peer_info, sc_db_config = server_db_config\<rparr>;
         client = pc_new (cli_party_num args) client_db_config config in
     pbind (lift_res (sv_new_with_message_handler R S V sk (cli_id args) config mh (cli_rep_num args))) (\<lambda>server.
     pbind (lift_res (get_measurement_file env args)) (\<lambda>measure_fs.
     let rng = rng_from_seed R (replicate 32 13) in
     run_repetitions P R S G V env args client (cli_rep_num args) 0 server cs measure_fs rng)))"

text \<open>\<open>main\<close>: whether the processor has AVX2, and the arguments that clap parses, are given.\<close>

definition prc_main ::
  "bool \<Rightarrow> profile \<Rightarrow> 'r rng_ops \<Rightarrow> ('s::comm_ring_1, 'r) scalar_ops \<Rightarrow> ('s, 'g::ab_group_add) group_ops \<Rightarrow> ('sk, 'vk, 'sg) sig_ops \<Rightarrow>
     'sk \<Rightarrow> 'g message_handler \<Rightarrow> counters \<Rightarrow> os_env \<Rightarrow> cli \<Rightarrow> (u8 list, ('s, 'g, 'sg) report list \<times> string option) prog" where
  "prc_main avx2 P R S G V sk mh cs env cli_args =
     (if \<not> avx2 then Fail ExplicitPanic else run_server P R S G V sk mh cs env cli_args)"

section \<open>A repetition\<close>

text \<open>Between two repetitions: everything the servers have used is reported.\<close>

definition reported :: "nat \<Rightarrow> nat \<Rightarrow> nat \<Rightarrow> (nat \<Rightarrow> ('s::comm_ring_1, 'g, 'sk, 'vk) prc_server) \<Rightarrow> bool" where
  "reported n u d sv \<longleftrightarrow> (\<forall>p<n. bp_last_report (mp_beaver_provider (sv_mpc_provider (sv p))) = u \<and>
     da_last_report (mp_dabit_provider (sv_mpc_provider (sv p))) = d)"

text \<open>
  What the operating system does for the program: the file can be opened and written, times are well-formed, and CPU time does not
  run backwards.
\<close>

definition cpu_micros :: "os_env \<Rightarrow> nat \<Rightarrow> nat" where
  "cpu_micros env k = (case os_usage env k of Some (user, system) \<Rightarrow> tv_micros user + tv_micros system | None \<Rightarrow> 0)"

definition os_ok :: "os_env \<Rightarrow> cli \<Rightarrow> bool" where
  "os_ok env args \<longleftrightarrow> (cli_out_fs args \<noteq> [] \<longrightarrow> os_open env (cli_out_fs args)) \<and> (\<forall>i. os_write env i \<and> du_wf (os_elapsed env i)) \<and>
     (\<forall>k. (\<exists>user system. os_usage env k = Some (user, system) \<and> tv_wf user \<and> tv_wf system) \<and> cpu_micros env k \<le> cpu_micros env (Suc k))"

text \<open>The measurement of repetition \<open>i\<close>, and the line that has it.\<close>

definition measured :: "os_env \<Rightarrow> nat \<Rightarrow> nat \<Rightarrow> nat \<Rightarrow> nat \<Rightarrow> nat \<Rightarrow> net_stat \<Rightarrow> measurement" where
  "measured env n k1 k2 p i stat = \<lparr>ms_id = p, ms_party_num = n, ms_db_l1 = 2 ^ k1, ms_db_l2 = 2 ^ k2, ms_wall = du_total (os_elapsed env i),
     ms_cpu = 1000 * (cpu_micros env (2 * i + 1) - cpu_micros env (2 * i)), ms_sent = unat (ns_sent stat), ms_received = unat (ns_received stat)\<rparr>"

definition log_ok :: "os_env \<Rightarrow> nat \<Rightarrow> nat \<Rightarrow> nat \<Rightarrow> nat \<Rightarrow> nat \<Rightarrow> ('s, 'g, 'sg) report \<Rightarrow> bool" where
  "log_ok env n k1 k2 p i rp \<longleftrightarrow> (\<exists>f. rp_log rp = f @ [CHR 0x0A] \<and> CHR 0x0A \<notin> set f \<and>
     read_measurement f = Some (measured env n k1 k2 p i (rp_stat rp)))"

definition cpu_at :: "profile \<Rightarrow> os_env \<Rightarrow> nat \<Rightarrow> duration" where
  "cpu_at P env k = projr (get_cpu_time P (os_usage env k))"

definition cpu_spent :: "profile \<Rightarrow> os_env \<Rightarrow> nat \<Rightarrow> duration" where
  "cpu_spent P env i = projr (du_sub (cpu_at P env (2 * i + 1)) (cpu_at P env (2 * i)))"

lemma cpu_at: "os_ok env args \<Longrightarrow> get_cpu_time P (os_usage env k) = Inr (cpu_at P env k) \<and> du_wf (cpu_at P env k) \<and>
    du_total (cpu_at P env k) = 1000 * cpu_micros env k"
proof -
  assume "os_ok env args"
  then obtain user system where u: "os_usage env k = Some (user, system)" "tv_wf user" "tv_wf system" unfolding os_ok_def by blast
  then show ?thesis using cpu_time_exact [OF u(2,3), of P] by (auto simp: cpu_at_def cpu_micros_def)
qed

lemma cpu_spent:
  assumes "os_ok env args"
  shows "du_sub (cpu_at P env (2 * i + 1)) (cpu_at P env (2 * i)) = Inr (cpu_spent P env i) \<and> du_wf (cpu_spent P env i) \<and>
    du_total (cpu_spent P env i) = 1000 * (cpu_micros env (2 * i + 1) - cpu_micros env (2 * i))"
proof -
  have "cpu_micros env (2 * i) \<le> cpu_micros env (2 * i + 1)" using assms by (simp add: os_ok_def)
  then show ?thesis
    using cpu_at [OF assms, of P "2 * i"] cpu_at [OF assms, of P "2 * i + 1"] du_sub_total [of "cpu_at P env (2 * i + 1)" "cpu_at P env (2 * i)"]
    by (auto simp: cpu_spent_def)
qed

lemma log_line_ok:
  assumes "os_ok env args" "rp_log rp = log_line p n (2 ^ k1, 2 ^ k2) (os_elapsed env i) (cpu_spent P env i) (rp_stat rp)"
  shows "log_ok env n k1 k2 p i rp"
proof -
  have wf: "du_wf (os_elapsed env i)" "du_wf (cpu_spent P env i)" using assms(1) cpu_spent [OF assms(1)] by (simp_all add: os_ok_def)
  show ?thesis
    unfolding log_ok_def assms(2) log_line_fields
    using cpu_spent [OF assms(1), of P i] log_fields_plain [OF wf] read_log_fields [OF wf]
    by (intro exI [of _ "log_fields p n (2 ^ k1, 2 ^ k2) (os_elapsed env i) (cpu_spent P env i) (rp_stat rp)"]) (simp add: measured_def)
qed

text \<open>The file reads back as the measurements of the repetitions.\<close>

lemma read_logs:
  assumes "\<And>j. j < length rps \<Longrightarrow> log_ok env n k1 k2 p (i + j) (rps ! j)"
  shows "read_file (concat (map rp_log rps)) = map (\<lambda>j. Some (measured env n k1 k2 p (i + j) (rp_stat (rps ! j)))) [0..<length rps]"
  using assms
proof (induction rps arbitrary: i)
  case (Cons rp rps)
  obtain f where f: "rp_log rp = f @ [CHR 0x0A]" "CHR 0x0A \<notin> set f" "read_measurement f = Some (measured env n k1 k2 p i (rp_stat rp))"
    using Cons.prems [of 0] by (auto simp: log_ok_def)
  have "log_ok env n k1 k2 p (Suc i + j) (rps ! j)" if "j < length rps" for j using Cons.prems [of "Suc j"] that by simp
  from Cons.IH [OF this] show ?case
    using read_file_append [OF f(2)] f(1,3) by (simp add: upt_conv_Cons map_Suc_upt [symmetric] del: upt_Suc)
qed (simp add: read_file_def)

text \<open>A client of the system: it shares among all its parties, and finds each under its position.\<close>

definition client_ok :: "prc_client \<Rightarrow> nat \<Rightarrow> nat \<Rightarrow> nat \<Rightarrow> bool" where
  "client_ok c n k1 k2 \<longleftrightarrow> pc_party_num c = n \<and> get_party_num (pc_sys_conf c) = n \<and>
     dbc_l1_dim (pc_db_conf c) = 2 ^ k1 \<and> dbc_l2_dim (pc_db_conf c) = 2 ^ k2 \<and>
     (\<forall>p<n. get_peer_idx (pc_sys_conf c) p = Some p)"

text \<open>
  The report of party \<open>p\<close> on a query for a record of \<open>db\<close>: party 0 has a token that the client's state
  accepts for the value of the record and that verifies, the others have none, and each reports the
  preprocessing of one query.
\<close>

definition report_ok ::
  "('s::comm_ring_1, 'r) scalar_ops \<Rightarrow> ('s, 'g::ab_group_add) group_ops \<Rightarrow> ('sk, 'vk, 'sg) sig_ops \<Rightarrow> 'vk \<Rightarrow> prc_database \<Rightarrow> nat \<Rightarrow> nat \<Rightarrow>
     nat \<Rightarrow> ('s, 'g, 'sg) report \<Rightarrow> bool" where
  "report_ok S G V pk db k1 k2 p rp \<longleftrightarrow>
     rp_idx rp < db_total_size db \<and> rp_preproc rp = (8 * query_bytes k1 k2, k1 + k2 + 1) \<and>
     (if p = 0 then \<exists>tok c0 c1. rp_token rp = Some tok \<and> rp_checks rp = Some (c0, c1) \<and> token_verify G V tok pk = Inr () \<and>
        (case get_record_bit db (rp_idx rp) 0 of Inr b \<Rightarrow> (if b then c1 else c0) | Inl _ \<Rightarrow> False)
      else rp_token rp = None \<and> rp_checks rp = None)"

text \<open>
  All reports of a party: the bandwidth of a query is \<open>query_traffic\<close> to and from every other party; the first
  report has the handshakes of the set-up on top.
\<close>

definition reports_ok ::
  "('s::comm_ring_1, 'r) scalar_ops \<Rightarrow> ('s, 'g::ab_group_add) group_ops \<Rightarrow> ('sk, 'vk, 'sg) sig_ops \<Rightarrow> 'vk \<Rightarrow> prc_database \<Rightarrow> nat \<Rightarrow> nat \<Rightarrow> nat \<Rightarrow>
     nat \<Rightarrow> nat \<Rightarrow> ('s, 'g, 'sg) report list \<Rightarrow> bool" where
  "reports_ok S G V pk db n k1 k2 p Q rps \<longleftrightarrow> length rps = Q \<and> (\<forall>rp\<in>set rps. report_ok S G V pk db k1 k2 p rp) \<and>
     map rp_stat rps = take Q (bandwidth n (query_traffic k1 k2) (6 * p) (6 * (n - 1 - p)) # replicate Q (bandwidth n (query_traffic k1 k2) 0 0))"

lemma check_token_accepts:
  assumes V: "sig_ok V" and S: "scalar_from_ok S" and st: "st_idx st = of_nat i"
  shows "\<exists>tok c0 c1. check_token S G V st (sg_verifying_key V sk)
      (Some (token_of G V sk (commit G (opening_new (st_crnd st) (of_nat i) (of_bool b))))) = Inr (Some tok, Some (c0, c1)) \<and>
    (if b then c1 else c0) \<and> token_verify G V tok (sg_verifying_key V sk) = Inr ()"
proof -
  have sc: "sc_from_u32 S 0 = 0" "sc_from_u32 S 1 = 1" using S by (simp_all add: scalar_from_ok_def)
  have sig: "sg_verify_strict V (sg_verifying_key V sk) m (sg_sign V sk m)" for m using V by (simp add: sig_ok_def)
  let ?cm = "\<lambda>r. commit G (opening_new (st_crnd st) (of_nat i) r)"
  show ?thesis
    by (cases b; cases "sg_verify_strict V (sg_verifying_key V sk) (commitment_serialize G (?cm 0)) (sg_sign V sk (commitment_serialize G (?cm 1)))";
        cases "sg_verify_strict V (sg_verifying_key V sk) (commitment_serialize G (?cm 1)) (sg_sign V sk (commitment_serialize G (?cm 0)))")
      (simp_all add: check_token_def check_for_rec_val_def st_get_commitment_def token_of_def token_verify_def sc sig st Let_def, blast+)
qed

lemma query_single_server_Ok:
  assumes c: "client_ok c n k1 k2" and n: "0 < n" and k: "k1 < 32" "k2 < 32" and idx: "idx < 2 ^ k1 * 2 ^ k2"
  shows "\<exists>st q rng'. (\<forall>p<n. query_single_server P R S c idx p rng = Inr ((st, q p), rng')) \<and>
    bv_shares n k1 (\<lambda>p. q_l1_bss (q p)) (of_nat (idx mod 2 ^ k1)) \<and> bv_shares n k2 (\<lambda>p. q_l2_bss (q p)) (of_nat (idx div 2 ^ k1)) \<and>
    st_idx st = sc_from_u32 S (of_nat idx) \<and> (\<Sum>p<n. av_value (q_rnd_ass (q p))) = st_crnd st"
proof -
  have "pc_party_num c = n" "get_party_num (pc_sys_conf c) = n" "dbc_l1_dim (pc_db_conf c) = 2 ^ k1" "dbc_l2_dim (pc_db_conf c) = 2 ^ k2"
      and pos: "\<And>p. p < n \<Longrightarrow> get_peer_idx (pc_sys_conf c) p = Some p"
    using c by (simp_all add: client_ok_def)
  from query_all_servers_Ok [OF n this(1-4) k idx, of P R S rng]
  obtain st qs rng' where q: "query_all_servers P R S c idx rng = Inr ((st, qs), rng')" "length qs = n"
      "bv_shares n k1 (\<lambda>p. q_l1_bss (qs ! p)) (of_nat (idx mod 2 ^ k1))" "bv_shares n k2 (\<lambda>p. q_l2_bss (qs ! p)) (of_nat (idx div 2 ^ k1))"
      "st_idx st = sc_from_u32 S (of_nat idx)" "(\<Sum>p<n. av_value (q_rnd_ass (qs ! p))) = st_crnd st" by blast
  have "query_single_server P R S c idx p rng = Inr ((st, qs ! p), rng')" if "p < n" for p
    using q(1,2) that pos by (simp add: query_single_server_def index_def)
  with q(3-) show ?thesis by blast
qed

lemma get_preproc_stat_reported:
  assumes "bp_used (mp_beaver_provider mp) = u + v" "bp_last_report (mp_beaver_provider mp) = u"
    and "da_used (mp_dabit_provider mp) = d + w" "da_last_report (mp_dabit_provider mp) = d"
  shows "get_preproc_stat P mp = Inr ((8 * v, w), mp\<lparr>mp_beaver_provider := (mp_beaver_provider mp)\<lparr>bp_last_report := u + v\<rparr>,
    mp_dabit_provider := (mp_dabit_provider mp)\<lparr>da_last_report := d + w\<rparr>\<rparr>)"
  using assms by (simp add: get_preproc_stat_def bp_report_beaver_usage_then_reset_def da_report_dabit_usage_then_reset_def mult.commute)

lemma sv_get_preproc_stat_served:
  assumes sv: "servers_ready n N v M w db sv" and r: "reported n u d sv" and v: "v = u + x" "w = d + y"
  obtains sv' where "\<And>p. p < n \<Longrightarrow> sv_get_preproc_stat P (sv p) = Inr ((8 * x, y), sv' p)"
    "servers_ready n N v M w db sv'" "reported n v w sv'" "\<And>p. sv_pk (sv' p) = sv_pk (sv p)" "\<And>p. sv_sk (sv' p) = sv_sk (sv p)"
proof -
  let ?mp = "\<lambda>p. sv_mpc_provider (sv p)"
  let ?mp' = "\<lambda>p. (?mp p)\<lparr>mp_beaver_provider := (mp_beaver_provider (?mp p))\<lparr>bp_last_report := v\<rparr>,
    mp_dabit_provider := (mp_dabit_provider (?mp p))\<lparr>da_last_report := w\<rparr>\<rparr>"
  let ?sv = "\<lambda>p. (sv p)\<lparr>sv_mpc_provider := ?mp' p\<rparr>"
  have ok: "bps_ok n N (\<lambda>p. mp_beaver_provider (?mp p)) v" "das_ok n M (\<lambda>p. mp_dabit_provider (?mp p)) w"
    using sv by (simp_all add: servers_ready_def parties_ready_def)
  then have used: "bp_used (mp_beaver_provider (?mp p)) = u + x" "da_used (mp_dabit_provider (?mp p)) = d + y" if "p < n" for p
    using that v by (auto simp: bps_ok_def das_ok_def)
  have "bps_ok n N (\<lambda>p. mp_beaver_provider (?mp' p)) v" "das_ok n M (\<lambda>p. mp_dabit_provider (?mp' p)) w"
    using ok unfolding bps_ok_def das_ok_def by simp_all
  then have "servers_ready n N v M w db ?sv" using sv by (simp add: servers_ready_def parties_ready_def)
  moreover have "sv_get_preproc_stat P (sv p) = Inr ((8 * x, y), ?sv p)" if "p < n" for p
    using get_preproc_stat_reported [of "?mp p" u x d y P] used [OF that] r that v
    by (simp add: sv_get_preproc_stat_def reported_def)
  ultimately show ?thesis by (intro that [of ?sv]) (simp_all add: reported_def)
qed

text \<open>One query, from the client's shares to the token.\<close>

lemma query_answered:
  fixes sv :: "nat \<Rightarrow> ('s::comm_ring_1, 'g::ab_group_add, 'sk, 'vk) prc_server"
  assumes S: "scalar_from_ok S" and G: "group_ok G" "codec_ok G" and n: "2 \<le> n"
    and sv: "servers_ready n N u M d db sv" "db_dims db k1 k2" and c: "client_ok c n k1 k2"
    and k: "0 < k1" "k1 < 32" "0 < k2" "k1 + k2 \<le> 32" and idx: "idx < 2 ^ k1 * 2 ^ k2"
    and N: "8 * query_bytes k1 k2 < 2 ^ 32" "u + query_bytes k1 k2 \<le> div_ceil N 8" and M: "d + (k1 + k2 + 1) \<le> M"
  obtains st q rng' where "\<And>p. p < n \<Longrightarrow> query_single_server P R S c idx p rng = Inr ((st, q p), rng')" "st_idx st = of_nat idx"
    "\<And>p. p < n \<Longrightarrow> bv_bit_len (q_l1_bss (q p)) = k1 \<and> bv_bit_len (q_l2_bss (q p)) = k2"
    "all_finish n (\<lambda>p. prc_protocol P S G V (sv p) (q p)) (\<lambda>out. \<exists>sv'. served n sv (u + query_bytes k1 k2) (d + (k1 + k2 + 1)) sv' \<and>
      (\<forall>p<n. out p = (if p = 0 then Some (token_of G V (sv_sk (sv 0)) (commit G (opening_new (st_crnd st) (of_nat idx) (of_bool (rec_bit db 0 idx)))))
        else None, sv' p)))"
proof -
  have k2: "k2 < 32" and n0: "0 < n" using k n by simp_all
  obtain st q rng' where q: "\<And>p. p < n \<Longrightarrow> query_single_server P R S c idx p rng = Inr ((st, q p), rng')"
      "bv_shares n k1 (\<lambda>p. q_l1_bss (q p)) (of_nat (idx mod 2 ^ k1))" "bv_shares n k2 (\<lambda>p. q_l2_bss (q p)) (of_nat (idx div 2 ^ k1))"
      "st_idx st = sc_from_u32 S (of_nat idx)" "(\<Sum>p<n. av_value (q_rnd_ass (q p))) = st_crnd st"
    using query_single_server_Ok [OF c n0 k(2) k2 idx, of P R S rng] by blast
  have pw: "(2 :: nat) ^ k1 \<le> 2 ^ 32" "(2 :: nat) ^ k2 \<le> 2 ^ 32" "(2 :: nat) ^ (k1 + k2) \<le> 2 ^ 32"
    using k by (simp_all only: power_increasing [where a = "2 :: nat"])
  have "idx mod 2 ^ k1 < 2 ^ k1" "idx div 2 ^ k1 < 2 ^ k2" using idx by (simp_all add: less_mult_imp_div_less mult.commute)
  then have "unat (of_nat (idx mod 2 ^ k1) :: u32) = idx mod 2 ^ k1" "unat (of_nat (idx div 2 ^ k1) :: u32) = idx div 2 ^ k1"
    using pw by (intro unat_of_nat_u32; linarith)+
  then have i: "unat (of_nat (idx div 2 ^ k1) :: u32) * 2 ^ k1 + unat (of_nat (idx mod 2 ^ k1) :: u32) = idx"
    by (simp only: div_mult_mod_eq)
  have "unat (of_nat idx :: u32) = idx" using idx pw(3) by (intro unat_of_nat_u32) (simp add: power_add)
  then have st: "st_idx st = of_nat idx" using q(4) S unfolding scalar_from_ok_def by simp
  have jc: "joint_commit G n q a b = commit G (opening_new (st_crnd st) a b)" for a b
    unfolding joint_commit_def q(5) ..
  have len: "bv_bit_len (q_l1_bss (q p)) = k1 \<and> bv_bit_len (q_l2_bss (q p)) = k2" if "p < n" for p
    using q(2,3) that by (simp add: bv_shares_def)
  show ?thesis
    by (rule that [OF q(1) st len prc_protocol_shares [OF S G n sv k q(2,3) N M, of P V, unfolded i jc]])
qed

lemma repetition_reports:
  fixes sv :: "nat \<Rightarrow> ('s::comm_ring_1, 'g::ab_group_add, 'sk, 'vk) prc_server"
  assumes S: "scalar_from_ok S" and G: "group_ok G" "codec_ok G" and V: "sig_ok V" and n: "2 \<le> n"
    and sv: "servers_ready n N u M d db sv" "db_dims db k1 k2" and r: "reported n u d sv" and pk: "sv_pk (sv 0) = sg_verifying_key V (sv_sk (sv 0))"
    and c: "client_ok c n k1 k2" and k: "0 < k1" "k1 < 32" "0 < k2" "k1 + k2 \<le> 32"
    and N: "8 * query_bytes k1 k2 < 2 ^ 32" "u + query_bytes k1 k2 \<le> div_ceil N 8" and M: "d + (k1 + k2 + 1) \<le> M"
    and cs: "\<And>p. p < n \<Longrightarrow> counters_ok P n (query_traffic k1 k2) p (cs p)"
    and env: "\<And>p. p < n \<Longrightarrow> os_ok (env p) (args p)" "\<And>p. p < n \<Longrightarrow> cli_id (args p) = p \<and> cli_party_num (args p) = n"
  shows "all_finish n (\<lambda>p. run_repetition P R S G V (env p) (args p) c i (sv p) (cs p) (fs p) rng) (\<lambda>out. \<exists>rp sv' rng'.
    (\<forall>p<n. out p = (rp p, sv' p, counters_new (map fst (cs p)), map_option (\<lambda>t. t @ rp_log (rp p)) (fs p), rng') \<and>
      report_ok S G V (sv_pk (sv 0)) db k1 k2 p (rp p) \<and> log_ok (env p) n k1 k2 p i (rp p) \<and>
      rp_stat (rp p) = bandwidth n (query_traffic k1 k2) (sum_sent (cs p)) (sum_received (cs p))) \<and>
    servers_ready n N (u + query_bytes k1 k2) M (d + (k1 + k2 + 1)) db sv' \<and> reported n (u + query_bytes k1 k2) (d + (k1 + k2 + 1)) sv' \<and>
    sv_pk (sv' 0) = sv_pk (sv 0) \<and> sv_sk (sv' 0) = sv_sk (sv 0))" (is "all_finish n _ ?Q")
proof -
  let ?u = "u + query_bytes k1 k2" and ?d = "d + (k1 + k2 + 1)" and ?T = "query_traffic k1 k2"
  obtain v rng1 where v: "rng_next_u32 R rng = (v, rng1)" by fastforce
  define idx where "idx = unat v mod (2 ^ k1 * 2 ^ k2)"
  have idx: "idx < 2 ^ k1 * 2 ^ k2" by (simp add: idx_def)
  have ci: "choose_idx R c rng = Inr (idx, rng1)"
    using c by (simp add: choose_idx_def v pc_total_db_size_def dbc_get_max_size_def client_ok_def idx_def)
  have db: "db_total_size db = 2 ^ k1 * 2 ^ k2" "db_wf db" "db_record_size db = 1" using sv(2) by (simp_all add: db_dims_def db_total_size_def mult.commute)
  then have rec: "get_record_bit db idx 0 = Inr (rec_bit db 0 idx)" using idx by (intro get_record_bit_Ok) simp_all
  have n0: "0 < n" using n by simp
  obtain st q rng2 where q: "\<And>p. p < n \<Longrightarrow> query_single_server P R S c idx p rng1 = Inr ((st, q p), rng2)" and st: "st_idx st = of_nat idx"
    and len: "\<And>p. p < n \<Longrightarrow> bv_bit_len (q_l1_bss (q p)) = k1 \<and> bv_bit_len (q_l2_bss (q p)) = k2"
    and fin: "all_finish n (\<lambda>p. prc_protocol P S G V (sv p) (q p)) (\<lambda>out. \<exists>sv'. served n sv ?u ?d sv' \<and>
      (\<forall>p<n. out p = (if p = 0 then Some (token_of G V (sv_sk (sv 0)) (commit G (opening_new (st_crnd st) (of_nat idx) (of_bool (rec_bit db 0 idx)))))
        else None, sv' p)))"
    by (rule query_answered [OF S G n sv c k idx N M, of P R rng1 V]) (rule that, blast+)
  have k64: "k1 < 64" "k2 < 64" using k by simp_all
  note fin' = protocol_metered [OF fin n0 sv G(2) k64 len counters_okD(1,4) [OF cs]]
  obtain tok c0 c1 where tok: "check_token S G V st (sv_pk (sv 0)) (Some (token_of G V (sv_sk (sv 0))
      (commit G (opening_new (st_crnd st) (of_nat idx) (of_bool (rec_bit db 0 idx)))))) = Inr (Some tok, Some (c0, c1))"
      "if rec_bit db 0 idx then c1 else c0" "token_verify G V tok (sv_pk (sv 0)) = Inr ()"
    using check_token_accepts [OF V S st] unfolding pk by blast
  let ?rp = "\<lambda>p. \<lparr>rp_idx = idx, rp_state = st, rp_token = (if p = (0 :: nat) then Some tok else None),
    rp_checks = (if p = 0 then Some (c0, c1) else None), rp_stat = bandwidth n ?T (sum_sent (cs p)) (sum_received (cs p)),
    rp_preproc = (8 * query_bytes k1 k2, k1 + k2 + 1),
    rp_info = info_line n p (pc_total_db_size c) (os_elapsed (env p) i) (cpu_spent P (env p) i)
      (bandwidth n ?T (sum_sent (cs p)) (sum_received (cs p))) (8 * query_bytes k1 k2, k1 + k2 + 1),
    rp_log = log_line p n (2 ^ k1, 2 ^ k2) (os_elapsed (env p) i) (cpu_spent P (env p) i) (bandwidth n ?T (sum_sent (cs p)) (sum_received (cs p)))\<rparr>"
  have rp: "report_ok S G V (sv_pk (sv 0)) db k1 k2 p (?rp p)" "rp_stat (?rp p) = bandwidth n ?T (sum_sent (cs p)) (sum_received (cs p))" for p
    using idx tok(2,3) by (simp_all add: report_ok_def db(1) rec)
  have lg: "log_ok (env p) n k1 k2 p i (?rp p)" if "p < n" for p
    by (rule log_line_ok [OF env(1) [OF that]]) simp
  have wr: "write_measurement (env p) i l (fs p) = Inr (map_option (\<lambda>t. t @ l) (fs p))" if "p < n" for p l
    using env(1) [OF that] by (cases "fs p") (simp_all add: write_measurement_def os_ok_def rassert_def)
  have "all_finish n (\<lambda>p. pbind (metered (prc_protocol P S G V (sv p) (q p)) P (cs p)) (\<lambda>((resp, server), cs).
     pbind (lift_res (get_cpu_time P (os_usage (env p) (2 * i + 1)))) (\<lambda>cpu_end.
     pbind (lift_res (du_sub cpu_end (cpu_at P (env p) (2 * i)))) (\<lambda>end_cpu_duration.
     pbind (lift_res (sv_get_then_reset_netstat P cs)) (\<lambda>(stat, cs).
     pbind (lift_res (sv_get_preproc_stat P server)) (\<lambda>(usage, server).
     pbind (lift_res (check_token S G V st (sv_pk server) resp)) (\<lambda>(token, checks).
     pbind (lift_res (write_measurement (env p) i (log_line p n (db_get_dims (sv_db server)) (os_elapsed (env p) i) end_cpu_duration stat) (fs p))) (\<lambda>measure_fs.
     Done (\<lparr>rp_idx = idx, rp_state = st, rp_token = token, rp_checks = checks, rp_stat = stat, rp_preproc = usage,
         rp_info = info_line n p (pc_total_db_size c) (os_elapsed (env p) i) end_cpu_duration stat usage,
         rp_log = log_line p n (db_get_dims (sv_db server)) (os_elapsed (env p) i) end_cpu_duration stat\<rparr>,
       server, cs, measure_fs, rng2))))))))) ?Q"
  proof (rule all_finish_bind [OF all_finish_mono [OF fin']])
    fix out
    let ?t = "\<lambda>p. if p = (0 :: nat) then Some (token_of G V (sv_sk (sv 0)) (commit G (opening_new (st_crnd st) (of_nat idx) (of_bool (rec_bit db 0 idx))))) else None"
    assume "\<exists>xs. (\<exists>sv'. served n sv ?u ?d sv' \<and> (\<forall>p<n. xs p = (?t p, sv' p))) \<and> (\<forall>p<n. out p = (xs p, map (apsnd (grown ?T ?T)) (cs p)))"
    then obtain xs sv1 where sv1: "served n sv ?u ?d sv1" and "\<forall>p<n. xs p = (?t p, sv1 p)" "\<forall>p<n. out p = (xs p, map (apsnd (grown ?T ?T)) (cs p))" by blast
    then have out: "out p = ((?t p, sv1 p), map (apsnd (grown ?T ?T)) (cs p))" if "p < n" for p using that by simp
    have stat: "sv_get_then_reset_netstat P (map (apsnd (grown ?T ?T)) (cs p)) = Inr (rp_stat (?rp p), counters_new (map fst (cs p)))" if "p < n" for p
      using netstat_of_counters [OF counters_okD(2,3) [OF cs [OF that] that]] by simp
    have r1: "reported n u d sv1" using r by (simp add: reported_def served_fields(1,2) [OF sv1])
    obtain sv2 where sv2: "\<And>p. p < n \<Longrightarrow> sv_get_preproc_stat P (sv1 p) = Inr ((8 * query_bytes k1 k2, k1 + k2 + 1), sv2 p)"
        "servers_ready n N ?u M ?d db sv2" "reported n ?u ?d sv2" "\<And>p. sv_pk (sv2 p) = sv_pk (sv1 p)" "\<And>p. sv_sk (sv2 p) = sv_sk (sv1 p)"
      by (rule sv_get_preproc_stat_served [OF servers_ready_served [OF sv(1) sv1] r1 refl refl, of P]) (rule that, blast+)
    have keys: "sv_pk (sv2 0) = sv_pk (sv 0)" "sv_sk (sv2 0) = sv_sk (sv 0)" using served_fields(7,8) [OF sv1 n0] sv2(4,5) by simp_all
    have ch: "check_token S G V st (sv_pk (sv2 p)) (?t p) = Inr (rp_token (?rp p), rp_checks (?rp p))" for p
      using tok(1) keys(1) by (cases "p = 0") (simp_all add: check_token_def [where resp = None])
    have dims: "db_get_dims (sv_db (sv2 p)) = (2 ^ k1, 2 ^ k2)" if "p < n" for p
      using sv2(2) sv(2) that by (simp add: servers_ready_def db_get_dims_def db_dims_def)
    show "all_finish n (\<lambda>p. (\<lambda>((resp, server), cs).
     pbind (lift_res (get_cpu_time P (os_usage (env p) (2 * i + 1)))) (\<lambda>cpu_end.
     pbind (lift_res (du_sub cpu_end (cpu_at P (env p) (2 * i)))) (\<lambda>end_cpu_duration.
     pbind (lift_res (sv_get_then_reset_netstat P cs)) (\<lambda>(stat, cs).
     pbind (lift_res (sv_get_preproc_stat P server)) (\<lambda>(usage, server).
     pbind (lift_res (check_token S G V st (sv_pk server) resp)) (\<lambda>(token, checks).
     pbind (lift_res (write_measurement (env p) i (log_line p n (db_get_dims (sv_db server)) (os_elapsed (env p) i) end_cpu_duration stat) (fs p))) (\<lambda>measure_fs.
     Done (\<lparr>rp_idx = idx, rp_state = st, rp_token = token, rp_checks = checks, rp_stat = stat, rp_preproc = usage,
         rp_info = info_line n p (pc_total_db_size c) (os_elapsed (env p) i) end_cpu_duration stat usage,
         rp_log = log_line p n (db_get_dims (sv_db server)) (os_elapsed (env p) i) end_cpu_duration stat\<rparr>,
       server, cs, measure_fs, rng2)))))))) (out p)) ?Q"
    proof (rule all_finish_cong [OF all_finish_Done])
      show "?Q (\<lambda>p. (?rp p, sv2 p, counters_new (map fst (cs p)), map_option (\<lambda>t. t @ rp_log (?rp p)) (fs p), rng2))"
        by (intro exI [of _ ?rp] exI [of _ sv2] exI [of _ rng2] conjI allI impI refl rp lg) (assumption | rule sv2(2,3) keys)+
    qed (simp only: out cpu_at [OF env(1)] cpu_spent [OF env(1)] stat sv2(1) ch wr dims lift_res.simps pbind.simps prod.case report.simps)
  qed
  then show ?thesis
    by (rule all_finish_cong) (simp add: run_repetition_def ci q env(2) cpu_at [OF env(1)] Let_def)
qed

section \<open>All repetitions\<close>

lemma repetitions_report:
  fixes sv :: "nat \<Rightarrow> ('s::comm_ring_1, 'g::ab_group_add, 'sk, 'vk) prc_server"
    and R :: "'r rng_ops" and V :: "('sk, 'vk, 'sg) sig_ops"
  assumes S: "scalar_from_ok S" and G: "group_ok G" "codec_ok G" and V: "sig_ok V" and n: "2 \<le> n" and db: "db_dims db k1 k2"
    and c: "client_ok c n k1 k2" and k: "0 < k1" "k1 < 32" "0 < k2" "k1 + k2 \<le> 32" and N: "8 * query_bytes k1 k2 < 2 ^ 32"
    and env: "\<And>p. p < n \<Longrightarrow> os_ok (env p) (args p)" "\<And>p. p < n \<Longrightarrow> cli_id (args p) = p \<and> cli_party_num (args p) = n"
    and "servers_ready n N u M d db sv" "reported n u d sv" "sv_pk (sv 0) = sg_verifying_key V (sv_sk (sv 0))"
    and "u + m * query_bytes k1 k2 \<le> div_ceil N 8" "d + m * (k1 + k2 + 1) \<le> M"
    and "\<And>p. p < n \<Longrightarrow> counters_ok P n (query_traffic k1 k2) p (cs p)"
  shows "all_finish n (\<lambda>p. run_repetitions P R S G V (env p) (args p) c m i (sv p) (cs p) (fs p) rng) (\<lambda>out. \<forall>p<n. \<exists>rps.
      out p = (rps, map_option (\<lambda>t. t @ concat (map rp_log rps)) (fs p)) \<and> length rps = m \<and>
      (\<forall>rp\<in>set rps. report_ok S G V (sv_pk (sv 0)) db k1 k2 p rp) \<and> (\<forall>j<m. log_ok (env p) n k1 k2 p (i + j) (rps ! j)) \<and>
      map rp_stat rps = take m (bandwidth n (query_traffic k1 k2) (sum_sent (cs p)) (sum_received (cs p)) #
        replicate m (bandwidth n (query_traffic k1 k2) 0 0)))"
  using assms(15-)
proof (induction m arbitrary: u d sv rng cs fs i)
  case 0
  show ?case by (rule all_finish.finish [where xs = "\<lambda>p. ([], fs p)"]) (simp_all add: option.map_ident)
next
  case (Suc m)
  let ?u = "u + query_bytes k1 k2" and ?d = "d + (k1 + k2 + 1)" and ?ok = "report_ok S G V (sv_pk (sv 0)) db k1 k2"
  let ?T = "query_traffic k1 k2"
  let ?Q = "\<lambda>out. \<forall>p<n. \<exists>rps. out p = (rps, map_option (\<lambda>t. t @ concat (map rp_log rps)) (fs p)) \<and> length rps = Suc m \<and>
      (\<forall>rp\<in>set rps. ?ok p rp) \<and> (\<forall>j<Suc m. log_ok (env p) n k1 k2 p (i + j) (rps ! j)) \<and>
      map rp_stat rps = take (Suc m) (bandwidth n ?T (sum_sent (cs p)) (sum_received (cs p)) # replicate (Suc m) (bandwidth n ?T 0 0))"
  have b: "u + query_bytes k1 k2 \<le> div_ceil N 8" "d + (k1 + k2 + 1) \<le> M"
      "?u + m * query_bytes k1 k2 \<le> div_ceil N 8" "?d + m * (k1 + k2 + 1) \<le> M" using Suc.prems(4,5) by simp_all
  let ?cs = "\<lambda>p. counters_new (map fst (cs p))"
  have cs: "counters_ok P n ?T p (?cs p)" if "p < n" for p
    using counters_okD(1,3) [OF Suc.prems(6) [OF that] that] by (intro counters_new_ok) auto
  have "all_finish n (\<lambda>p. pbind (run_repetition P R S G V (env p) (args p) c i (sv p) (cs p) (fs p) rng) (\<lambda>(rp, server, cs, measure_fs, rng).
     pbind (run_repetitions P R S G V (env p) (args p) c m (Suc i) server cs measure_fs rng) (\<lambda>(rps, measure_fs). Done (rp # rps, measure_fs)))) ?Q"
  proof (rule all_finish_bind [OF all_finish_mono [OF repetition_reports [OF S G V n Suc.prems(1) db Suc.prems(2,3) c k N b(1,2) Suc.prems(6) env]]])
    fix out :: "nat \<Rightarrow> ('s, 'g, 'sg) report \<times> ('s, 'g, 'sk, 'vk) prc_server \<times> counters \<times> string option \<times> 'r"
    assume "\<exists>rp sv' rng'. (\<forall>p<n. out p = (rp p, sv' p, ?cs p, map_option (\<lambda>t. t @ rp_log (rp p)) (fs p), rng') \<and> ?ok p (rp p) \<and>
        log_ok (env p) n k1 k2 p i (rp p) \<and> rp_stat (rp p) = bandwidth n ?T (sum_sent (cs p)) (sum_received (cs p))) \<and>
      servers_ready n N ?u M ?d db sv' \<and> reported n ?u ?d sv' \<and> sv_pk (sv' 0) = sv_pk (sv 0) \<and> sv_sk (sv' 0) = sv_sk (sv 0)"
    then obtain rp sv1 rng1 where o: "\<And>p. p < n \<Longrightarrow> out p = (rp p, sv1 p, ?cs p, map_option (\<lambda>t. t @ rp_log (rp p)) (fs p), rng1)"
        "\<And>p. p < n \<Longrightarrow> ?ok p (rp p) \<and> log_ok (env p) n k1 k2 p i (rp p) \<and> rp_stat (rp p) = bandwidth n ?T (sum_sent (cs p)) (sum_received (cs p))"
        "servers_ready n N ?u M ?d db sv1" "reported n ?u ?d sv1" "sv_pk (sv1 0) = sv_pk (sv 0)" "sv_sk (sv1 0) = sv_sk (sv 0)" by blast
    have pk: "sv_pk (sv1 0) = sg_verifying_key V (sv_sk (sv1 0))" using Suc.prems(3) o(5,6) by simp
    let ?fs = "\<lambda>p. map_option (\<lambda>t. t @ rp_log (rp p)) (fs p)"
    have "all_finish n (\<lambda>p. pbind (run_repetitions P R S G V (env p) (args p) c m (Suc i) (sv1 p) (?cs p) (?fs p) rng1)
        (\<lambda>(rps, measure_fs). Done (rp p # rps, measure_fs))) ?Q"
    proof (rule all_finish_bind [OF all_finish_mono [OF Suc.IH [OF o(3,4) pk b(3,4) cs, unfolded o(5) sums_new]]])
      fix out'
      assume out': "\<forall>p<n. \<exists>rps. out' p = (rps, map_option (\<lambda>t. t @ concat (map rp_log rps)) (?fs p)) \<and> length rps = m \<and>
        (\<forall>rp\<in>set rps. ?ok p rp) \<and> (\<forall>j<m. log_ok (env p) n k1 k2 p (Suc i + j) (rps ! j)) \<and>
        map rp_stat rps = take m (bandwidth n ?T 0 0 # replicate m (bandwidth n ?T 0 0))"
      show "all_finish n (\<lambda>p. (case out' p of (rps, measure_fs) \<Rightarrow> Done (rp p # rps, measure_fs))) ?Q"
      proof (rule all_finish_each)
        fix p assume p: "p < n"
        then obtain rps where r: "out' p = (rps, map_option (\<lambda>t. t @ concat (map rp_log rps)) (?fs p))" "length rps = m" "\<forall>rp\<in>set rps. ?ok p rp"
          "\<forall>j<m. log_ok (env p) n k1 k2 p (Suc i + j) (rps ! j)" "map rp_stat rps = replicate m (bandwidth n ?T 0 0)"
          using out' by (auto simp flip: replicate_Suc)
        have "\<forall>j<Suc m. log_ok (env p) n k1 k2 p (i + j) ((rp p # rps) ! j)"
          using r(4) o(2) [OF p] by (auto simp: less_Suc_eq_0_disj)
        then show "\<exists>x. (case out' p of (rps, measure_fs) \<Rightarrow> Done (rp p # rps, measure_fs)) = Done x \<and>
            (\<exists>rps. x = (rps, map_option (\<lambda>t. t @ concat (map rp_log rps)) (fs p)) \<and> length rps = Suc m \<and> (\<forall>rp\<in>set rps. ?ok p rp) \<and>
              (\<forall>j<Suc m. log_ok (env p) n k1 k2 p (i + j) (rps ! j)) \<and>
              map rp_stat rps = take (Suc m) (bandwidth n ?T (sum_sent (cs p)) (sum_received (cs p)) # replicate (Suc m) (bandwidth n ?T 0 0)))"
          using r o(2) [OF p]
          by (intro exI [of _ "(rp p # rps, map_option (\<lambda>t. t @ concat (map rp_log (rp p # rps))) (fs p))"] conjI exI [of _ "rp p # rps"])
            (auto simp: option.map_comp comp_def simp flip: replicate_Suc)
      qed
    qed
    then show "all_finish n (\<lambda>p. (case out p of (rp, server, cs, measure_fs, rng) \<Rightarrow>
        pbind (run_repetitions P R S G V (env p) (args p) c m (Suc i) server cs measure_fs rng) (\<lambda>(rps, measure_fs). Done (rp # rps, measure_fs)))) ?Q"
      by (rule all_finish_cong) (simp add: o(1))
  qed
  then show ?case unfolding run_repetitions.simps(2) .
qed

text \<open>The configuration \<open>run_server\<close> builds.\<close>

definition cli_config :: "nat \<Rightarrow> 16 word \<Rightarrow> nat \<Rightarrow> nat \<Rightarrow> system_config" where
  "cli_config n port k1 k2 = \<lparr>sc_peers = map (\<lambda>i. \<lparr>pi_id = i, pi_ip_addr = ''127.0.0.1'', pi_port = port + of_nat i,
       pi_seed = replicate 32 (of_nat (100 + i))\<rparr>) [0..<n],
     sc_db_config = dbc_new 1 (2 ^ k1) (2 ^ k2) (Some (replicate 32 42))\<rparr>"

lemma cli_config_ok:
  assumes "2 \<le> n" "n \<le> 256" "3 \<le> k1" "k1 < 32" "0 < k2" "k2 \<le> k1" "k1 + k2 \<le> 32"
  shows "config_ok (cli_config n port k1 k2) k1 k2"
  using assms by (simp add: config_ok_def cli_config_def dbc_new_def)

lemma cli_client_ok: "client_ok (pc_new n (dbc_new 1 (2 ^ k1) (2 ^ k2) None) (cli_config n port k1 k2)) n k1 k2"
proof -
  let ?peers = "sc_peers (cli_config n port k1 k2)"
  have "map pi_id ?peers = [0..<n]" by (simp add: cli_config_def comp_def)
  then have "position (\<lambda>x. pi_id x = pi_id (?peers ! p)) ?peers = Some p" if "p < n" for p
    using that by (intro position_self) (simp_all add: cli_config_def)
  then have "get_peer_idx (cli_config n port k1 k2) p = Some p" if "p < n" for p
    using that by (simp add: get_peer_idx_def) (simp add: cli_config_def)
  then show ?thesis by (simp add: client_ok_def pc_new_def dbc_new_def get_party_num_def) (simp add: cli_config_def)
qed

lemma new_server_reported:
  assumes "sv_new_with_message_handler R S V sk p c mh Q = Inr sv"
  shows "bp_last_report (mp_beaver_provider (sv_mpc_provider sv)) = 0 \<and> da_last_report (mp_dabit_provider (sv_mpc_provider sv)) = 0"
  using assms
  by (auto simp: sv_new_with_message_handler_def init_seeded_correlated_randomness_def gen_beaver_provider_def gen_dabit_provider_def
      bp_generate_as_dealer_def bp_generate_with_seed_def da_generate_as_dealer_def da_generate_with_seed_def
      rbind_eq_Ok bp_new_def da_new_def mp_new_def Let_def split: if_splits prod.splits)

text \<open>The arguments of party \<open>p\<close>, all parties with the same ones but for their number and their file.\<close>

definition cli_for :: "nat \<Rightarrow> nat \<Rightarrow> nat \<Rightarrow> nat \<Rightarrow> nat \<Rightarrow> (nat \<Rightarrow> string) \<Rightarrow> nat \<Rightarrow> cli" where
  "cli_for n k1 k2 Q port out_fs p = \<lparr>cli_id = p, cli_party_num = n, cli_db_l1 = 2 ^ k1, cli_db_l2 = 2 ^ k2, cli_rep_num = Q,
     cli_base_port = port, cli_out_fs = out_fs p\<rparr>"

text \<open>What a party has written: nothing without a file, otherwise one line per repetition, with its measurements.\<close>

definition file_ok :: "os_env \<Rightarrow> nat \<Rightarrow> nat \<Rightarrow> nat \<Rightarrow> nat \<Rightarrow> string \<Rightarrow> ('s, 'g, 'sg) report list \<Rightarrow> string option \<Rightarrow> bool" where
  "file_ok env n k1 k2 p out_fs rps file \<longleftrightarrow> (if out_fs = [] then file = None else
     \<exists>text. file = Some text \<and> read_file text = map (\<lambda>j. Some (measured env n k1 k2 p j (rp_stat (rps ! j)))) [0..<length rps])"

section \<open>The messages of the program\<close>

lemma get_preproc_stat_keeps: "get_preproc_stat P mp = Inr (u, mp') \<Longrightarrow> executor_idle mp \<Longrightarrow> executor_idle mp'"
  by (auto simp: get_preproc_stat_def bp_report_beaver_usage_then_reset_def rbind_eq_Ok executor_idle_def executor_ok_def bp_wf_def Let_def)

lemma sv_get_preproc_stat_keeps: "sv_get_preproc_stat P sv = Inr (u, sv') \<Longrightarrow> server_idle k2 sv \<Longrightarrow> server_idle k2 sv'"
  using get_preproc_stat_keeps [of P "sv_mpc_provider sv"] by (auto simp: sv_get_preproc_stat_def rbind_eq_Ok server_idle_def)

lemma talks_repetition:
  fixes sv :: "('s::comm_ring_1, 'g::ab_group_add, 'sk, 'vk) prc_server"
  assumes sv: "server_idle k2 sv" and G: "codec_ok G" and c: "client_ok c n k1 k2" and k: "k1 < 32" "k2 < 32" and p: "cli_id args = p" "p < n"
  shows "talks (run_repetition P R S G V env args c i sv cs fs rng) (query_msgs k1 k2) (\<lambda>(rp, sv, _). server_idle k2 sv)"
proof -
  have n0: "0 < n" and k': "k1 < 64" "k2 < 64" using p k by simp_all
  have len: "bv_bit_len (q_l1_bss q) = k1 \<and> bv_bit_len (q_l2_bss q) = k2"
    if idx: "choose_idx R c rng = Inr (idx, rng1)" and q: "query_single_server P R S c idx (cli_id args) rng1 = Inr ((st, q), rng2)" for idx rng1 st q rng2
  proof -
    have "pc_total_db_size c = 2 ^ k1 * 2 ^ k2" using c by (simp add: pc_total_db_size_def dbc_get_max_size_def client_ok_def)
    then have "idx < 2 ^ k1 * 2 ^ k2" using idx by (auto simp: choose_idx_def rbind_eq_Ok split: prod.splits)
    from query_single_server_Ok [OF c n0 k this, of P R S rng1] show ?thesis using q p by (force simp: bv_shares_def)
  qed
  have "talks (pbind (metered (prc_protocol P S G V sv q) P cs) (\<lambda>((resp, server), cs).
     let end_wall_duration = os_elapsed env i in
     pbind (lift_res (get_cpu_time P (os_usage env (2 * i + 1)))) (\<lambda>cpu_end.
     pbind (lift_res (du_sub cpu_end cpu_timer)) (\<lambda>end_cpu_duration.
     pbind (lift_res (sv_get_then_reset_netstat P cs)) (\<lambda>(stat, cs).
     pbind (lift_res (sv_get_preproc_stat P server)) (\<lambda>(usage, server).
     let info = info_line (cli_party_num args) (cli_id args) (pc_total_db_size c) end_wall_duration end_cpu_duration stat usage;
         log = log_line (cli_id args) (cli_party_num args) (db_get_dims (sv_db server)) end_wall_duration end_cpu_duration stat in
     pbind (lift_res (check_token S G V st (sv_pk server) resp)) (\<lambda>(token, checks).
     pbind (lift_res (write_measurement env i log fs)) (\<lambda>measure_fs.
     Done (\<lparr>rp_idx = idx, rp_state = st, rp_token = token, rp_checks = checks, rp_stat = stat, rp_preproc = usage, rp_info = info, rp_log = log\<rparr>,
       server, cs, measure_fs, rng2))))))))) (query_msgs k1 k2 @ []) (\<lambda>(rp, sv, _). server_idle k2 sv)"
    if "bv_bit_len (q_l1_bss q) = k1 \<and> bv_bit_len (q_l2_bss q) = k2" for q cpu_timer st idx rng2
    by (rule talks_bind [OF talks_metered [OF talks_protocol [OF sv G conjunct1 [OF that] conjunct2 [OF that] k']]])
      (auto simp: Let_def intro!: talks_lift dest: sv_get_preproc_stat_keeps)
  note protocol = this [unfolded append_Nil2]
  show ?thesis
    unfolding run_repetition_def
    by (rule talks_lift, rule talks_lift, safe, (simp only: prod.case)?, rule talks_lift, safe, (simp only: prod.case)?, rule protocol, rule len)
qed

lemma talks_repetitions:
  fixes sv :: "('s::comm_ring_1, 'g::ab_group_add, 'sk, 'vk) prc_server"
  assumes "server_idle k2 sv" and "codec_ok G" "client_ok c n k1 k2" "k1 < 32" "k2 < 32" "cli_id args = p" "p < n"
  shows "talks (run_repetitions P R S G V env args c m i sv cs fs rng) (concat (replicate m (query_msgs k1 k2))) (\<lambda>_. True)"
  using assms(1)
proof (induction m arbitrary: i sv cs fs rng)
  case (Suc m)
  have "talks (pbind (run_repetitions P R S G V env args c m (Suc i) server cs measure_fs rng) (\<lambda>(rps, measure_fs).
     Done (rp # rps, measure_fs))) (concat (replicate m (query_msgs k1 k2)) @ []) (\<lambda>_. True)" if "server_idle k2 server" for rp server cs measure_fs rng
    by (rule talks_bind [OF Suc.IH [OF that]]) auto
  then show ?case
    unfolding run_repetitions.simps replicate_Suc concat.simps by (intro talks_bind [OF talks_repetition [OF Suc.prems assms(2-)]]) auto
qed simp

text \<open>The program up to its first repetition.\<close>

lemma run_server_starts:
  fixes mh :: "nat \<Rightarrow> 'g::ab_group_add message_handler" and S :: "('s::comm_ring_1, 'r) scalar_ops"
  assumes R: "rng_ok R" and S: "scalar_from_ok S" and n: "2 \<le> n" "n \<le> 256" and k: "3 \<le> k1" "k1 < 32" "0 < k2" "k2 \<le> k1" "k1 + k2 \<le> 32" and Q: "0 < Q"
    and port: "P = Release \<or> port + n \<le> 2 ^ 16" "port < 2 ^ 16" and mh: "\<And>p. p < n \<Longrightarrow> mh_ready n p (mh p)"
    and env: "\<And>p. p < n \<Longrightarrow> os_ok (env p) (cli_for n k1 k2 Q port out_fs p)"
  obtains db and sv :: "nat \<Rightarrow> ('s, 'g, 'sk, 'vk) prc_server" where
    "db_from_config R (sc_db_config (cli_config n (of_nat port) k1 k2)) = Inr db" "db_dims db k1 k2"
    "servers_ready n (Q * beaver_per_q (sc_db_config (cli_config n (of_nat port) k1 k2))) 0 (Q * 36) 0 db sv" "reported n 0 0 sv"
    "\<And>p. p < n \<Longrightarrow> sv_sk (sv p) = sk p \<and> sv_pk (sv p) = sg_verifying_key V (sk p)"
    "\<And>p G cs. p < n \<Longrightarrow> run_server P R S G V (sk p) (mh p) cs (env p) (cli_for n k1 k2 Q port out_fs p) =
      run_repetitions P R S G V (env p) (cli_for n k1 k2 Q port out_fs p) (pc_new n (dbc_new 1 (2 ^ k1) (2 ^ k2) None) (cli_config n (of_nat port) k1 k2)) Q 0
        (sv p) cs (if out_fs p = [] then None else Some []) (rng_from_seed R (replicate 32 13))"
proof -
  let ?c = "cli_config n (of_nat port) k1 k2" and ?a = "cli_for n k1 k2 Q port out_fs"
  have c: "config_ok ?c k1 k2" by (rule cli_config_ok [OF n k])
  have len: "n = length (sc_peers ?c)" by (simp add: cli_config_def)
  obtain db and sv :: "nat \<Rightarrow> ('s, 'g, 'sk, 'vk) prc_server" where db: "db_from_config R (sc_db_config ?c) = Inr db" "db_dims db k1 k2"
      and ready: "servers_ready n (Q * beaver_per_q (sc_db_config ?c)) 0 (Q * 36) 0 db sv"
      and sv: "\<And>p. p < n \<Longrightarrow> sv_new_with_message_handler R S V (sk p) p ?c (mh p) Q = Inr (sv p) \<and> sv_sk (sv p) = sk p \<and>
        sv_pk (sv p) = sg_verifying_key V (sk p)"
    using servers_of_config [OF R S c Q len mh, of V sk] by blast
  have rep: "reported n 0 0 sv"
    unfolding reported_def using new_server_reported [OF conjunct1 [OF sv]] by simp
  have "unat (of_nat port :: 16 word) = port" using port(2) by (simp add: unat_of_nat)
  then have peers: "localhost_peer_config P n (of_nat port) = Inr (sc_peers ?c)"
    using localhost_peers [of P "of_nat port" n] port n by (simp add: cli_config_def)
  have conf: "\<lparr>sc_peers = sc_peers ?c, sc_db_config = dbc_new 1 (2 ^ k1) (2 ^ k2) (Some (replicate 32 42))\<rparr> = ?c" by (simp add: cli_config_def)
  have mf: "get_measurement_file (env p) (?a p) = Inr (if out_fs p = [] then None else Some [])" if "p < n" for p
    using env [OF that] by (simp add: get_measurement_file_def os_ok_def rassert_def) (simp add: cli_for_def)
  have "run_server P R S G V (sk p) (mh p) cs (env p) (?a p) =
      run_repetitions P R S G V (env p) (?a p) (pc_new n (dbc_new 1 (2 ^ k1) (2 ^ k2) None) ?c) Q 0 (sv p) cs
        (if out_fs p = [] then None else Some []) (rng_from_seed R (replicate 32 13))" if "p < n" for p G cs
    using sv [OF that] mf [OF that] by (simp add: run_server_def Let_def del: One_nat_def) (simp add: cli_for_def peers conf del: One_nat_def)
  then show ?thesis using that [OF db ready rep] sv by blast
qed

text \<open>The messages of a whole run, whatever is received.\<close>

lemma talks_program:
  fixes mh :: "nat \<Rightarrow> 'g::ab_group_add message_handler"
  assumes R: "rng_ok R" and S: "scalar_from_ok S" and G: "codec_ok G"
    and n: "2 \<le> n" "n \<le> 256" and k: "3 \<le> k1" "k1 < 32" "0 < k2" "k2 \<le> k1" "k1 + k2 \<le> 32" and Q: "0 < Q"
    and port: "P = Release \<or> port + n \<le> 2 ^ 16" "port < 2 ^ 16" and mh: "\<And>p. p < n \<Longrightarrow> mh_ready n p (mh p)"
    and env: "\<And>p. p < n \<Longrightarrow> os_ok (env p) (cli_for n k1 k2 Q port out_fs p)" and p: "p < n"
  shows "talks (run_server P R S G V (sk p) (mh p) cs (env p) (cli_for n k1 k2 Q port out_fs p)) (concat (replicate Q (query_msgs k1 k2))) (\<lambda>_. True)"
proof -
  have k2: "k2 < 32" using k by simp
  obtain db sv where db: "db_dims db k1 k2" "servers_ready n (Q * beaver_per_q (sc_db_config (cli_config n (of_nat port) k1 k2))) 0 (Q * 36) 0 db sv"
    and run: "\<And>p G cs. p < n \<Longrightarrow> run_server P R S G V (sk p) (mh p) cs (env p) (cli_for n k1 k2 Q port out_fs p) =
      run_repetitions P R S G V (env p) (cli_for n k1 k2 Q port out_fs p) (pc_new n (dbc_new 1 (2 ^ k1) (2 ^ k2) None) (cli_config n (of_nat port) k1 k2)) Q 0
        (sv p) cs (if out_fs p = [] then None else Some []) (rng_from_seed R (replicate 32 13))"
    by (rule run_server_starts [OF R S n k Q port mh env, where V = V and sk = sk]) (assumption | blast)+
  show ?thesis unfolding run [OF p]
    by (rule talks_repetitions [OF servers_idle [OF db(2,1) p] G cli_client_ok k(2) k2 _ p]) (simp add: cli_for_def)
qed

section \<open>The program of all parties\<close>

lemma run_server_reports:
  fixes mh :: "nat \<Rightarrow> 'g::ab_group_add message_handler"
  assumes R: "rng_ok R" and S: "scalar_from_ok S" and G: "group_ok G" "codec_ok G" and V: "sig_ok V"
    and n: "2 \<le> n" "n \<le> 256" and k: "3 \<le> k1" "k1 < 32" "0 < k2" "k2 \<le> k1" "k1 + k2 \<le> 32" and Q: "0 < Q"
    and port: "P = Release \<or> port + n \<le> 2 ^ 16" "port < 2 ^ 16" and mh: "\<And>p. p < n \<Longrightarrow> mh_ready n p (mh p)"
    and cs: "\<And>p. p < n \<Longrightarrow> mset (cs p) = mset (counters_start n p)"
    and T: "P = Release \<or> (n - 1) * (query_traffic k1 k2 + 6) < 2 ^ 32"
    and env: "\<And>p. p < n \<Longrightarrow> os_ok (env p) (cli_for n k1 k2 Q port out_fs p)"
  shows "\<exists>db. db_from_config R (sc_db_config (cli_config n (of_nat port) k1 k2)) = Inr db \<and> db_total_size db = 2 ^ (k1 + k2) \<and>
    all_finish n (\<lambda>p. run_server P R S G V (sk p) (mh p) (cs p) (env p) (cli_for n k1 k2 Q port out_fs p))
      (\<lambda>out. \<forall>p<n. reports_ok S G V (sg_verifying_key V (sk 0)) db n k1 k2 p Q (fst (out p)) \<and>
        file_ok (env p) n k1 k2 p (out_fs p) (fst (out p)) (snd (out p)))"
proof -
  let ?c = "cli_config n (of_nat port) k1 k2" and ?cl = "pc_new n (dbc_new 1 (2 ^ k1) (2 ^ k2) None) (cli_config n (of_nat port) k1 k2)"
  let ?N = "Q * beaver_per_q (sc_db_config ?c)" and ?M = "Q * 36" and ?rng = "rng_from_seed R (replicate 32 13)"
  let ?a = "cli_for n k1 k2 Q port out_fs" and ?fs = "\<lambda>p. if out_fs p = [] then None else Some []"
  have c: "config_ok ?c k1 k2" by (rule cli_config_ok [OF n k])
  obtain db sv where db: "db_from_config R (sc_db_config ?c) = Inr db" "db_dims db k1 k2"
      and ready: "servers_ready n ?N 0 ?M 0 db sv" and rep: "reported n 0 0 sv"
      and sv: "\<And>p. p < n \<Longrightarrow> sv_sk (sv p) = sk p \<and> sv_pk (sv p) = sg_verifying_key V (sk p)"
      and run: "\<And>p G cs. p < n \<Longrightarrow> run_server P R S G V (sk p) (mh p) cs (env p) (?a p) =
        run_repetitions P R S G V (env p) (?a p) ?cl Q 0 (sv p) cs (?fs p) ?rng"
    by (rule run_server_starts [OF R S n k Q port mh env, where V = V and sk = sk]) (assumption | blast)+
  have n0: "0 < n" "k1 > 0" using n k by simp_all
  have "8 * (Q * query_bytes k1 k2) \<le> ?N" using query_budget(1) [OF c] by simp
  then have N: "0 + Q * query_bytes k1 k2 \<le> div_ceil ?N 8" unfolding div_ceil_def by linarith
  have M: "0 + Q * (k1 + k2 + 1) \<le> ?M" using k(5) by simp
  have sums: "sum_sent (cs p) = 6 * p" "sum_received (cs p) = 6 * (n - 1 - p)" if "p < n" for p
    using sums_mset [OF cs [OF that]] by (simp_all add: counters_start_sums [OF that])
  have ok: "counters_ok P n (query_traffic k1 k2) p (cs p)" if "p < n" for p
  proof -
    have "mset (map fst (cs p)) = mset (map fst (counters_start n p))" using cs [OF that] by simp
    then have "mset (map fst (cs p)) = mset (others n p)" by (simp only: counters_fst)
    moreover have "6 * p \<le> 6 * (n - 1)" "6 * (n - 1 - p) \<le> 6 * (n - 1)" using that by simp_all
    ultimately show ?thesis using T by (auto simp: counters_ok_def sums [OF that] add_mult_distrib2)
  qed
  have fin: "all_finish n (\<lambda>p. run_repetitions P R S G V (env p) (?a p) ?cl Q 0 (sv p) (cs p) (?fs p) ?rng)
      (\<lambda>out. \<forall>p<n. reports_ok S G V (sg_verifying_key V (sk 0)) db n k1 k2 p Q (fst (out p)) \<and>
        file_ok (env p) n k1 k2 p (out_fs p) (fst (out p)) (snd (out p)))"
  proof (rule all_finish_mono [OF repetitions_report [OF S G V n(1) db(2) cli_client_ok n0(2) k(2,3,5) query_budget(2) [OF c] env _ ready rep _ N M ok]])
    fix out
    assume out: "\<forall>p<n. \<exists>rps. out p = (rps, map_option (\<lambda>t. t @ concat (map rp_log rps)) (?fs p)) \<and> length rps = Q \<and>
      (\<forall>rp\<in>set rps. report_ok S G V (sv_pk (sv 0)) db k1 k2 p rp) \<and> (\<forall>j<Q. log_ok (env p) n k1 k2 p (0 + j) (rps ! j)) \<and>
      map rp_stat rps = take Q (bandwidth n (query_traffic k1 k2) (sum_sent (cs p)) (sum_received (cs p)) #
        replicate Q (bandwidth n (query_traffic k1 k2) 0 0))"
    show "\<forall>p<n. reports_ok S G V (sg_verifying_key V (sk 0)) db n k1 k2 p Q (fst (out p)) \<and> file_ok (env p) n k1 k2 p (out_fs p) (fst (out p)) (snd (out p))"
    proof (intro allI impI)
      fix p assume p: "p < n"
      then obtain rps where r: "out p = (rps, map_option (\<lambda>t. t @ concat (map rp_log rps)) (?fs p))" "length rps = Q"
        "\<forall>rp\<in>set rps. report_ok S G V (sv_pk (sv 0)) db k1 k2 p rp" "\<forall>j<Q. log_ok (env p) n k1 k2 p (0 + j) (rps ! j)"
        "map rp_stat rps = take Q (bandwidth n (query_traffic k1 k2) (sum_sent (cs p)) (sum_received (cs p)) #
          replicate Q (bandwidth n (query_traffic k1 k2) 0 0))" using out by blast
      have "file_ok (env p) n k1 k2 p (out_fs p) rps (map_option (\<lambda>t. t @ concat (map rp_log rps)) (?fs p))"
        using read_logs [of rps "env p" n k1 k2 p 0] r(2,4) by (simp add: file_ok_def)
      then show "reports_ok S G V (sg_verifying_key V (sk 0)) db n k1 k2 p Q (fst (out p)) \<and> file_ok (env p) n k1 k2 p (out_fs p) (fst (out p)) (snd (out p))"
        using r sv [OF n0(1)] by (simp add: reports_ok_def sums [OF p])
    qed
  qed (use sv [OF n0(1)] in \<open>simp_all add: cli_for_def\<close>)
  have "all_finish n (\<lambda>p. run_server P R S G V (sk p) (mh p) (cs p) (env p) (cli_for n k1 k2 Q port out_fs p))
      (\<lambda>out. \<forall>p<n. reports_ok S G V (sg_verifying_key V (sk 0)) db n k1 k2 p Q (fst (out p)) \<and>
        file_ok (env p) n k1 k2 p (out_fs p) (fst (out p)) (snd (out p)))"
    by (intro all_finish_cong [OF fin]) (simp add: run)
  moreover have "db_total_size db = 2 ^ (k1 + k2)" using db(2) by (simp add: db_dims_def db_total_size_def power_add)
  ultimately show ?thesis using db(1) by blast
qed

text \<open>
  The same over sockets: when each has room for the longest frame, all executions end as the rounds do; otherwise none gets
  beyond this frame.
\<close>

lemma run_server_sockets:
  fixes mh :: "nat \<Rightarrow> 'g::ab_group_add message_handler"
  assumes R: "rng_ok R" and S: "scalar_from_ok S" and G: "group_ok G" "codec_ok G" and V: "sig_ok V"
    and n: "2 \<le> n" "n \<le> 256" and k: "3 \<le> k1" "k1 < 32" "0 < k2" "k2 \<le> k1" "k1 + k2 \<le> 32" and Q: "0 < Q"
    and port: "P = Release \<or> port + n \<le> 2 ^ 16" "port < 2 ^ 16" and mh: "\<And>p. p < n \<Longrightarrow> mh_ready n p (mh p)"
    and cs: "\<And>p. p < n \<Longrightarrow> mset (cs p) = mset (counters_start n p)"
    and T: "P = Release \<or> (n - 1) * (query_traffic k1 k2 + 6) < 2 ^ 32"
    and env: "\<And>p. p < n \<Longrightarrow> os_ok (env p) (cli_for n k1 k2 Q port out_fs p)"
  shows "longest_frame k1 k2 \<le> B \<Longrightarrow> \<exists>db. db_from_config R (sc_db_config (cli_config n (of_nat port) k1 k2)) = Inr db \<and> db_total_size db = 2 ^ (k1 + k2) \<and>
      so_ends n B (so_finished n (\<lambda>out. \<forall>p<n. reports_ok S G V (sg_verifying_key V (sk 0)) db n k1 k2 p Q (fst (out p)) \<and>
          file_ok (env p) n k1 k2 p (out_fs p) (fst (out p)) (snd (out p))))
        (so_init n (\<lambda>p. run_server P R S G V (sk p) (mh p) (cs p) (env p) (cli_for n k1 k2 Q port out_fs p)))"
    and "B < longest_frame k1 k2 \<Longrightarrow>
      so_ends n B (\<lambda>s. \<forall>p<n. (\<exists>m k. so_prog s p = Broadcast m k) \<or> (\<exists>k. so_prog s p = ReceiveAll k))
        (so_init n (\<lambda>p. run_server P R S G V (sk p) (mh p) (cs p) (env p) (cli_for n k1 k2 Q port out_fs p)))"
proof -
  let ?ps = "\<lambda>p. run_server P R S G V (sk p) (mh p) (cs p) (env p) (cli_for n k1 k2 Q port out_fs p)"
  let ?L = "concat (replicate Q (query_msgs k1 k2))"
  have n0: "0 < n" using n by simp
  have talk: "talks (?ps p) ?L (\<lambda>_. True)" if "p < n" for p
    by (rule talks_program [OF R S G(2) n k Q port mh env that])
  have L: "set ?L = set (query_msgs k1 k2)" using Q by (simp add: set_replicate_conv_if)
  have small: "\<forall>l\<in>set ?L. l < 2 ^ 32"
    unfolding L using query_msgs_framable [of k1 k2] query_budget(2) [OF cli_config_ok [OF n k]] k by auto
  obtain db where db: "db_from_config R (sc_db_config (cli_config n (of_nat port) k1 k2)) = Inr db" "db_total_size db = 2 ^ (k1 + k2)"
    and fin: "all_finish n ?ps (\<lambda>out. \<forall>p<n. reports_ok S G V (sg_verifying_key V (sk 0)) db n k1 k2 p Q (fst (out p)) \<and>
        file_ok (env p) n k1 k2 p (out_fs p) (fst (out p)) (snd (out p)))"
    using run_server_reports [OF R S G V n k Q port mh cs T env, of sk] by blast
  { assume B: "longest_frame k1 k2 \<le> B"
    have "\<forall>l\<in>set ?L. l < 2 ^ 32 \<and> l + 4 \<le> B" using small B query_msgs_longest [of _ k1 k2] unfolding L by fastforce
    then have msgs: "all_msgs (\<lambda>m. length m < 2 ^ 32 \<and> length m + 4 \<le> B) (?ps p)" if "p < n" for p
      by (rule talks_all_msgs [OF talk [OF that]])
    have "all_msgs (\<lambda>m. framable m \<and> length (framed m) \<le> B) (?ps p)" if "p < n" for p
      by (rule all_msgs_mono [OF msgs [OF that]]) auto
    from so_all_end [OF fin n0 this] db
    show "\<exists>db. db_from_config R (sc_db_config (cli_config n (of_nat port) k1 k2)) = Inr db \<and> db_total_size db = 2 ^ (k1 + k2) \<and>
      so_ends n B (so_finished n (\<lambda>out. \<forall>p<n. reports_ok S G V (sg_verifying_key V (sk 0)) db n k1 k2 p Q (fst (out p)) \<and>
          file_ok (env p) n k1 k2 p (out_fs p) (fst (out p)) (snd (out p)))) (so_init n ?ps)" by blast }
  assume B: "B < longest_frame k1 k2"
  obtain l where "l \<in> set ?L" "longest_frame k1 k2 = l + 4" unfolding L by (rule longest_frame_msg)
  then obtain i where "i < length ?L" "B < ?L ! i + 4" using B unfolding in_set_conv_nth by metis
  from all_held_up [OF fin n(1) talk small this]
  show "so_ends n B (\<lambda>s. \<forall>p<n. (\<exists>m k. so_prog s p = Broadcast m k) \<or> (\<exists>k. so_prog s p = ReceiveAll k)) (so_init n ?ps)" .
qed

end
