(* ===== verification/Startup.thy ===== *)
theory Startup
  imports Protocol
begin

text \<open>
  The start of all servers as an asynchronous system. Each one binds its listening socket (\<open>listen\<close> in
  \<open>src/prc/connection.rs\<close>), connects to the peers of lower id, one after the other and without a second try (\<open>connect\<close>), and waits
  until it has a connection to every peer (\<open>wait_till_ready\<close>), while its listener accepts the peers of higher id
  (\<open>PRCServer::new\<close> in \<open>src/prc/server.rs\<close>). The parties run at their own pace.
\<close>

section \<open>The steps\<close>

text \<open>\<open>Connecting k\<close>: connected to the peers below \<open>k\<close>; \<open>Crashed k\<close>: the connection to \<open>k\<close> was refused, on which \<open>unwrap\<close> panics.\<close>

datatype phase = Starting | Connecting nat | Waiting | Serving | Crashed nat

text \<open>Peers whose connection was established and not yet accepted wait in the backlog of the listening socket.\<close>

record startup =
  su_phase :: "nat \<Rightarrow> phase"
  su_backlog :: "nat \<Rightarrow> nat list"
  su_accepted :: "nat \<Rightarrow> nat list"

definition su_init :: startup where
  "su_init = \<lparr>su_phase = (\<lambda>_. Starting), su_backlog = (\<lambda>_. []), su_accepted = (\<lambda>_. [])\<rparr>"

definition listening :: "startup \<Rightarrow> nat \<Rightarrow> bool" where
  "listening s p \<longleftrightarrow> (case su_phase s p of Starting \<Rightarrow> False | Crashed _ \<Rightarrow> False | _ \<Rightarrow> True)"

definition su_goto :: "nat \<Rightarrow> phase \<Rightarrow> startup \<Rightarrow> startup" where
  "su_goto p ph s = s\<lparr>su_phase := (su_phase s)(p := ph)\<rparr>"

definition su_queue :: "nat \<Rightarrow> nat list \<Rightarrow> nat list \<Rightarrow> startup \<Rightarrow> startup" where
  "su_queue p waiting accepted s = s\<lparr>su_backlog := (su_backlog s)(p := waiting), su_accepted := (su_accepted s)(p := accepted)\<rparr>"

text \<open>
  \<open>is_ready\<close>, for which \<open>wait_till_ready\<close> polls: a connection for every other party. When the server waits, the \<open>p\<close> it has made are there, and
  those its listener has accepted.
\<close>

definition su_ready :: "nat \<Rightarrow> startup \<Rightarrow> nat \<Rightarrow> bool" where
  "su_ready n s p \<longleftrightarrow> p + length (su_accepted s p) = n - 1"

text \<open>With \<open>in_order\<close>, as when one task polls all of them in turn (\<open>full_setup\<close>), a server starts after those of lower id.\<close>

inductive su_step :: "bool \<Rightarrow> nat \<Rightarrow> startup \<Rightarrow> startup \<Rightarrow> bool" for in_order :: bool and n :: nat where
  listen: "p < n \<Longrightarrow> su_phase s p = Starting \<Longrightarrow> (in_order \<Longrightarrow> (\<forall>q<p. listening s q)) \<Longrightarrow> su_step in_order n s (su_goto p (Connecting 0) s)"
| connect: "p < n \<Longrightarrow> su_phase s p = Connecting k \<Longrightarrow> k < p \<Longrightarrow> listening s k \<Longrightarrow>
     su_step in_order n s (su_queue k (su_backlog s k @ [p]) (su_accepted s k) (su_goto p (Connecting (Suc k)) s))"
| refused: "p < n \<Longrightarrow> su_phase s p = Connecting k \<Longrightarrow> k < p \<Longrightarrow> \<not> listening s k \<Longrightarrow> su_step in_order n s (su_goto p (Crashed k) s)"
| connected: "p < n \<Longrightarrow> su_phase s p = Connecting p \<Longrightarrow> su_step in_order n s (su_goto p Waiting s)"
| accept: "p < n \<Longrightarrow> listening s p \<Longrightarrow> su_backlog s p = q # qs \<Longrightarrow> su_step in_order n s (su_queue p qs (su_accepted s p @ [q]) s)"
| ready: "p < n \<Longrightarrow> su_phase s p = Waiting \<Longrightarrow> su_ready n s p \<Longrightarrow> su_step in_order n s (su_goto p Serving s)"

lemma su_simps [simp]:
  "su_phase (su_goto p ph s) q = (if q = p then ph else su_phase s q)" "su_backlog (su_goto p ph s) = su_backlog s"
  "su_accepted (su_goto p ph s) = su_accepted s" "su_phase (su_queue p w a s) = su_phase s"
  "su_backlog (su_queue p w a s) q = (if q = p then w else su_backlog s q)"
  "su_accepted (su_queue p w a s) q = (if q = p then a else su_accepted s q)"
  by (auto simp: su_goto_def su_queue_def)

lemma listening_simps [simp]:
  "listening (su_queue p w a s) = listening s"
  "listening (su_goto p ph s) q = (if q = p then (case ph of Starting \<Rightarrow> False | Crashed _ \<Rightarrow> False | _ \<Rightarrow> True) else listening s q)"
  by (auto simp: listening_def fun_eq_iff)

section \<open>Every start comes to an end\<close>

definition steps_left :: "nat \<Rightarrow> phase \<Rightarrow> nat" where
  "steps_left p ph = (case ph of Starting \<Rightarrow> 2 * p + 3 | Connecting k \<Rightarrow> 2 * (p - k) + 2 | Waiting \<Rightarrow> 1 | _ \<Rightarrow> 0)"

definition su_measure :: "nat \<Rightarrow> startup \<Rightarrow> nat" where
  "su_measure n s = (\<Sum>p<n. steps_left p (su_phase s p) + length (su_backlog s p))"

lemma sum_one_less:
  fixes f g :: "nat \<Rightarrow> nat"
  assumes "p < n" "f p < g p" "\<And>q. q < n \<Longrightarrow> q \<noteq> p \<Longrightarrow> f q = g q"
  shows "sum f {..<n} < sum g {..<n}"
  using assms by (intro sum_strict_mono_ex1) (auto, metis order_refl less_imp_le)

lemma su_step_decreases: "su_step in_order n s s' \<Longrightarrow> su_measure n s' < su_measure n s"
proof (induction rule: su_step.induct)
  case (connect p s k)
  let ?f = "\<lambda>q. steps_left q (if q = p then Connecting (Suc k) else su_phase s q)" and ?g = "\<lambda>q. steps_left q (su_phase s q)"
  let ?b = "\<lambda>q. length (if q = k then su_backlog s k @ [p] else su_backlog s q)" and ?c = "\<lambda>q. length (su_backlog s q)"
  have kn: "k < n" using connect by simp
  have "sum ?f {..<n} = sum ?f ({..<n} - {p}) + ?f p" "sum ?g {..<n} = sum ?g ({..<n} - {p}) + ?g p"
    using connect(1) by (simp_all add: sum.remove [of _ p] add.commute)
  moreover have "sum ?f ({..<n} - {p}) = sum ?g ({..<n} - {p})" by (intro sum.cong) auto
  ultimately have f: "sum ?f {..<n} + 2 = sum ?g {..<n}" using connect(2,3) by (simp add: steps_left_def)
  have "sum ?b {..<n} = sum ?b ({..<n} - {k}) + ?b k" "sum ?c {..<n} = sum ?c ({..<n} - {k}) + ?c k"
    using kn by (simp_all add: sum.remove [of _ k] add.commute)
  moreover have "sum ?b ({..<n} - {k}) = sum ?c ({..<n} - {k})" by (intro sum.cong) auto
  ultimately have "sum ?b {..<n} = sum ?c {..<n} + 1" by simp
  then show ?case using f by (simp add: su_measure_def sum.distrib cong: if_cong)
qed (auto simp: su_measure_def steps_left_def intro!: sum_one_less)

lemma su_step_wf: "wf {(s', s). su_step in_order n s s'}"
  by (rule wf_subset [OF wf_measure [of "su_measure n"]]) (auto dest: su_step_decreases)

lemma su_final: "\<exists>s'. (su_step in_order n)\<^sup>*\<^sup>* s s' \<and> (\<forall>t. \<not> su_step in_order n s' t)"
proof (induction s rule: wf_induct_rule [OF su_step_wf [of in_order n]])
  case (1 s)
  show ?case
  proof (cases "\<exists>t. su_step in_order n s t")
    case True
    then obtain t where t: "su_step in_order n s t" by blast
    then show ?thesis using 1 [of t] by (auto intro: converse_rtranclp_into_rtranclp)
  qed blast
qed

section \<open>Who is connected to whom\<close>

definition progress :: "nat \<Rightarrow> phase \<Rightarrow> nat" where
  "progress p ph = (case ph of Starting \<Rightarrow> 0 | Connecting k \<Rightarrow> k | Crashed k \<Rightarrow> k | _ \<Rightarrow> p)"

definition su_inv :: "bool \<Rightarrow> nat \<Rightarrow> startup \<Rightarrow> bool" where
  "su_inv in_order n s \<longleftrightarrow>
     (\<forall>q<n. mset (su_accepted s q @ su_backlog s q) = mset_set {p. q < p \<and> p < n \<and> q < progress p (su_phase s p)}) \<and>
     (\<forall>p<n. \<forall>k. su_phase s p = Connecting k \<longrightarrow> k \<le> p) \<and> (\<forall>p<n. \<forall>k. su_phase s p = Crashed k \<longrightarrow> k < p \<and> \<not> in_order) \<and>
     (in_order \<longrightarrow> (\<forall>p<n. su_phase s p \<noteq> Starting \<longrightarrow> (\<forall>q<p. su_phase s q \<noteq> Starting)))"

lemma su_inv_init: "su_inv in_order n su_init"
  by (simp add: su_inv_def su_init_def progress_def)

lemma connected_add:
  assumes "k < p" "p < n" "progress p (f p) = k" "progress p ph = Suc k"
  shows "{r. q < r \<and> r < n \<and> q < progress r ((f(p := ph)) r)} =
    (if q = k then insert p {r. q < r \<and> r < n \<and> q < progress r (f r)} else {r. q < r \<and> r < n \<and> q < progress r (f r)})"
  using assms by (auto split: if_splits)

lemma connected_same:
  assumes "progress p (f p) = progress p ph"
  shows "{r. q < r \<and> r < n \<and> q < progress r (if r = p then ph else f r)} = {r. q < r \<and> r < n \<and> q < progress r (f r)}"
  using assms by auto

lemma su_inv_goto:
  assumes inv: "su_inv in_order n s" and p: "progress p (su_phase s p) = progress p ph"
    and ph: "ph \<noteq> Starting" "\<And>k. ph = Connecting k \<Longrightarrow> k \<le> p" "\<And>k. ph = Crashed k \<Longrightarrow> k < p \<and> \<not> in_order"
    and low: "in_order \<Longrightarrow> \<forall>q<p. su_phase s q \<noteq> Starting"
  shows "su_inv in_order n (su_goto p ph s)"
  unfolding su_inv_def su_simps connected_same [of p "su_phase s" ph, OF p]
proof (intro conjI allI impI)
  show "mset (su_accepted s q @ su_backlog s q) = mset_set {r. q < r \<and> r < n \<and> q < progress r (su_phase s r)}" if "q < n" for q
    using inv that unfolding su_inv_def by blast
  show "k \<le> r" if "r < n" "(if r = p then ph else su_phase s r) = Connecting k" for r k
    using inv ph(2) that unfolding su_inv_def by (metis (full_types))
  show "k < r" "\<not> in_order" if "r < n" "(if r = p then ph else su_phase s r) = Crashed k" for r k
    using inv ph(3) that unfolding su_inv_def by (metis (full_types))+
  show "(if q = p then ph else su_phase s q) \<noteq> Starting"
    if "in_order" "r < n" "(if r = p then ph else su_phase s r) \<noteq> Starting" "q < r" for q r
    using inv ph(1) low that unfolding su_inv_def by (metis (full_types))
qed

lemma su_inv_connect:
  assumes inv: "su_inv in_order n s" and p: "p < n" "su_phase s p = Connecting k" "k < p"
  shows "su_inv in_order n (su_queue k (su_backlog s k @ [p]) (su_accepted s k) (su_goto p (Connecting (Suc k)) s))"
proof -
  let ?C = "\<lambda>q. {r. q < r \<and> r < n \<and> q < progress r (su_phase s r)}"
  have C: "{r. q < r \<and> r < n \<and> q < progress r (if r = p then Connecting (Suc k) else su_phase s r)} = (if q = k then insert p (?C q) else ?C q)" for q
    using connected_add [of k p n "su_phase s" "Connecting (Suc k)" q] p by (simp add: progress_def fun_upd_def)
  have new: "p \<notin> ?C k" using p by (simp add: progress_def)
  have m: "mset (su_accepted s q @ su_backlog s q) = mset_set (?C q)" if "q < n" for q using inv that unfolding su_inv_def by blast
  show ?thesis
    unfolding su_inv_def su_simps C
  proof (intro conjI allI impI)
    show "mset ((if q = k then su_accepted s k else su_accepted s q) @ (if q = k then su_backlog s k @ [p] else su_backlog s q))
        = mset_set (if q = k then insert p (?C q) else ?C q)" if "q < n" for q
      using m [OF that] new by (cases "q = k") auto
    show "j \<le> r" if "r < n" "(if r = p then Connecting (Suc k) else su_phase s r) = Connecting j" for r j
      using inv that p(3) unfolding su_inv_def by (metis Suc_leI phase.inject(1))
    show "j < r" "\<not> in_order" if "r < n" "(if r = p then Connecting (Suc k) else su_phase s r) = Crashed j" for r j
      using inv that unfolding su_inv_def by (metis phase.distinct(13))+
    show "(if q = p then Connecting (Suc k) else su_phase s q) \<noteq> Starting"
      if "in_order" "r < n" "(if r = p then Connecting (Suc k) else su_phase s r) \<noteq> Starting" "q < r" for q r
      using inv that p(1,2) unfolding su_inv_def by (metis phase.distinct(1))
  qed
qed

lemma in_order_listening:
  assumes "su_inv True n s" "p < n" "su_phase s p \<noteq> Starting" "k < p"
  shows "listening s k"
proof -
  have "k < n" using assms by simp
  then have "su_phase s k \<noteq> Starting" "su_phase s k \<noteq> Crashed j" for j using assms unfolding su_inv_def by blast+
  then show ?thesis by (simp add: listening_def split: phase.splits)
qed

lemma not_starting_below: "su_inv in_order n s \<Longrightarrow> p < n \<Longrightarrow> su_phase s p \<noteq> Starting \<Longrightarrow> in_order \<Longrightarrow> \<forall>q<p. su_phase s q \<noteq> Starting"
  unfolding su_inv_def by blast

lemma su_inv_step:
  assumes "su_step in_order n s s'" "su_inv in_order n s"
  shows "su_inv in_order n s'"
  using assms(1)
proof (cases rule: su_step.cases)
  case (listen p)
  have "\<forall>q<p. su_phase s q \<noteq> Starting" if in_order using listen(4) [OF that] by (auto simp: listening_def)
  then show ?thesis unfolding listen(1) by (intro su_inv_goto [OF assms(2)]) (use listen(3) in \<open>simp_all add: progress_def\<close>)
next
  case (connect p k)
  then show ?thesis using su_inv_connect [OF assms(2)] by simp
next
  case (refused p k)
  have "\<not> in_order"
  proof
    assume in_order
    then show False using in_order_listening [of n s p k] assms(2) refused(2-) by simp
  qed
  then show ?thesis unfolding refused(1) by (intro su_inv_goto [OF assms(2)]) (use refused(3,4) in \<open>simp_all add: progress_def\<close>)
next
  case (connected p)
  then show ?thesis using not_starting_below [OF assms(2), of p] unfolding connected(1) by (intro su_inv_goto [OF assms(2)]) (simp_all add: progress_def)
next
  case (accept p q qs)
  have "mset (su_accepted s' r @ su_backlog s' r) = mset (su_accepted s r @ su_backlog s r)" for r using accept by simp
  moreover have "su_phase s' = su_phase s" using accept(1) by simp
  ultimately show ?thesis using assms(2) unfolding su_inv_def by presburger
next
  case (ready p)
  then show ?thesis using not_starting_below [OF assms(2), of p] unfolding ready(1) by (intro su_inv_goto [OF assms(2)]) (simp_all add: progress_def)
qed

lemma su_inv_reached: "(su_step in_order n)\<^sup>*\<^sup>* su_init s \<Longrightarrow> su_inv in_order n s"
  by (induction rule: rtranclp_induct) (auto intro: su_inv_init su_inv_step)

lemma starts:
  assumes inv: "su_inv in_order n s" and stuck: "\<And>t. \<not> su_step in_order n s t" and alive: "\<And>p k. p < n \<Longrightarrow> su_phase s p \<noteq> Crashed k" and p: "p < n"
  shows "su_phase s p \<noteq> Starting"
  using p
proof (induction p rule: less_induct)
  case (less p)
  show ?case
  proof
    assume "su_phase s p = Starting"
    moreover have "\<forall>q<p. listening s q"
    proof (intro allI impI)
      fix q assume "q < p"
      then have "q < n" "su_phase s q \<noteq> Starting" using less by simp_all
      then show "listening s q" using alive [of q] by (simp add: listening_def split: phase.splits)
    qed
    ultimately show False using su_step.listen [of p n s in_order] less.prems stuck by blast
  qed
qed

text \<open>Where nothing can happen any more and nobody crashed, everybody serves.\<close>

lemma final_serving:
  assumes inv: "su_inv in_order n s" and stuck: "\<And>t. \<not> su_step in_order n s t" and alive: "\<And>p k. p < n \<Longrightarrow> su_phase s p \<noteq> Crashed k" and p: "p < n"
  shows "su_phase s p = Serving \<and> mset (su_accepted s p) = mset [Suc p..<n]"
proof -
  have lst: "listening s q" if "q < n" for q
    using starts [OF inv stuck alive that] alive [OF that] by (simp add: listening_def split: phase.splits)
  have ph: "su_phase s q = Waiting \<or> su_phase s q = Serving" if q: "q < n" for q
  proof (cases "su_phase s q")
    case (Connecting k)
    then have "k \<le> q" using inv q unfolding su_inv_def by blast
    then consider "k < q" "k < n" | "k = q" using q by linarith
    then show ?thesis
    proof cases
      case 1
      then show ?thesis using su_step.connect [OF q Connecting 1(1) lst [OF 1(2)]] stuck by blast
    next
      case 2
      then show ?thesis using su_step.connected [OF q] Connecting stuck by blast
    qed
  qed (use starts [OF inv stuck alive q] alive [OF q] in auto)
  have "su_backlog s p = []" using su_step.accept [OF p lst [OF p]] stuck by (cases "su_backlog s p") blast+
  moreover have "{r. p < r \<and> r < n \<and> p < progress r (su_phase s r)} = set [Suc p..<n]" 
  proof -
    have "progress r (su_phase s r) = r" if "r < n" for r using ph [OF that] by (auto simp: progress_def)
    then show ?thesis by auto
  qed
  moreover have "mset (su_accepted s p @ su_backlog s p) = mset_set {r. p < r \<and> r < n \<and> p < progress r (su_phase s r)}"
    using inv p unfolding su_inv_def by blast
  ultimately have acc: "mset (su_accepted s p) = mset [Suc p..<n]" by simp
  then have "length (su_accepted s p) = n - Suc p" using mset_eq_length by fastforce
  then have "su_phase s p \<noteq> Waiting" using su_step.ready [OF p] stuck p unfolding su_ready_def by force
  then show ?thesis using ph [OF p] acc by simp
qed

lemma crash_stays: "su_step in_order n s s' \<Longrightarrow> su_phase s p = Crashed k \<Longrightarrow> su_phase s' p = Crashed k"
  by (cases rule: su_step.cases) auto

text \<open>A server that lacks a peer is not ready.\<close>

lemma accepted_less:
  assumes inv: "su_inv in_order n s" and p: "su_phase s p = Crashed 0" "0 < p" "p < n"
  shows "length (su_accepted s 0) < n - 1"
proof -
  let ?C = "{r. 0 < r \<and> r < n \<and> 0 < progress r (su_phase s r)}"
  have C: "?C \<subseteq> {1..<n} - {p}" using p(1) by (auto simp: progress_def)
  have "mset (su_accepted s 0 @ su_backlog s 0) = mset_set ?C" using inv p(3) unfolding su_inv_def by (metis gr_zeroI not_less_zero)
  from arg_cong [OF this, of size] have "length (su_accepted s 0) \<le> card ?C" by simp
  also have "\<dots> \<le> card ({1..<n} - {p})" by (intro card_mono C) simp
  also have "\<dots> = n - 1 - 1" using p(2,3) by (subst card_Diff_singleton) auto
  also have "\<dots> < n - 1" using p(2,3) by simp
  finally show ?thesis .
qed

section \<open>Properties\<close>

text \<open>C14. Every start of the servers comes to an end, however they are interleaved. If it does not end with a server that has panicked
  because a peer of lower id was not listening, then all of them serve, and each has accepted exactly the peers of higher id, in
  some order. When the servers are started in the order of their ids, as \<open>full_setup\<close> does, none of them panics.\<close>

theorem startup_completes:
  assumes "(su_step in_order n)\<^sup>*\<^sup>* su_init s"
  shows "wf {(s', s). su_step in_order n s s'} \<and>
    ((\<forall>t. \<not> su_step in_order n s t) \<longrightarrow>
      (\<forall>p<n. su_phase s p = Serving \<and> mset (su_accepted s p) = mset [Suc p..<n]) \<or> \<not> in_order \<and> (\<exists>p<n. \<exists>k<p. su_phase s p = Crashed k))"
proof -
  note inv = su_inv_reached [OF assms]
  show ?thesis
  proof (cases "\<exists>p<n. \<exists>k. su_phase s p = Crashed k")
    case True
    then obtain p k where c: "p < n" "su_phase s p = Crashed k" by blast
    then have "k < p \<and> \<not> in_order" using inv unfolding su_inv_def by blast
    then have "\<not> in_order \<and> (\<exists>p<n. \<exists>k<p. su_phase s p = Crashed k)" using c by blast
    then show ?thesis using su_step_wf [of in_order n] by simp
  next
    case False
    have "\<forall>p<n. su_phase s p = Serving \<and> mset (su_accepted s p) = mset [Suc p..<n]" if "\<forall>t. \<not> su_step in_order n s t"
      using final_serving [OF inv] that False by (metis (no_types, lifting))
    then show ?thesis using su_step_wf [of in_order n] by (intro conjI impI disjI1)
  qed
qed

theorem startup_completes_witness:
  "\<exists>s. (su_step True 3)\<^sup>*\<^sup>* su_init s \<and> su_phase s 2 = Serving \<and> mset (su_accepted s 0) = {#1, 2#}"
proof -
  obtain s where s: "(su_step True 3)\<^sup>*\<^sup>* su_init s" "\<forall>t. \<not> su_step True 3 s t" using su_final by blast
  have "\<forall>p<3. su_phase s p = Serving \<and> mset (su_accepted s p) = mset [Suc p..<3]" using startup_completes [OF s(1)] s(2) by simp
  then have "su_phase s 2 = Serving \<and> mset (su_accepted s 0) = mset [Suc 0..<3]" by simp
  moreover have "mset [Suc 0..<3] = {#1, 2 :: nat#}" by (simp add: upt_rec)
  ultimately show ?thesis using s(1) by metis
qed

text \<open>C15. Without that order a start can fail for good: for two or more servers there is an execution in which server 1 connects to
  server 0 before that one listens and panics, and after which, whatever happens, server 0 never serves.\<close>

theorem startup_can_fail:
  assumes "2 \<le> n"
  shows "\<exists>s. (su_step False n)\<^sup>*\<^sup>* su_init s \<and> su_phase s 1 = Crashed 0 \<and>
    (\<forall>s'. (su_step False n)\<^sup>*\<^sup>* s s' \<longrightarrow> su_phase s' 0 \<noteq> Serving)"
proof -
  let ?s1 = "su_goto 1 (Connecting 0) su_init" and ?s2 = "su_goto 1 (Crashed 0) (su_goto 1 (Connecting 0) su_init)"
  have "su_step False n su_init ?s1" using assms by (intro su_step.listen) (simp_all add: su_init_def)
  moreover have "su_step False n ?s1 ?s2" using assms by (intro su_step.refused) (simp_all add: listening_def su_init_def)
  ultimately have reach: "(su_step False n)\<^sup>*\<^sup>* su_init ?s2" by (meson converse_rtranclp_into_rtranclp rtranclp.rtrancl_refl)
  have "su_phase s' 0 \<noteq> Serving \<and> su_phase s' 1 = Crashed 0 \<and> su_inv False n s'" if "(su_step False n)\<^sup>*\<^sup>* ?s2 s'" for s'
    using that
  proof (induction rule: rtranclp_induct)
    case base
    show ?case using su_inv_reached [OF reach] by (simp add: su_init_def)
  next
    case (step s s')
    have "\<not> su_ready n s 0" using accepted_less [of False n s 1] step.IH assms by (simp add: su_ready_def)
    with step.hyps(2) have "su_phase s' 0 \<noteq> Serving" using step.IH by (cases rule: su_step.cases) (auto split: if_splits intro: gr0I)
    then show ?case using crash_stays [OF step.hyps(2)] su_inv_step [OF step.hyps(2)] step.IH by blast
  qed
  then show ?thesis using reach by (intro exI [of _ ?s2]) simp
qed

theorem startup_can_fail_witness:
  "\<exists>s. (su_step False 2)\<^sup>*\<^sup>* su_init s \<and> su_phase s 1 = Crashed 0 \<and> (\<forall>s'. (su_step False 2)\<^sup>*\<^sup>* s s' \<longrightarrow> su_phase s' 0 \<noteq> Serving)"
  by (rule startup_can_fail) simp

end
