(* ===== verification/Privacy.thy ===== *)
theory Privacy
  imports Client
begin

unbundle bit_operations_syntax

text \<open>
  What the servers learn from a query. The client's random source is a tape of words and scalars that
  are drawn from it one by one, so that a statement about all tapes of the right length is one about ideal randomness.
  For every server that is left out there is a bijection on the tapes under which the queries of all other servers are the same for any two
  indices: drawn uniformly, they have the same distribution, and all servers but one together learn nothing of
  the index. The commitment that is signed hides what it commits to as well.
\<close>

section \<open>Tapes\<close>

record 's tape =
  tp_words :: "u32 list"
  tp_scalars :: "'s list"

definition tape_rng :: "'s tape rng_ops" where
  "tape_rng = \<lparr>rng_from_seed = (\<lambda>_. \<lparr>tp_words = [], tp_scalars = []\<rparr>),
     rng_next_u32 = (\<lambda>t. case tp_words t of [] \<Rightarrow> (0, t) | w # ws \<Rightarrow> (w, t\<lparr>tp_words := ws\<rparr>)),
     rng_fill = (\<lambda>n t. (replicate n 0, t))\<rparr>"

definition tape_scalars :: "('s::comm_ring_1, 'r) scalar_ops \<Rightarrow> ('s, 's tape) scalar_ops" where
  "tape_scalars S = \<lparr>sc_from_u32 = sc_from_u32 S,
     sc_random = (\<lambda>t. case tp_scalars t of [] \<Rightarrow> (0, t) | x # xs \<Rightarrow> (x, t\<lparr>tp_scalars := xs\<rparr>)),
     sc_to_bytes = sc_to_bytes S\<rparr>"

text \<open>What a query to \<open>n\<close> servers draws: two sharings of a word, the randomness of the commitment and its sharing.\<close>

definition tapes :: "nat \<Rightarrow> 's tape set" where
  "tapes n = {t. length (tp_words t) = 2 * (n - 1) \<and> length (tp_scalars t) = n}"

section \<open>Shares from a tape\<close>

abbreviation word_mask :: "nat \<Rightarrow> u32" where
  "word_mask l \<equiv> push_bit l 1 - 1"

lemma rtimes_tape_words:
  assumes "l < 32" "length ws = n"
  shows "rtimes n (\<lambda>rng. let (v, rng) = rng_next_u32 tape_rng rng in
      rbind (bv_new l (v AND word_mask l)) (\<lambda>b. Inr (b, rng))) \<lparr>tp_words = ws @ rest, tp_scalars = ss\<rparr>
    = Inr (map (\<lambda>w. \<lparr>bv_bit_len = l, bv_value = w AND word_mask l\<rparr>) ws, \<lparr>tp_words = rest, tp_scalars = ss\<rparr>)"
  using assms(2)
proof (induction ws arbitrary: n)
  case (Cons w ws)
  then show ?case
    using unat_and_mask [OF assms(1), of w] assms(1) by (cases n) (simp_all add: tape_rng_def bv_new_eq del: push_bit_of_1)
qed simp

lemma share_boolean_tape:
  assumes "0 < n" "length ws = n - 1" "l < 32" "unat x < 2 ^ l"
  shows "secret_share_boolean P tape_rng \<lparr>bv_bit_len = l, bv_value = x\<rparr> n \<lparr>tp_words = ws @ rest, tp_scalars = ss\<rparr>
    = Inr (map (\<lambda>v. \<lparr>bv_bit_len = l, bv_value = v\<rparr>) (map (\<lambda>w. w AND word_mask l) ws @ [foldl (XOR) x (map (\<lambda>w. w AND word_mask l) ws)]),
        \<lparr>tp_words = rest, tp_scalars = ss\<rparr>)"
proof -
  let ?ws = "map (\<lambda>w. w AND word_mask l) ws"
  have "unat (foldl (XOR) x ?ws) < 2 ^ l"
    using assms(4) foldl_xor_bound [of x l ?ws id] unat_and_mask [OF assms(3)] by auto
  then show ?thesis
    using rtimes_tape_words [OF assms(3,2), of rest ss] assms one_le_exp_u32 [OF assms(3)]
    by (simp add: secret_share_boolean_def bv_new_eq foldl_map del: push_bit_of_1)
qed

lemma share_arith_tape:
  assumes "0 < n" "length ss = n - 1"
  shows "secret_share_arith P (tape_scalars S) x n \<lparr>tp_words = ws, tp_scalars = ss @ rest\<rparr>
    = Inr (map (\<lambda>v. \<lparr>av_value = v\<rparr>) ss @ [foldl av_sub x (map (\<lambda>v. \<lparr>av_value = v\<rparr>) ss)], \<lparr>tp_words = ws, tp_scalars = rest\<rparr>)"
proof -
  have "rtimes (length ss) (\<lambda>rng. Inr (av_random (tape_scalars S) rng)) \<lparr>tp_words = ws, tp_scalars = ss @ rest\<rparr>
      = Inr (map (\<lambda>v. \<lparr>av_value = v\<rparr>) ss, \<lparr>tp_words = ws, tp_scalars = rest\<rparr>)"
    by (induction ss) (simp_all add: av_random_def tape_scalars_def)
  then show ?thesis using assms by (simp add: secret_share_arith_def)
qed

text \<open>Two secrets: the word of the party that is left out, if it has one, absorbs the difference.\<close>

definition absorb :: "nat \<Rightarrow> u32 \<Rightarrow> u32 list \<Rightarrow> u32 list" where
  "absorb h d ws = (if h < length ws then ws[h := ws ! h XOR d] else ws)"

lemma absorb_simps [simp]: "length (absorb h d ws) = length ws" "absorb h d (absorb h d ws) = ws"
  by (simp_all add: absorb_def xor.assoc)

lemma and_word_mask: "l < 32 \<Longrightarrow> unat d < 2 ^ l \<Longrightarrow> d AND word_mask l = d" for d :: u32
proof -
  assume "unat d < 2 ^ l"
  then have "unat (take_bit l d) = unat d" by (simp add: unsigned_take_bit_eq take_bit_nat_eq_self)
  then have "take_bit l d = d" by (simp only: word_unat_eq_iff)
  then show ?thesis by (simp add: take_bit_eq_mask mask_eq_exp_minus_1)
qed

lemma and_xor_distrib: "(w XOR d) AND m = (w AND m) XOR (d AND m)" for w d m :: u32
  by (rule bit_word_eqI) (auto simp: bit_and_iff bit_xor_iff)

lemma xor_and_mask:
  "l < 32 \<Longrightarrow> unat d < 2 ^ l \<Longrightarrow> (w XOR d) AND word_mask l = (w AND word_mask l) XOR d" for w d :: u32
  using and_word_mask [of l d] by (simp add: and_xor_distrib del: push_bit_of_1)

lemma foldl_xor_start: "foldl (XOR) (x XOR d) ws = foldl (XOR) x ws XOR d" for x d :: u32
proof (induction ws arbitrary: x)
  case (Cons w ws)
  have "(x XOR d) XOR w = (x XOR w) XOR d" by (simp only: xor.assoc xor.commute [of d w])
  then show ?case using Cons [of "x XOR w"] by simp
qed simp

lemma foldl_xor_update: "h < length ws \<Longrightarrow> foldl (XOR) x (ws[h := ws ! h XOR d]) = foldl (XOR) x ws XOR d" for x d :: u32
proof (induction ws arbitrary: h x)
  case (Cons w ws)
  then show ?case by (cases h) (simp_all add: foldl_xor_start xor.assoc xor.commute [of d])
qed simp

lemma absorb_shares:
  fixes x x' :: u32
  assumes "l < 32" "unat x < 2 ^ l" "unat x' < 2 ^ l" "p \<le> length ws" "h \<le> length ws" "p \<noteq> h"
  defines "m \<equiv> map (\<lambda>w. w AND word_mask l)"
  shows "(m (absorb h (x XOR x') ws) @ [foldl (XOR) x' (m (absorb h (x XOR x') ws))]) ! p = (m ws @ [foldl (XOR) x (m ws)]) ! p"
proof (cases "h < length ws")
  case True
  have d: "unat (x XOR x') < 2 ^ l" by (rule xor_bound [OF assms(2,3)])
  have m: "m (absorb h (x XOR x') ws) = (m ws)[h := m ws ! h XOR (x XOR x')]"
    using True xor_and_mask [OF assms(1) d] by (simp add: m_def absorb_def map_update del: push_bit_of_1)
  have "foldl (XOR) x' (m (absorb h (x XOR x') ws)) = foldl (XOR) x' (m ws) XOR (x XOR x')"
    unfolding m using True by (intro foldl_xor_update) (simp add: m_def)
  also have "\<dots> = foldl (XOR) (x' XOR (x XOR x')) (m ws)" by (rule foldl_xor_start [symmetric])
  also have "x' XOR (x XOR x') = x" by (simp add: xor.left_commute)
  finally have last: "foldl (XOR) x' (m (absorb h (x XOR x') ws)) = foldl (XOR) x (m ws)" .
  show ?thesis unfolding last unfolding m using assms(4,6) by (simp add: nth_append m_def)
next
  case False
  then show ?thesis using assms(4-6) by (simp add: absorb_def nth_append m_def)
qed

section \<open>The view of all servers but one\<close>

definition query_view ::
  "profile \<Rightarrow> ('s::comm_ring_1, 'r) scalar_ops \<Rightarrow> prc_client \<Rightarrow> nat \<Rightarrow> nat \<Rightarrow> 's tape \<Rightarrow> 's prc_query list option" where
  "query_view P S c h idx t =
     (case query_all_servers P tape_rng (tape_scalars S) c idx t of
        Inl e \<Rightarrow> None
      | Inr ((st, queries), rng) \<Rightarrow> Some (map (\<lambda>p. queries ! p) (filter (\<lambda>p. p \<noteq> h) [0..<length queries])))"

definition switch_tape :: "nat \<Rightarrow> nat \<Rightarrow> u32 \<Rightarrow> u32 \<Rightarrow> 's tape \<Rightarrow> 's tape" where
  "switch_tape n h d1 d2 t = t\<lparr>tp_words := absorb h d1 (take (n - 1) (tp_words t)) @ absorb h d2 (drop (n - 1) (tp_words t))\<rparr>"

lemma bij_switch_tape: "bij_betw (switch_tape n h d1 d2) (tapes n) (tapes n)"
  by (rule bij_betw_byWitness [where f' = "switch_tape n h d1 d2"])
    (auto simp: switch_tape_def tapes_def min_def)

text \<open>The queries as a function of the tape.\<close>

definition tape_query :: "nat \<Rightarrow> nat \<Rightarrow> nat \<Rightarrow> u32 \<Rightarrow> u32 \<Rightarrow> 's::comm_ring_1 tape \<Rightarrow> nat \<Rightarrow> 's prc_query" where
  "tape_query n k1 k2 x1 x2 t p =
     (let m1 = map (\<lambda>w. w AND word_mask k1) (take (n - 1) (tp_words t)); m2 = map (\<lambda>w. w AND word_mask k2) (drop (n - 1) (tp_words t));
          rs = map (\<lambda>v. \<lparr>av_value = v\<rparr>) (tl (tp_scalars t)) in
      \<lparr>q_l1_bss = \<lparr>bv_bit_len = k1, bv_value = (m1 @ [foldl (XOR) x1 m1]) ! p\<rparr>,
       q_l2_bss = \<lparr>bv_bit_len = k2, bv_value = (m2 @ [foldl (XOR) x2 m2]) ! p\<rparr>,
       q_rnd_ass = (rs @ [foldl av_sub \<lparr>av_value = hd (tp_scalars t)\<rparr> rs]) ! p\<rparr>)"

lemma query_all_servers_tape:
  assumes "0 < n" "pc_party_num c = n" "get_party_num (pc_sys_conf c) = n"
    and "dbc_l1_dim (pc_db_conf c) = 2 ^ k1" "dbc_l2_dim (pc_db_conf c) = 2 ^ k2" "k1 < 32" "k2 < 32" "idx < 2 ^ k1 * 2 ^ k2" "t \<in> tapes n"
  shows "\<exists>st. query_all_servers P tape_rng (tape_scalars S) c idx t
    = Inr ((st, map (tape_query n k1 k2 (of_nat (idx mod 2 ^ k1)) (of_nat (idx div 2 ^ k1)) t) [0..<n]), \<lparr>tp_words = [], tp_scalars = []\<rparr>)"
proof -
  have i: "idx mod 2 ^ k1 < 2 ^ k1" "idx div 2 ^ k1 < 2 ^ k2" using assms(8) by (simp_all add: less_mult_imp_div_less mult.commute)
  have u: "unat (of_nat x :: u32) = x" if "x < 2 ^ k" "k < 32" for x k
    using that power_strict_increasing [of k 32 "2 :: nat"] by (simp add: unat_of_nat)
  obtain ws1 ws2 x0 ss where t: "t = \<lparr>tp_words = ws1 @ ws2, tp_scalars = x0 # ss\<rparr>" "length ws1 = n - 1" "length ws2 = n - 1" "length ss = n - 1"
  proof
    show "t = \<lparr>tp_words = take (n - 1) (tp_words t) @ drop (n - 1) (tp_words t), tp_scalars = hd (tp_scalars t) # tl (tp_scalars t)\<rparr>"
      using assms(1,9) by (cases "tp_scalars t") (auto simp: tapes_def)
  qed (use assms(1,9) in \<open>auto simp: tapes_def\<close>)
  let ?x1 = "of_nat (idx mod 2 ^ k1) :: u32" and ?x2 = "of_nat (idx div 2 ^ k1) :: u32"
  let ?m1 = "map (\<lambda>w. w AND word_mask k1) ws1" and ?m2 = "map (\<lambda>w. w AND word_mask k2) ws2" and ?rs = "map (\<lambda>v. \<lparr>av_value = v\<rparr>) ss"
  let ?s1 = "map (\<lambda>v. \<lparr>bv_bit_len = k1, bv_value = v\<rparr>) (?m1 @ [foldl (XOR) ?x1 ?m1])"
  let ?s2 = "map (\<lambda>v. \<lparr>bv_bit_len = k2, bv_value = v\<rparr>) (?m2 @ [foldl (XOR) ?x2 ?m2])"
  let ?s3 = "?rs @ [foldl av_sub \<lparr>av_value = x0\<rparr> ?rs]"
  have b: "bv_new k1 ?x1 = Inr \<lparr>bv_bit_len = k1, bv_value = ?x1\<rparr>" "bv_new k2 ?x2 = Inr \<lparr>bv_bit_len = k2, bv_value = ?x2\<rparr>"
    using i u [OF i(1) assms(6)] u [OF i(2) assms(7)] assms(6,7) by (simp_all add: bv_new_eq)
  have s1: "secret_share_boolean P tape_rng \<lparr>bv_bit_len = k1, bv_value = ?x1\<rparr> n t = Inr (?s1, \<lparr>tp_words = ws2, tp_scalars = x0 # ss\<rparr>)"
    unfolding t(1) by (rule share_boolean_tape [OF assms(1) t(2) assms(6)]) (simp only: u [OF i(1) assms(6)] i(1))
  have s2: "secret_share_boolean P tape_rng \<lparr>bv_bit_len = k2, bv_value = ?x2\<rparr> n \<lparr>tp_words = ws2, tp_scalars = x0 # ss\<rparr>
      = Inr (?s2, \<lparr>tp_words = [], tp_scalars = x0 # ss\<rparr>)"
    by (rule share_boolean_tape [OF assms(1) t(3) assms(7), of ?x2 P "[]", unfolded append_Nil2]) (simp only: u [OF i(2) assms(7)] i(2))
  have "query_index P tape_rng c idx t = Inr ((?s1, ?s2), \<lparr>tp_words = [], tp_scalars = x0 # ss\<rparr>)"
    using s1 s2 b assms(2-8)
    by (simp add: query_index_def pc_get_logdim_def pc_idx_to_2dim_def dbc_get_max_size_def del: map_append push_bit_of_1)
  moreover have "query_commit_rnd P (tape_scalars S) c \<lparr>tp_words = [], tp_scalars = x0 # ss\<rparr>
      = Inr ((\<lparr>av_value = x0\<rparr>, ?s3), \<lparr>tp_words = [], tp_scalars = []\<rparr>)"
    using share_arith_tape [OF assms(1) t(4), of P S "\<lparr>av_value = x0\<rparr>" "[]" "[]"] assms(2)
    by (simp add: query_commit_rnd_def av_random_def) (simp add: tape_scalars_def)
  moreover have "rmap (\<lambda>i. rbind (index ?s1 i) (\<lambda>a. rbind (index ?s2 i) (\<lambda>b. rbind (index ?s3 i) (\<lambda>r.
      Ok \<lparr>q_l1_bss = a, q_l2_bss = b, q_rnd_ass = r\<rparr>)))) [0..<n]
    = Inr (map (tape_query n k1 k2 ?x1 ?x2 t) [0..<n])"
  proof (rule rmap_Ok)
    fix p assume "p \<in> set [0..<n]"
    then have "p < Suc (n - 1)" by auto
    then show "rbind (index ?s1 p) (\<lambda>a. rbind (index ?s2 p) (\<lambda>b. rbind (index ?s3 p) (\<lambda>r.
      Ok \<lparr>q_l1_bss = a, q_l2_bss = b, q_rnd_ass = r\<rparr>))) = Inr (tape_query n k1 k2 ?x1 ?x2 t p)"
      unfolding t(1) tape_query_def Let_def using t(2-4) by (simp add: index_def del: map_append push_bit_of_1)
  qed
  ultimately show ?thesis
    using assms(3) by (simp add: query_all_servers_def Let_def del: map_append push_bit_of_1)
qed

lemma query_view_tape:
  assumes "0 < n" "pc_party_num c = n" "get_party_num (pc_sys_conf c) = n"
    and "dbc_l1_dim (pc_db_conf c) = 2 ^ k1" "dbc_l2_dim (pc_db_conf c) = 2 ^ k2" "k1 < 32" "k2 < 32" "idx < 2 ^ k1 * 2 ^ k2" "t \<in> tapes n"
  shows "query_view P S c h idx t
    = Some (map (tape_query n k1 k2 (of_nat (idx mod 2 ^ k1)) (of_nat (idx div 2 ^ k1)) t) (filter (\<lambda>p. p \<noteq> h) [0..<n]))"
  using query_all_servers_tape [OF assms, of P S] by (auto simp: query_view_def)

lemma tape_query_switch:
  assumes "t \<in> tapes n" "p < n" "h < n" "p \<noteq> h" "k1 < 32" "k2 < 32"
    and "unat x1 < 2 ^ k1" "unat y1 < 2 ^ k1" "unat x2 < 2 ^ k2" "unat y2 < 2 ^ k2"
  shows "tape_query n k1 k2 y1 y2 (switch_tape n h (x1 XOR y1) (x2 XOR y2) t) p = tape_query n k1 k2 x1 x2 t p"
proof -
  let ?a = "take (n - 1) (tp_words t)" and ?b = "drop (n - 1) (tp_words t)"
  have len: "length ?a = n - 1" "length ?b = n - 1" using assms(1) by (auto simp: tapes_def)
  then have "p \<le> length ?a" "h \<le> length ?a" "p \<le> length ?b" "h \<le> length ?b" using assms(2,3) by simp_all
  note 1 = absorb_shares [OF assms(5,7,8) this(1,2) assms(4)] and 2 = absorb_shares [OF assms(6,9,10) this(3,4) assms(4)]
  show ?thesis
    unfolding tape_query_def switch_tape_def Let_def using 1 2 len by (simp del: push_bit_of_1 map_append)
qed

section \<open>Properties\<close>

definition cli_sample :: "nat \<Rightarrow> system_config" where
  "cli_sample n = \<lparr>sc_peers = replicate n \<lparr>pi_id = 0, pi_ip_addr = [], pi_port = 0, pi_seed = []\<rparr>, sc_db_config = dbc_new 1 8 2 None\<rparr>"

text \<open>C5. All servers but one learn nothing of the index: for any server \<open>h\<close> and any two indices of the database there is a bijection on the
  tapes of the client's randomness such that the queries of all servers other than \<open>h\<close> for the one index, with any tape, are the queries for the
  other index with the tape it is mapped to. With uniform randomness both have the same distribution. The queries exist for every tape.\<close>

theorem query_hides_index:
  assumes "pc_party_num c = n" and "get_party_num (pc_sys_conf c) = n"
    and "dbc_l1_dim (pc_db_conf c) = 2 ^ k1" and "dbc_l2_dim (pc_db_conf c) = 2 ^ k2" and "k1 < 32" and "k2 < 32"
    and "h < n" and "idx < pc_total_db_size c" and "idx' < pc_total_db_size c"
  shows "\<exists>\<pi>. bij_betw \<pi> (tapes n) (tapes n) \<and> (\<forall>t\<in>tapes n. query_view P S c h idx t \<noteq> None \<and> query_view P S c h idx' (\<pi> t) = query_view P S c h idx t)"
proof (intro exI conjI ballI)
  let ?x1 = "\<lambda>i. of_nat (i mod 2 ^ k1) :: u32" and ?x2 = "\<lambda>i. of_nat (i div 2 ^ k1) :: u32"
  let ?\<pi> = "switch_tape n h (?x1 idx XOR ?x1 idx') (?x2 idx XOR ?x2 idx')"
  show "bij_betw ?\<pi> (tapes n) (tapes n)" by (rule bij_switch_tape)
  have n: "0 < n" using assms(7) by simp
  have idx: "idx < 2 ^ k1 * 2 ^ k2" "idx' < 2 ^ k1 * 2 ^ k2"
    using assms(8,9) by (simp_all add: pc_total_db_size_def dbc_get_max_size_def assms(3,4))
  have small: "unat (of_nat x :: u32) < 2 ^ k" if "x < 2 ^ k" for x k
    using that mod_less_eq_dividend [of x "2 ^ 32"] by (simp add: unat_of_nat)
  have u: "unat (?x1 i) < 2 ^ k1" "unat (?x2 i) < 2 ^ k2" if "i < 2 ^ k1 * 2 ^ k2" for i
    using that by (intro small; simp add: less_mult_imp_div_less mult.commute)+
  fix t :: "'a tape" assume t: "t \<in> tapes n"
  then have \<pi>t: "?\<pi> t \<in> tapes n" using bij_switch_tape bij_betwE by blast
  note view = query_view_tape [OF n assms(1-6)]
  show "query_view P S c h idx t \<noteq> None" by (simp add: view [OF idx(1) t])
  show "query_view P S c h idx' (?\<pi> t) = query_view P S c h idx t"
    unfolding view [OF idx(1) t] view [OF idx(2) \<pi>t]
    using tape_query_switch [OF t _ assms(7) _ assms(5,6) u(1) [OF idx(1)] u(1) [OF idx(2)] u(2) [OF idx(1)] u(2) [OF idx(2)]] by simp
qed

text \<open>Two servers and a database of eight by two bits; server 0 sees the same for the indices 13 and 2.\<close>

theorem query_hides_index_witness:
  "\<exists>\<pi>. bij_betw \<pi> (tapes 2) (tapes 2) \<and> (\<forall>t\<in>tapes 2.
    query_view Dev ring256_scalars (pc_new 2 (dbc_new 1 8 2 None) (cli_sample 2)) 1 13 t \<noteq> None \<and>
    query_view Dev ring256_scalars (pc_new 2 (dbc_new 1 8 2 None) (cli_sample 2)) 1 2 (\<pi> t)
      = query_view Dev ring256_scalars (pc_new 2 (dbc_new 1 8 2 None) (cli_sample 2)) 1 13 t)"
  by (rule query_hides_index [where ?k1.0 = 3 and ?k2.0 = 1])
    (simp_all add: pc_new_def dbc_new_def get_party_num_def cli_sample_def pc_total_db_size_def dbc_get_max_size_def)

section \<open>Commitments\<close>

text \<open>The base point generates the group, as the order of the group is prime.\<close>

definition generated :: "('s, 'g) group_ops \<Rightarrow> bool" where
  "generated G \<longleftrightarrow> (\<forall>g. \<exists>a. g = gr_scale G a (gr_basepoint G))"

lemma generated_ring256: "generated ring256_group"
proof -
  have "77194726158210796949047323339125271902179989777093709359638389338608753093291 * 3 = (1 :: 256 word)" by simp
  then have "g = g * 77194726158210796949047323339125271902179989777093709359638389338608753093291 * 3" for g :: "256 word" by (simp only: mult.assoc mult_1_right)
  then show ?thesis unfolding generated_def ring256_group_def group_ops.simps by blast
qed

lemma commit_shift:
  assumes "group_ok G" "generated G"
  shows "\<exists>a. \<forall>r. commit G (opening_new r idx resp) = commit G (opening_new (r + a) idx' resp')"
proof -
  let ?d = "gr_scale G idx (G1T_IDX G) + gr_scale G resp (G2T_RESP G) - gr_scale G idx' (G1T_IDX G) - gr_scale G resp' (G2T_RESP G)"
  obtain a where a: "?d = gr_scale G a (gr_basepoint G)" using assms(2) unfolding generated_def by blast
  have "commit G (opening_new r idx resp) = commit G (opening_new (r + a) idx' resp')" for r
    using assms(1) by (simp add: commit_def opening_new_def group_ok_def a [symmetric])
  then show ?thesis by blast
qed

text \<open>C24. A commitment hides its index and its record: for any two pairs of them there is a bijection on the randomness under which the
  commitments are the same, so that with uniform randomness the signed commitment says nothing about either.\<close>

theorem commitment_hides:
  assumes "group_ok G" and "generated G"
  shows "\<exists>\<pi>. bij \<pi> \<and> (\<forall>r. commit G (opening_new r idx resp) = commit G (opening_new (\<pi> r) idx' resp'))"
proof -
  obtain a where a: "\<forall>r. commit G (opening_new r idx resp) = commit G (opening_new (r + a) idx' resp')"
    using commit_shift [OF assms] by blast
  have "bij (\<lambda>r. r + a)" by (rule bij_betw_byWitness [where f' = "\<lambda>r. r - a"]) auto
  with a show ?thesis by blast
qed

theorem commitment_hides_witness:
  "\<exists>\<pi>. bij \<pi> \<and> (\<forall>r. commit ring256_group (opening_new r 13 1) = commit ring256_group (opening_new (\<pi> r) 2 0))"
  by (rule commitment_hides [OF group_ok_ring256 generated_ring256])

end
