(* ===== verification/Secrecy.thy ===== *)
theory Secrecy
  imports Traffic Privacy
begin

text \<open>
  What the messages of a query give away. All servers but one, with all they know and all messages they
  get, cannot tell what the client asks for: whatever they see is just as possible for any other index. The remaining server's secrets (its
  share of the index, its triples and daBits, its share of the commitment's randomness) are chosen again, so that it sends the very same
  messages. \<open>alike\<close> compares two programs that are fed with the same arrivals.
\<close>

section \<open>Programs that send the same\<close>

text \<open>
  Fed with the arrivals \<open>as\<close>, both programs send the same messages and end in results that \<open>R\<close> relates, with the arrivals that
  are left, unless one of them panics.
\<close>

primrec alike ::
  "('m, 'a) prog \<Rightarrow> ('m, 'b) prog \<Rightarrow> (nat \<times> 'm option) list list \<Rightarrow> ('a \<Rightarrow> 'b \<Rightarrow> (nat \<times> 'm option) list list \<Rightarrow> bool) \<Rightarrow> bool" where
  "alike (Done x) q as R \<longleftrightarrow> (case q of Done y \<Rightarrow> R x y as | Fail e \<Rightarrow> True | _ \<Rightarrow> False)"
| "alike (Fail e) q as R \<longleftrightarrow> True"
| "alike (Broadcast m k) q as R \<longleftrightarrow> (case q of Broadcast m' k' \<Rightarrow> m = m' \<and> alike k k' as R | Fail e \<Rightarrow> True | _ \<Rightarrow> False)"
| "alike (ReceiveAll k) q as R \<longleftrightarrow> (case q of
      ReceiveAll k' \<Rightarrow> (case as of [] \<Rightarrow> True | a # as' \<Rightarrow> alike (k a) (k' a) as' R)
    | Fail e \<Rightarrow> True | _ \<Rightarrow> False)"

lemma alike_Fail [simp]: "alike p (Fail e) as R"
  by (cases p) simp_all

lemma alike_bind:
  "alike p q as (\<lambda>x y as'. alike (f x) (g y) as' R) \<Longrightarrow> alike (pbind p f) (pbind q g) as R"
proof (induction p arbitrary: q as)
  case (Done x)
  then show ?case by (cases q) simp_all
next
  case (Broadcast m k)
  then show ?case by (cases q) simp_all
next
  case (ReceiveAll k)
  then show ?case by (cases q; cases as) simp_all
qed simp

lemma alike_lift_ex:
  assumes "\<And>x y. r = Inr x \<Longrightarrow> r' = Inr y \<Longrightarrow> \<exists>z. C z \<and> alike (f x) (g z y) as R" "\<exists>z. C z"
  shows "\<exists>z. C z \<and> alike (pbind (lift_res r) f) (pbind (lift_res r') (g z)) as R"
  using assms by (cases r; cases r') auto

text \<open>A common first part; what the second program still chooses may depend on what the first part gave.\<close>

lemma alike_same:
  assumes "talks p L Q" "\<And>x as'. Q x \<Longrightarrow> \<exists>z. C z \<and> alike (f x) (g z x) as' R" "\<exists>z. C z"
  shows "\<exists>z. C z \<and> alike (pbind p f) (pbind p (g z)) as R"
  using assms(1)
proof (induction p arbitrary: L as)
  case (Done x)
  then show ?case using assms(2) [of x as] by simp
next
  case (Fail e)
  then show ?case using assms(3) by simp
next
  case (Broadcast m k)
  then show ?case by (cases L) simp_all
next
  case (ReceiveAll k)
  show ?case
  proof (cases as)
    case Nil
    then show ?thesis using assms(3) by simp
  next
    case (Cons a as')
    then show ?thesis using ReceiveAll.IH [of "k a" L as'] ReceiveAll.prems by simp
  qed
qed

section \<open>Triples of one party\<close>

text \<open>Triples of party \<open>h\<close> that multiply together with those of the others.\<close>

definition completes :: "nat \<Rightarrow> nat \<Rightarrow> nat \<Rightarrow> (nat \<Rightarrow> d2bitarray) \<Rightarrow> d2bitarray \<Rightarrow> bool" where
  "completes n N h ds d \<longleftrightarrow> d2_wf 3 N d \<and> triples_ok (map (ds(h := d)) [0..<n])"

definition agree :: "nat \<Rightarrow> d2bitarray \<Rightarrow> d2bitarray \<Rightarrow> bool" where
  "agree u d d' \<longleftrightarrow> (\<forall>j<3. \<forall>i<8 * u. mbit (d2_arrays d ! j) i = mbit (d2_arrays d' ! j) i)"

lemma agree_refl [simp]: "agree u d d" and agree_trans: "agree u d d' \<Longrightarrow> agree u d' d'' \<Longrightarrow> agree u d d''"
  and agree_mono: "agree v d d' \<Longrightarrow> u \<le> v \<Longrightarrow> agree u d d'"
  by (auto simp: agree_def)

lemma triple_sum_others:
  assumes "h < n"
  shows "triple_sum (map (ds(h := d)) [0..<n]) j i
    = (mbit (d2_arrays d ! j) i \<noteq> xors (map (\<lambda>p. mbit (d2_arrays (ds p) ! j) i) (others n h)))"
proof -
  let ?f = "\<lambda>p. mbit (d2_arrays ((ds(h := d)) p) ! j) i"
  have "triple_sum (map (ds(h := d)) [0..<n]) j i = xors (map ?f [0..<n])" by (simp add: triple_sum_def comp_def)
  also have "\<dots> = (?f h \<noteq> xors (map ?f (others n h)))" by (rule xors_others [OF assms refl, symmetric])
  also have "map ?f (others n h) = map (\<lambda>p. mbit (d2_arrays (ds p) ! j) i) (others n h)" by simp
  finally show ?thesis by (simp only: fun_upd_same)
qed

lemma retarget:
  assumes "h < n" "completes n N h ds d" "u + s \<le> div_ceil N 8"
  shows "\<exists>d'. completes n N h ds d' \<and> agree u d' d \<and> (\<forall>j<2. \<forall>i<8 * s. mbit (d2_arrays d' ! j) (8 * u + i) = t j i)"
proof -
  let ?O = "\<lambda>j i. xors (map (\<lambda>p. mbit (d2_arrays (ds p) ! j) i) (others n h))"
  let ?in = "\<lambda>i. 8 * u \<le> i \<and> i < 8 * (u + s)"
  let ?a = "\<lambda>j i. if ?in i then t j (i - 8 * u) else mbit (d2_arrays d ! j) i"
  let ?c = "\<lambda>i. if ?in i then ((?a 0 i \<noteq> ?O 0 i) \<and> (?a 1 i \<noteq> ?O 1 i)) \<noteq> ?O 2 i else mbit (d2_arrays d ! 2) i"
  let ?d = "d2_make 3 N (\<lambda>j i. if j < 2 then ?a j i else ?c i)"
  have cap: "i < cap N" if "i < 8 * (u + s)" for i
    using that assms(3) align_max_len_ge [of "div_ceil N 8"] by (simp add: cap_def)
  have wf: "d2_wf 3 N d" and ok: "triple_sum (map (ds(h := d)) [0..<n]) 2 i
      = (triple_sum (map (ds(h := d)) [0..<n]) 0 i \<and> triple_sum (map (ds(h := d)) [0..<n]) 1 i)" for i
    using assms(2) by (simp_all add: completes_def triples_ok_def)
  have beyond: "\<not> mbit (d2_arrays d ! j) i" if "j < 3" "\<not> i < cap N" for i j
    using d2_wf_nth [OF wf that(1)] mbit_beyond that(2) by fastforce
  have bits: "mbit (d2_arrays ?d ! j) i = (if j < 2 then ?a j i else ?c i)" if "j < 3" for j i
    using that beyond [OF that, of i] beyond [of 2 i] cap [of i] by auto
  have "triple_sum (map (ds(h := ?d)) [0..<n]) 2 i
      = (triple_sum (map (ds(h := ?d)) [0..<n]) 0 i \<and> triple_sum (map (ds(h := ?d)) [0..<n]) 1 i)" for i
    using ok [of i] unfolding triple_sum_others [OF assms(1)] by (subst (1 2 3) bits) auto
  then have "completes n N h ds ?d" by (simp add: completes_def triples_ok_def)
  moreover have "agree u ?d d"
    unfolding agree_def
  proof (intro allI impI)
    fix j i :: nat assume "j < 3" "i < 8 * u"
    moreover from this have "j < 2 \<or> j = 2" by auto
    ultimately show "mbit (d2_arrays ?d ! j) i = mbit (d2_arrays d ! j) i" using bits [of j i] by auto
  qed
  moreover have "\<forall>j<2. \<forall>i<8 * s. mbit (d2_arrays ?d ! j) (8 * u + i) = t j i" by (simp add: cap)
  ultimately show ?thesis by blast
qed

section \<open>One layer\<close>

text \<open>Filling the streams does not look at the triples.\<close>

abbreviation with_triples :: "d2bitarray \<Rightarrow> layer \<Rightarrow> layer" where
  "with_triples b ly \<equiv> ly\<lparr>ly_beaver_data := Some b\<rparr>"

lemma triples_commute:
  "(with_triples b ly)\<lparr>ly_and_data := d\<rparr> = with_triples b (ly\<lparr>ly_and_data := d\<rparr>)"
  "(with_triples b ly)\<lparr>ly_operations := ops\<rparr> = with_triples b (ly\<lparr>ly_operations := ops\<rparr>)"
  "(with_triples b ly)\<lparr>ly_state := st\<rparr> = with_triples b (ly\<lparr>ly_state := st\<rparr>)"
  by simp_all

lemma exec_triples: "exec_operation P op prev (with_triples b ly) = rbind (exec_operation P op prev ly) (\<lambda>ly. Ok (with_triples b ly))"
proof -
  have "with_mut_array_from_destination (with_triples b ly) dest f = rbind (with_mut_array_from_destination ly dest f) (\<lambda>ly. Ok (with_triples b ly))" for dest f
    by (cases dest) (simp_all add: with_mut_array_from_destination_def check_ticket_def rbind_assoc triples_commute)
  then show ?thesis by (cases op) (simp_all add: exec_operation_def rbind_assoc)
qed

lemma execute_triples: "execute_operations P prev (with_triples b ly) = rbind (execute_operations P prev ly) (\<lambda>ly. Ok (with_triples b ly))"
proof -
  have "rfold (\<lambda>op ly. exec_operation P op prev ly) ops (with_triples b ly)
      = rbind (rfold (\<lambda>op ly. exec_operation P op prev ly) ops ly) (\<lambda>ly. Ok (with_triples b ly))" for ops ly
  proof (induction ops arbitrary: ly)
    case (Cons op ops)
    then show ?case by (simp add: exec_triples rbind_assoc)
  qed simp
  from this [of "rev (ly_operations ly)" "ly\<lparr>ly_operations := []\<rparr>"]
  show ?thesis by (simp add: execute_operations_def rbind_assoc triples_commute)
qed

text \<open>The message of a layer shows the bits of the blinded streams and nothing else.\<close>

lemma memref_cong:
  assumes "ba_sized (8 * s) a" "ba_sized (8 * s) b" "\<And>i. i < 8 * s \<Longrightarrow> mbit a i = mbit b i"
  shows "ba_get_inner_memref a = ba_get_inner_memref b"
proof (rule nth_equalityI)
  show "length (ba_get_inner_memref a) = length (ba_get_inner_memref b)" using assms(1,2) by simp
  fix k assume "k < length (ba_get_inner_memref a)"
  then have k: "k < s" using assms(1) by (simp add: div_ceil_def)
  show "ba_get_inner_memref a ! k = ba_get_inner_memref b ! k"
  proof (rule bit_word_eqI)
    fix i assume "i < LENGTH(8)"
    then have i: "(8 * k + i) div 8 = k" "(8 * k + i) mod 8 = i" "8 * k + i < 8 * s" using k by simp_all
    then show "bit (ba_get_inner_memref a ! k) i = bit (ba_get_inner_memref b ! k) i"
      using bit_memref [of a "8 * k + i"] bit_memref [of b "8 * k + i"] assms by (simp add: div_ceil_def)
  qed
qed

lemma send_beaver_bits:
  assumes "d2_wf 2 (8 * s) x" "d2_wf 2 (8 * s) y" "\<And>j i. j < 2 \<Longrightarrow> i < 8 * s \<Longrightarrow> mbit (d2_arrays x ! j) i = mbit (d2_arrays y ! j) i"
  shows "mh_send_beaver_shares G h x = mh_send_beaver_shares G h y"
proof -
  have "ba_get_inner_memref (d2_arrays x ! j) = ba_get_inner_memref (d2_arrays y ! j)" if "j < 2" for j
    using d2_wf_nth [OF assms(1) that] d2_wf_nth [OF assms(2) that] assms(3) [OF that] by (intro memref_cong)
  moreover have "ba_bit_size (d2_arrays x ! 0) = ba_bit_size (d2_arrays y ! 0)" "length (d2_arrays x) = 2" "length (d2_arrays y) = 2"
    using d2_wf_nth [OF assms(1), of 0] d2_wf_nth [OF assms(2), of 0] assms(1,2) by (simp_all add: d2_wf_def)
  ultimately show ?thesis by (simp add: mh_send_beaver_shares_def d2_get_array_def index_def)
qed

text \<open>A layer up to its message, and after it.\<close>

definition layer_filled :: "profile \<Rightarrow> layer option \<Rightarrow> layer \<Rightarrow> layer res" where
  "layer_filled P prev ly = rbind (d2_zeros 3 (ly_current_size ly * 8)) (\<lambda>zeros.
     execute_operations P prev (ly\<lparr>ly_and_data := Some zeros, ly_state := DataInitialized\<rparr>))"

definition layer_blinded :: "layer \<Rightarrow> d2bitarray \<Rightarrow> (layer \<times> d2bitarray) res" where
  "layer_blinded ly b = rbind (blind_and_with_beaver (with_triples b ly)) (\<lambda>ly. rbind (get_beaver_out_shares ly) (\<lambda>sh. Ok (ly, sh)))"

definition layer_back :: "('s, 'g) group_ops \<Rightarrow> 'g message_handler \<Rightarrow> layer \<Rightarrow> beaver_provider \<Rightarrow> (u8 list, layer \<times> beaver_provider \<times> 'g message_handler) prog" where
  "layer_back G mh ly bp = pbind (mh_receive_beaver_shares G mh) (\<lambda>(shares, mh).
     pbind (lift_res (rbind (recons_beaver_uv shares ly) finish_and_exchange)) (\<lambda>ly. Done (ly, bp, mh)))"

lemma layer_interact_parts:
  assumes "ly_state ly = Ticketing" "bp_beaver_storage bp = Some d" "d2_wf 3 N d" "bp_used bp + ly_current_size ly \<le> div_ceil N 8"
  shows "layer_interact P G prev bp mh ly = pbind (lift_res (layer_filled P prev ly)) (\<lambda>ly2.
     pbind (lift_res (layer_blinded ly2 (d2_block d (bp_used bp) (ly_current_size ly)))) (\<lambda>(ly3, sh).
     pbind (mh_send_beaver_shares G mh sh) (\<lambda>_. layer_back G mh ly3 (bp\<lparr>bp_used := bp_used bp + ly_current_size ly\<rparr>))))"
proof -
  let ?b = "d2_block d (bp_used bp) (ly_current_size ly)"
  have e: "end_ticketing_phase ly bp = rbind (d2_zeros 3 (ly_current_size ly * 8)) (\<lambda>zeros.
      Ok (with_triples ?b (ly\<lparr>ly_and_data := Some zeros, ly_state := DataInitialized\<rparr>), bp\<lparr>bp_used := bp_used bp + ly_current_size ly\<rparr>))"
    using assms by (simp add: end_ticketing_phase_def bp_take_next [OF assms(2-4)] triples_commute)
  show ?thesis
    unfolding layer_interact_def e layer_filled_def layer_blinded_def layer_back_def
    by (simp add: lift_res_rbind pbind_assoc execute_triples case_prod_unfold)
qed

lemma d2_zeros_pos: "d2_zeros 3 m = Inr z \<Longrightarrow> 0 < m"
  by (cases m) (auto simp: d2_zeros_def ba_new_def au_new_def create_layout_def rbind_eq_Ok Let_def upt_rec)

lemma layer_filled_streams:
  assumes "layer_inv ly" "ly_state ly = Ticketing" "pred_option layer_inv prev" "layer_filled P prev ly = Inr ly2"
  obtains x where "ly_and_data ly2 = Some x" "d2_wf 3 (8 * ly_current_size ly) x" "0 < ly_current_size ly"
    "ly_current_size ly2 = ly_current_size ly" "ly_state ly2 = OperationsExecuted"
    "\<And>b. d2_wf 3 (8 * ly_current_size ly) b \<Longrightarrow> layer_inv (with_triples b ly2)"
proof -
  let ?m = "8 * ly_current_size ly"
  obtain z where z: "d2_zeros 3 (ly_current_size ly * 8) = Inr z" and
      ex: "execute_operations P prev (ly\<lparr>ly_and_data := Some z, ly_state := DataInitialized\<rparr>) = Inr ly2"
    using assms(4) by (auto simp: layer_filled_def rbind_eq_Ok)
  have m: "0 < ly_current_size ly" using d2_zeros_pos [OF z] by simp
  have zwf: "d2_wf 3 ?m z" using z m by (simp add: d2_zeros_Ok mult.commute) auto
  have inv: "layer_inv (with_triples b ly2)" "ly_state ly2 = OperationsExecuted" if "d2_wf 3 ?m b" for b
  proof -
    have "layer_inv (with_triples b (ly\<lparr>ly_and_data := Some z, ly_state := DataInitialized\<rparr>))"
      using assms(1) zwf that by (auto simp: layer_inv_def)
    from execute_keeps [OF this assms(3), of P "with_triples b ly2"]
    show "layer_inv (with_triples b ly2)" "ly_state ly2 = OperationsExecuted" by (simp_all add: execute_triples ex)
  qed
  have size: "ly_current_size ly2 = ly_current_size ly" using execute_size [OF ex] by simp
  have b: "d2_wf 3 ?m (d2_make 3 ?m (\<lambda>_ _. False))" by simp
  from inv [OF b] obtain x where "ly_and_data ly2 = Some x" "d2_wf 3 ?m x" by (auto simp: layer_inv_def size)
  with that m size inv b show ?thesis by blast
qed

lemma layer_blinded_bits:
  assumes "layer_inv (with_triples b ly2)" "ly_and_data ly2 = Some x" "d2_wf 3 (8 * s) x" "d2_wf 3 (8 * s) b" "0 < s" "ly_current_size ly2 = s"
    and "layer_blinded ly2 b = Inr (ly3, sh)"
  shows "layer_inv ly3" "d2_wf 2 (8 * s) sh"
    "\<And>j i. j < 2 \<Longrightarrow> i < 8 * s \<Longrightarrow> mbit (d2_arrays sh ! j) i = (mbit (d2_arrays b ! j) i \<noteq> mbit (d2_arrays x ! j) i)"
proof -
  obtain bl: "blind_and_with_beaver (with_triples b ly2) = Inr ly3" and sh: "get_beaver_out_shares ly3 = Inr sh"
    using assms(7) by (auto simp: layer_blinded_def rbind_eq_Ok)
  note k = blind_keeps [OF assms(1) bl]
  show "layer_inv ly3" using k by simp
  let ?g = "\<lambda>j. mbit (d2_arrays b ! j)" and ?f = "\<lambda>j. mbit (d2_arrays x ! j)"
  have "blind_and_with_beaver (with_triples b ly2) = Inr ((with_triples b ly2)\<lparr>ly_beaver_data := Some (d2_make 3 (8 * s)
      (\<lambda>j. if j < 2 then \<lambda>i. ?g j i \<noteq> ?f j i else ?g j)), ly_state := SendingBeaverShares\<rparr>)"
    using k assms(2) d2_wf_make_eq [OF assms(3)] d2_wf_make_eq [OF assms(4)] by (intro blind_Ok) simp_all
  with bl have "ly_beaver_data ly3 = Some (d2_make 3 (8 * s) (\<lambda>j. if j < 2 then \<lambda>i. ?g j i \<noteq> ?f j i else ?g j))" by auto
  from get_beaver_out_shares_Ok [OF this] assms(5) sh
  have eq: "sh = d2_make 2 (8 * s) (\<lambda>j. if j < 2 then \<lambda>i. ?g j i \<noteq> ?f j i else ?g j)" by simp
  then show "d2_wf 2 (8 * s) sh" by simp
  show "mbit (d2_arrays sh ! j) i = (?g j i \<noteq> ?f j i)" if "j < 2" "i < 8 * s" for j i
    using that cap_ge [of "8 * s"] by (simp add: eq)
qed

lemma send_beaver_once:
  assumes "d2_wf 2 m sh"
  obtains msg where "mh_send_beaver_shares G h sh = Broadcast msg (Done ())"
  using assms that by (simp add: mh_send_beaver_shares_def mh_broadcast_def d2_get_array_def index_def d2_wf_def)

lemma d2_block_agree: "agree (u + s) e d \<Longrightarrow> d2_block e u s = d2_block d u s"
  unfolding d2_block_def by (rule d2_make_cong) (auto simp: agree_def)

text \<open>
  For a layer of the same size the other triples can be chosen such that it sends the same message, and the triples
  of the layers after it are still free.
\<close>

lemma layer_alike:
  fixes G :: "('s, 'g) group_ops"
  assumes h: "h < n" and inv: "layer_inv ly" "ly_state ly = Ticketing" "layer_inv ly'" "ly_state ly' = Ticketing" "ly_current_size ly = s" "ly_current_size ly' = s"
    and prev: "pred_option layer_inv prev" "pred_option layer_inv prev'" and mh: "mh_wf mh"
    and bp: "bp_beaver_storage bp = Some d0" "d2_wf 3 N d0" "bp_used bp = u" and d: "completes n N h ds d" "u + s \<le> div_ceil N 8" and C: "\<exists>z. C z"
    and cont: "\<And>ly1 ly1' mh1 d1 as1. layer_inv ly1 \<Longrightarrow> layer_inv ly1' \<Longrightarrow> mh_wf mh1 \<Longrightarrow> completes n N h ds d1 \<Longrightarrow>
      \<exists>z e. C z \<and> completes n N h ds e \<and> agree (u + s) e d1 \<and>
        alike (f (ly1, bp\<lparr>bp_used := u + s\<rparr>, mh1)) (g z (ly1', bp'\<lparr>bp_beaver_storage := Some e, bp_used := u + s\<rparr>, mh1)) as1 R"
  shows "\<exists>z e. C z \<and> completes n N h ds e \<and> agree u e d \<and>
    alike (pbind (layer_interact P G prev bp mh ly) f)
      (pbind (layer_interact P G prev' (bp'\<lparr>bp_beaver_storage := Some e, bp_used := u\<rparr>) mh ly') (g z)) as R"
proof -
  let ?b = "d2_block d0 u s"
  have p1: "layer_interact P G prev bp mh ly = pbind (lift_res (layer_filled P prev ly)) (\<lambda>ly2. pbind (lift_res (layer_blinded ly2 ?b)) (\<lambda>(ly3, sh).
     pbind (mh_send_beaver_shares G mh sh) (\<lambda>_. layer_back G mh ly3 (bp\<lparr>bp_used := u + s\<rparr>))))"
    using layer_interact_parts [OF inv(2) bp(1,2), of P G prev mh] inv(5) bp(3) d(2) by simp
  have p2: "layer_interact P G prev' (bp'\<lparr>bp_beaver_storage := Some e, bp_used := u\<rparr>) mh ly' = pbind (lift_res (layer_filled P prev' ly')) (\<lambda>ly2.
     pbind (lift_res (layer_blinded ly2 (d2_block e u s))) (\<lambda>(ly3, sh).
     pbind (mh_send_beaver_shares G mh sh) (\<lambda>_. layer_back G mh ly3 (bp'\<lparr>bp_beaver_storage := Some e, bp_used := u + s\<rparr>))))"
    if "completes n N h ds e" for e
    using layer_interact_parts [OF inv(4), of "bp'\<lparr>bp_beaver_storage := Some e, bp_used := u\<rparr>" e N P G prev' mh] inv(6) d(2) that
    by (simp add: completes_def)
  have trivial: ?thesis if "completes n N h ds e" "agree u e d" "layer_interact P G prev bp mh ly = Fail er \<or>
      layer_interact P G prev' (bp'\<lparr>bp_beaver_storage := Some e, bp_used := u\<rparr>) mh ly' = Fail er" for e er
  proof -
    obtain z where "C z" using C by blast
    with that show ?thesis by (intro exI [of _ z] exI [of _ e]) auto
  qed
  show ?thesis
  proof (cases "layer_filled P prev ly")
    case (Inl er)
    then show ?thesis using trivial [OF d(1) agree_refl, of er] p1 by simp
  next
    case f1: (Inr ly2)
    show ?thesis
    proof (cases "layer_filled P prev' ly'")
      case (Inl er)
      then show ?thesis using trivial [OF d(1) agree_refl, of er] p2 [OF d(1)] by simp
    next
      case f2: (Inr ly2')
      obtain x where x: "ly_and_data ly2 = Some x" "d2_wf 3 (8 * s) x" "0 < s" "ly_current_size ly2 = s" "\<And>b. d2_wf 3 (8 * s) b \<Longrightarrow> layer_inv (with_triples b ly2)"
        using layer_filled_streams [OF inv(1,2) prev(1) f1] unfolding inv(5) by metis
      obtain x' where x': "ly_and_data ly2' = Some x'" "d2_wf 3 (8 * s) x'" "0 < s" "ly_current_size ly2' = s" "\<And>b. d2_wf 3 (8 * s) b \<Longrightarrow> layer_inv (with_triples b ly2')"
        using layer_filled_streams [OF inv(3,4) prev(2) f2] unfolding inv(6) by metis
      have wf: "d2_wf 3 (8 * s) (d2_block e u s)" for e by (simp add: d2_block_def)
      show ?thesis
      proof (cases "layer_blinded ly2 ?b")
        case (Inl er)
        then show ?thesis using trivial [OF d(1) agree_refl, of er] p1 f1 by simp
      next
        case (Inr r)
        then obtain ly3 sh where b1: "layer_blinded ly2 ?b = Inr (ly3, sh)" by (cases r) simp
        note k1 = layer_blinded_bits [OF x(5) [OF wf] x(1,2) wf x(3,4) b1]
        obtain d1 where d1: "completes n N h ds d1" "agree u d1 d"
            "\<forall>j<2. \<forall>i<8 * s. mbit (d2_arrays d1 ! j) (8 * u + i) = (mbit (d2_arrays sh ! j) i \<noteq> mbit (d2_arrays x' ! j) i)"
          using retarget [OF h d, of "\<lambda>j i. mbit (d2_arrays sh ! j) i \<noteq> mbit (d2_arrays x' ! j) i"] by blast
        show ?thesis
        proof (cases "layer_blinded ly2' (d2_block d1 u s)")
          case (Inl er)
          then show ?thesis using trivial [OF d1(1,2), of er] p2 [OF d1(1)] f2 by simp
        next
          case (Inr r')
          then obtain ly3' sh' where b2: "layer_blinded ly2' (d2_block d1 u s) = Inr (ly3', sh')" by (cases r') simp
          note k2 = layer_blinded_bits [OF x'(5) [OF wf] x'(1,2) wf x'(3,4) b2]
          have "mbit (d2_arrays (d2_block d1 u s) ! j) i = mbit (d2_arrays d1 ! j) (8 * u + i)" if "j < 2" "i < 8 * s" for j i
            using that cap_ge [of "8 * s"] by (simp add: d2_block_def)
          then have send: "mh_send_beaver_shares G mh sh' = mh_send_beaver_shares G mh sh"
            using k2(2) k1(2) k2(3) d1(3) by (intro send_beaver_bits) auto
          obtain msg where msg: "mh_send_beaver_shares G mh sh = Broadcast msg (Done ())" using k1(2) by (rule send_beaver_once)
          let ?C = "\<lambda>(z, e). C z \<and> completes n N h ds e \<and> agree (u + s) e d1"
          have ex: "\<exists>ze. ?C ze" using C d1(1) by auto
          have "\<exists>ze. ?C ze \<and> alike (pbind (layer_back G mh ly3 (bp\<lparr>bp_used := u + s\<rparr>)) f)
              (pbind (layer_back G mh ly3' (bp'\<lparr>bp_beaver_storage := Some (snd ze), bp_used := u + s\<rparr>)) (g (fst ze))) as R"
            unfolding layer_back_def pbind_assoc
          proof (rule alike_same [OF talks_receive_beaver [OF mh] _ ex])
            fix y :: "d2bitarray list \<times> 'g message_handler" and as1
            assume "case y of (shares, h) \<Rightarrow> list_all (\<lambda>s. \<exists>m. d2_wf 2 m s) shares \<and> mh_wf h"
            then obtain shares mh1 where y: "y = (shares, mh1)" and sh: "list_all (\<lambda>s. \<exists>m. d2_wf 2 m s) shares" and mh1: "mh_wf mh1" by auto
            let ?r = "\<lambda>ly. rbind (recons_beaver_uv shares ly) finish_and_exchange"
            have keeps: "layer_inv l'" if "layer_inv l" "?r l = Inr l'" for l l'
              using that recons_keeps [OF that(1) sh] finish_keeps by (auto simp: rbind_eq_Ok)
            show "\<exists>ze. ?C ze \<and> alike (pbind (case y of (shares, mh) \<Rightarrow>
                pbind (lift_res (rbind (recons_beaver_uv shares ly3) finish_and_exchange)) (\<lambda>ly. Done (ly, bp\<lparr>bp_used := u + s\<rparr>, mh))) f)
              (pbind (case y of (shares, mh) \<Rightarrow> pbind (lift_res (rbind (recons_beaver_uv shares ly3') finish_and_exchange))
                (\<lambda>ly. Done (ly, bp'\<lparr>bp_beaver_storage := Some (snd ze), bp_used := u + s\<rparr>, mh))) (g (fst ze))) as1 R"
            proof (cases "?r ly3")
              case l1: (Inr l1)
              show ?thesis
              proof (cases "?r ly3'")
                case l2: (Inr l2)
                show ?thesis
                  using cont [OF keeps [OF k1(1) l1] keeps [OF k2(1) l2] mh1 d1(1), of as1] by (auto simp: y l1 l2)
              qed (use ex in \<open>auto simp: y\<close>)
            qed (use ex in \<open>auto simp: y\<close>)
          qed
          then obtain z e where ze: "C z" "completes n N h ds e" "agree (u + s) e d1" "alike (pbind (layer_back G mh ly3 (bp\<lparr>bp_used := u + s\<rparr>)) f)
              (pbind (layer_back G mh ly3' (bp'\<lparr>bp_beaver_storage := Some e, bp_used := u + s\<rparr>)) (g z)) as R" by auto
          have "d2_block e u s = d2_block d1 u s" by (rule d2_block_agree [OF ze(3)])
          then have "alike (pbind (layer_interact P G prev bp mh ly) f)
              (pbind (layer_interact P G prev' (bp'\<lparr>bp_beaver_storage := Some e, bp_used := u\<rparr>) mh ly') (g z)) as R"
            using ze(4) by (simp add: p1 p2 [OF ze(2)] f1 f2 b1 b2 send msg)
          moreover have "agree u e d" using agree_trans [OF agree_mono [OF ze(3)] d1(2)] by simp
          ultimately show ?thesis using ze(1,2) by blast
        qed
      qed
    qed
  qed
qed

section \<open>All layers\<close>

definition twin_layers :: "layer \<Rightarrow> layer \<Rightarrow> bool" where
  "twin_layers ly ly' \<longleftrightarrow> layer_inv ly \<and> ly_state ly = Ticketing \<and> layer_inv ly' \<and> ly_state ly' = Ticketing \<and> ly_current_size ly' = ly_current_size ly"

lemma layers_alike:
  fixes G :: "('s, 'g) group_ops"
  assumes h: "h < n" and C: "\<exists>z. C z"
  shows "list_all2 twin_layers lys lys' \<Longrightarrow> pred_option layer_inv prev \<Longrightarrow> pred_option layer_inv prev' \<Longrightarrow> mh_wf mh \<Longrightarrow>
    bp_beaver_storage bp = Some d0 \<Longrightarrow> d2_wf 3 N d0 \<Longrightarrow> bp_used bp = u \<Longrightarrow> completes n N h ds d \<Longrightarrow>
    v = u + sum_list (map ly_current_size lys) \<Longrightarrow> v \<le> div_ceil N 8 \<Longrightarrow>
    (\<And>pv pv' mh1 d1 as1. pred_option layer_inv pv \<Longrightarrow> pred_option layer_inv pv' \<Longrightarrow> mh_wf mh1 \<Longrightarrow> completes n N h ds d1 \<Longrightarrow>
      \<exists>z e. C z \<and> completes n N h ds e \<and> agree v e d1 \<and>
        alike (f (pv, bp\<lparr>bp_used := v\<rparr>, mh1)) (g z (pv', bp'\<lparr>bp_beaver_storage := Some e, bp_used := v\<rparr>, mh1)) as1 R) \<Longrightarrow>
    \<exists>z e. C z \<and> completes n N h ds e \<and> agree u e d \<and>
      alike (pbind (run_layers P G lys prev bp mh) f) (pbind (run_layers P G lys' prev' (bp'\<lparr>bp_beaver_storage := Some e, bp_used := u\<rparr>) mh) (g z)) as R"
proof (induction lys arbitrary: lys' prev prev' mh bp u d as)
  case Nil
  have "bp\<lparr>bp_used := v\<rparr> = bp" "v = u" using Nil.prems by (simp_all flip: Nil.prems(7))
  then show ?case using Nil.prems(1) Nil.prems(11) [OF Nil.prems(2-4,8), of as] by simp
next
  case (Cons ly lys)
  obtain ly' lys1 where lys': "lys' = ly' # lys1" "twin_layers ly ly'" "list_all2 twin_layers lys lys1"
    using Cons.prems(1) by (cases lys') auto
  let ?s = "ly_current_size ly"
  have v: "v = u + ?s + sum_list (map ly_current_size lys)" "u + ?s \<le> div_ceil N 8" using Cons.prems(9,10) by simp_all
  have "\<exists>z e. C z \<and> completes n N h ds e \<and> agree u e d \<and>
      alike (pbind (layer_interact P G prev bp mh ly) (\<lambda>x. pbind (case x of (ly, bp, mh) \<Rightarrow> run_layers P G lys (Some ly) bp mh) f))
        (pbind (layer_interact P G prev' (bp'\<lparr>bp_beaver_storage := Some e, bp_used := u\<rparr>) mh ly')
          (\<lambda>x. pbind (case x of (ly, bp, mh) \<Rightarrow> run_layers P G lys1 (Some ly) bp mh) (g z))) as R"
  proof (rule layer_alike [OF h, where s = ?s])
    fix ly1 ly1' d1 as1 and mh1 :: "'g message_handler"
    assume a: "layer_inv ly1" "layer_inv ly1'" "mh_wf mh1" "completes n N h ds d1"
    let ?bp = "bp\<lparr>bp_used := u + ?s\<rparr>"
    have "\<exists>z e. C z \<and> completes n N h ds e \<and> agree (u + ?s) e d1 \<and>
      alike (pbind (run_layers P G lys (Some ly1) ?bp mh1) f)
        (pbind (run_layers P G lys1 (Some ly1') (bp'\<lparr>bp_beaver_storage := Some e, bp_used := u + ?s\<rparr>) mh1) (g z)) as1 R"
      by (rule Cons.IH) (use lys'(3) a Cons.prems v in \<open>simp_all\<close>)
    then show "\<exists>z e. C z \<and> completes n N h ds e \<and> agree (u + ?s) e d1 \<and>
      alike (pbind (case (ly1, ?bp, mh1) of (ly, bp, mh) \<Rightarrow> run_layers P G lys (Some ly) bp mh) f)
        (pbind (case (ly1', bp'\<lparr>bp_beaver_storage := Some e, bp_used := u + ?s\<rparr>, mh1) of (ly, bp, mh) \<Rightarrow> run_layers P G lys1 (Some ly) bp mh) (g z)) as1 R"
      by simp
  qed (use lys'(2) Cons.prems v C in \<open>simp_all add: twin_layers_def\<close>)
  then show ?case by (simp add: lys'(1) pbind_assoc)
qed

section \<open>The executor\<close>

abbreviation executor ::
  "'g message_handler \<Rightarrow> beaver_provider \<Rightarrow> 's dabit_provider \<Rightarrow> layer list \<Rightarrow> bool \<Rightarrow> layer option \<Rightarrow> ('s, 'g) mpc_provider" where
  "executor mh bp dp lys c ol \<equiv> \<lparr>mp_message_handler = mh, mp_beaver_provider = bp, mp_dabit_provider = dp, mp_layers = lys,
     mp_party_const = c, mp_output_layer = ol\<rparr>"

abbreviation fresh_layers :: "layer list \<Rightarrow> bool" where
  "fresh_layers lys \<equiv> list_all (\<lambda>ly. layer_inv ly \<and> ly_state ly = Ticketing) lys"

text \<open>Building a circuit does not look at triples or daBits.\<close>

definition swap :: "beaver_provider \<Rightarrow> 's dabit_provider \<Rightarrow> ('s, 'g) mpc_provider \<Rightarrow> ('s, 'g) mpc_provider" where
  "swap bp dp mp = mp\<lparr>mp_beaver_provider := bp, mp_dabit_provider := dp\<rparr>"

lemma swap_executor [simp]: "swap bp dp (executor mh bp' dp' lys c ol) = executor mh bp dp lys c ol"
  by (simp add: swap_def)

lemma with_layer_swap: "with_layer (swap bp dp mp) l f = rbind (with_layer mp l f) (\<lambda>(x, mp). Ok (x, swap bp dp mp))"
  by (cases mp) (simp add: with_layer_def get_layer_eq swap_def rbind_assoc Let_def case_prod_unfold del: upt_Suc)

lemma ohe_swap: "recursive_ohe_vec P (swap bp dp mp) l b v = rbind (recursive_ohe_vec P mp l b v) (\<lambda>(s, mp). Ok (s, swap bp dp mp))"
proof (induction b arbitrary: mp l v rule: less_induct)
  case (less b)
  show ?case
  proof (cases "b \<le> 1")
    case True
    then show ?thesis by (simp add: recursive_ohe_vec.simps [of _ _ _ b] rbind_assoc) (simp add: swap_def)
  next
    case False
    then have "div_ceil b 2 < b" "b - div_ceil b 2 < b" by (auto simp: div_ceil_def)
    then show ?thesis
      using False less.IH by (simp add: recursive_ohe_vec.simps [of _ _ _ b] rbind_assoc Let_def case_prod_unfold with_layer_swap)
  qed
qed

lemma ohe_vec_any:
  fixes mh :: "'g message_handler"
  assumes "fresh_layers lys" "mh_wf mh" "bv_bit_len b < 64"
  shows "(\<exists>e. \<forall>bp (dp :: 's dabit_provider). ohe_vec P (executor mh bp dp lys c ol) b = Inl e) \<or>
    (\<exists>s lys'. source_ok s \<and> fresh_layers lys' \<and> map ly_current_size lys' = ohe_sizes 0 (bv_bit_len b) (map ly_current_size lys) \<and>
      (\<forall>bp (dp :: 's dabit_provider). ohe_vec P (executor mh bp dp lys c ol) b = Inr (s, executor mh bp dp lys' c ol)))"
proof -
  define bp0 where "bp0 = \<lparr>bp_beaver_storage = Some (d2_make 3 8 (\<lambda>_ _. False)), bp_used = 0, bp_last_report = 0\<rparr>"
  define dp0 :: "'s dabit_provider" where "dp0 = \<lparr>da_bit_storage = None, da_used = 0, da_last_report = 0\<rparr>"
  let ?mp = "executor mh bp0 dp0 lys c ol"
  have ok: "executor_ok ?mp" using assms by (auto simp: executor_ok_def bp0_def bp_wf_def intro: exI [of _ 8])
  have any: "ohe_vec P (executor mh bp dp lys c ol) b = rbind (ohe_vec P ?mp b) (\<lambda>(s, mp). Ok (s, swap bp dp mp))" for bp dp
    using ohe_swap [of P bp dp ?mp] by (simp add: ohe_vec_def)
  show ?thesis
  proof (cases "ohe_vec P ?mp b")
    case (Inr r)
    then obtain s mp' where r: "ohe_vec P ?mp b = Inr (s, mp')" by (cases r) simp
    note k = ohe_keeps [OF ok assms(3) r [unfolded ohe_vec_def]]
    define L where "L = mp_layers mp'"
    have "mp' = ?mp\<lparr>mp_layers := L\<rparr>" using k unfolding L_def by blast
    then have mp': "mp' = executor mh bp0 dp0 L c ol" by simp
    have "source_ok s" "fresh_layers L" "map ly_current_size L = ohe_sizes 0 (bv_bit_len b) (map ly_current_size lys)"
      using k by (simp_all add: mp' executor_ok_def layer_sizes_def)
    moreover have "ohe_vec P (executor mh bp dp lys c ol) b = Inr (s, executor mh bp dp L c ol)" for bp and dp :: "'s dabit_provider"
      unfolding any [of bp dp] r by (simp add: mp')
    ultimately show ?thesis by blast
  next
    case (Inl e)
    then have "ohe_vec P (executor mh bp dp lys c ol) b = Inl e" for bp and dp :: "'s dabit_provider" unfolding any [of bp dp] by simp
    then show ?thesis by blast
  qed
qed

lemma twin_fresh:
  "fresh_layers lys \<Longrightarrow> fresh_layers lys' \<Longrightarrow> map ly_current_size lys' = map ly_current_size lys \<Longrightarrow> list_all2 twin_layers (rev lys) (rev lys')"
proof (induction lys arbitrary: lys')
  case (Cons ly lys)
  then obtain ly' lys1 where "lys' = ly' # lys1" by (cases lys') auto
  with Cons show ?case by (simp add: twin_layers_def list_all2_appendI)
qed simp

lemma run_alike:
  fixes G :: "('s, 'g) group_ops" and dp :: "'s dabit_provider"
  assumes h: "h < n" and C: "\<exists>z. C z" and lys: "fresh_layers lys" "fresh_layers lys'" "map ly_current_size lys' = map ly_current_size lys" and mh: "mh_wf mh"
    and bp: "bp_beaver_storage bp = Some d0" "d2_wf 3 N d0" "bp_used bp = u" and d: "completes n N h ds d" "v = u + sum_list (map ly_current_size lys)" "v \<le> div_ceil N 8"
    and cont: "\<And>pv pv' mh1 d1 as1. pred_option layer_inv pv \<Longrightarrow> pred_option layer_inv pv' \<Longrightarrow> mh_wf mh1 \<Longrightarrow> completes n N h ds d1 \<Longrightarrow>
      \<exists>z e. C z \<and> completes n N h ds e \<and> agree v e d1 \<and>
        alike (f (executor mh1 (bp\<lparr>bp_used := v\<rparr>) dp [] c pv)) (g z (executor mh1 (bp'\<lparr>bp_beaver_storage := Some e, bp_used := v\<rparr>) (dp' z) [] c pv')) as1 R"
  shows "\<exists>z e. C z \<and> completes n N h ds e \<and> agree u e d \<and> alike (pbind (mp_run P G (executor mh bp dp lys c ol)) f)
      (pbind (mp_run P G (executor mh (bp'\<lparr>bp_beaver_storage := Some e, bp_used := u\<rparr>) (dp' z) lys' c ol')) (g z)) as R"
proof -
  have "\<exists>z e. C z \<and> completes n N h ds e \<and> agree u e d \<and>
      alike (pbind (run_layers P G (rev lys) None bp mh) (\<lambda>(pv, bp, mh). f (executor mh bp dp [] c pv)))
        (pbind (run_layers P G (rev lys') None (bp'\<lparr>bp_beaver_storage := Some e, bp_used := u\<rparr>) mh) ((\<lambda>z (pv, bp, mh). g z (executor mh bp (dp' z) [] c pv)) z)) as R"
    by (rule layers_alike [OF h C twin_fresh [OF lys] _ _ mh bp d(1) _ d(3)]) (use cont d(2) in \<open>simp_all add: rev_map [symmetric]\<close>)
  then show ?thesis by (simp add: mp_run_def pbind_assoc case_prod_unfold)
qed

text \<open>Both one-hot encodings.\<close>

definition ohe_pair ::
  "profile \<Rightarrow> boolean_value \<Rightarrow> boolean_value \<Rightarrow> ('s, 'g) mpc_provider \<Rightarrow> (layer_source \<times> layer_source \<times> ('s, 'g) mpc_provider) res" where
  "ohe_pair P b1 b2 mp = rbind (ohe_vec P mp b1) (\<lambda>(s1, mp). rbind (ohe_vec P mp b2) (\<lambda>(s2, mp). Ok (s1, s2, mp)))"

lemma retrieve_ohe_pair: "retrieve_ohe P G mp b1 b2 = pbind (lift_res (ohe_pair P b1 b2 mp)) (\<lambda>(s1, s2, mp). pbind (mp_run P G mp) (\<lambda>mp.
    pbind (lift_res (get_output P mp s1)) (\<lambda>o1. pbind (lift_res (get_output P mp s2)) (\<lambda>o2. Done (o1, o2, mp)))))"
  by (simp add: retrieve_ohe_def ohe_pair_def lift_res_rbind pbind_assoc case_prod_unfold)

lemma ohe_pair_any:
  fixes mh :: "'g message_handler"
  assumes mh: "mh_wf mh" and k: "bv_bit_len b1 < 64" "bv_bit_len b2 < 64"
  shows "(\<exists>e. \<forall>bp (dp :: 's dabit_provider). ohe_pair P b1 b2 (executor mh bp dp [] c ol) = Inl e) \<or>
    (\<exists>s1 s2 lys. source_ok s1 \<and> source_ok s2 \<and> fresh_layers lys \<and> map ly_current_size lys = ohe_sizes 0 (bv_bit_len b2) (ohe_sizes 0 (bv_bit_len b1) []) \<and>
      (\<forall>bp (dp :: 's dabit_provider). ohe_pair P b1 b2 (executor mh bp dp [] c ol) = Inr (s1, s2, executor mh bp dp lys c ol)))"
proof -
  have "fresh_layers []" by simp
  from ohe_vec_any [where 's = 's, OF this mh k(1), of P c ol] show ?thesis
  proof (elim disjE exE conjE)
    fix e
    assume "\<forall>bp (dp :: 's dabit_provider). ohe_vec P (executor mh bp dp [] c ol) b1 = Inl e"
    then have "\<forall>bp (dp :: 's dabit_provider). ohe_pair P b1 b2 (executor mh bp dp [] c ol) = Inl e" by (simp add: ohe_pair_def)
    then show ?thesis by blast
  next
    fix s1 lys1
    assume 1: "source_ok s1" "fresh_layers lys1" "map ly_current_size lys1 = ohe_sizes 0 (bv_bit_len b1) (map ly_current_size [])"
      "\<forall>bp (dp :: 's dabit_provider). ohe_vec P (executor mh bp dp [] c ol) b1 = Inr (s1, executor mh bp dp lys1 c ol)"
    from ohe_vec_any [where 's = 's, OF 1(2) mh k(2), of P c ol] show ?thesis
    proof (elim disjE exE conjE)
      fix e
      assume "\<forall>bp (dp :: 's dabit_provider). ohe_vec P (executor mh bp dp lys1 c ol) b2 = Inl e"
      then have "\<forall>bp (dp :: 's dabit_provider). ohe_pair P b1 b2 (executor mh bp dp [] c ol) = Inl e" using 1(4) by (simp add: ohe_pair_def)
      then show ?thesis by blast
    next
      fix s2 lys
      assume 2: "source_ok s2" "fresh_layers lys" "map ly_current_size lys = ohe_sizes 0 (bv_bit_len b2) (map ly_current_size lys1)"
        "\<forall>bp (dp :: 's dabit_provider). ohe_vec P (executor mh bp dp lys1 c ol) b2 = Inr (s2, executor mh bp dp lys c ol)"
      then have "\<forall>bp (dp :: 's dabit_provider). ohe_pair P b1 b2 (executor mh bp dp [] c ol) = Inr (s1, s2, executor mh bp dp lys c ol)"
        using 1(4) by (simp add: ohe_pair_def)
      with 1 2 show ?thesis by (intro disjI2 exI [of _ s1] exI [of _ s2] exI [of _ lys]) simp
    qed
  qed
qed

text \<open>Reading an output.\<close>

lemma outputs_alike:
  assumes "pred_option layer_inv pv" "pred_option layer_inv pv'" "source_ok s" "source_ok s'" "\<exists>z. C z"
    and "\<And>o1 o1'. ba_wf o1 \<Longrightarrow> ba_wf o1' \<Longrightarrow> \<exists>z. C z \<and> alike (f o1) (g z o1') as R"
  shows "\<exists>z. C z \<and> alike (pbind (lift_res (extract_src_data P s pv)) f) (pbind (lift_res (extract_src_data P s' pv')) (g z)) as R"
  by (rule alike_lift_ex [OF _ assms(5)]) (rule assms(6) [OF source_data_wf [OF assms(3,1)] source_data_wf [OF assms(4,2)]])

lemma retrieve_ohe_alike:
  fixes G :: "('s, 'g) group_ops" and dp :: "'s dabit_provider"
  assumes h: "h < n" and C: "\<exists>z. C z" and mh: "mh_wf mh"
    and k: "bv_bit_len b1 = k1" "bv_bit_len b2 = k2" "bv_bit_len b1' = k1" "bv_bit_len b2' = k2" "k1 < 64" "k2 < 64"
    and bp: "bp_beaver_storage bp = Some d0" "d2_wf 3 N d0" "bp_used bp = u"
    and d: "completes n N h ds d" "v = u + ohe_bytes k1 + ohe_bytes k2" "v \<le> div_ceil N 8"
    and cont: "\<And>o1 o2 o1' o2' pv pv' mh1 d1 as1. ba_wf o1 \<Longrightarrow> ba_wf o2 \<Longrightarrow> ba_wf o1' \<Longrightarrow> ba_wf o2' \<Longrightarrow> mh_wf mh1 \<Longrightarrow> completes n N h ds d1 \<Longrightarrow>
      \<exists>z e. C z \<and> completes n N h ds e \<and> agree v e d1 \<and> alike (f (o1, o2, executor mh1 (bp\<lparr>bp_used := v\<rparr>) dp [] c pv))
        (g z (o1', o2', executor mh1 (bp'\<lparr>bp_beaver_storage := Some e, bp_used := v\<rparr>) (dp' z) [] c pv')) as1 R"
  shows "\<exists>z e. C z \<and> completes n N h ds e \<and> agree u e d \<and> alike (pbind (retrieve_ohe P G (executor mh bp dp [] c ol) b1 b2) f)
      (pbind (retrieve_ohe P G (executor mh (bp'\<lparr>bp_beaver_storage := Some e, bp_used := u\<rparr>) (dp' z) [] c ol') b1' b2') (g z)) as R"
proof -
  obtain z0 where z0: "C z0" using C by blast
  have fail: ?thesis if "\<And>z e. alike (pbind (retrieve_ohe P G (executor mh bp dp [] c ol) b1 b2) f)
      (pbind (retrieve_ohe P G (executor mh (bp'\<lparr>bp_beaver_storage := Some e, bp_used := u\<rparr>) (dp' z) [] c ol') b1' b2') (g z)) as R"
    using that z0 d(1) by (intro exI [of _ z0] exI [of _ d]) simp
  let ?exec = "\<lambda>z e. executor mh (bp'\<lparr>bp_beaver_storage := Some e, bp_used := u\<rparr>) (dp' z) [] c ol'"
  have k': "bv_bit_len b1 < 64" "bv_bit_len b2 < 64" "bv_bit_len b1' < 64" "bv_bit_len b2' < 64" using k by simp_all
  consider (bad) e where "\<forall>bp (dp :: 's dabit_provider). ohe_pair P b1 b2 (executor mh bp dp [] c ol) = Inl e"
    | (bad') e where "\<forall>bp (dp :: 's dabit_provider). ohe_pair P b1' b2' (executor mh bp dp [] c ol') = Inl e"
    | (good) s1 s2 lys s1' s2' lys' where "source_ok s1" "source_ok s2" "fresh_layers lys" "map ly_current_size lys = ohe_sizes 0 k2 (ohe_sizes 0 k1 [])"
      "\<And>bp (dp :: 's dabit_provider). ohe_pair P b1 b2 (executor mh bp dp [] c ol) = Inr (s1, s2, executor mh bp dp lys c ol)"
      "source_ok s1'" "source_ok s2'" "fresh_layers lys'" "map ly_current_size lys' = ohe_sizes 0 k2 (ohe_sizes 0 k1 [])"
      "\<And>bp (dp :: 's dabit_provider). ohe_pair P b1' b2' (executor mh bp dp [] c ol') = Inr (s1', s2', executor mh bp dp lys' c ol')"
    using ohe_pair_any [where 's = 's, OF mh k'(1,2), of P c ol] ohe_pair_any [where 's = 's, OF mh k'(3,4), of P c ol'] unfolding k(1-4) by blast
  then show ?thesis
  proof cases
    case bad
    then show ?thesis by (intro fail) (simp add: retrieve_ohe_pair)
  next
    case bad'
    then show ?thesis by (intro fail) (simp add: retrieve_ohe_pair)
  next
    case good
    let ?read = "\<lambda>s1 s2 (mp :: ('s, 'g) mpc_provider). pbind (lift_res (get_output P mp s1)) (\<lambda>o1. pbind (lift_res (get_output P mp s2)) (\<lambda>o2. Done (o1, o2, mp))) :: (u8 list, _) prog"
    have "\<exists>z e. C z \<and> completes n N h ds e \<and> agree u e d \<and> alike (pbind (mp_run P G (executor mh bp dp lys c ol)) (\<lambda>mp. pbind (?read s1 s2 mp) f))
      (pbind (mp_run P G (executor mh (bp'\<lparr>bp_beaver_storage := Some e, bp_used := u\<rparr>) (dp' z) lys' c ol')) ((\<lambda>z mp. pbind (?read s1' s2' mp) (g z)) z)) as R"
    proof (rule run_alike [OF h C good(3,8) _ mh bp d(1) _ d(3)])
      fix pv pv' d1 as1 and mh1 :: "'g message_handler"
      assume a: "pred_option layer_inv pv" "pred_option layer_inv pv'" "mh_wf mh1" "completes n N h ds d1"
      let ?C = "\<lambda>(z, e). C z \<and> completes n N h ds e \<and> agree v e d1"
      let ?e1 = "executor mh1 (bp\<lparr>bp_used := v\<rparr>) dp [] c pv" and ?e2 = "\<lambda>(z, e). executor mh1 (bp'\<lparr>bp_beaver_storage := Some e, bp_used := v\<rparr>) (dp' z) [] c pv'"
      have ex: "\<exists>ze. ?C ze" using z0 a(4) by auto
      have "\<exists>ze. ?C ze \<and> alike
          (pbind (lift_res (extract_src_data P s1 pv)) (\<lambda>o1. pbind (lift_res (extract_src_data P s2 pv)) (\<lambda>o2. f (o1, o2, ?e1))))
          (pbind (lift_res (extract_src_data P s1' pv')) ((\<lambda>ze o1. pbind (lift_res (extract_src_data P s2' pv')) (\<lambda>o2. g (fst ze) (o1, o2, ?e2 ze))) ze)) as1 R"
      proof (rule outputs_alike [OF a(1,2) good(1,6) ex])
        fix o1 o1'
        assume o: "ba_wf o1" "ba_wf o1'"
        show "\<exists>ze. ?C ze \<and> alike (pbind (lift_res (extract_src_data P s2 pv)) (\<lambda>o2. f (o1, o2, ?e1)))
          (pbind (lift_res (extract_src_data P s2' pv')) ((\<lambda>ze o2. g (fst ze) (o1', o2, ?e2 ze)) ze)) as1 R"
        proof (rule outputs_alike [OF a(1,2) good(2,7) ex])
          fix o2 o2'
          assume "ba_wf o2" "ba_wf o2'"
          from cont [OF o(1) this(1) o(2) this(2) a(3,4), of pv pv' as1]
          show "\<exists>ze. ?C ze \<and> alike (f (o1, o2, ?e1)) (g (fst ze) (o1', o2', ?e2 ze)) as1 R" by auto
        qed
      qed
      then show "\<exists>z e. C z \<and> completes n N h ds e \<and> agree v e d1 \<and> alike (pbind (?read s1 s2 ?e1) f)
          (pbind (?read s1' s2' (executor mh1 (bp'\<lparr>bp_beaver_storage := Some e, bp_used := v\<rparr>) (dp' z) [] c pv')) (g z)) as1 R"
        by (auto simp: get_output_def pbind_assoc)
    qed (simp_all add: good(4,9) ohe_sizes_sum d(2))
    then show ?thesis by (simp add: retrieve_ohe_pair good(5,10) pbind_assoc)
  qed
qed

text \<open>The AND gate of a query.\<close>

lemma mp_and_swap: "mp_and (swap bp dp mp) m a b = rbind (mp_and mp m a b) (\<lambda>(s, mp). Ok (s, swap bp dp mp))"
  by (simp add: mp_and_def with_layer_swap)

lemma mp_and_any:
  fixes mh :: "'g message_handler"
  assumes mh: "mh_wf mh" and ab: "ba_wf a" "ba_wf b"
  shows "(\<exists>e. \<forall>bp (dp :: 's dabit_provider). mp_and (executor mh bp dp [] c ol) m (Input a) (Input b) = Inl e) \<or>
    (\<exists>s lys. source_ok s \<and> fresh_layers lys \<and> map ly_current_size lys = [div_ceil m 8] \<and>
      (\<forall>bp (dp :: 's dabit_provider). mp_and (executor mh bp dp [] c ol) m (Input a) (Input b) = Inr (s, executor mh bp dp lys c ol)))"
proof -
  define bp0 where "bp0 = \<lparr>bp_beaver_storage = Some (d2_make 3 8 (\<lambda>_ _. False)), bp_used = 0, bp_last_report = 0\<rparr>"
  define dp0 :: "'s dabit_provider" where "dp0 = \<lparr>da_bit_storage = None, da_used = 0, da_last_report = 0\<rparr>"
  let ?mp = "executor mh bp0 dp0 [] c ol"
  have ok: "executor_ok ?mp" using mh by (auto simp: executor_ok_def bp0_def bp_wf_def intro: exI [of _ 8])
  have any: "mp_and (executor mh bp dp [] c ol) m (Input a) (Input b) = rbind (mp_and ?mp m (Input a) (Input b)) (\<lambda>(s, mp). Ok (s, swap bp dp mp))"
    for bp and dp :: "'s dabit_provider" using mp_and_swap [of bp dp ?mp] by simp
  show ?thesis
  proof (cases "mp_and ?mp m (Input a) (Input b)")
    case (Inr r)
    then obtain s mp' where r: "mp_and ?mp m (Input a) (Input b) = Inr (s, mp')" by (cases r) simp
    note k = mp_and_keeps [OF ok ab r]
    define L where "L = mp_layers mp'"
    have "mp' = ?mp\<lparr>mp_layers := L\<rparr>" using r by (auto simp: L_def mp_and_def with_layer_def get_layer_eq rbind_eq_Ok Let_def split: if_splits)
    then have mp': "mp' = executor mh bp0 dp0 L c ol" by simp
    have "source_ok s" "fresh_layers L" "map ly_current_size L = [div_ceil m 8]"
      using k by (simp_all add: mp' executor_ok_def layer_sizes_def reserve_def)
    moreover have "mp_and (executor mh bp dp [] c ol) m (Input a) (Input b) = Inr (s, executor mh bp dp L c ol)" for bp and dp :: "'s dabit_provider"
      unfolding any [of bp dp] r by (simp add: mp')
    ultimately show ?thesis by (intro disjI2 exI [of _ s] exI [of _ L] conjI allI)
  next
    case (Inl e)
    then have "mp_and (executor mh bp dp [] c ol) m (Input a) (Input b) = Inl e" for bp and dp :: "'s dabit_provider" unfolding any [of bp dp] by simp
    then show ?thesis by blast
  qed
qed

lemma retrieve_and_alike:
  fixes G :: "('s, 'g) group_ops" and dp :: "'s dabit_provider"
  assumes h: "h < n" and C: "\<exists>z. C z" and mh: "mh_wf mh"
    and ab: "ba_wf a" "ba_wf b" "ba_wf a'" "ba_wf b'" "ba_bit_size a = m" "ba_bit_size a' = m"
    and bp: "bp_beaver_storage bp = Some d0" "d2_wf 3 N d0" "bp_used bp = u"
    and d: "completes n N h ds d" "v = u + div_ceil m 8" "v \<le> div_ceil N 8"
    and cont: "\<And>par par' pv pv' mh1 d1 as1. mh_wf mh1 \<Longrightarrow> completes n N h ds d1 \<Longrightarrow>
      \<exists>z e. C z \<and> completes n N h ds e \<and> agree v e d1 \<and> alike (f (par, executor mh1 (bp\<lparr>bp_used := v\<rparr>) dp [] c pv))
        (g z (par', executor mh1 (bp'\<lparr>bp_beaver_storage := Some e, bp_used := v\<rparr>) (dp' z) [] c pv')) as1 R"
  shows "\<exists>z e. C z \<and> completes n N h ds e \<and> agree u e d \<and> alike (pbind (retrieve_and P G (executor mh bp dp [] c ol) a b) f)
      (pbind (retrieve_and P G (executor mh (bp'\<lparr>bp_beaver_storage := Some e, bp_used := u\<rparr>) (dp' z) [] c ol') a' b') (g z)) as R"
proof -
  obtain z0 where z0: "C z0" using C by blast
  have fail: ?thesis if "\<And>z e. alike (pbind (retrieve_and P G (executor mh bp dp [] c ol) a b) f)
      (pbind (retrieve_and P G (executor mh (bp'\<lparr>bp_beaver_storage := Some e, bp_used := u\<rparr>) (dp' z) [] c ol') a' b') (g z)) as R"
    using that z0 d(1) by (intro exI [of _ z0] exI [of _ d]) simp
  consider (bad) e where "\<forall>bp (dp :: 's dabit_provider). mp_and (executor mh bp dp [] c ol) m (Input a) (Input b) = Inl e"
    | (bad') e where "\<forall>bp (dp :: 's dabit_provider). mp_and (executor mh bp dp [] c ol') m (Input a') (Input b') = Inl e"
    | (good) s lys s' lys' where "source_ok s" "fresh_layers lys" "map ly_current_size lys = [div_ceil m 8]"
      "\<forall>bp (dp :: 's dabit_provider). mp_and (executor mh bp dp [] c ol) m (Input a) (Input b) = Inr (s, executor mh bp dp lys c ol)"
      "source_ok s'" "fresh_layers lys'" "map ly_current_size lys' = [div_ceil m 8]"
      "\<forall>bp (dp :: 's dabit_provider). mp_and (executor mh bp dp [] c ol') m (Input a') (Input b') = Inr (s', executor mh bp dp lys' c ol')"
    using mp_and_any [where 's = 's, OF mh ab(1,2), of c ol m] mp_and_any [where 's = 's, OF mh ab(3,4), of c ol' m]
    by (elim disjE exE conjE) (erule that(1) | erule that(2) | erule (7) that(3))+
  then show ?thesis
  proof cases
    case bad
    then show ?thesis by (intro fail) (simp add: retrieve_and_def ab)
  next
    case bad'
    then show ?thesis by (intro fail) (simp add: retrieve_and_def ab)
  next
    case good
    let ?read = "\<lambda>s (mp :: ('s, 'g) mpc_provider). pbind (lift_res (get_output P mp s)) (\<lambda>z. pbind (lift_res (ba_parity z)) (\<lambda>par. Done (par, mp))) :: (u8 list, _) prog"
    have "\<exists>z e. C z \<and> completes n N h ds e \<and> agree u e d \<and> alike (pbind (mp_run P G (executor mh bp dp lys c ol)) (\<lambda>mp. pbind (?read s mp) f))
      (pbind (mp_run P G (executor mh (bp'\<lparr>bp_beaver_storage := Some e, bp_used := u\<rparr>) (dp' z) lys' c ol')) ((\<lambda>z mp. pbind (?read s' mp) (g z)) z)) as R"
    proof (rule run_alike [OF h C good(2,6) _ mh bp d(1) _ d(3)])
      fix pv pv' d1 as1 and mh1 :: "'g message_handler"
      assume a: "pred_option layer_inv pv" "pred_option layer_inv pv'" "mh_wf mh1" "completes n N h ds d1"
      let ?C = "\<lambda>(z, e). C z \<and> completes n N h ds e \<and> agree v e d1"
      let ?e1 = "executor mh1 (bp\<lparr>bp_used := v\<rparr>) dp [] c pv" and ?e2 = "\<lambda>(z, e). executor mh1 (bp'\<lparr>bp_beaver_storage := Some e, bp_used := v\<rparr>) (dp' z) [] c pv'"
      have ex: "\<exists>ze. ?C ze" using z0 a(4) by auto
      have "\<exists>ze. ?C ze \<and> alike (pbind (lift_res (extract_src_data P s pv)) (\<lambda>o1. pbind (lift_res (ba_parity o1)) (\<lambda>par. f (par, ?e1))))
          (pbind (lift_res (extract_src_data P s' pv')) ((\<lambda>ze o1. pbind (lift_res (ba_parity o1)) (\<lambda>par. g (fst ze) (par, ?e2 ze))) ze)) as1 R"
      proof (rule outputs_alike [OF a(1,2) good(1,5) ex])
        fix o1 o1'
        show "\<exists>ze. ?C ze \<and> alike (pbind (lift_res (ba_parity o1)) (\<lambda>par. f (par, ?e1))) (pbind (lift_res (ba_parity o1')) (\<lambda>par. g (fst ze) (par, ?e2 ze))) as1 R"
        proof (cases "ba_parity o1"; cases "ba_parity o1'")
          fix par par'
          assume "ba_parity o1 = Inr par" "ba_parity o1' = Inr par'"
          then show ?thesis using cont [OF a(3,4), of par pv par' pv' as1] by auto
        qed (use ex in auto)
      qed
      then show "\<exists>z e. C z \<and> completes n N h ds e \<and> agree v e d1 \<and> alike (pbind (?read s ?e1) f)
          (pbind (?read s' (executor mh1 (bp'\<lparr>bp_beaver_storage := Some e, bp_used := v\<rparr>) (dp' z) [] c pv')) (g z)) as1 R"
        by (auto simp: get_output_def pbind_assoc)
    qed (simp_all add: good(3,7) d(2))
    then show ?thesis by (simp add: retrieve_and_def ab good(4,8) pbind_assoc)
  qed
qed

section \<open>The conversion and the commitment\<close>

text \<open>DaBits of party \<open>h\<close> that are consistent with those of the others; its bits can be chosen freely.\<close>

definition refits :: "nat \<Rightarrow> nat \<Rightarrow> nat \<Rightarrow> (nat \<Rightarrow> 's::comm_ring_1 dabit list) \<Rightarrow> 's dabit list \<Rightarrow> bool" where
  "refits n M h dd l \<longleftrightarrow> length l = M \<and> (\<forall>i<M. dabits_ok (map (\<lambda>p. (dd(h := l)) p ! i) [0..<n]))"

lemma redeal:
  fixes dd :: "nat \<Rightarrow> 's::comm_ring_1 dabit list"
  assumes "h < n"
  shows "\<exists>l. refits n M h dd l \<and> (\<forall>i<M. r_z2 (l ! i) = t i)"
proof -
  let ?O = "\<lambda>i. xors (map (\<lambda>p. r_z2 (dd p ! i)) (others n h))" and ?S = "\<lambda>i. sum_list (map (\<lambda>p. av_value (r_zp (dd p ! i))) (others n h))"
  define l where "l = map (\<lambda>i. \<lparr>r_z2 = t i, r_zp = \<lparr>av_value = of_bool (t i \<noteq> ?O i) - ?S i\<rparr>\<rparr>) [0..<M]"
  have "dabits_ok (map (\<lambda>p. (dd(h := l)) p ! i) [0..<n])" if i: "i < M" for i
  proof -
    let ?d = "\<lambda>p. (dd(h := l)) p ! i"
    have "xors (map (\<lambda>p. r_z2 (?d p)) [0..<n]) = (r_z2 (?d h) \<noteq> xors (map (\<lambda>p. r_z2 (?d p)) (others n h)))"
      using xors_others [OF assms refl, of "\<lambda>p. r_z2 (?d p)"] by simp
    also have "map (\<lambda>p. r_z2 (?d p)) (others n h) = map (\<lambda>p. r_z2 (dd p ! i)) (others n h)" by simp
    also have "r_z2 (?d h) = t i" using i by (simp add: l_def)
    finally have 1: "xors (map (\<lambda>p. r_z2 (?d p)) [0..<n]) = (t i \<noteq> ?O i)" .
    have "sum_list (map (\<lambda>p. av_value (r_zp (?d p))) [0..<n]) = av_value (r_zp (?d h)) + sum_list (map (\<lambda>p. av_value (r_zp (?d p))) (others n h))"
      using arg_cong [OF mset_others [OF assms, of "\<lambda>p. av_value (r_zp (?d p))"], of sum_mset] by (simp only: sum_mset_sum_list sum_mset.add_mset)
    also have "map (\<lambda>p. av_value (r_zp (?d p))) (others n h) = map (\<lambda>p. av_value (r_zp (dd p ! i))) (others n h)" by simp
    also have "av_value (r_zp (?d h)) = of_bool (t i \<noteq> ?O i) - ?S i" using i by (simp add: l_def)
    finally have "sum_list (map (\<lambda>p. av_value (r_zp (?d p))) [0..<n]) = of_bool (t i \<noteq> ?O i)" by simp
    with 1 show ?thesis by (simp add: dabits_ok_def comp_def)
  qed
  moreover have "length l = M" "\<forall>i<M. r_z2 (l ! i) = t i" by (simp_all add: l_def)
  ultimately show ?thesis unfolding refits_def by blast
qed

lemma alike_rest:
  assumes "\<And>x as. alike (f x) (g x) as R"
  shows "alike (pbind p f) (pbind p g) as R"
  using assms
proof (induction p arbitrary: as)
  case (ReceiveAll k)
  then show ?case by (cases as) simp_all
qed simp_all

lemma issue_alike:
  assumes "mp_message_handler mp' = mp_message_handler mp"
  shows "alike (issue_token G V sv mp cm) (issue_token G V sv' mp' cm) as (\<lambda>_ _ _. True)"
  unfolding issue_token_def aggregate_commitments_def assms pbind_assoc by (intro alike_rest) (auto simp: Let_def split: prod.splits)

lemma finish_alike:
  fixes G :: "('s::comm_ring_1, 'g::ab_group_add) group_ops" and arith arith' :: "'s arith_value list"
  assumes G: "group_ok G" "generated G" and mp: "mp_message_handler mp' = mp_message_handler mp"
  shows "\<exists>r. True \<and> alike (pbind (lift_res (index arith 0)) (\<lambda>a0. pbind (lift_res (index arith 1)) (\<lambda>a1.
        issue_token G V sv mp (commit G (opening_new rnd (av_value a0) (av_value a1))))))
      (pbind (lift_res (index arith' 0)) (\<lambda>a0. pbind (lift_res (index arith' 1)) (\<lambda>a1.
        issue_token G V sv' mp' (commit G (opening_new r (av_value a0) (av_value a1)))))) as (\<lambda>_ _ _. True)"
proof (rule alike_lift_ex)
  fix a0 a0' :: "'s arith_value"
  show "\<exists>r. True \<and> alike (pbind (lift_res (index arith 1)) (\<lambda>a1. issue_token G V sv mp (commit G (opening_new rnd (av_value a0) (av_value a1)))))
      (pbind (lift_res (index arith' 1)) (\<lambda>a1. issue_token G V sv' mp' (commit G (opening_new r (av_value a0') (av_value a1))))) as (\<lambda>_ _ _. True)"
  proof (rule alike_lift_ex)
    fix a1 a1' :: "'s arith_value"
    obtain a where "\<forall>r. commit G (opening_new r (av_value a0) (av_value a1)) = commit G (opening_new (r + a) (av_value a0') (av_value a1'))"
      using commit_shift [OF G] by blast
    then show "\<exists>r. True \<and> alike (issue_token G V sv mp (commit G (opening_new rnd (av_value a0) (av_value a1))))
      (issue_token G V sv' mp' (commit G (opening_new r (av_value a0') (av_value a1')))) as (\<lambda>_ _ _. True)"
      using issue_alike [OF mp] by (intro exI [of _ "rnd + a"]) simp
  qed simp
qed simp

lemma talks_receive_dabits: "mh_wf h \<Longrightarrow> talks (mh_receive_dabit_shares G h) [] (\<lambda>(_, h). mh_wf h)"
  unfolding mh_receive_dabit_shares_def Let_def
  by (rule talks_quiet [OF talks_receive_all]) (auto simp: mh_wf_def intro!: talks_lift)

lemma e_bits_cong:
  "(\<And>i. i < m \<Longrightarrow> (pos_bit bvs i \<noteq> r_z2 (ds ! i)) = (pos_bit bvs' i \<noteq> r_z2 (ds' ! i))) \<Longrightarrow> e_bits bvs ds m = e_bits bvs' ds' m"
  unfolding e_bits_def by (intro arg_cong2 [where f = ba_make] refl ext) auto

lemma certify_alike:
  fixes G :: "('s::comm_ring_1, 'g::ab_group_add) group_ops" and sv sv' :: "('s, 'g, 'sk, 'vk) prc_server"
  assumes h: "h < n" and G: "group_ok G" "generated G" and mh: "mh_wf mh"
    and q: "bv_bit_len (q_l1_bss q) = k1" "bv_bit_len (q_l2_bss q) = k2" "bv_bit_len (q_l1_bss q') = k1" "bv_bit_len (q_l2_bss q') = k2"
    and dp: "da_bit_storage dp = Some l" "length l = M" "da_used dp = w" "w + (k1 + k2 + 1) \<le> M"
  shows "\<exists>l' r. refits n M h dd l' \<and> alike (certify P S G V q par (sv\<lparr>sv_mpc_provider := executor mh bp dp [] c pv\<rparr>))
    (certify P S G V (q'\<lparr>q_rnd_ass := \<lparr>av_value = r\<rparr>\<rparr>) par'
      (sv'\<lparr>sv_mpc_provider := executor mh bp' (dp'\<lparr>da_bit_storage := Some l', da_used := w\<rparr>) [] c pv'\<rparr>)) as (\<lambda>_ _ _. True)"
proof -
  define m where "m = k1 + k2 + 1"
  let ?q = "\<lambda>r. q'\<lparr>q_rnd_ass := \<lparr>av_value = r\<rparr>\<rparr>"
  let ?sv = "sv\<lparr>sv_mpc_provider := executor mh bp dp [] c pv\<rparr>"
  let ?sv' = "\<lambda>l'. sv'\<lparr>sv_mpc_provider := executor mh bp' (dp'\<lparr>da_bit_storage := Some l', da_used := w\<rparr>) [] c pv'\<rparr>"
  have trivial: ?thesis if "certify P S G V q par ?sv = Fail e \<or> (\<forall>r l'. certify P S G V (?q r) par' (?sv' l') = Fail e)" for e
    using that redeal [OF h, of M dd "\<lambda>_. False"] by auto
  show ?thesis
  proof (cases "join_boolean P (q_l1_bss q) (q_l2_bss q)")
    case (Inl e)
    then show ?thesis by (intro trivial [of e]) (simp add: certify_def)
  next
    case j: (Inr j)
    show ?thesis
    proof (cases "join_boolean P (q_l1_bss q') (q_l2_bss q')")
      case (Inl e)
      then show ?thesis by (intro trivial [of e]) (simp add: certify_def)
    next
      case j': (Inr j')
      define bvs where "bvs = [j, \<lparr>bv_bit_len = 1, bv_value = of_bool par\<rparr>]"
      define bvs' where "bvs' = [j', \<lparr>bv_bit_len = 1, bv_value = of_bool par'\<rparr>]"
      have len: "m = sum_list (map bv_bit_len bvs)" "m = sum_list (map bv_bit_len bvs')"
        using join_boolean_len [OF j] join_boolean_len [OF j'] q by (simp_all add: m_def bvs_def bvs'_def)
      have m: "0 < m" and wm: "w + m \<le> M" using dp(4) by (simp_all add: m_def)
      obtain l' where l': "refits n M h dd l'" "\<forall>i<M. r_z2 (l' ! i) = (r_z2 (l ! i) \<noteq> (pos_bit bvs (i - w) \<noteq> pos_bit bvs' (i - w)))"
        using redeal [OF h, of M dd "\<lambda>i. r_z2 (l ! i) \<noteq> (pos_bit bvs (i - w) \<noteq> pos_bit bvs' (i - w))"] by (elim exE conjE) (rule that)
      define ds where "ds = take m (drop w l)"
      define ds' where "ds' = take m (drop w l')"
      have len': "length l' = M" using l'(1) by (simp add: refits_def)
      have take: "da_take dp m = Inr (ds, dp\<lparr>da_used := w + m\<rparr>)" "length ds = m"
          "da_take (dp'\<lparr>da_bit_storage := Some l', da_used := w\<rparr>) m = Inr (ds', dp'\<lparr>da_bit_storage := Some l', da_used := w + m\<rparr>)" "length ds' = m"
        using dp(1-3) len' wm by (simp_all add: da_take_def slice_def ds_def ds'_def)
      have "(pos_bit bvs' i \<noteq> r_z2 (ds' ! i)) = (pos_bit bvs i \<noteq> r_z2 (ds ! i))" if "i < m" for i
        using that l'(2) dp(2) len' wm by (auto simp: ds_def ds'_def)
      then have e: "e_bits bvs' ds' m = e_bits bvs ds m" by (rule e_bits_cong)
      let ?e = "e_bits bvs ds m"
      let ?fin = "\<lambda>sv mp rnd (arith :: 's arith_value list). pbind (lift_res (index arith 0)) (\<lambda>a0. pbind (lift_res (index arith 1)) (\<lambda>a1.
        issue_token G V sv mp (commit G (opening_new rnd (av_value a0) (av_value a1))))) :: (u8 list, _) prog"
      let ?mp = "\<lambda>mh. executor mh bp (dp\<lparr>da_used := w + m\<rparr>) [] c pv"
      let ?mp' = "\<lambda>mh. executor mh bp' (dp'\<lparr>da_bit_storage := Some l', da_used := w + m\<rparr>) [] c pv'"
      have p1: "certify P S G V q par ?sv = pbind (mh_send_dabit_shares G mh ?e) (\<lambda>_. pbind (mh_receive_dabit_shares G mh) (\<lambda>(rec, mh).
          pbind (lift_res (ba_inplace_reconstruct ?e rec)) (\<lambda>e. pbind (lift_res (conv_values S c ds e bvs)) (?fin ?sv (?mp mh) (av_value (q_rnd_ass q))))))"
        unfolding certify_eq [OF j] bvs_def [symmetric] using conv_interact_eq [OF len(1) m take(1,2), of S G "conv_layer_new c" mh]
        by (simp add: run_conv_B2A_def pbind_assoc case_prod_unfold conv_layer_new_def)
      have p2: "certify P S G V (?q r) par' (?sv' l') = pbind (mh_send_dabit_shares G mh ?e) (\<lambda>_. pbind (mh_receive_dabit_shares G mh) (\<lambda>(rec, mh).
          pbind (lift_res (ba_inplace_reconstruct ?e rec)) (\<lambda>e. pbind (lift_res (conv_values S c ds' e bvs')) (?fin (?sv' l') (?mp' mh) r))))" for r
      proof -
        have "join_boolean P (q_l1_bss (?q r)) (q_l2_bss (?q r)) = Inr j'" using j' by simp
        from certify_eq [OF this, of S G V par', folded bvs'_def] show ?thesis using conv_interact_eq [OF len(2) m take(3,4), of S G "conv_layer_new c" mh]
          by (simp add: e run_conv_B2A_def pbind_assoc case_prod_unfold conv_layer_new_def)
      qed
      obtain msg where msg: "mh_send_dabit_shares G mh ?e = Broadcast msg (Done ())"
        by (simp add: mh_send_dabit_shares_def mh_broadcast_def)
      have "\<exists>r. True \<and> alike (pbind (mh_receive_dabit_shares G mh) (\<lambda>(rec, mh). pbind (lift_res (ba_inplace_reconstruct ?e rec)) (\<lambda>e.
            pbind (lift_res (conv_values S c ds e bvs)) (?fin ?sv (?mp mh) (av_value (q_rnd_ass q))))))
          (pbind (mh_receive_dabit_shares G mh) ((\<lambda>r (rec, mh). pbind (lift_res (ba_inplace_reconstruct ?e rec)) (\<lambda>e.
            pbind (lift_res (conv_values S c ds' e bvs')) (?fin (?sv' l') (?mp' mh) r))) r)) as (\<lambda>_ _ _. True)"
      proof (rule alike_same [OF talks_receive_dabits [OF mh]], clarify)
        fix rec as1 and mh1 :: "'g message_handler"
        show "\<exists>r. True \<and> alike (pbind (lift_res (ba_inplace_reconstruct ?e rec)) (\<lambda>e. pbind (lift_res (conv_values S c ds e bvs)) (?fin ?sv (?mp mh1) (av_value (q_rnd_ass q)))))
          (pbind (lift_res (ba_inplace_reconstruct ?e rec)) (\<lambda>e. pbind (lift_res (conv_values S c ds' e bvs')) (?fin (?sv' l') (?mp' mh1) r))) as1 (\<lambda>_ _ _. True)"
        proof (rule alike_lift_ex)
          fix e e'
          assume "ba_inplace_reconstruct ?e rec = Inr e" "ba_inplace_reconstruct ?e rec = Inr e'"
          show "\<exists>r. True \<and> alike (pbind (lift_res (conv_values S c ds e bvs)) (?fin ?sv (?mp mh1) (av_value (q_rnd_ass q))))
            (pbind (lift_res (conv_values S c ds' e' bvs')) (?fin (?sv' l') (?mp' mh1) r)) as1 (\<lambda>_ _ _. True)"
          proof (rule alike_lift_ex)
            fix v v'
            show "\<exists>r. True \<and> alike (?fin ?sv (?mp mh1) (av_value (q_rnd_ass q)) v) (?fin (?sv' l') (?mp' mh1) r v') as1 (\<lambda>_ _ _. True)"
              by (rule finish_alike [OF G]) simp
          qed simp
        qed simp
      qed simp
      then obtain r where "alike (certify P S G V q par ?sv) (certify P S G V (?q r) par' (?sv' l')) as (\<lambda>_ _ _. True)"
        unfolding p1 p2 by (auto simp: msg)
      with l'(1) show ?thesis by blast
    qed
  qed
qed

section \<open>The protocol\<close>

lemma protocol_alike:
  fixes G :: "('s::comm_ring_1, 'g::ab_group_add) group_ops" and sv sv' :: "('s, 'g, 'sk, 'vk) prc_server"
  assumes h: "h < n" and G: "group_ok G" "generated G" and mh: "mh_wf mh"
    and q: "bv_bit_len (q_l1_bss q) = k1" "bv_bit_len (q_l2_bss q) = k2" "bv_bit_len (q_l1_bss q') = k1" "bv_bit_len (q_l2_bss q') = k2" "k1 < 64" "k2 < 64"
    and db: "sv_db sv = db" "sv_db sv' = db" "db_l2_dim db = 2 ^ k2"
    and bp: "bp_beaver_storage bp = Some d" "bp_used bp = u" "completes n N h ds d" "u + query_bytes k1 k2 \<le> div_ceil N 8"
    and dp: "da_bit_storage dp = Some l" "length l = M" "da_used dp = w" "w + (k1 + k2 + 1) \<le> M"
  shows "\<exists>l' r e. refits n M h dd l' \<and> completes n N h ds e \<and>
    alike (prc_protocol P S G V (sv\<lparr>sv_mpc_provider := executor mh bp dp [] c ol\<rparr>) q)
      (prc_protocol P S G V (sv'\<lparr>sv_mpc_provider := executor mh (bp'\<lparr>bp_beaver_storage := Some e, bp_used := u\<rparr>)
        (dp'\<lparr>da_bit_storage := Some l', da_used := w\<rparr>) [] c ol'\<rparr>) (q'\<lparr>q_rnd_ass := \<lparr>av_value = r\<rparr>\<rparr>)) as (\<lambda>_ _ _. True)"
proof -
  let ?C = "\<lambda>z :: 's dabit list \<times> 's. refits n M h dd (fst z)" and ?v = "u + ohe_bytes k1 + ohe_bytes k2" and ?v' = "u + query_bytes k1 k2"
  let ?dp = "\<lambda>z :: 's dabit list \<times> 's. dp'\<lparr>da_bit_storage := Some (fst z), da_used := w\<rparr>"
  let ?q = "\<lambda>z :: 's dabit list \<times> 's. q'\<lparr>q_rnd_ass := \<lparr>av_value = snd z\<rparr>\<rparr>"
  let ?tail = "\<lambda>sv q (par, mp). certify P S G V q par (sv\<lparr>sv_mpc_provider := mp\<rparr>)"
  let ?mid = "\<lambda>sv q (o1, o2, mp). pbind (lift_res (lvl1_pir_retrieve db o1)) (\<lambda>ans.
     pbind (lift_res (rassert (ba_bit_size ans = ba_bit_size o2) AssertionFailed)) (\<lambda>_. pbind (retrieve_and P G (mp_clear mp) ans o2) (?tail sv q)))"
  have C: "\<exists>z. ?C z" using redeal [OF h, of M dd "\<lambda>_. False"] by auto
  have wf: "d2_wf 3 N d" using bp(3) by (simp add: completes_def)
  have split: "prc_protocol P S G V sv1 q1 = pbind (retrieve_ohe P G (sv_mpc_provider sv1) (q_l1_bss q1) (q_l2_bss q1)) (?mid sv1 q1)"
    if "sv_db sv1 = db" for sv1 :: "('s, 'g, 'sk, 'vk) prc_server" and q1
    unfolding prc_protocol_eq rec_retrieve_eq that pbind_assoc by (simp add: case_prod_unfold pbind_assoc)
  have again: "?mid (sv1\<lparr>sv_mpc_provider := mp\<rparr>) q1 = ?mid sv1 q1" for sv1 :: "('s, 'g, 'sk, 'vk) prc_server" and q1 mp by simp
  have "\<exists>z e. ?C z \<and> completes n N h ds e \<and> agree u e d \<and> alike (pbind (retrieve_ohe P G (executor mh bp dp [] c ol) (q_l1_bss q) (q_l2_bss q)) (?mid sv q))
      (pbind (retrieve_ohe P G (executor mh (bp'\<lparr>bp_beaver_storage := Some e, bp_used := u\<rparr>) (?dp z) [] c ol') (q_l1_bss q') (q_l2_bss q')) ((\<lambda>z. ?mid sv' (?q z)) z))
      as (\<lambda>_ _ _. True)"
  proof (rule retrieve_ohe_alike [OF h C mh q bp(1) wf bp(2,3) refl])
    show "?v \<le> div_ceil N 8" using bp(4) by (simp add: query_bytes_def)
    fix o1 o2 o1' o2' pv pv' d1 as1 and mh1 :: "'g message_handler"
    assume o: "ba_wf o2" "ba_wf o2'" and mh1: "mh_wf mh1" and d1: "completes n N h ds d1"
    let ?e1 = "executor mh1 (bp\<lparr>bp_used := ?v\<rparr>) dp [] c None" and ?e2 = "\<lambda>z e. executor mh1 (bp'\<lparr>bp_beaver_storage := Some e, bp_used := ?v\<rparr>) (?dp z) [] c None"
    let ?D = "\<lambda>(z, e). ?C z \<and> completes n N h ds e \<and> agree ?v e d1"
    have D: "\<exists>ze. ?D ze" using C d1 by auto
    have "\<exists>ze. ?D ze \<and> alike (pbind (lift_res (lvl1_pir_retrieve db o1)) (\<lambda>ans. pbind (lift_res (rassert (ba_bit_size ans = ba_bit_size o2) AssertionFailed)) (\<lambda>_.
          pbind (retrieve_and P G ?e1 ans o2) (?tail sv q))))
        (pbind (lift_res (lvl1_pir_retrieve db o1')) (\<lambda>ans. pbind (lift_res (rassert (ba_bit_size ans = ba_bit_size o2') AssertionFailed)) (\<lambda>_.
          pbind (retrieve_and P G (?e2 (fst ze) (snd ze)) ans o2') (?tail sv' (?q (fst ze)))))) as1 (\<lambda>_ _ _. True)"
    proof (rule alike_lift_ex [OF _ D], rule alike_lift_ex [OF _ D])
      fix ans ans' y y'
      assume r: "lvl1_pir_retrieve db o1 = Inr ans" "lvl1_pir_retrieve db o1' = Inr ans'"
      then have a: "ba_wf ans" "ba_wf ans'" "ba_bit_size ans = 2 ^ k2" "ba_bit_size ans' = 2 ^ k2" using lvl1_sized db(3) by fastforce+
      have "\<exists>z e. ?C z \<and> completes n N h ds e \<and> agree ?v e d1 \<and> alike (pbind (retrieve_and P G ?e1 ans o2) (?tail sv q))
          (pbind (retrieve_and P G (?e2 z e) ans' o2') ((\<lambda>z. ?tail sv' (?q z)) z)) as1 (\<lambda>_ _ _. True)"
      proof (rule retrieve_and_alike [OF h C mh1 a(1) o(1) a(2) o(2) a(3,4) _ wf _ d1 _ bp(4)])
        fix par par' pv pv' d2 as2 and mh2 :: "'g message_handler"
        assume mh2: "mh_wf mh2" and d2: "completes n N h ds d2"
        from certify_alike [OF h G mh2 q(1-4) dp, where dd = dd and P = P and S = S and V = V and par = par and par' = par' and sv = sv and sv' = sv' and c = c
            and pv = pv and pv' = pv' and dp' = dp' and as = as2 and bp = "bp\<lparr>bp_used := ?v'\<rparr>" and bp' = "bp'\<lparr>bp_beaver_storage := Some d2, bp_used := ?v'\<rparr>"]
        obtain l' r where "refits n M h dd l'" "alike (certify P S G V q par (sv\<lparr>sv_mpc_provider := executor mh2 (bp\<lparr>bp_used := ?v'\<rparr>) dp [] c pv\<rparr>))
          (certify P S G V (?q (l', r)) par' (sv'\<lparr>sv_mpc_provider := executor mh2 (bp'\<lparr>bp_beaver_storage := Some d2, bp_used := ?v'\<rparr>) (?dp (l', r)) [] c pv'\<rparr>)) as2 (\<lambda>_ _ _. True)"
          by auto
        with d2 show "\<exists>z e. ?C z \<and> completes n N h ds e \<and> agree ?v' e d2 \<and> alike (?tail sv q (par, executor mh2 (bp\<lparr>bp_used := ?v, bp_used := ?v'\<rparr>) dp [] c pv))
          (?tail sv' (?q z) (par', executor mh2 (bp'\<lparr>bp_beaver_storage := Some e, bp_used := ?v'\<rparr>) (?dp z) [] c pv')) as2 (\<lambda>_ _ _. True)"
          by (intro exI [of _ "(l', r)"] exI [of _ d2]) simp
      qed (simp_all add: bp(1) query_bytes_def)
      then show "\<exists>ze. ?D ze \<and> alike (pbind (retrieve_and P G ?e1 ans o2) (?tail sv q))
          (pbind (retrieve_and P G (?e2 (fst ze) (snd ze)) ans' o2') (?tail sv' (?q (fst ze)))) as1 (\<lambda>_ _ _. True)" by auto
    qed
    then show "\<exists>z e. ?C z \<and> completes n N h ds e \<and> agree ?v e d1 \<and> alike (?mid sv q (o1, o2, executor mh1 (bp\<lparr>bp_used := ?v\<rparr>) dp [] c pv))
        (?mid sv' (?q z) (o1', o2', executor mh1 (bp'\<lparr>bp_beaver_storage := Some e, bp_used := ?v\<rparr>) (?dp z) [] c pv')) as1 (\<lambda>_ _ _. True)"
      by (auto simp: mp_clear_def)
  qed
  then obtain z e where ze: "?C z" "completes n N h ds e" "alike (pbind (retrieve_ohe P G (executor mh bp dp [] c ol) (q_l1_bss q) (q_l2_bss q)) (?mid sv q))
      (pbind (retrieve_ohe P G (executor mh (bp'\<lparr>bp_beaver_storage := Some e, bp_used := u\<rparr>) (?dp z) [] c ol') (q_l1_bss q') (q_l2_bss q')) (?mid sv' (?q z)))
      as (\<lambda>_ _ _. True)" by auto
  show ?thesis
    by (intro exI [of _ "fst z"] exI [of _ "snd z"] exI [of _ e] conjI ze(1,2)) (use ze(3) in \<open>simp add: split db again\<close>)
qed

section \<open>All messages\<close>

text \<open>
  \<open>transcript n ps T out\<close>: the parties \<open>ps\<close> can send and receive what \<open>T\<close> lists, round by round, and end with the results \<open>out\<close>. A round
  is the message of each party and what each party gets, in the order of arrival.
\<close>

inductive transcript :: "nat \<Rightarrow> (nat \<Rightarrow> ('m, 'a) prog) \<Rightarrow> ((nat \<Rightarrow> 'm) \<times> (nat \<Rightarrow> (nat \<times> 'm option) list)) list \<Rightarrow> (nat \<Rightarrow> 'a) \<Rightarrow> bool"
  for n :: nat where
  over: "(\<And>p. p < n \<Longrightarrow> ps p = Done (out p)) \<Longrightarrow> transcript n ps [] out"
| turn: "(\<And>p. p < n \<Longrightarrow> ps p = Broadcast (ms p) (ReceiveAll (ks p))) \<Longrightarrow>
     (\<And>p. p < n \<Longrightarrow> mset (arr p) = mset (map (\<lambda>q. (q, Some (ms q))) (others n p))) \<Longrightarrow>
     transcript n (\<lambda>p. ks p (arr p)) T out \<Longrightarrow> transcript n ps ((ms, arr) # T) out"

text \<open>Parties that are sure to end have a transcript.\<close>

lemma transcript_exists: "all_finish n ps Q \<Longrightarrow> \<exists>T out. transcript n ps T out \<and> Q out"
proof (induction rule: all_finish.induct)
  case (finish ps xs Q)
  then show ?case by (blast intro: transcript.over)
next
  case (round ps ms ks Q)
  let ?arr = "\<lambda>p. map (\<lambda>q. (q, Some (ms q))) (others n p)"
  obtain T out where "transcript n (\<lambda>p. ks p (?arr p)) T out" "Q out" using round.IH [of ?arr] by auto
  then show ?case using transcript.turn [of n ps ms ks ?arr T out] round.hyps(1) by blast
qed

text \<open>When one party is replaced by one that sends the same, everything is as it was.\<close>

lemma same_transcript:
  assumes "transcript n ps T out" "all_finish n ps' Q" "\<And>p. p < n \<Longrightarrow> p \<noteq> h \<Longrightarrow> ps' p = ps p"
    and "alike (ps h) (ps' h) (map (\<lambda>(ms, arr). arr h) T) R" "h < n" "2 \<le> n"
  shows "\<exists>out'. transcript n ps' T out' \<and> (\<forall>p<n. p \<noteq> h \<longrightarrow> out' p = out p)"
proof -
  obtain p0 where p0: "p0 < n" "p0 \<noteq> h" using assms(5,6) by (cases h) (auto intro: that [of 0] that [of 1])
  from assms(1-4) show ?thesis
  proof (induction arbitrary: ps' rule: transcript.induct)
    case (over ps out)
    from over.prems(1) obtain xs where xs: "\<And>p. p < n \<Longrightarrow> ps' p = Done (xs p)"
    proof (cases rule: all_finish.cases)
      case (finish xs)
      then show ?thesis using that by blast
    next
      case (round ms ks)
      then show ?thesis using over.hyps [of p0] over.prems(2) [of p0] p0 by simp
    qed
    then have "\<forall>p<n. p \<noteq> h \<longrightarrow> xs p = out p" using over.hyps over.prems(2) by fastforce
    then show ?case using transcript.over [of n ps' xs] xs by blast
  next
    case (turn ps ms ks arr T out)
    from turn.prems(1) obtain ms' ks' where ps': "\<And>p. p < n \<Longrightarrow> ps' p = Broadcast (ms' p) (ReceiveAll (ks' p))"
      and fin: "\<And>arr. (\<And>p. p < n \<Longrightarrow> mset (arr p) = mset (map (\<lambda>q. (q, Some (ms' q))) (others n p))) \<Longrightarrow> all_finish n (\<lambda>p. ks' p (arr p)) Q"
    proof (cases rule: all_finish.cases)
      case (finish xs)
      then show ?thesis using turn.hyps(1) [of p0] turn.prems(2) [of p0] p0 by simp
    next
      case (round ms ks)
      then show ?thesis using that by blast
    qed
    have same: "ms' p = ms p" "p \<noteq> h \<Longrightarrow> ks' p = ks p" if "p < n" for p
    proof -
      show "ms' p = ms p"
        using turn.hyps(1) [OF that] ps' [OF that] turn.prems(2) [OF that] turn.prems(3) by (cases "p = h") auto
      show "ks' p = ks p" if "p \<noteq> h" using turn.hyps(1) [OF \<open>p < n\<close>] ps' [OF \<open>p < n\<close>] turn.prems(2) [OF \<open>p < n\<close> that] by simp
    qed
    have arr: "mset (arr p) = mset (map (\<lambda>q. (q, Some (ms' q))) (others n p))" if "p < n" for p
    proof -
      have "map (\<lambda>q. (q, Some (ms q))) (others n p) = map (\<lambda>q. (q, Some (ms' q))) (others n p)" using same(1) by simp
      then show ?thesis using turn.hyps(2) [OF that] by (simp only:)
    qed
    have "alike (ks h (arr h)) (ks' h (arr h)) (map (\<lambda>(ms, arr). arr h) T) R"
      using turn.prems(3) turn.hyps(1) [OF assms(5)] ps' [OF assms(5)] by simp
    then obtain out' where "transcript n (\<lambda>p. ks' p (arr p)) T out'" "\<forall>p<n. p \<noteq> h \<longrightarrow> out' p = out p"
      using turn.IH [of "\<lambda>p. ks' p (arr p)"] fin [OF arr] same(2) by auto
    moreover have "ps' p = Broadcast (ms p) (ReceiveAll (ks' p))" if "p < n" for p using ps' [OF that] same(1) [OF that] by simp
    ultimately show ?case using transcript.turn [of n ps' ms ks' arr T out'] turn.hyps(2) by blast
  qed
qed

text \<open>Another share of one party makes the number another one.\<close>

lemma reshare:
  assumes "bv_shares n k bv x" "h < n" "unat y < 2 ^ k" "k \<le> 32"
  shows "\<exists>b. bv_bit_len b = k \<and> bv_shares n k (bv(h := b)) y"
proof -
  let ?b = "\<lparr>bv_bit_len = k, bv_value = bv_value (bv h) XOR (x XOR y)\<rparr>"
  have x: "x = xor_of n (\<lambda>p. bv_value (bv p))" "\<And>p. p < n \<Longrightarrow> bv_bit_len (bv p) = k \<and> unat (bv_value (bv p)) < 2 ^ k"
    using assms(1) by (auto simp: bv_shares_def)
  then have "unat x < 2 ^ k" using xor_of_bound [of n "\<lambda>p. bv_value (bv p)" k] by blast
  then have "unat (bv_value ?b) < 2 ^ k" using assms(3) x(2) [OF assms(2)] by (simp add: unat_bit_bound bit_xor_iff)
  moreover have "xor_of n (\<lambda>p. bv_value ((bv(h := ?b)) p)) = y"
  proof (rule bit_word_eqI)
    fix i assume "i < LENGTH(32)"
    let ?f = "\<lambda>p. bit (bv_value (bv p)) i" and ?g = "\<lambda>p. bit (bv_value ((bv(h := ?b)) p)) i"
    have "bit x i = (?f h \<noteq> xors (map ?f (others n h)))" using xors_others [OF assms(2) refl, of ?f] by (simp add: x(1) bit_xor_of)
    moreover have "xors (map ?g [0..<n]) = (?g h \<noteq> xors (map ?g (others n h)))" using xors_others [OF assms(2) refl, of ?g] by simp
    moreover have "map ?g (others n h) = map ?f (others n h)" by simp
    moreover have "?g h = (?f h \<noteq> (bit x i \<noteq> bit y i))" by (simp add: bit_xor_iff)
    ultimately have "xors (map ?g [0..<n]) = bit y i" by argo
    then show "bit (xor_of n (\<lambda>p. bv_value ((bv(h := ?b)) p))) i = bit y i" by (simp only: bit_xor_of)
  qed
  ultimately show ?thesis using x(2) by (intro exI [of _ ?b]) (simp add: bv_shares_def)
qed

text \<open>Other triples and daBits that fit leave the servers ready.\<close>

lemma ready_again:
  fixes sv :: "nat \<Rightarrow> ('s::comm_ring_1, 'g, 'sk, 'vk) prc_server"
  assumes sv: "servers_ready n N u M w db sv" and h: "h < n"
    and ds: "\<And>p. p < n \<Longrightarrow> bp_beaver_storage (mp_beaver_provider (sv_mpc_provider (sv p))) = Some (ds p) \<and> d2_wf 3 N (ds p) \<and>
      bp_used (mp_beaver_provider (sv_mpc_provider (sv p))) = u" "completes n N h ds e"
    and dd: "\<And>p. p < n \<Longrightarrow> da_bit_storage (mp_dabit_provider (sv_mpc_provider (sv p))) = Some (dd p) \<and> length (dd p) = M \<and>
      da_used (mp_dabit_provider (sv_mpc_provider (sv p))) = w" "refits n M h dd l"
    and mp: "mp = sv_mpc_provider (sv h)"
  shows "servers_ready n N u M w db (sv(h := (sv h)\<lparr>sv_mpc_provider := mp\<lparr>mp_beaver_provider := (mp_beaver_provider mp)\<lparr>bp_beaver_storage := Some e, bp_used := u\<rparr>,
    mp_dabit_provider := (mp_dabit_provider mp)\<lparr>da_bit_storage := Some l, da_used := w\<rparr>\<rparr>\<rparr>))"
    (is "servers_ready _ _ _ _ _ _ ?sv")
proof -
  have "bps_ok n N (\<lambda>p. mp_beaver_provider (sv_mpc_provider (?sv p))) u"
    unfolding bps_ok_def using ds by (intro exI [of _ "ds(h := e)"]) (simp add: completes_def)
  moreover have "das_ok n M (\<lambda>p. mp_dabit_provider (sv_mpc_provider (?sv p))) w"
    unfolding das_ok_def using dd by (intro exI [of _ "dd(h := l)"]) (simp add: refits_def)
  ultimately show ?thesis using sv mp by (simp add: servers_ready_def parties_ready_def)
qed

text \<open>The secrets of one server for any other share of the index, with which it sends the same.\<close>

lemma server_alike:
  fixes sv :: "nat \<Rightarrow> ('s::comm_ring_1, 'g::ab_group_add, 'sk, 'vk) prc_server"
  assumes G: "group_ok G" "generated G" and sv: "servers_ready n N u M w db sv" "db_dims db k1 k2" and k: "k1 < 64" "k2 < 64"
    and q: "bv_bit_len (q_l1_bss q) = k1" "bv_bit_len (q_l2_bss q) = k2" and b: "bv_bit_len b1 = k1" "bv_bit_len b2 = k2"
    and N: "u + query_bytes k1 k2 \<le> div_ceil N 8" and M: "w + (k1 + k2 + 1) \<le> M" and h: "h < n"
  shows "\<exists>mp r. servers_ready n N u M w db (sv(h := (sv h)\<lparr>sv_mpc_provider := mp\<rparr>)) \<and>
    alike (prc_protocol P S G V (sv h) q) (prc_protocol P S G V ((sv h)\<lparr>sv_mpc_provider := mp\<rparr>) (q\<lparr>q_rnd_ass := r, q_l1_bss := b1, q_l2_bss := b2\<rparr>))
      as (\<lambda>_ _ _. True)"
proof -
  define mp where "mp = sv_mpc_provider (sv h)"
  obtain ds where ds: "\<And>p. p < n \<Longrightarrow> bp_beaver_storage (mp_beaver_provider (sv_mpc_provider (sv p))) = Some (ds p) \<and> d2_wf 3 N (ds p) \<and>
      bp_used (mp_beaver_provider (sv_mpc_provider (sv p))) = u" and ds': "completes n N h ds (ds h)"
    using sv(1) h by (auto simp: servers_ready_def parties_ready_def bps_ok_def completes_def)
  obtain dd where dd: "\<And>p. p < n \<Longrightarrow> da_bit_storage (mp_dabit_provider (sv_mpc_provider (sv p))) = Some (dd p) \<and> length (dd p) = M \<and>
      da_used (mp_dabit_provider (sv_mpc_provider (sv p))) = w"
    using sv(1) by (auto simp: servers_ready_def das_ok_def)
  have r: "mh_wf (mp_message_handler mp)" "mp_layers mp = []" "sv_db (sv h) = db" "db_l2_dim db = 2 ^ k2"
    using sv h by (auto simp: servers_ready_def parties_ready_def party_layers_def mp_def mh_wf_def mh_ready_def db_dims_def)
  have ex: "executor (mp_message_handler mp) B D [] (mp_party_const mp) (mp_output_layer mp) = mp\<lparr>mp_beaver_provider := B, mp_dabit_provider := D\<rparr>" for B D
    using r(2) by simp
  have sv_h: "(sv h)\<lparr>sv_mpc_provider := mp\<lparr>mp_beaver_provider := mp_beaver_provider mp, mp_dabit_provider := mp_dabit_provider mp\<rparr>\<rparr> = sv h"
    by (simp add: mp_def)
  let ?q' = "q\<lparr>q_l1_bss := b1, q_l2_bss := b2\<rparr>"
  have qq: "?q'\<lparr>q_rnd_ass := x\<rparr> = q\<lparr>q_rnd_ass := x, q_l1_bss := b1, q_l2_bss := b2\<rparr>" for x by simp
  have "\<exists>l' r e. refits n M h dd l' \<and> completes n N h ds e \<and>
    alike (prc_protocol P S G V ((sv h)\<lparr>sv_mpc_provider := executor (mp_message_handler mp) (mp_beaver_provider mp) (mp_dabit_provider mp) [] (mp_party_const mp) (mp_output_layer mp)\<rparr>) q)
      (prc_protocol P S G V ((sv h)\<lparr>sv_mpc_provider := executor (mp_message_handler mp) ((mp_beaver_provider mp)\<lparr>bp_beaver_storage := Some e, bp_used := u\<rparr>)
        ((mp_dabit_provider mp)\<lparr>da_bit_storage := Some l', da_used := w\<rparr>) [] (mp_party_const mp) (mp_output_layer mp)\<rparr>) (?q'\<lparr>q_rnd_ass := \<lparr>av_value = r\<rparr>\<rparr>))
      as (\<lambda>_ _ _. True)"
    using q ds [OF h] dd [OF h] k b by (intro protocol_alike [OF h G r(1) _ _ _ _ _ _ r(3,3,4) _ _ ds' N _ _ _ M]) (auto simp: mp_def)
  then obtain l' r e where f: "refits n M h dd l'" "completes n N h ds e" and al: "alike (prc_protocol P S G V (sv h) q)
      (prc_protocol P S G V ((sv h)\<lparr>sv_mpc_provider := mp\<lparr>mp_beaver_provider := (mp_beaver_provider mp)\<lparr>bp_beaver_storage := Some e, bp_used := u\<rparr>,
        mp_dabit_provider := (mp_dabit_provider mp)\<lparr>da_bit_storage := Some l', da_used := w\<rparr>\<rparr>\<rparr>) (q\<lparr>q_rnd_ass := \<lparr>av_value = r\<rparr>, q_l1_bss := b1, q_l2_bss := b2\<rparr>))
      as (\<lambda>_ _ _. True)"
    unfolding ex qq sv_h by blast
  with ready_again [OF sv(1) h ds f(2) dd f(1) mp_def] show ?thesis by blast
qed

end
