(* ===== verification/Array_Tests.thy ===== *)
theory Array_Tests
  imports D2_Bit_Array
begin

text \<open>
  The unit tests of \<open>src/simd_array/\<close> as computations of the model. A test passes when it ends without a panic, and one marked
  \<open>should_panic\<close> when it panics. The tests fix the seeds of ChaCha8; here they run on any generator, so that they hold for all the values the seeds
  stand for. Left out are the tests whose outcome depends on the bytes of ChaCha8 (\<open>test_secret_share_randomness\<close>, and
  \<open>test_d2array_creation\<close> with its distinct rows) or on the address of a buffer (the two tests of its alignment).
\<close>

section \<open>Assertions and loops\<close>

definition assert_eq :: "'a \<Rightarrow> 'a \<Rightarrow> unit res" where
  "assert_eq x y = rassert (x = y) AssertionFailed"

text \<open>Bit arrays are compared by their \<open>PartialEq\<close>, vectors of them by their lengths and then one by one.\<close>

definition assert_ba_eq :: "bitarray \<Rightarrow> bitarray \<Rightarrow> unit res" where
  "assert_ba_eq x y = rbind (ba_eq x y) (\<lambda>e. rassert e AssertionFailed)"

definition assert_ba_ne :: "bitarray \<Rightarrow> bitarray \<Rightarrow> unit res" where
  "assert_ba_ne x y = rbind (ba_eq x y) (\<lambda>e. rassert (\<not> e) AssertionFailed)"

fun bas_eq :: "bitarray list \<Rightarrow> bitarray list \<Rightarrow> bool res" where
  "bas_eq (x # xs) (y # ys) = rbind (ba_eq x y) (\<lambda>e. if e then bas_eq xs ys else Ok False)"
| "bas_eq xs ys = Ok (xs = [] \<and> ys = [])"

definition assert_d2_eq :: "d2bitarray \<Rightarrow> d2bitarray \<Rightarrow> unit res" where
  "assert_d2_eq x y =
     rbind (if length (d2_arrays x) = length (d2_arrays y) then bas_eq (d2_arrays x) (d2_arrays y) else Ok False) (\<lambda>e.
     rassert e AssertionFailed)"

definition each :: "('a \<Rightarrow> unit res) \<Rightarrow> 'a list \<Rightarrow> unit res" where
  "each f xs = rfold (\<lambda>x _. f x) xs ()"

lemma each_Ok: "(\<And>x. x \<in> set xs \<Longrightarrow> f x = Inr ()) \<Longrightarrow> each f xs = Inr ()"
  by (induction xs) (simp_all add: each_def)

lemma assert_eq_same [simp]: "assert_eq x x = Inr ()"
  by (simp add: assert_eq_def)

lemma assert_ba_eq_Ok: "ba_wf x \<Longrightarrow> ba_wf y \<Longrightarrow> assert_ba_eq x y = rassert (x = y) AssertionFailed"
  and assert_ba_ne_Ok: "ba_wf x \<Longrightarrow> ba_wf y \<Longrightarrow> assert_ba_ne x y = rassert (x \<noteq> y) AssertionFailed"
  by (simp_all add: assert_ba_eq_def assert_ba_ne_def ba_eq_Ok)

lemma bas_eq_same: "list_all ba_wf xs \<Longrightarrow> bas_eq xs xs = Inr True"
  by (induction xs) (simp_all add: ba_eq_Ok)

lemma assert_d2_same: "d2_wf k n d \<Longrightarrow> assert_d2_eq d d = Inr ()"
  using bas_eq_same [of "d2_arrays d"] by (simp add: assert_d2_eq_def d2_wf_def list_all_iff)

abbreviation seed32 :: "u8 \<Rightarrow> u8 list" where
  "seed32 b \<equiv> replicate 32 b"

section \<open>Aligned buffers\<close>

definition test_index_and_index_mut :: "unit res" where
  "test_index_and_index_mut =
     rbind (au_new 8) (\<lambda>b.
     rbind (rfold (\<lambda>i b. au_index_mut b i (of_nat i)) [0..<8] b) (\<lambda>b.
     each (\<lambda>i. rbind (au_index b i) (\<lambda>v. assert_eq v (of_nat i))) [0..<8]))"

definition test_deref_and_deref_mut :: "unit res" where
  "test_deref_and_deref_mut =
     rbind (au_new 4) (\<lambda>b.
     rbind (au_index_mut b 0 10) (\<lambda>b.
     rbind (au_index_mut b 1 20) (\<lambda>b.
     rbind (au_index_mut b 2 30) (\<lambda>b.
     rbind (au_index_mut b 3 40) (\<lambda>b.
     rbind (assert_eq (au_deref b) [10, 20, 30, 40]) (\<lambda>_.
     rbind (au_index_mut b 2 99) (\<lambda>b.
     rbind (au_index b 2) (\<lambda>v. assert_eq v 99))))))))"

definition test_as_ref_and_as_mut :: "unit res" where
  "test_as_ref_and_as_mut =
     rbind (au_new 3) (\<lambda>b.
     rbind (au_index_mut b 0 1) (\<lambda>b.
     rbind (au_index_mut b 1 2) (\<lambda>b.
     rbind (au_index_mut b 2 3) (\<lambda>b.
     rbind (assert_eq (au_deref b) [1, 2, 3]) (\<lambda>_.
     rbind (au_index_mut b 1 42) (\<lambda>b.
     rbind (au_index b 1) (\<lambda>v. assert_eq v 42)))))))"

definition test_zero_length_panics :: "unit res" where
  "test_zero_length_panics = rbind (au_new 0) (\<lambda>_. Ok ())"

lemma test_aligned_array:
  "test_index_and_index_mut = Inr ()" "test_deref_and_deref_mut = Inr ()" "test_as_ref_and_as_mut = Inr ()"
  "test_zero_length_panics = Inl AssertionFailed"
  by code_simp+

section \<open>Bit arrays\<close>

definition BIT_SIZE_CHECK_LIST :: "nat list" where
  "BIT_SIZE_CHECK_LIST = [16, 32, 64, 128, 256, 256 + 16, 1024]"

definition test_random_bit_set_and_get :: "'r rng_ops \<Rightarrow> unit res" where
  "test_random_bit_set_and_get R =
     each (\<lambda>bit_size.
       rbind (ba_from_seed R bit_size (seed32 42)) (\<lambda>array.
       rbind (rfold (\<lambda>i array. ba_set_bit array i (i mod 2 = 0)) [0..<bit_size] array) (\<lambda>array.
       each (\<lambda>i. rbind (ba_get array i) (\<lambda>b. assert_eq b (i mod 2 = 0))) [0..<bit_size]))) BIT_SIZE_CHECK_LIST"

definition test_bit_set_out_of_bounds :: "unit res" where
  "test_bit_set_out_of_bounds = rbind (ba_new 32) (\<lambda>array. rbind (ba_set_bit array 32 True) (\<lambda>_. Ok ()))"

definition test_get_out_of_bounds :: "unit res" where
  "test_get_out_of_bounds = rbind (ba_new 32) (\<lambda>array. rbind (ba_get array 32) (\<lambda>_. Ok ()))"

definition test_bitwise_and_wrong_size :: "'r rng_ops \<Rightarrow> unit res" where
  "test_bitwise_and_wrong_size R =
     rbind (ba_from_seed R 32 (seed32 42)) (\<lambda>a.
     rbind (ba_from_seed R 64 (seed32 13)) (\<lambda>b.
     rbind (ba_and a b) (\<lambda>_. Ok ())))"

text \<open>The seeds go up to 23, so that \<open>u8\<close> does not overflow.\<close>

definition test_bitwise_and :: "'r rng_ops \<Rightarrow> unit res" where
  "test_bitwise_and R =
     rbind (rfold (\<lambda>bit_size seed_base.
       rbind (ba_from_seed R bit_size (seed32 seed_base)) (\<lambda>a.
       rbind (ba_from_seed R bit_size (seed32 (seed_base + 1))) (\<lambda>b.
       rbind (ba_and a b) (\<lambda>c.
       rbind (each (\<lambda>i.
         rbind (ba_get a i) (\<lambda>ai. rbind (ba_get b i) (\<lambda>bi. rbind (ba_get c i) (\<lambda>ci. assert_eq ci (ai \<and> bi))))) [0..<bit_size]) (\<lambda>_.
       Ok (seed_base + 2))))))
       [5, 8, 16, 32, 64, 65, 68, 256, 264, 322, 400, 512] 0) (\<lambda>_. Ok ())"

definition test_simd_bitarray_equality :: "'r rng_ops \<Rightarrow> unit res" where
  "test_simd_bitarray_equality R =
     each (\<lambda>bit_size.
       rbind (ba_from_seed R bit_size (seed32 42)) (\<lambda>array1.
       rbind (ba_clone array1) (\<lambda>array2.
       rbind (assert_ba_eq array1 array2) (\<lambda>_.
       rbind (rfold (\<lambda>idx array2.
         rbind (ba_get array1 idx) (\<lambda>b.
         rbind (ba_set_bit array2 idx (\<not> b)) (\<lambda>array2.
         rbind (assert_ba_ne array1 array2) (\<lambda>_.
         rbind (ba_set_bit array2 idx b) (\<lambda>array2.
         rbind (assert_ba_eq array1 array2) (\<lambda>_.
         Ok array2)))))) [0..<min bit_size 16] array2) (\<lambda>array2.
       rbind (ba_get array1 1) (\<lambda>b1.
       rbind (ba_set_bit array2 1 (\<not> b1)) (\<lambda>array2.
       rbind (ba_get array1 3) (\<lambda>b3.
       rbind (ba_set_bit array2 3 (\<not> b3)) (\<lambda>array2.
       rbind (assert_ba_ne array1 array2) (\<lambda>_.
       rbind (ba_get array1 4) (\<lambda>b4.
       rbind (ba_set_bit array2 4 (\<not> b4)) (\<lambda>array2.
       rbind (assert_ba_ne array1 array2) (\<lambda>_.
       rbind (ba_from_seed R (bit_size + 8) (seed32 42)) (\<lambda>array3.
       assert_ba_ne array1 array3)))))))))))))) BIT_SIZE_CHECK_LIST"

definition test_secret_share_and_reconstruct :: "profile \<Rightarrow> 'r rng_ops \<Rightarrow> unit res" where
  "test_secret_share_and_reconstruct P R =
     rbind (rfold (\<lambda>bit_size rng.
       rbind (ba_random R bit_size rng) (\<lambda>(x, rng).
       rbind (ba_clone x) (\<lambda>original.
       rbind (ba_inplace_secret_share P R x 3 rng) (\<lambda>((x, shares), rng).
       rbind (assert_eq (length shares) 2) (\<lambda>_.
       rbind (ba_inplace_reconstruct x shares) (\<lambda>x.
       rbind (assert_ba_eq original x) (\<lambda>_.
       Ok rng)))))))
       BIT_SIZE_CHECK_LIST (rng_from_seed R (seed32 42))) (\<lambda>_. Ok ())"

lemma from_seed_Ok: "rng_ok R \<Longrightarrow> 0 < n \<Longrightarrow> \<exists>f. ba_from_seed R n s = Inr (ba_make n f)"
  using ba_random_Ok [of R n "rng_from_seed R s"] by (auto simp: ba_from_seed_def)

lemma from_seed_view:
  assumes "rng_ok R" "0 < n"
  shows "\<exists>f. ba_from_seed R n s = Inr (ba_make n f) \<and> mbit (ba_make n f) = f"
proof -
  obtain f where "ba_from_seed R n s = Inr (ba_make n f)" using from_seed_Ok [OF assms] by blast
  moreover have "ba_make n f = ba_make n (mbit (ba_make n f))" by (rule ba_make_cong) simp
  ultimately show ?thesis by (intro exI [of _ "mbit (ba_make n f)"]) simp
qed

lemma test_random_bit_set_and_get_passes:
  assumes "rng_ok R"
  shows "test_random_bit_set_and_get R = Inr ()"
  unfolding test_random_bit_set_and_get_def
proof (rule each_Ok)
  fix n assume "n \<in> set BIT_SIZE_CHECK_LIST"
  then have n: "0 < n" by (auto simp: BIT_SIZE_CHECK_LIST_def)
  obtain f where f: "ba_from_seed R n (seed32 42) = Inr (ba_make n f)" using from_seed_Ok [OF assms n] by blast
  have "rfold (\<lambda>i array. ba_set_bit array i (i mod 2 = 0)) [0..<n] (ba_make n f) = Inr (ba_make n (\<lambda>j. if j < n then j mod 2 = 0 else j < cap n \<and> f j))"
    using bits.write_loop [of "ba_make n f" 0 n "\<lambda>i. Inr (i mod 2 = 0)" "\<lambda>i. i mod 2 = 0"] by simp
  moreover have "each (\<lambda>i. rbind (ba_get (ba_make n (\<lambda>j. if j < n then j mod 2 = 0 else j < cap n \<and> f j)) i) (\<lambda>b. assert_eq b (i mod 2 = 0))) [0..<n] = Inr ()"
    using cap_ge [of n] by (intro each_Ok) (simp add: ba_get_Ok)
  ultimately show "rbind (ba_from_seed R n (seed32 42)) (\<lambda>array.
       rbind (rfold (\<lambda>i array. ba_set_bit array i (i mod 2 = 0)) [0..<n] array) (\<lambda>array.
       each (\<lambda>i. rbind (ba_get array i) (\<lambda>b. assert_eq b (i mod 2 = 0))) [0..<n])) = Inr ()"
    by (simp add: f)
qed

lemma test_out_of_bounds:
  "test_bit_set_out_of_bounds = Inl AssertionFailed" "test_get_out_of_bounds = Inl AssertionFailed"
  by (simp_all add: test_bit_set_out_of_bounds_def test_get_out_of_bounds_def ba_new_Ok ba_set_bit_out_of_bounds ba_get_out_of_bounds)

lemma test_bitwise_and_wrong_size_panics:
  assumes "rng_ok R"
  shows "test_bitwise_and_wrong_size R = Inl AssertionFailed"
proof -
  obtain f g where "ba_from_seed R 32 (seed32 42) = Inr (ba_make 32 f)" "ba_from_seed R 64 (seed32 13) = Inr (ba_make 64 g)"
    using from_seed_Ok [OF assms, of 32 "seed32 42"] from_seed_Ok [OF assms, of 64 "seed32 13"] by auto
  then show ?thesis by (simp add: test_bitwise_and_wrong_size_def ba_and_def ba_clone_Ok ba_inplace_and_def rassert_def)
qed

lemma test_bitwise_and_passes:
  assumes "rng_ok R"
  shows "test_bitwise_and R = Inr ()"
proof -
  let ?sizes = "[5, 8, 16, 32, 64, 65, 68, 256, 264, 322, 400, 512] :: nat list"
  let ?step = "\<lambda>bit_size seed_base.
       rbind (ba_from_seed R bit_size (seed32 seed_base)) (\<lambda>a. rbind (ba_from_seed R bit_size (seed32 (seed_base + 1))) (\<lambda>b. rbind (ba_and a b) (\<lambda>c.
       rbind (each (\<lambda>i. rbind (ba_get a i) (\<lambda>ai. rbind (ba_get b i) (\<lambda>bi. rbind (ba_get c i) (\<lambda>ci. assert_eq ci (ai \<and> bi))))) [0..<bit_size]) (\<lambda>_.
       Ok (seed_base + 2)))))"
  have step: "?step n s = Inr (s + 2)" if n: "0 < n" for n and s :: u8
  proof -
    obtain f g where fg: "ba_from_seed R n (seed32 s) = Inr (ba_make n f)" "ba_from_seed R n (seed32 (s + 1)) = Inr (ba_make n g)"
      using from_seed_Ok [OF assms n] by metis
    have "each (\<lambda>i. rbind (ba_get (ba_make n f) i) (\<lambda>ai. rbind (ba_get (ba_make n g) i) (\<lambda>bi.
        rbind (ba_get (ba_make n (\<lambda>i. mbit (ba_make n f) i \<and> mbit (ba_make n g) i)) i) (\<lambda>ci. assert_eq ci (ai \<and> bi))))) [0..<n] = Inr ()"
      by (intro each_Ok) (auto simp: ba_get_Ok)
    then show ?thesis using n by (simp add: fg ba_and_def ba_clone_Ok ba_inplace_and_Ok)
  qed
  have "\<exists>s'. rfold ?step ?sizes 0 = Inr s' \<and> True"
    by (rule rfold_invariant [where I = "\<lambda>_ _. True"]) (auto simp: step less_Suc_eq)
  then show ?thesis unfolding test_bitwise_and_def by auto
qed

text \<open>Two arrays of the same size that differ in one of their bits.\<close>

lemma flipped_differs: "i < n \<Longrightarrow> g i \<noteq> f i \<Longrightarrow> ba_make n f \<noteq> ba_make n g"
  using cap_ge [of n] by (auto simp: ba_make_inject intro!: exI [of _ i])

lemma test_simd_bitarray_equality_passes:
  assumes "rng_ok R"
  shows "test_simd_bitarray_equality R = Inr ()"
  unfolding test_simd_bitarray_equality_def
proof (rule each_Ok)
  fix n assume "n \<in> set BIT_SIZE_CHECK_LIST"
  then have n: "0 < n" "16 \<le> n" by (auto simp: BIT_SIZE_CHECK_LIST_def)
  obtain f where f: "ba_from_seed R n (seed32 42) = Inr (ba_make n f)" "mbit (ba_make n f) = f" using from_seed_view [OF assms n(1)] by blast
  obtain g where g: "ba_from_seed R (n + 8) (seed32 42) = Inr (ba_make (n + 8) g)" using from_seed_Ok [OF assms, of "n + 8"] by auto
  have cap: "i < cap n" if "i < n" for i using that cap_ge [of n] by simp
  let ?a = "ba_make n f"
  let ?flip = "\<lambda>idx array2. rbind (ba_get ?a idx) (\<lambda>b. rbind (ba_set_bit array2 idx (\<not> b)) (\<lambda>array2. rbind (assert_ba_ne ?a array2) (\<lambda>_.
         rbind (ba_set_bit array2 idx b) (\<lambda>array2. rbind (assert_ba_eq ?a array2) (\<lambda>_. Ok array2)))))"
  have "?flip i ?a = Inr ?a" if "i < n" for i
  proof -
    have "ba_make n ((mbit (ba_make n (f(i := \<not> f i))))(i := f i)) = ?a" by (rule ba_make_cong) simp
    moreover have "?a \<noteq> ba_make n (f(i := \<not> f i))" using that by (rule flipped_differs) simp
    ultimately show ?thesis using that by (simp add: ba_get_Ok ba_set_bit_Ok f(2) assert_ba_ne_Ok assert_ba_eq_Ok del: mbit_make)
  qed
  then have loop: "rfold ?flip [0..<min n 16] ?a = Inr ?a"
    using rfold_invariant [of "\<lambda>_ s. s = ?a" ?a "[0..<min n 16]" ?flip] by auto
  have ne: "ba_make n f \<noteq> ba_make (n + 8) g" by (metis ba_make_sel(1) add_eq_self_zero zero_neq_numeral)
  let ?f1 = "f(1 := \<not> f 1)" and ?f3 = "f(1 := \<not> f 1, 3 := \<not> f 3)" and ?f4 = "f(1 := \<not> f 1, 3 := \<not> f 3, 4 := \<not> f 4)"
  have view: "mbit (ba_make n h) = h" if "\<And>i. \<not> i < cap n \<Longrightarrow> \<not> h i" for h using that by (auto simp: fun_eq_iff)
  have hi: "\<not> f i" if "\<not> i < cap n" for i using that fun_cong [OF f(2), of i] by simp
  have m: "mbit (ba_make n ?f1) = ?f1" "mbit (ba_make n ?f3) = ?f3"
    using cap [of 1] cap [of 3] n(2) hi by (intro view; auto)+
  have "?a \<noteq> ba_make n ?f3" "?a \<noteq> ba_make n ?f4" using n(2) by (intro flipped_differs [of 1]; simp)+
  then show "rbind (ba_from_seed R n (seed32 42)) (\<lambda>array1. rbind (ba_clone array1) (\<lambda>array2. rbind (assert_ba_eq array1 array2) (\<lambda>_.
       rbind (rfold (\<lambda>idx array2. rbind (ba_get array1 idx) (\<lambda>b. rbind (ba_set_bit array2 idx (\<not> b)) (\<lambda>array2. rbind (assert_ba_ne array1 array2) (\<lambda>_.
         rbind (ba_set_bit array2 idx b) (\<lambda>array2. rbind (assert_ba_eq array1 array2) (\<lambda>_. Ok array2)))))) [0..<min n 16] array2) (\<lambda>array2.
       rbind (ba_get array1 1) (\<lambda>b1. rbind (ba_set_bit array2 1 (\<not> b1)) (\<lambda>array2. rbind (ba_get array1 3) (\<lambda>b3.
       rbind (ba_set_bit array2 3 (\<not> b3)) (\<lambda>array2. rbind (assert_ba_ne array1 array2) (\<lambda>_. rbind (ba_get array1 4) (\<lambda>b4.
       rbind (ba_set_bit array2 4 (\<not> b4)) (\<lambda>array2. rbind (assert_ba_ne array1 array2) (\<lambda>_.
       rbind (ba_from_seed R (n + 8) (seed32 42)) (\<lambda>array3. assert_ba_ne array1 array3))))))))))))) = Inr ()"
    using n ne loop by (simp add: f g ba_clone_Ok ba_get_Ok ba_set_bit_Ok assert_ba_eq_Ok assert_ba_ne_Ok m del: mbit_make One_nat_def)
qed

lemma test_secret_share_and_reconstruct_passes:
  assumes "rng_ok R"
  shows "test_secret_share_and_reconstruct P R = Inr ()"
proof -
  let ?step = "\<lambda>bit_size rng. rbind (ba_random R bit_size rng) (\<lambda>(x, rng). rbind (ba_clone x) (\<lambda>original.
       rbind (ba_inplace_secret_share P R x 3 rng) (\<lambda>((x, shares), rng). rbind (assert_eq (length shares) 2) (\<lambda>_.
       rbind (ba_inplace_reconstruct x shares) (\<lambda>x. rbind (assert_ba_eq original x) (\<lambda>_. Ok rng))))))"
  have step: "\<exists>rng'. ?step n rng = Inr rng'" if n: "0 < n" for n rng
  proof -
    obtain f rng1 where x: "ba_random R n rng = Inr (ba_make n f, rng1)" using ba_random_Ok [OF assms n] by blast
    obtain share shares rng2 where s: "ba_inplace_secret_share P R (ba_make n f) 3 rng1 = Inr ((share, shares), rng2)" "length shares = 2"
        "list_all (ba_sized n) (share # shares)" "\<And>i. xors (map (\<lambda>s. mbit s i) (share # shares)) = mbit (ba_make n f) i"
      using ba_inplace_secret_share_Ok [OF assms, of "ba_make n f" 3 P rng1] n by auto
    have "ba_inplace_reconstruct share shares = Inr (ba_make n (\<lambda>j. mbit share j \<noteq> xors (map (\<lambda>s. mbit s j) shares)))"
      using s(2,3) by (intro ba_inplace_reconstruct_Ok) auto
    also have "ba_make n (\<lambda>j. mbit share j \<noteq> xors (map (\<lambda>s. mbit s j) shares)) = ba_make n f"
      using s(4) by (intro ba_make_cong) simp
    finally show ?thesis using n by (simp add: x s(1,2) ba_clone_Ok assert_ba_eq_Ok)
  qed
  have "\<exists>s'. rfold ?step BIT_SIZE_CHECK_LIST (rng_from_seed R (seed32 42)) = Inr s' \<and> True"
    by (rule rfold_invariant [where I = "\<lambda>_ _. True"]) (use step in \<open>auto simp: BIT_SIZE_CHECK_LIST_def less_Suc_eq\<close>)
  then show ?thesis unfolding test_secret_share_and_reconstruct_def by auto
qed

section \<open>Vectors of bit arrays\<close>

definition D2_BIT_SIZE_CHECK_LIST :: "nat list" where
  "D2_BIT_SIZE_CHECK_LIST = [8, 32, 64, 128, 256, 256 + 16, 1024]"

text \<open>The pairs of a number of arrays and a number of bits the tests run over.\<close>

definition each_shape :: "(nat \<Rightarrow> nat \<Rightarrow> unit res) \<Rightarrow> unit res" where
  "each_shape f = each (\<lambda>array_size. each (\<lambda>bit_size. f array_size bit_size) D2_BIT_SIZE_CHECK_LIST) [1, 3, 5]"

definition test_d2array_inplace_xor :: "'r rng_ops \<Rightarrow> unit res" where
  "test_d2array_inplace_xor R = each_shape (\<lambda>array_size bit_size.
     rbind (d2_from_seed R array_size bit_size (seed32 42)) (\<lambda>a.
     rbind (d2_from_seed R array_size bit_size (seed32 13)) (\<lambda>b.
     rbind (d2_clone a) (\<lambda>expected.
     rbind (rmap (\<lambda>(expected_array, other_array). ba_inplace_xor expected_array other_array) (zip (d2_arrays expected) (d2_arrays b))) (\<lambda>arrays.
     let expected = expected\<lparr>d2_arrays := arrays @ drop (length arrays) (d2_arrays expected)\<rparr> in
     rbind (d2_inplace_xor a b) (\<lambda>a. assert_d2_eq a expected))))))"

definition test_d2array_reconstruction :: "'r rng_ops \<Rightarrow> unit res" where
  "test_d2array_reconstruction R = each_shape (\<lambda>array_size bit_size.
     rbind (d2_from_seed R array_size bit_size (seed32 42)) (\<lambda>share1.
     rbind (d2_from_seed R array_size bit_size (seed32 13)) (\<lambda>share2.
     rbind (d2_clone share1) (\<lambda>expected.
     rbind (d2_inplace_xor expected share2) (\<lambda>expected.
     rbind (d2_reconstruct [share1, share2]) (\<lambda>reconstructed.
     assert_d2_eq reconstructed expected))))))"

definition test_d2array_push :: "'r rng_ops \<Rightarrow> unit res" where
  "test_d2array_push R = each_shape (\<lambda>array_size bit_size.
     rbind (rfold (\<lambda>i d2array.
       rbind (ba_from_seed R bit_size (seed32 (of_nat i))) (\<lambda>array.
       rbind (ba_clone array) (\<lambda>copy.
       let d2array = d2_push d2array copy in
       rbind (assert_eq (length (d2_arrays d2array)) (i + 1)) (\<lambda>_.
       rbind (index (d2_arrays d2array) i) (\<lambda>pushed.
       rbind (assert_ba_eq pushed array) (\<lambda>_.
       Ok d2array)))))) [0..<array_size] d2_empty) (\<lambda>_. Ok ()))"

definition test_d2array_to_slice_additional_cases :: "'r rng_ops \<Rightarrow> unit res" where
  "test_d2array_to_slice_additional_cases R = each_shape (\<lambda>array_size bit_size.
     rbind (d2_from_seed R array_size bit_size (seed32 42)) (\<lambda>d2array.
     let byte_size = div_ceil bit_size 8 in
     each (\<lambda>(start_byte, end_byte).
       rbind (d2_to_slice d2array start_byte end_byte) (\<lambda>sliced.
       rbind (assert_eq (length (d2_arrays sliced)) (length (d2_arrays d2array))) (\<lambda>_.
       each (\<lambda>(original, sliced_array).
         rbind (ba_to_slice original start_byte end_byte) (\<lambda>expected_data.
         rbind (assert_ba_eq sliced_array expected_data) (\<lambda>_.
         rbind (assert_eq (ba_bit_size sliced_array) ((end_byte - start_byte) * 8)) (\<lambda>_.
         assert_eq (ba_byte_size sliced_array) (end_byte - start_byte))))) (zip (d2_arrays d2array) (d2_arrays sliced)))))
       [(0, byte_size div 2), (byte_size div 4, 3 * byte_size div 4), (byte_size div 2, byte_size)]))"

lemma each_shape_Ok: "(\<And>k n. 0 < k \<Longrightarrow> 0 < n \<Longrightarrow> f k n = Inr ()) \<Longrightarrow> each_shape f = Inr ()"
  unfolding each_shape_def by (intro each_Ok) (auto simp: D2_BIT_SIZE_CHECK_LIST_def)

lemma test_d2array_inplace_xor_passes:
  assumes "rng_ok R"
  shows "test_d2array_inplace_xor R = Inr ()"
  unfolding test_d2array_inplace_xor_def
proof (rule each_shape_Ok)
  fix k n :: nat assume n: "0 < n"
  obtain a b where ab: "d2_from_seed R k n (seed32 42) = Inr a" "d2_wf k n a" "d2_from_seed R k n (seed32 13) = Inr b" "d2_wf k n b"
    using d2_from_seed_Ok [OF assms n] by metis
  let ?x = "d2_make k n (\<lambda>j i. mbit (d2_arrays a ! j) i \<noteq> mbit (d2_arrays b ! j) i)"
  have len: "length (d2_arrays a) = k" "length (d2_arrays b) = k" using ab by (simp_all add: d2_wf_def)
  have x: "d2_inplace_xor a b = Inr ?x" by (rule d2_inplace_xor_Ok [OF ab(2,4)])
  then obtain xs where xs: "rmap (\<lambda>(s, t). ba_inplace_xor s t) (zip (d2_arrays a) (d2_arrays b)) = Inr xs" "\<lparr>d2_arrays = xs\<rparr> = ?x"
    by (auto simp: d2_inplace_xor_def rbind_eq_Ok)
  have "length xs = k" using rmap_eq_Ok_length [OF xs(1)] len by simp
  then have "a\<lparr>d2_arrays := xs @ drop (length xs) (d2_arrays a)\<rparr> = ?x" using xs(2) len by (cases a) simp
  then show "rbind (d2_from_seed R k n (seed32 42)) (\<lambda>a. rbind (d2_from_seed R k n (seed32 13)) (\<lambda>b. rbind (d2_clone a) (\<lambda>expected.
     rbind (rmap (\<lambda>(expected_array, other_array). ba_inplace_xor expected_array other_array) (zip (d2_arrays expected) (d2_arrays b))) (\<lambda>arrays.
     let expected = expected\<lparr>d2_arrays := arrays @ drop (length arrays) (d2_arrays expected)\<rparr> in
     rbind (d2_inplace_xor a b) (\<lambda>a. assert_d2_eq a expected))))) = Inr ()"
    using n by (simp add: ab(1,3) d2_clone_Ok [OF ab(2)] xs(1) x assert_d2_same [OF d2_wf_make] Let_def)
qed

lemma test_d2array_reconstruction_passes:
  assumes "rng_ok R"
  shows "test_d2array_reconstruction R = Inr ()"
  unfolding test_d2array_reconstruction_def
proof (rule each_shape_Ok)
  fix k n :: nat assume n: "0 < n"
  obtain a b where ab: "d2_from_seed R k n (seed32 42) = Inr a" "d2_wf k n a" "d2_from_seed R k n (seed32 13) = Inr b" "d2_wf k n b"
    using d2_from_seed_Ok [OF assms n] by metis
  let ?x = "d2_make k n (\<lambda>j i. mbit (d2_arrays a ! j) i \<noteq> mbit (d2_arrays b ! j) i)"
  have "d2_reconstruct [a, b] = Inr ?x"
    using ab(2,4) n by (simp add: d2_reconstruct_def index_def d2_clone_Ok d2_inplace_reconstruct_Ok)
  then show "rbind (d2_from_seed R k n (seed32 42)) (\<lambda>share1. rbind (d2_from_seed R k n (seed32 13)) (\<lambda>share2. rbind (d2_clone share1) (\<lambda>expected.
     rbind (d2_inplace_xor expected share2) (\<lambda>expected. rbind (d2_reconstruct [share1, share2]) (\<lambda>reconstructed. assert_d2_eq reconstructed expected))))) = Inr ()"
    using n by (simp add: ab(1,3) d2_clone_Ok [OF ab(2)] d2_inplace_xor_Ok [OF ab(2,4)] assert_d2_same [OF d2_wf_make])
qed

lemma test_d2array_push_passes:
  assumes "rng_ok R"
  shows "test_d2array_push R = Inr ()"
  unfolding test_d2array_push_def
proof (rule each_shape_Ok)
  fix k n :: nat assume n: "0 < n"
  let ?step = "\<lambda>i d2array. rbind (ba_from_seed R n (seed32 (of_nat i))) (\<lambda>array. rbind (ba_clone array) (\<lambda>copy.
       let d2array = d2_push d2array copy in
       rbind (assert_eq (length (d2_arrays d2array)) (i + 1)) (\<lambda>_. rbind (index (d2_arrays d2array) i) (\<lambda>pushed.
       rbind (assert_ba_eq pushed array) (\<lambda>_. Ok d2array)))))"
  have step: "\<exists>d'. ?step i d = Inr d' \<and> length (d2_arrays d') = Suc i" if "length (d2_arrays d) = i" for i d
  proof -
    obtain f where "ba_from_seed R n (seed32 (of_nat i)) = Inr (ba_make n f)" using from_seed_Ok [OF assms n] by blast
    then show ?thesis using n that by (simp add: ba_clone_Ok d2_push_def index_def nth_append assert_ba_eq_Ok)
  qed
  have "\<exists>d. rfold ?step [0..<k] d2_empty = Inr d \<and> length (d2_arrays d) = length [0..<k]"
  proof (rule rfold_invariant)
    fix i and d :: d2bitarray assume "i < length [0..<k]" and d: "length (d2_arrays d) = i"
    then have "[0..<k] ! i = i" by simp
    then show "\<exists>d'. ?step ([0..<k] ! i) d = Inr d' \<and> length (d2_arrays d') = Suc i" using step [OF d] by (simp only:)
  qed (simp add: d2_empty_def)
  then show "rbind (rfold ?step [0..<k] d2_empty) (\<lambda>_. Ok ()) = Inr ()" by auto
qed

lemma test_d2array_to_slice_additional_cases_passes:
  assumes "rng_ok R"
  shows "test_d2array_to_slice_additional_cases R = Inr ()"
  unfolding test_d2array_to_slice_additional_cases_def
proof (rule each_shape_Ok)
  fix k n :: nat assume n: "0 < n"
  obtain d where d: "d2_from_seed R k n (seed32 42) = Inr d" "d2_wf k n d" using d2_from_seed_Ok [OF assms n] by blast
  let ?case = "\<lambda>(start_byte, end_byte).
       rbind (d2_to_slice d start_byte end_byte) (\<lambda>sliced. rbind (assert_eq (length (d2_arrays sliced)) (length (d2_arrays d))) (\<lambda>_.
       each (\<lambda>(original, sliced_array).
         rbind (ba_to_slice original start_byte end_byte) (\<lambda>expected_data. rbind (assert_ba_eq sliced_array expected_data) (\<lambda>_.
         rbind (assert_eq (ba_bit_size sliced_array) ((end_byte - start_byte) * 8)) (\<lambda>_.
         assert_eq (ba_byte_size sliced_array) (end_byte - start_byte))))) (zip (d2_arrays d) (d2_arrays sliced))))"
  have len: "length (d2_arrays d) = k" using d(2) by (simp add: d2_wf_def)
  have byte_size: "ba_byte_size (d2_arrays d ! j) = div_ceil n 8" if "j < k" for j using d2_wf_nth [OF d(2) that] by (simp add: ba_wf_def)
  have one: "?case (st, en) = Inr ()" if b: "st \<le> en" "en \<le> div_ceil n 8" for st en
  proof -
    let ?s = "d2_make k (8 * (en - st)) (\<lambda>j i. i < 8 * (en - st) \<and> mbit (d2_arrays d ! j) (8 * st + i))"
    have "each (\<lambda>(original, sliced_array).
         rbind (ba_to_slice original st en) (\<lambda>expected_data. rbind (assert_ba_eq sliced_array expected_data) (\<lambda>_.
         rbind (assert_eq (ba_bit_size sliced_array) ((en - st) * 8)) (\<lambda>_.
         assert_eq (ba_byte_size sliced_array) (en - st))))) (zip (d2_arrays d) (d2_arrays ?s)) = Inr ()"
    proof (rule each_Ok, clarify)
      fix x y assume "(x, y) \<in> set (zip (d2_arrays d) (d2_arrays ?s))"
      then obtain j where "j < k" "x = d2_arrays d ! j" "y = d2_arrays ?s ! j" by (auto simp: set_zip len)
      then show "rbind (ba_to_slice x st en) (\<lambda>expected_data. rbind (assert_ba_eq y expected_data) (\<lambda>_.
         rbind (assert_eq (ba_bit_size y) ((en - st) * 8)) (\<lambda>_. assert_eq (ba_byte_size y) (en - st)))) = Inr ()"
        using b d2_wf_nth [OF d(2), of j] byte_size [of j] by (simp add: ba_to_slice_Ok assert_ba_eq_Ok mult.commute)
    qed
    then show ?thesis using len by (simp add: d2_to_slice_Ok [OF d(2) b])
  qed
  have "each ?case [(0, div_ceil n 8 div 2), (div_ceil n 8 div 4, 3 * div_ceil n 8 div 4), (div_ceil n 8 div 2, div_ceil n 8)] = Inr ()"
  proof (intro each_Ok)
    fix c assume "c \<in> set [(0, div_ceil n 8 div 2), (div_ceil n 8 div 4, 3 * div_ceil n 8 div 4), (div_ceil n 8 div 2, div_ceil n 8)]"
    then obtain st en where "c = (st, en)" "st \<le> en" "en \<le> div_ceil n 8" by (auto simp: div_le_mono)
    then show "?case c = Inr ()" using one by blast
  qed
  then show "rbind (d2_from_seed R k n (seed32 42)) (\<lambda>d2array. let byte_size = div_ceil n 8 in
     each (\<lambda>(start_byte, end_byte).
       rbind (d2_to_slice d2array start_byte end_byte) (\<lambda>sliced. rbind (assert_eq (length (d2_arrays sliced)) (length (d2_arrays d2array))) (\<lambda>_.
       each (\<lambda>(original, sliced_array).
         rbind (ba_to_slice original start_byte end_byte) (\<lambda>expected_data. rbind (assert_ba_eq sliced_array expected_data) (\<lambda>_.
         rbind (assert_eq (ba_bit_size sliced_array) ((end_byte - start_byte) * 8)) (\<lambda>_.
         assert_eq (ba_byte_size sliced_array) (end_byte - start_byte))))) (zip (d2_arrays d2array) (d2_arrays sliced)))))
       [(0, byte_size div 2), (byte_size div 4, 3 * byte_size div 4), (byte_size div 2, byte_size)]) = Inr ()"
    by (simp add: d(1) Let_def)
qed

section \<open>All of them\<close>

text \<open>C40. The tests of the aligned byte buffers, of the bit arrays and of their stacks pass for every generator
that fills a buffer with as many bytes as it was asked for: over all the sizes they list, arrays filled from a
seed or a generator keep the bits that are set, are equal exactly when their bits are, AND and XOR bit by bit,
are made again from their shares, and stacks of them XOR, share, take another row and give up the slices they
were cut in; the four tests that expect a panic reach it.\<close>

theorem array_tests_pass:
  assumes "rng_ok R"
  shows "test_index_and_index_mut = Inr () \<and> test_deref_and_deref_mut = Inr () \<and> test_as_ref_and_as_mut = Inr () \<and>
    test_zero_length_panics = Inl AssertionFailed \<and> test_random_bit_set_and_get R = Inr () \<and>
    test_bit_set_out_of_bounds = Inl AssertionFailed \<and> test_get_out_of_bounds = Inl AssertionFailed \<and>
    test_bitwise_and_wrong_size R = Inl AssertionFailed \<and> test_bitwise_and R = Inr () \<and> test_simd_bitarray_equality R = Inr () \<and>
    test_secret_share_and_reconstruct P R = Inr () \<and> test_d2array_inplace_xor R = Inr () \<and> test_d2array_reconstruction R = Inr () \<and>
    test_d2array_push R = Inr () \<and> test_d2array_to_slice_additional_cases R = Inr ()"
  using assms by (simp add: test_aligned_array test_out_of_bounds test_random_bit_set_and_get_passes test_bitwise_and_wrong_size_panics
      test_bitwise_and_passes test_simd_bitarray_equality_passes test_secret_share_and_reconstruct_passes test_d2array_inplace_xor_passes
      test_d2array_reconstruction_passes test_d2array_push_passes test_d2array_to_slice_additional_cases_passes)

theorem array_tests_pass_witness:
  "rng_ok counter_rng \<and> test_random_bit_set_and_get counter_rng = Inr () \<and> test_secret_share_and_reconstruct Dev counter_rng = Inr () \<and>
   test_d2array_to_slice_additional_cases counter_rng = Inr ()"
  using array_tests_pass [OF rng_ok_counter, of Dev] rng_ok_counter by blast

end
