(* ===== verification/Unit_Tests.thy ===== *)
theory Unit_Tests
  imports Server Array_Tests
begin

text \<open>
  The unit tests of \<open>src/cor_rnd/\<close> and of \<open>commitment.rs\<close>, \<open>db.rs\<close> and \<open>layer.rs\<close> in \<open>src/prc/\<close> as computations of the model, on any
  generator of random bytes and, where they use them, any scalars and any group. \<open>test_arithvalue_scalar_to_u32_panic\<close> is left out: it makes a scalar
  from a \<open>u64\<close>, as no other code does.
\<close>

section \<open>Triples and daBits\<close>

definition test_beaver_generation_with_2_parties :: "'r rng_ops \<Rightarrow> unit res" where
  "test_beaver_generation_with_2_parties R =
     (let bit_num = 1024; seed1 = seed32 0; seed2 = seed32 1 in
      rbind (bp_generate_as_dealer R bp_new bit_num seed1 [seed2]) (\<lambda>provider1.
      rbind (bp_generate_with_seed R bp_new bit_num seed2) (\<lambda>provider2.
      rbind (expect (bp_beaver_storage provider1)) (\<lambda>storage1.
      rbind (expect (bp_beaver_storage provider2)) (\<lambda>storage2.
      rbind (d2_reconstruct [storage1, storage2]) (\<lambda>reconstructed.
      rbind (d2_get_array reconstructed 0) (\<lambda>a.
      rbind (d2_get_array reconstructed 1) (\<lambda>b.
      rbind (ba_and a b) (\<lambda>expected_c.
      rbind (d2_get_array reconstructed 2) (\<lambda>c.
      assert_ba_eq c expected_c))))))))))"

definition test_beaver_generation_with_3_parties :: "'r rng_ops \<Rightarrow> unit res" where
  "test_beaver_generation_with_3_parties R =
     (let bit_num = 1024; seed1 = seed32 0; seed2 = seed32 1; seed3 = seed32 2 in
      rbind (bp_generate_as_dealer R bp_new bit_num seed1 [seed2, seed3]) (\<lambda>provider1.
      rbind (bp_generate_with_seed R bp_new bit_num seed2) (\<lambda>provider2.
      rbind (bp_generate_with_seed R bp_new bit_num seed3) (\<lambda>provider3.
      rbind (expect (bp_beaver_storage provider1)) (\<lambda>storage1.
      rbind (expect (bp_beaver_storage provider2)) (\<lambda>storage2.
      rbind (expect (bp_beaver_storage provider3)) (\<lambda>storage3.
      rbind (d2_reconstruct [storage1, storage2, storage3]) (\<lambda>reconstructed.
      rbind (d2_get_array reconstructed 0) (\<lambda>a.
      rbind (d2_get_array reconstructed 1) (\<lambda>b.
      rbind (ba_and a b) (\<lambda>expected_c.
      rbind (d2_get_array reconstructed 2) (\<lambda>c.
      assert_ba_eq c expected_c))))))))))))"

text \<open>The log of the first five daBits indexes them.\<close>

definition test_dabit_generation_with_2_parties :: "'r rng_ops \<Rightarrow> ('s::comm_ring_1, 'r) scalar_ops \<Rightarrow> unit res" where
  "test_dabit_generation_with_2_parties R S =
     (let bit_num = 1024; seed1 = seed32 0; seed2 = seed32 1 in
      rbind (da_generate_as_dealer R S da_new bit_num seed1 [seed2]) (\<lambda>provider1.
      rbind (da_generate_with_seed R S da_new bit_num seed2) (\<lambda>provider2.
      rbind (da_take provider1 bit_num) (\<lambda>(dabits1, provider1).
      rbind (da_take provider2 bit_num) (\<lambda>(dabits2, provider2).
      let rec = map (\<lambda>(d1, d2). dabit_add d1 d2) (zip dabits1 dabits2) in
      rbind (each (\<lambda>i. rbind (index dabits1 i) (\<lambda>_. rbind (index rec i) (\<lambda>_. Ok ()))) [0..<5]) (\<lambda>_.
      each (\<lambda>r. rbind (av_as_u32 S (r_zp r)) (\<lambda>v. assert_eq (of_bool (r_z2 r)) v)) rec))))))"

text \<open>The sum of consistent shares is made of triples.\<close>

lemma triples_reconstruct:
  assumes "d2_wf 3 n d" "\<forall>s\<in>set ds. d2_wf 3 n s" "ds \<noteq> []" "0 < n" "triples_ok (d # ds)"
  shows "\<exists>rec a b c. d2_reconstruct (d # ds) = Inr rec \<and> d2_get_array rec 0 = Inr a \<and> d2_get_array rec 1 = Inr b \<and>
    d2_get_array rec 2 = Inr c \<and> ba_and a b = Inr c \<and> ba_wf c"
proof -
  let ?f = "triple_sum (d # ds)"
  have clones: "rmap d2_clone ds = Inr ds" using rmap_Ok [of ds d2_clone "\<lambda>x. x"] assms(2,4) d2_clone_Ok by auto
  have "d2_reconstruct (d # ds) = Inr (d2_make 3 n (\<lambda>j i. mbit (d2_arrays d ! j) i \<noteq> xors (map (\<lambda>s. mbit (d2_arrays s ! j) i) ds)))"
    using assms(1-4) clones by (simp add: d2_reconstruct_def index_def d2_clone_Ok d2_inplace_reconstruct_Ok list_all_iff)
  also have "(\<lambda>j i. mbit (d2_arrays d ! j) i \<noteq> xors (map (\<lambda>s. mbit (d2_arrays s ! j) i) ds)) = ?f"
    by (simp add: fun_eq_iff triple_sum_def)
  finally have rec: "d2_reconstruct (d # ds) = Inr (d2_make 3 n ?f)" .
  have "ba_make n (\<lambda>i. mbit (ba_make n (?f 0)) i \<and> mbit (ba_make n (?f 1)) i) = ba_make n (?f 2)"
    using assms(5) by (intro ba_make_cong) (simp add: triples_ok_def)
  then have "ba_and (ba_make n (?f 0)) (ba_make n (?f 1)) = Inr (ba_make n (?f 2))"
    using assms(4) by (simp add: ba_and_def ba_clone_Ok ba_inplace_and_Ok del: One_nat_def)
  then show ?thesis
    by (intro exI [of _ "d2_make 3 n ?f"] exI [of _ "ba_make n (?f 0)"] exI [of _ "ba_make n (?f 1)"] exI [of _ "ba_make n (?f 2)"])
      (simp add: rec d2_get_array_Ok)
qed

lemma test_beaver_2_passes:
  assumes "rng_ok R"
  shows "test_beaver_generation_with_2_parties R = Inr ()"
proof -
  obtain dealer ds where g: "bp_generate_as_dealer R bp_new 1024 (seed32 0) [seed32 1] = Inr (bp_new\<lparr>bp_beaver_storage := Some dealer\<rparr>)"
      "rmap (\<lambda>s. d2_from_seed R 3 1024 s) [seed32 1] = Inr ds" "\<forall>d\<in>set (dealer # ds). d2_wf 3 1024 d" "triples_ok (dealer # ds)"
    using bp_generate_as_dealer_Ok [OF assms, of 1024 "[seed32 1]" bp_new "seed32 0"] by auto
  obtain d where d: "d2_from_seed R 3 1024 (seed32 1) = Inr d" "ds = [d]" using g(2) by (auto simp: rbind_eq_Ok)
  obtain rec a b c where "d2_reconstruct [dealer, d] = Inr rec" "d2_get_array rec 0 = Inr a" "d2_get_array rec 1 = Inr b"
      "d2_get_array rec 2 = Inr c" "ba_and a b = Inr c" "ba_wf c"
    using triples_reconstruct [of 1024 dealer ds] g(3,4) d(2) by auto
  then show ?thesis
    by (simp add: test_beaver_generation_with_2_parties_def Let_def g(1) bp_generate_with_seed_def d(1) assert_ba_eq_Ok)
qed

lemma test_beaver_3_passes:
  assumes "rng_ok R"
  shows "test_beaver_generation_with_3_parties R = Inr ()"
proof -
  obtain dealer ds where g: "bp_generate_as_dealer R bp_new 1024 (seed32 0) [seed32 1, seed32 2] = Inr (bp_new\<lparr>bp_beaver_storage := Some dealer\<rparr>)"
      "rmap (\<lambda>s. d2_from_seed R 3 1024 s) [seed32 1, seed32 2] = Inr ds" "\<forall>d\<in>set (dealer # ds). d2_wf 3 1024 d" "triples_ok (dealer # ds)"
    using bp_generate_as_dealer_Ok [OF assms, of 1024 "[seed32 1, seed32 2]" bp_new "seed32 0"] by auto
  obtain d e where d: "d2_from_seed R 3 1024 (seed32 1) = Inr d" "d2_from_seed R 3 1024 (seed32 2) = Inr e" "ds = [d, e]"
    using g(2) by (auto simp: rbind_eq_Ok)
  obtain rec a b c where "d2_reconstruct [dealer, d, e] = Inr rec" "d2_get_array rec 0 = Inr a" "d2_get_array rec 1 = Inr b"
      "d2_get_array rec 2 = Inr c" "ba_and a b = Inr c" "ba_wf c"
    using triples_reconstruct [of 1024 dealer ds] g(3,4) d(3) by auto
  then show ?thesis
    by (simp add: test_beaver_generation_with_3_parties_def Let_def g(1) bp_generate_with_seed_def d(1,2) assert_ba_eq_Ok)
qed

lemma av_as_u32_Ok: "scalar_bytes_ok S \<Longrightarrow> av_value a = of_nat (unat v) \<Longrightarrow> av_as_u32 S a = Inr v"
  by (simp add: av_as_u32_def scalar_bytes_ok_def Let_def slice_def list_all_iff)

lemma test_dabit_2_passes:
  assumes "scalar_from_ok S" "scalar_bytes_ok S"
  shows "test_dabit_generation_with_2_parties R S = Inr ()"
proof -
  obtain dealer dss where g: "da_generate_as_dealer R S da_new 1024 (seed32 0) [seed32 1]
        = Inr (da_new\<lparr>da_bit_storage := Some dealer, da_used := 0, da_last_report := 0\<rparr>)"
      "rmap (\<lambda>seed. rbind (random_dabits R S 1024 (rng_from_seed R seed)) (\<lambda>(ds, _). Ok ds)) [seed32 1] = Inr dss"
      "\<forall>ds\<in>set (dealer # dss). length ds = 1024" "\<forall>i<1024. dabits_ok (map (\<lambda>ds. ds ! i) (dealer # dss))"
    using da_generate_as_dealer_Ok [OF assms(1), of R da_new 1024 "seed32 0" "[seed32 1]"] by blast
  obtain ds where "rbind (random_dabits R S 1024 (rng_from_seed R (seed32 1))) (\<lambda>(ds, _). Ok ds) = Inr ds" and dss: "dss = [ds]"
    using g(2) by (auto simp: rbind_eq_Ok)
  then obtain rng where ds: "random_dabits R S 1024 (rng_from_seed R (seed32 1)) = Inr (ds, rng)" by (auto simp: rbind_eq_Ok)
  have len: "length dealer = 1024" "length ds = 1024" using g(3) dss by simp_all
  let ?rec = "map (\<lambda>(d1, d2). dabit_add d1 d2) (zip dealer ds)"
  have log: "each (\<lambda>i. rbind (index dealer i) (\<lambda>_. rbind (index ?rec i) (\<lambda>_. Ok ()))) [0..<5] = Inr ()"
    by (rule each_Ok) (simp add: index_def len)
  have "each (\<lambda>r. rbind (av_as_u32 S (r_zp r)) (\<lambda>v. assert_eq (of_bool (r_z2 r)) v)) ?rec = Inr ()"
  proof (rule each_Ok)
    fix r assume "r \<in> set ?rec"
    then obtain i where i: "i < 1024" "r = dabit_add (dealer ! i) (ds ! i)" by (auto simp: set_zip len)
    have "dabits_ok [dealer ! i, ds ! i]" using g(4) i(1) by (simp add: dss)
    then have "av_value (r_zp r) = of_nat (unat (of_bool (r_z2 r) :: u32))"
      by (cases "r_z2 r") (simp_all add: i(2) dabits_ok_def dabit_add_def av_add_def)
    then show "rbind (av_as_u32 S (r_zp r)) (\<lambda>v. assert_eq (of_bool (r_z2 r)) v) = Inr ()" by (simp add: av_as_u32_Ok [OF assms(2)])
  qed
  with log show ?thesis
    by (simp add: test_dabit_generation_with_2_parties_def Let_def g(1) da_generate_with_seed_def ds da_take_def slice_def len)
qed

section \<open>Values\<close>

definition test_arithvalue_u32_add_sub_mul :: "unit res" where
  "test_arithvalue_u32_add_sub_mul =
     (let a = av32_from_u32 10; b = av32_from_u32 20; a = av32_add a b in
      rbind (assert_eq (av32_as_u32 a) 30) (\<lambda>_.
      let a = av32_sub a (av32_from_u32 5) in
      rbind (assert_eq (av32_as_u32 a) 25) (\<lambda>_.
      let a = av32_mul a (av32_from_u32 2) in
      assert_eq (av32_as_u32 a) 50)))"

definition test_arithvalue_scalar_add_sub_mul :: "('s::comm_ring_1, 'r) scalar_ops \<Rightarrow> unit res" where
  "test_arithvalue_scalar_add_sub_mul S =
     (let a = av_from_u32 S 10; b = av_from_u32 S 20; a = av_add a b in
      rbind (av_as_u32 S a) (\<lambda>v. rbind (assert_eq v 30) (\<lambda>_.
      let a = av_sub a (av_from_u32 S 5) in
      rbind (av_as_u32 S a) (\<lambda>v. rbind (assert_eq v 25) (\<lambda>_.
      let a = av_mul a (av_from_u32 S 2) in
      rbind (av_as_u32 S a) (\<lambda>v. assert_eq v 50))))))"

definition test_boolean_value_bit_len_too_large :: "unit res" where
  "test_boolean_value_bit_len_too_large = rbind (bv_new 33 1) (\<lambda>_. Ok ())"

definition test_boolean_value_value_exceeds_bit_len :: "unit res" where
  "test_boolean_value_value_exceeds_bit_len = rbind (bv_new 4 20) (\<lambda>_. Ok ())"

definition test_append_boolean :: "profile \<Rightarrow> unit res" where
  "test_append_boolean P =
     rbind (bv_new 4 10) (\<lambda>l.
     rbind (bv_new 4 12) (\<lambda>h.
     rbind (join_boolean P l h) (\<lambda>appended.
     rbind (assert_eq (bv_bit_len appended) 8) (\<lambda>_.
     assert_eq (bv_value appended) 202))))"

lemma test_values:
  "test_arithvalue_u32_add_sub_mul = Inr ()" "test_boolean_value_bit_len_too_large = Inl ExplicitPanic"
  "test_boolean_value_value_exceeds_bit_len = Inl ExplicitPanic" "test_append_boolean P = Inr ()"
  by code_simp+

lemma test_arithvalue_scalar_passes:
  assumes "scalar_from_ok S" "scalar_bytes_ok S"
  shows "test_arithvalue_scalar_add_sub_mul S = Inr ()"
proof -
  have "av_as_u32 S \<lparr>av_value = 30\<rparr> = Inr 30" "av_as_u32 S \<lparr>av_value = 25\<rparr> = Inr 25" "av_as_u32 S \<lparr>av_value = 50\<rparr> = Inr 50"
    by (rule av_as_u32_Ok [OF assms(2)]; simp)+
  then show ?thesis using assms(1)
    by (simp add: test_arithvalue_scalar_add_sub_mul_def Let_def av_from_u32_def av_add_def av_sub_def av_mul_def scalar_from_ok_def)
qed

section \<open>Commitments\<close>

text \<open>The three scalars of an opening, drawn in this order.\<close>

definition random_opening :: "('s::comm_ring_1, 'r) scalar_ops \<Rightarrow> 'r \<Rightarrow> 's opening_vals \<times> 'r" where
  "random_opening S rng =
     (let (rnd, rng) = sc_random S rng; (idx, rng) = sc_random S rng; (resp, rng) = sc_random S rng in
      (\<lparr>op_rnd = rnd, op_idx = idx, op_resp = resp\<rparr>, rng))"

definition test_commitment_and_opening ::
  "'r rng_ops \<Rightarrow> ('s::comm_ring_1, 'r) scalar_ops \<Rightarrow> ('s, 'g::ab_group_add) group_ops \<Rightarrow> unit res" where
  "test_commitment_and_opening R S G =
     rbind (rfold (\<lambda>_ rng.
       let (op, rng) = random_opening S rng; cm = commit G op in
       rbind (rassert (commitment_verify G cm op) AssertionFailed) (\<lambda>_.
       Ok rng)) [0..<10] (rng_from_seed R (seed32 42))) (\<lambda>_. Ok ())"

definition test_commitment_verify_fails_with_wrong_opening ::
  "'r rng_ops \<Rightarrow> ('s::comm_ring_1, 'r) scalar_ops \<Rightarrow> ('s, 'g::ab_group_add) group_ops \<Rightarrow> unit res" where
  "test_commitment_verify_fails_with_wrong_opening R S G =
     rbind (rfold (\<lambda>_ rng.
       let (op, rng) = random_opening S rng; cm = commit G op in
       rbind (rassert (\<not> commitment_verify G cm (op\<lparr>op_resp := op_resp op + 1\<rparr>)) AssertionFailed) (\<lambda>_.
       rbind (rassert (\<not> commitment_verify G cm (op\<lparr>op_idx := op_idx op + 1\<rparr>)) AssertionFailed) (\<lambda>_.
       rbind (rassert (\<not> commitment_verify G cm (op\<lparr>op_rnd := op_rnd op - 1\<rparr>)) AssertionFailed) (\<lambda>_.
       Ok rng)))) [0..<10] (rng_from_seed R (seed32 12))) (\<lambda>_. Ok ())"

definition test_aggregate_commitments ::
  "'r rng_ops \<Rightarrow> ('s::comm_ring_1, 'r) scalar_ops \<Rightarrow> ('s, 'g::ab_group_add) group_ops \<Rightarrow> unit res" where
  "test_aggregate_commitments R S G =
     rbind (rfold (\<lambda>_ rng.
       rbind (rfold (\<lambda>_ (openings, commitments, rng).
         let (op, rng) = random_opening S rng; cm = commit G op in
         Ok (openings @ [op], commitments @ [cm], rng)) [0..<5] ([], [], rng)) (\<lambda>(openings, commitments, rng).
       let agg_commitment = commitment_aggregate commitments in
       rbind (opening_aggregate openings) (\<lambda>agg_opening.
       rbind (rassert (commitment_verify G agg_commitment agg_opening) AssertionFailed) (\<lambda>_.
       Ok rng)))) [0..<10] (rng_from_seed R (seed32 4))) (\<lambda>_. Ok ())"

definition test_generators :: "('s, 'g) group_ops \<Rightarrow> unit res" where
  "test_generators G =
     (let msg = label ''test''; g1 = generator G msg; h = generator G (label ''msg2'') in
      rbind (rassert (g1 \<noteq> h) AssertionFailed) (\<lambda>_.
      let g1_2 = generator G msg in
      rbind (assert_eq g1_2 g1) (\<lambda>_.
      rassert (g1_2 \<noteq> h) AssertionFailed)))"

text \<open>A loop whose body passes in every state.\<close>

lemma loop_passes: "(\<And>x s. x \<in> set xs \<Longrightarrow> \<exists>s'. f x s = Inr s') \<Longrightarrow> rbind (rfold f xs s) (\<lambda>_. Ok ()) = Inr ()"
  using rfold_invariant [of "\<lambda>_ _. True" s xs f] by fastforce

lemma test_commitment_and_opening_passes: "test_commitment_and_opening R S G = Inr ()"
  unfolding test_commitment_and_opening_def by (rule loop_passes) (simp add: commitment_verify_def split: prod.split)

text \<open>Shifting one part of the opening shifts the commitment by a generator.\<close>

lemma test_commitment_verify_fails_passes:
  assumes "group_ok G" "gr_scale G 1 (gr_basepoint G) \<noteq> 0" "gr_scale G 1 (G1T_IDX G) \<noteq> 0" "gr_scale G 1 (G2T_RESP G) \<noteq> 0"
  shows "test_commitment_verify_fails_with_wrong_opening R S G = Inr ()"
proof -
  have plus: "gr_scale G (a + 1) g = gr_scale G a g + gr_scale G 1 g" for a g using assms(1) by (simp add: group_ok_def)
  have minus: "gr_scale G (a - 1) g = gr_scale G a g - gr_scale G 1 g" for a g using plus [of "a - 1" g] by simp
  show ?thesis
    unfolding test_commitment_verify_fails_with_wrong_opening_def
    by (rule loop_passes) (simp add: commitment_verify_def commit_def plus minus assms(2-) rassert_def split: prod.split)
qed

lemma opened_sum_verifies:
  assumes "group_ok G" "ops \<noteq> []"
  shows "\<exists>agg. opening_aggregate ops = Inr agg \<and> commitment_verify G (commitment_aggregate (map (commit G) ops)) agg"
  using opening_aggregate_sum [OF assms(2)] commit_sum [OF assms(1), of ops]
  by (simp add: commitment_verify_def commitment_aggregate_sum comp_def)

lemma test_aggregate_commitments_passes:
  assumes "group_ok G"
  shows "test_aggregate_commitments R S G = Inr ()"
  unfolding test_aggregate_commitments_def
proof (rule loop_passes)
  fix x :: nat and rng
  let ?draw = "\<lambda>_ (openings, commitments, rng). let (op, rng) = random_opening S rng; cm = commit G op in Ok (openings @ [op], commitments @ [cm], rng)"
  have step: "\<exists>s'. ?draw x s = Inr s' \<and> length (fst s') = Suc k \<and> fst (snd s') = map (commit G) (fst s')"
    if "length (fst s) = k \<and> fst (snd s) = map (commit G) (fst s)" for x :: nat and s k
    using that by (cases s) (auto split: prod.split)
  have "\<exists>s'. rfold ?draw [0..<5] ([], [], rng) = Inr s' \<and> length (fst s') = length [0..<5] \<and> fst (snd s') = map (commit G) (fst s')"
    by (rule rfold_invariant [where I = "\<lambda>k s. length (fst s) = k \<and> fst (snd s) = map (commit G) (fst s)"]) (simp, rule step)
  then obtain ops rng' where ops: "rfold ?draw [0..<5] ([], [], rng) = Inr (ops, map (commit G) ops, rng')" "length ops = 5" by auto
  from ops(2) have "ops \<noteq> []" by auto
  from opened_sum_verifies [OF assms this] ops(1) show "\<exists>s'. rbind (rfold ?draw [0..<5] ([], [], rng)) (\<lambda>(openings, commitments, rng).
       let agg_commitment = commitment_aggregate commitments in
       rbind (opening_aggregate openings) (\<lambda>agg_opening.
       rbind (rassert (commitment_verify G agg_commitment agg_opening) AssertionFailed) (\<lambda>_. Ok rng))) = Inr s'"
    by auto
qed

lemma test_generators_passes: "gr_hash_from_bytes G (label ''test'') \<noteq> gr_hash_from_bytes G (label ''msg2'') \<Longrightarrow> test_generators G = Inr ()"
  by (simp add: test_generators_def generator_def Let_def)

section \<open>The database\<close>

text \<open>\<open>Option\<close>s of the first bit plane are equal when both are missing or both are there and equal.\<close>

definition assert_first_eq :: "d2bitarray list \<Rightarrow> d2bitarray list \<Rightarrow> unit res" where
  "assert_first_eq xs ys = (case (xs, ys) of (x # _, y # _) \<Rightarrow> assert_d2_eq x y | _ \<Rightarrow> rassert (xs = [] \<and> ys = []) AssertionFailed)"

definition test_lvl1_pir_retrieve :: "'r rng_ops \<Rightarrow> unit res" where
  "test_lvl1_pir_retrieve R =
     (let record_size = 1; column_num = 64; row_num = 8192; base_seed = seed32 42 in
      rbind (db_from_seed R record_size column_num row_num base_seed) (\<lambda>db1.
      rbind (db_from_seed R record_size column_num row_num base_seed) (\<lambda>db2.
      rbind (assert_first_eq (db_bit_dbs db1) (db_bit_dbs db2)) (\<lambda>_.
      rbind (rtimes 100 (\<lambda>rng. let (v, rng) = rng_next_u32 R rng in Ok (unat v mod row_num, rng)) (rng_from_seed R (seed32 0))) (\<lambda>(random_indexes, rng).
      each (\<lambda>idx.
        rbind (ba_new row_num) (\<lambda>ohe.
        rbind (ba_set_bit ohe (idx mod row_num) True) (\<lambda>ohe.
        rbind (ba_from_seed R row_num (seed32 13)) (\<lambda>q1.
        rbind (ba_clone q1) (\<lambda>q2.
        rbind (ba_inplace_xor q2 ohe) (\<lambda>q2.
        rbind (lvl1_pir_retrieve db1 q1) (\<lambda>result_ss1.
        rbind (lvl1_pir_retrieve db2 q2) (\<lambda>result_ss2.
        rbind (ba_xor result_ss1 result_ss2) (\<lambda>result.
        each (\<lambda>i. rbind (get_record_bit db1 (i * row_num + idx) 0) (\<lambda>expected. rbind (ba_get result i) (\<lambda>b. assert_eq b expected)))
          [0..<column_num]))))))))) random_indexes)))))"

text \<open>Two shares of the unit vector of \<open>idx\<close>, one of which is anything.\<close>

lemma two_server_retrieval:
  assumes db: "db_wf db" "db_record_size db = 1" and idx: "idx < db_l1_dim db" and q: "ba_sized (db_l1_dim db) q"
  shows "\<exists>q2 r1 r2 r. ba_inplace_xor q (ba_make (db_l1_dim db) (\<lambda>i. i = idx)) = Inr q2 \<and> lvl1_pir_retrieve db q = Inr r1 \<and> lvl1_pir_retrieve db q2 = Inr r2 \<and>
    ba_xor r1 r2 = Inr r \<and> (\<forall>i<db_l2_dim db. \<exists>b. get_record_bit db (i * db_l1_dim db + idx) 0 = Inr b \<and> ba_get r i = Inr b)"
proof -
  let ?l1 = "db_l1_dim db" and ?l2 = "db_l2_dim db"
  let ?row = "\<lambda>j. mbit (d2_arrays (db_bit_dbs db ! 0) ! j)"
  let ?e = "ba_make ?l1 (\<lambda>i. i = idx)" and ?q2 = "ba_make ?l1 (\<lambda>i. mbit q i \<noteq> mbit (ba_make ?l1 (\<lambda>i. i = idx)) i)"
  let ?r = "\<lambda>q. ba_make ?l2 (\<lambda>j. j < ?l2 \<and> xors (map (\<lambda>i. mbit q i \<and> ?row j i) [0..<cap ?l1]))"
  have pos: "0 < ?l2" "idx < cap ?l1" using db_wf_dims [OF db(1)] idx cap_ge [of ?l1] by simp_all
  have ret: "lvl1_pir_retrieve db q = Inr (?r q)" "lvl1_pir_retrieve db ?q2 = Inr (?r ?q2)"
    using q by (intro lvl1_pir_retrieve_Ok [OF db]; simp)+
  have "ba_xor (?r q) (?r ?q2) = Inr (ba_make ?l2 (\<lambda>j. mbit (?r q) j \<noteq> mbit (?r ?q2) j))"
    using pos(1) by (simp add: ba_xor_def ba_clone_Ok ba_inplace_xor_Ok del: mbit_make)
  moreover have "ba_get (ba_make ?l2 (\<lambda>j. mbit (?r q) j \<noteq> mbit (?r ?q2) j)) i = Inr (rec_bit db 0 (i * ?l1 + idx))" if i: "i < ?l2" for i
  proof -
    have "(xors (map (\<lambda>k. mbit q k \<and> ?row i k) [0..<cap ?l1]) \<noteq> xors (map (\<lambda>k. mbit ?q2 k \<and> ?row i k) [0..<cap ?l1]))
        = xors (map (\<lambda>k. (mbit q k \<and> ?row i k) \<noteq> (mbit ?q2 k \<and> ?row i k)) [0..<cap ?l1])" by (simp only: xors_map_neq)
    also have "\<dots> = xors (map (\<lambda>k. k = idx \<and> ?row i k) [0..<cap ?l1])" by (intro arg_cong [where f = xors] map_cong) auto
    also have "\<dots> = ?row i idx" using xors_one_hot [of idx "?row i" "cap ?l1"] pos(2) by simp
    finally have "(mbit (?r q) i \<noteq> mbit (?r ?q2) i) = ?row i idx" using i cap_ge [of ?l2] by auto
    moreover have "rec_bit db 0 (i * ?l1 + idx) = ?row i idx" using idx by (simp add: rec_bit_def)
    ultimately show ?thesis using i cap_ge [of ?l2] by (simp add: ba_get_Ok)
  qed
  moreover have "get_record_bit db (i * ?l1 + idx) 0 = Inr (rec_bit db 0 (i * ?l1 + idx))" if "i < ?l2" for i
  proof (rule get_record_bit_Ok [OF db(1)])
    have "i * ?l1 + idx < (i + 1) * ?l1" using idx by simp
    also have "\<dots> \<le> ?l2 * ?l1" using that by (intro mult_right_mono) simp_all
    finally show "i * ?l1 + idx < db_total_size db" by (simp add: db_total_size_def mult.commute)
  qed (simp add: db(2))
  ultimately show ?thesis
    using ret ba_inplace_xor_Ok [of q ?e] q
    by (intro exI [of _ ?q2] exI [of _ "?r q"] exI [of _ "?r ?q2"] exI [of _ "ba_make ?l2 (\<lambda>j. mbit (?r q) j \<noteq> mbit (?r ?q2) j)"]) simp
qed

lemma test_lvl1_pir_retrieve_passes:
  assumes "rng_ok R"
  shows "test_lvl1_pir_retrieve R = Inr ()"
proof -
  have pw: "is_power_of_two 8192" "is_power_of_two 64" unfolding is_power_of_two_iff by (rule exI [of _ 13], simp) (rule exI [of _ 6], simp)
  obtain db where db: "db_from_seed R 1 64 8192 (seed32 42) = Inr db" "db_wf db" "db_record_size db = 1" "db_l1_dim db = 8192" "db_l2_dim db = 64"
    using db_from_seed_Ok [OF assms pw, of 1 "seed32 42"] by auto
  obtain d where d: "db_bit_dbs db = [d]" "d2_wf 64 8192 d" using db(2-5) by (auto simp: db_wf_def length_Suc_conv)
  have "\<exists>x s'. (let (v, rng) = rng_next_u32 R s in Ok (unat v mod 8192, rng)) = Inr (x, s') \<and> x < 8192" for s
    by (cases "rng_next_u32 R s") simp
  from rtimes_Ok [of "\<lambda>rng. let (v, rng) = rng_next_u32 R rng in Ok (unat v mod 8192, rng)" "\<lambda>x. x < 8192", OF this, of 100 "rng_from_seed R (seed32 0)"]
  obtain idxs rng where idxs: "rtimes 100 (\<lambda>rng. let (v, rng) = rng_next_u32 R rng in Ok (unat v mod 8192, rng)) (rng_from_seed R (seed32 0)) = Inr (idxs, rng)"
    "\<forall>x\<in>set idxs. x < 8192" by blast
  obtain f where q: "ba_from_seed R 8192 (seed32 13) = Inr (ba_make 8192 f)" using from_seed_Ok [OF assms, of 8192 "seed32 13"] by auto
  let ?q = "ba_make 8192 f"
  let ?test = "\<lambda>idx. rbind (ba_new 8192) (\<lambda>ohe. rbind (ba_set_bit ohe (idx mod 8192) True) (\<lambda>ohe. rbind (ba_from_seed R 8192 (seed32 13)) (\<lambda>q1.
        rbind (ba_clone q1) (\<lambda>q2. rbind (ba_inplace_xor q2 ohe) (\<lambda>q2. rbind (lvl1_pir_retrieve db q1) (\<lambda>result_ss1. rbind (lvl1_pir_retrieve db q2) (\<lambda>result_ss2.
        rbind (ba_xor result_ss1 result_ss2) (\<lambda>result.
        each (\<lambda>i. rbind (get_record_bit db (i * 8192 + idx) 0) (\<lambda>expected. rbind (ba_get result i) (\<lambda>b. assert_eq b expected))) [0..<64]))))))))"
  have "?test idx = Inr ()" if idx: "idx < 8192" for idx
  proof -
    have "idx < cap 8192" using idx cap_ge [of 8192] by simp
    then have "ba_make 8192 ((mbit (ba_make 8192 (\<lambda>_. False)))(idx := True)) = ba_make 8192 (\<lambda>i. i = idx)" by (intro ba_make_cong) simp
    then have ohe: "ba_set_bit (ba_make 8192 (\<lambda>_. False)) idx True = Inr (ba_make 8192 (\<lambda>i. i = idx))" using idx by (simp add: ba_set_bit_Ok)
    obtain q2 r1 r2 r where r: "ba_inplace_xor ?q (ba_make 8192 (\<lambda>i. i = idx)) = Inr q2" "lvl1_pir_retrieve db ?q = Inr r1" "lvl1_pir_retrieve db q2 = Inr r2"
        "ba_xor r1 r2 = Inr r" "\<forall>i<64. \<exists>b. get_record_bit db (i * 8192 + idx) 0 = Inr b \<and> ba_get r i = Inr b"
      using two_server_retrieval [OF db(2,3), of idx ?q] idx unfolding db(4,5) by auto
    have "each (\<lambda>i. rbind (get_record_bit db (i * 8192 + idx) 0) (\<lambda>expected. rbind (ba_get r i) (\<lambda>b. assert_eq b expected))) [0..<64] = Inr ()"
      using r(5) by (intro each_Ok) fastforce
    then show ?thesis using idx by (simp add: ba_new_Ok ohe q ba_clone_Ok r(1-4))
  qed
  then have "each ?test idxs = Inr ()" using idxs(2) by (intro each_Ok) blast
  then show ?thesis
    by (simp add: test_lvl1_pir_retrieve_def Let_def db(1) d(1) assert_first_eq_def assert_d2_same [OF d(2)] idxs(1) [unfolded Let_def] del: One_nat_def)
qed

section \<open>A layer of two parties\<close>

definition test_mock_gmw_and :: "profile \<Rightarrow> 'r rng_ops \<Rightarrow> unit res" where
  "test_mock_gmw_and P R =
     (let max_byte_size = 1024 in
      rbind (bp_generate_as_dealer R bp_new (max_byte_size * 8) (seed32 1) [seed32 2]) (\<lambda>beaver_provider1.
      rbind (bp_generate_with_seed R bp_new (max_byte_size * 8) (seed32 2)) (\<lambda>beaver_provider2.
      let rng = rng_from_seed R (seed32 42); bit_size = 256 + 32 in
      rbind (ba_random R bit_size rng) (\<lambda>(x, rng).
      rbind (ba_random R bit_size rng) (\<lambda>(y, rng).
      rbind (ba_and x y) (\<lambda>expected.
      rbind (ba_clone x) (\<lambda>x1.
      rbind (ba_clone y) (\<lambda>y1.
      rbind (ba_inplace_secret_share P R x1 2 rng) (\<lambda>((x1, xs), rng).
      rbind (expect (if xs = [] then None else Some (last xs))) (\<lambda>x2.
      rbind (ba_inplace_secret_share P R y1 2 rng) (\<lambda>((y1, ys), rng).
      rbind (expect (if ys = [] then None else Some (last ys))) (\<lambda>y2.
      rbind (ba_clone x1) (\<lambda>x_rec.
      rbind (ba_clone y1) (\<lambda>y_rec.
      rbind (ba_clone x2) (\<lambda>x2'.
      rbind (ba_inplace_reconstruct x_rec [x2']) (\<lambda>x_rec.
      rbind (ba_clone y2) (\<lambda>y2'.
      rbind (ba_inplace_reconstruct y_rec [y2']) (\<lambda>y_rec.
      rbind (assert_ba_eq x x_rec) (\<lambda>_.
      rbind (assert_ba_eq y y_rec) (\<lambda>_.
      rbind (request_ticket (layer_new True 1) (ba_bit_size x1)) (\<lambda>(ticket1, layer1).
      rbind (request_ticket (layer_new False 1) (ba_bit_size x2)) (\<lambda>(ticket2, layer2).
      rbind (add_operation layer1 (OpCopy (Input x1) (Relay ticket1 0))) (\<lambda>layer1.
      rbind (add_operation layer1 (OpCopy (Input y1) (Relay ticket1 1))) (\<lambda>layer1.
      rbind (add_operation layer2 (OpCopy (Input x2) (Relay ticket2 0))) (\<lambda>layer2.
      rbind (add_operation layer2 (OpCopy (Input y2) (Relay ticket2 1))) (\<lambda>layer2.
      rbind (end_ticketing_phase layer1 beaver_provider1) (\<lambda>(layer1, beaver_provider1).
      rbind (end_ticketing_phase layer2 beaver_provider2) (\<lambda>(layer2, beaver_provider2).
      rbind (execute_operations P None layer1) (\<lambda>layer1.
      rbind (execute_operations P None layer2) (\<lambda>layer2.
      rbind (blind_and_with_beaver layer1) (\<lambda>layer1.
      rbind (blind_and_with_beaver layer2) (\<lambda>layer2.
      rbind (get_beaver_out_shares layer1) (\<lambda>l1_out.
      rbind (get_beaver_out_shares layer2) (\<lambda>l2_out.
      rbind (recons_beaver_uv [l2_out] layer1) (\<lambda>layer1.
      rbind (recons_beaver_uv [l1_out] layer2) (\<lambda>layer2.
      rbind (finish_and_exchange layer1) (\<lambda>layer1.
      rbind (finish_and_exchange layer2) (\<lambda>layer2.
      rbind (read_output P layer1 ticket1) (\<lambda>output1.
      rbind (read_output P layer2 ticket2) (\<lambda>output2.
      rbind (ba_clone output1) (\<lambda>result.
      rbind (ba_inplace_reconstruct result [output2]) (\<lambda>result.
      assert_ba_eq expected result))))))))))))))))))))))))))))))))))))))))))"

text \<open>One party up to the exchange.\<close>

abbreviation gmw_ticket :: ticket where
  "gmw_ticket \<equiv> \<lparr>t_layer_num = 1, t_st_bit = 0, t_end_bit = 288\<rparr>"

definition gmw_streams :: "bitarray \<Rightarrow> bitarray \<Rightarrow> nat \<Rightarrow> nat \<Rightarrow> bool" where
  "gmw_streams x y j i \<longleftrightarrow> i < 288 \<and> (j = 0 \<and> mbit x i \<or> j = 1 \<and> mbit y i)"

definition gmw_triples :: "d2bitarray \<Rightarrow> nat \<Rightarrow> nat \<Rightarrow> bool" where
  "gmw_triples d j i \<longleftrightarrow> i < 288 \<and> mbit (d2_arrays d ! j) i"

lemma gmw_party:
  assumes x: "ba_sized 288 x" "ba_sized 288 y" and d: "d2_wf 3 8192 d"
  shows "\<exists>l0 l1 l2 l3 bp' l4. request_ticket (layer_new pc 1) 288 = Inr (gmw_ticket, l0) \<and>
    add_operation l0 (OpCopy (Input x) (Relay gmw_ticket 0)) = Inr l1 \<and> add_operation l1 (OpCopy (Input y) (Relay gmw_ticket 1)) = Inr l2 \<and>
    end_ticketing_phase l2 (bp_new\<lparr>bp_beaver_storage := Some d\<rparr>) = Inr (l3, bp') \<and> execute_operations P None l3 = Inr l4 \<and>
    ly_loaded l4 pc 288 (gmw_streams x y) (gmw_triples d) \<and> ly_current_size l4 = 36 \<and> ly_layer_num l4 = 1"
proof -
  let ?op0 = "OpCopy (Input x) (Relay gmw_ticket 0)" and ?op1 = "OpCopy (Input y) (Relay gmw_ticket 1)"
  let ?l0 = "(layer_new pc 1)\<lparr>ly_current_size := 36\<rparr>"
  let ?l1 = "?l0\<lparr>ly_operations := [?op0]\<rparr>" and ?l2 = "?l0\<lparr>ly_operations := [?op0, ?op1]\<rparr>"
  let ?l3 = "?l2\<lparr>ly_and_data := Some (d2_make 3 288 (\<lambda>_ _. False)), ly_beaver_data := Some (d2_make 3 288 (gmw_triples d)), ly_state := DataInitialized\<rparr>"
  let ?le = "?l3\<lparr>ly_operations := []\<rparr>"
  let ?l4 = "?le\<lparr>ly_and_data := Some (d2_make 3 288 (gmw_streams x y)), ly_state := OperationsExecuted\<rparr>"
  have block: "d2_block d 0 36 = d2_make 3 288 (gmw_triples d)" by (simp add: d2_block_def gmw_triples_def [abs_def])
  have take: "bp_take (bp_new\<lparr>bp_beaver_storage := Some d\<rparr>) 36 = Inr (d2_make 3 288 (gmw_triples d), bp_new\<lparr>bp_beaver_storage := Some d, bp_used := 36\<rparr>)"
    using bp_take_next [of "bp_new\<lparr>bp_beaver_storage := Some d\<rparr>" d 8192 36] d block by (simp add: bp_new_def div_ceil_def)
  let ?f1 = "\<lambda>j i. if j = 1 \<and> i < 288 then mbit y i else False"
  let ?f2 = "\<lambda>j i. if j = 0 \<and> i < 288 then mbit x i else ?f1 j i"
  have step: "exec_operation P (OpCopy (Input a) (Relay gmw_ticket s)) None (?le\<lparr>ly_and_data := Some (d2_make 3 288 f)\<rparr>)
      = Inr (?le\<lparr>ly_and_data := Some (d2_make 3 288 (\<lambda>j i. if j = s \<and> i < 288 then mbit a i else f j i))\<rparr>)"
    if "ba_sized 288 a" "s < 2" for a s f
  proof -
    have "check_ticket (?le\<lparr>ly_and_data := Some (d2_make 3 288 f)\<rparr>) gmw_ticket = Inr ()"
      by (simp add: check_ticket_def ticket_end_byte_def div_ceil_def layer_new_def)
    from exec_operation_Ok [where op = "OpCopy (Input a) (Relay gmw_ticket s)" and data = a and sz = 288 and P = P and prev = None, OF _ that(1) _ _ _ that(2) this]
    show ?thesis by (simp add: extract_src_data_def that(1) ba_clone_Ok)
  qed
  have "?le\<lparr>ly_and_data := Some (d2_make 3 288 (\<lambda>_ _. False))\<rparr> = ?le" by simp
  note step1 = step [of y 1 "\<lambda>_ _. False", unfolded this]
  have 1: "exec_operation P (OpCopy (Input y) (Relay gmw_ticket 1)) None ?le = Inr (?le\<lparr>ly_and_data := Some (d2_make 3 288 ?f1)\<rparr>)"
    using x(2) by (intro step1) simp_all
  have 2: "exec_operation P (OpCopy (Input x) (Relay gmw_ticket 0)) None (?le\<lparr>ly_and_data := Some (d2_make 3 288 ?f1)\<rparr>)
      = Inr (?le\<lparr>ly_and_data := Some (d2_make 3 288 ?f2)\<rparr>)" by (rule step [OF x(1)]) simp
  have "d2_make 3 288 ?f2 = d2_make 3 288 (gmw_streams x y)" by (rule d2_make_cong) (auto simp: gmw_streams_def)
  then have run: "execute_operations P None ?l3 = Inr ?l4"
    using 1 2 by (simp add: execute_operations_def del: One_nat_def)
  have "request_ticket (layer_new pc 1) 288 = Inr (gmw_ticket, ?l0)"
    by (simp add: request_ticket_def layer_new_def div_ceil_def)
  moreover have "add_operation ?l0 ?op0 = Inr ?l1" "add_operation ?l1 ?op1 = Inr ?l2"
    by (simp_all add: add_operation_def layer_new_def del: One_nat_def)
  moreover have "end_ticketing_phase ?l2 (bp_new\<lparr>bp_beaver_storage := Some d\<rparr>) = Inr (?l3, bp_new\<lparr>bp_beaver_storage := Some d, bp_used := 36\<rparr>)"
    by (simp add: end_ticketing_phase_def d2_zeros_Ok take layer_new_def del: One_nat_def)
  moreover have "ly_loaded ?l4 pc 288 (gmw_streams x y) (gmw_triples d)" "ly_current_size ?l4 = 36" "ly_layer_num ?l4 = 1"
    by (simp_all add: ly_loaded_def layer_new_def gmw_streams_def gmw_triples_def)
  ultimately show ?thesis using run by blast
qed

text \<open>The exchange of the two.\<close>

lemma gmw_exchange:
  assumes l: "ly_loaded l True m f g" "ly_loaded l' False m f' g'" and m: "0 < m"
    and t: "\<And>i. (g 2 i \<noteq> g' 2 i) = ((g 0 i \<noteq> g' 0 i) \<and> (g 1 i \<noteq> g' 1 i))"
  shows "\<exists>b b' out out' r r' bd bd' z z'. blind_and_with_beaver l = Inr b \<and> blind_and_with_beaver l' = Inr b' \<and>
    get_beaver_out_shares b = Inr out \<and> get_beaver_out_shares b' = Inr out' \<and> recons_beaver_uv [out'] b = Inr r \<and> recons_beaver_uv [out] b' = Inr r' \<and>
    finish_and_exchange r = Inr (l\<lparr>ly_and_data := Some (d2_make 3 m (f(2 := z))), ly_beaver_data := bd, ly_state := Finished\<rparr>) \<and>
    finish_and_exchange r' = Inr (l'\<lparr>ly_and_data := Some (d2_make 3 m (f'(2 := z'))), ly_beaver_data := bd', ly_state := Finished\<rparr>) \<and>
    (\<forall>i. (z i \<noteq> z' i) = ((f 0 i \<noteq> f' 0 i) \<and> (f 1 i \<noteq> f' 1 i)))"
proof -
  define gu where "gu p j i = (if p = (0 :: nat) then g j i \<noteq> f j i else g' j i \<noteq> f' j i)" for p j i
  define U where "U = (\<lambda>j i. xors (map (\<lambda>q. gu q j i) [0..<2]))"
  let ?b = "\<lambda>l f g. l\<lparr>ly_beaver_data := Some (d2_make 3 m (\<lambda>j. if j < 2 then \<lambda>i. g j i \<noteq> f j i else g j)), ly_state := SendingBeaverShares\<rparr>"
  have b: "blind_and_with_beaver l = Inr (?b l f g)" "blind_and_with_beaver l' = Inr (?b l' f' g')"
    using l blind_Ok [of l m f g] blind_Ok [of l' m f' g'] by (simp_all add: ly_loaded_def)
  have gu_eq: "d2_make 2 m (\<lambda>j. if j < 2 then \<lambda>i. g j i \<noteq> f j i else g j) = d2_make 2 m (gu 0)"
      "d2_make 2 m (\<lambda>j. if j < 2 then \<lambda>i. g' j i \<noteq> f' j i else g' j) = d2_make 2 m (gu 1)" by (rule d2_make_cong; simp add: gu_def)+
  have out: "get_beaver_out_shares (?b l f g) = Inr (d2_make 2 m (gu 0))" "get_beaver_out_shares (?b l' f' g') = Inr (d2_make 2 m (gu 1))"
    unfolding gu_eq [symmetric] using m by (intro get_beaver_out_shares_Ok; simp)+
  have o: "mset [1] = mset (others 2 0)" "mset [0] = mset (others 2 1)" by (simp_all add: others_def upt_rec)
  have gu_party: "gu 0 j i = (g j i \<noteq> f j i)" "gu 1 j i = (g' j i \<noteq> f' j i)" for j i by (simp_all add: gu_def)
  let ?z = "\<lambda>i. z_bit True (U 0 i) (U 1 i) (f 0 i) (f 1 i) (g 2 i)" and ?z' = "\<lambda>i. z_bit False (U 0 i) (U 1 i) (f' 0 i) (f' 1 i) (g' 2 i)"
  obtain r bd where r: "recons_beaver_uv [d2_make 2 m (gu 1)] (?b l f g) = Inr r"
      "finish_and_exchange r = Inr (l\<lparr>ly_and_data := Some (d2_make 3 m (f(2 := ?z))), ly_beaver_data := bd, ly_state := Finished\<rparr>)"
    using after_exchange [OF l(1) _ o(1) gu_party(1) U_def b(1)] by auto
  obtain r' bd' where r': "recons_beaver_uv [d2_make 2 m (gu 0)] (?b l' f' g') = Inr r'"
      "finish_and_exchange r' = Inr (l'\<lparr>ly_and_data := Some (d2_make 3 m (f'(2 := ?z'))), ly_beaver_data := bd', ly_state := Finished\<rparr>)"
    using after_exchange [OF l(2) _ o(2) gu_party(2) U_def b(2)] by auto
  have "(?z i \<noteq> ?z' i) = ((f 0 i \<noteq> f' 0 i) \<and> (f 1 i \<noteq> f' 1 i))" for i
    using t [of i] by (auto simp: z_bit_def U_def gu_def upt_rec)
  then show ?thesis using b out r r' by blast
qed

text \<open>The two shares of an array, and the array made of them.\<close>

lemma share_two:
  assumes "rng_ok R"
  shows "\<exists>a b rng'. ba_inplace_secret_share P R (ba_make 288 h) 2 rng = Inr ((a, [b]), rng') \<and> ba_sized 288 a \<and> ba_sized 288 b \<and>
    (\<forall>i. (mbit a i \<noteq> mbit b i) = mbit (ba_make 288 h) i) \<and> ba_inplace_reconstruct a [b] = Inr (ba_make 288 h)"
proof -
  obtain a s rng' where s: "ba_inplace_secret_share P R (ba_make 288 h) 2 rng = Inr ((a, s), rng')" "length s = 1" "list_all (ba_sized 288) (a # s)"
      "\<And>i. xors (map (\<lambda>s. mbit s i) (a # s)) = mbit (ba_make 288 h) i"
    using ba_inplace_secret_share_Ok [OF assms, of "ba_make 288 h" 2 P rng] by auto
  then obtain b where b: "s = [b]" by (auto simp: length_Suc_conv)
  have "ba_make 288 (\<lambda>i. mbit a i \<noteq> mbit b i) = ba_make 288 h" using s(4) b by (intro ba_make_cong) simp
  then have "ba_inplace_reconstruct a [b] = Inr (ba_make 288 h)" using s(3) b ba_inplace_reconstruct_Ok [where n = 288 and ba = a and shares = "[b]"] by simp
  with s b show ?thesis by auto
qed

lemma test_mock_gmw_and_passes:
  assumes "rng_ok R"
  shows "test_mock_gmw_and P R = Inr ()"
proof -
  obtain d1 ds where g: "bp_generate_as_dealer R bp_new 8192 (seed32 1) [seed32 2] = Inr (bp_new\<lparr>bp_beaver_storage := Some d1\<rparr>)"
      "rmap (\<lambda>s. d2_from_seed R 3 8192 s) [seed32 2] = Inr ds" "\<forall>d\<in>set (d1 # ds). d2_wf 3 8192 d" "triples_ok (d1 # ds)"
    using bp_generate_as_dealer_Ok [OF assms, of 8192 "[seed32 2]" bp_new "seed32 1"] by auto
  obtain d2 where d: "d2_from_seed R 3 8192 (seed32 2) = Inr d2" "ds = [d2]" using g(2) by (auto simp: rbind_eq_Ok)
  have wf: "d2_wf 3 8192 d1" "d2_wf 3 8192 d2" using g(3) d(2) by simp_all
  obtain fx rng1 where x: "ba_random R 288 (rng_from_seed R (seed32 42)) = Inr (ba_make 288 fx, rng1)" "\<forall>i\<ge>288. \<not> fx i"
    using ba_random_Ok [OF assms, of 288 "rng_from_seed R (seed32 42)"] by (auto simp: div_ceil_def)
  obtain fy rng2 where y: "ba_random R 288 rng1 = Inr (ba_make 288 fy, rng2)" "\<forall>i\<ge>288. \<not> fy i"
    using ba_random_Ok [OF assms, of 288 rng1] by (auto simp: div_ceil_def)
  obtain x1 x2 rng3 where xs: "ba_inplace_secret_share P R (ba_make 288 fx) 2 rng2 = Inr ((x1, [x2]), rng3)" "ba_sized 288 x1" "ba_sized 288 x2"
      "\<forall>i. (mbit x1 i \<noteq> mbit x2 i) = mbit (ba_make 288 fx) i" "ba_inplace_reconstruct x1 [x2] = Inr (ba_make 288 fx)" using share_two [OF assms] by blast
  obtain y1 y2 rng4 where ys: "ba_inplace_secret_share P R (ba_make 288 fy) 2 rng3 = Inr ((y1, [y2]), rng4)" "ba_sized 288 y1" "ba_sized 288 y2"
      "\<forall>i. (mbit y1 i \<noteq> mbit y2 i) = mbit (ba_make 288 fy) i" "ba_inplace_reconstruct y1 [y2] = Inr (ba_make 288 fy)" using share_two [OF assms] by blast
  obtain k0 k1 k2 k3 bp1 k4 where k: "request_ticket (layer_new True 1) 288 = Inr (gmw_ticket, k0)"
      "add_operation k0 (OpCopy (Input x1) (Relay gmw_ticket 0)) = Inr k1" "add_operation k1 (OpCopy (Input y1) (Relay gmw_ticket 1)) = Inr k2"
      "end_ticketing_phase k2 (bp_new\<lparr>bp_beaver_storage := Some d1\<rparr>) = Inr (k3, bp1)" "execute_operations P None k3 = Inr k4"
      "ly_loaded k4 True 288 (gmw_streams x1 y1) (gmw_triples d1)" "ly_current_size k4 = 36" "ly_layer_num k4 = 1"
    using gmw_party [OF xs(2) ys(2) wf(1), of True P] by blast
  obtain l0 l1 l2 l3 bp2 l4 where l: "request_ticket (layer_new False 1) 288 = Inr (gmw_ticket, l0)"
      "add_operation l0 (OpCopy (Input x2) (Relay gmw_ticket 0)) = Inr l1" "add_operation l1 (OpCopy (Input y2) (Relay gmw_ticket 1)) = Inr l2"
      "end_ticketing_phase l2 (bp_new\<lparr>bp_beaver_storage := Some d2\<rparr>) = Inr (l3, bp2)" "execute_operations P None l3 = Inr l4"
      "ly_loaded l4 False 288 (gmw_streams x2 y2) (gmw_triples d2)" "ly_current_size l4 = 36" "ly_layer_num l4 = 1"
    using gmw_party [OF xs(3) ys(3) wf(2), of False P] by blast
  have "(gmw_triples d1 2 i \<noteq> gmw_triples d2 2 i) = ((gmw_triples d1 0 i \<noteq> gmw_triples d2 0 i) \<and> (gmw_triples d1 1 i \<noteq> gmw_triples d2 1 i))" for i
    using g(4) by (auto simp: d(2) triples_ok_def triple_sum_def gmw_triples_def)
  from gmw_exchange [OF k(6) l(6) _ this] obtain b b' out out' r r' bd bd' z z' where e: "blind_and_with_beaver k4 = Inr b" "blind_and_with_beaver l4 = Inr b'"
      "get_beaver_out_shares b = Inr out" "get_beaver_out_shares b' = Inr out'" "recons_beaver_uv [out'] b = Inr r" "recons_beaver_uv [out] b' = Inr r'"
      "finish_and_exchange r = Inr (k4\<lparr>ly_and_data := Some (d2_make 3 288 ((gmw_streams x1 y1)(2 := z))), ly_beaver_data := bd, ly_state := Finished\<rparr>)"
      "finish_and_exchange r' = Inr (l4\<lparr>ly_and_data := Some (d2_make 3 288 ((gmw_streams x2 y2)(2 := z'))), ly_beaver_data := bd', ly_state := Finished\<rparr>)"
      "\<forall>i. (z i \<noteq> z' i) = ((gmw_streams x1 y1 0 i \<noteq> gmw_streams x2 y2 0 i) \<and> (gmw_streams x1 y1 1 i \<noteq> gmw_streams x2 y2 1 i))" by auto
  have read: "read_output P (l\<lparr>ly_and_data := Some (d2_make 3 288 (f(2 := z))), ly_beaver_data := bd, ly_state := Finished\<rparr>) gmw_ticket
      = Inr (ba_make 288 (\<lambda>i. i < 288 \<and> z i))" if "ly_current_size l = 36" "ly_layer_num l = 1" for l f z bd
    using read_output_Ok [of "l\<lparr>ly_and_data := Some (d2_make 3 288 (f(2 := z))), ly_beaver_data := bd, ly_state := Finished\<rparr>" 36 "f(2 := z)" gmw_ticket 288 P] that
    by (simp add: ticket_end_byte_def div_ceil_def)
  let ?out = "ba_make 288 (\<lambda>i. i < 288 \<and> z i)" and ?out' = "ba_make 288 (\<lambda>i. i < 288 \<and> z' i)" and ?x = "ba_make 288 fx" and ?y = "ba_make 288 fy"
  have "ba_make 288 (\<lambda>i. mbit ?out i \<noteq> mbit ?out' i) = ba_make 288 (\<lambda>i. mbit ?x i \<and> mbit ?y i)"
  proof (rule ba_make_cong)
    fix i assume "i < cap 288"
    then show "(mbit ?out i \<noteq> mbit ?out' i) = (mbit ?x i \<and> mbit ?y i)"
      using e(9) [rule_format, of i] xs(4) [rule_format, of i] ys(4) [rule_format, of i] x(2) y(2) by (cases "i < 288") (auto simp: gmw_streams_def)
  qed
  then have rec: "ba_inplace_reconstruct ?out [?out'] = Inr (ba_make 288 (\<lambda>i. mbit ?x i \<and> mbit ?y i))"
    using ba_inplace_reconstruct_Ok [where n = 288 and ba = ?out and shares = "[?out']"] by (simp del: mbit_make)
  have pre: "ba_and ?x ?y = Inr (ba_make 288 (\<lambda>i. mbit ?x i \<and> mbit ?y i))" by (simp add: ba_and_def ba_clone_Ok ba_inplace_and_Ok del: mbit_make)
  have clones: "ba_clone a = Inr a" if "ba_sized 288 a" for a using that by (simp add: ba_clone_Ok)
  note sized = xs(2,3) ys(2,3)
  show ?thesis
    unfolding test_mock_gmw_and_def Let_def
    by (simp add: g(1) bp_generate_with_seed_def d(1) x(1) y(1) pre clones sized xs(1,5) ys(1,5) assert_ba_eq_Ok k(1-5) l(1-5) e(1-8) read k(7,8) l(7,8) rec
        del: mbit_make One_nat_def)
qed

end
