(* ===== verification/Spec2Isabelle.thy ===== *)
theory Spec2Isabelle
  imports Run_Server Startup Secrecy Unit_Tests
begin

text \<open>
  Private record certification. Several servers hold the same database of bits. A client asks for a record by sending
  each server shares of its index and of the randomness of a commitment; the servers compute, by multiparty
  computation with preprocessed randomness, a Pedersen commitment to the index and the record, which server 0 signs. The
  client checks the token for the value it expects. The shares hide the index from the servers unless all of them work together, provided that the
  preprocessing was dealt to them by somebody trusted; the set-up of the program is for benchmarks and gives every server the preprocessing of all.

  \<^bold>\<open>The parts and their theories.\<close> Sources are under \<open>src/src/\<close>; definitions have the names of the code, with a prefix for the type
  they belong to (\<open>ba_\<close> for \<open>BitArray\<close>, \<open>mp_\<close> for \<open>MpcProvider\<close>, \<open>mh_\<close> for \<open>MpcMessageHandler\<close>, \<open>sv_\<close> for \<open>PRCServer\<close> and so on).

  \<^item> \<open>PRC_Prelude\<close>: \<open>'a res\<close> is a value or a panic; the two build profiles \<open>Dev\<close> and \<open>Release\<close> differ in what an overflow does; little-endian bytes,
    random generators as records of functions, exclusive-ors of lists. The locale \<open>preproc_provider\<close> is the contract of a store of
    preprocessed randomness: every request gets a fresh block or is refused.
  \<^item> \<open>Aligned_Array\<close>, \<open>Bit_Array\<close>, \<open>D2_Bit_Array\<close> (\<open>simd_array/\<close>): buffers padded for 256-bit registers, bit arrays on them, vectors of bit
    arrays. \<open>ba_make n f\<close> is the array with \<open>n\<close> bits and memory \<open>f\<close>; each operation is given as a function of that view, so that the
    register loops are equal to bitwise definitions. The locale \<open>bit_store\<close> is the contract of reads and writes.
  \<^item> \<open>Sharing\<close>, \<open>Beaver\<close>, \<open>DaBit\<close> (\<open>cor_rnd/\<close>) and \<open>Util\<close> (\<open>prc/util.rs\<close>): values and their shares, multiplication triples, bits shared in two
    domains, sharing and reconstruction. The locale \<open>sharing_scheme\<close> (reconstruction undoes sharing, in any order) is interpreted for
    exclusive-or, both arithmetic domains and daBits; \<open>preproc_provider\<close> for both providers.
  \<^item> \<open>Commitment\<close>, \<open>Config\<close>, \<open>Database\<close>, \<open>Client\<close> (\<open>prc/commitment.rs\<close>, \<open>config.rs\<close>, \<open>db.rs\<close>, \<open>client.rs\<close>).
  \<^item> \<open>Protocol\<close>: the code of a party as a \<open>prog\<close>, a tree of local results, broadcasts and receives; a panic is \<open>Fail\<close>. \<open>all_finish n ps Q\<close>
    runs \<open>n\<close> programs in rounds: it holds when all of them finish, whatever the order of arrival, with results that satisfy \<open>Q\<close>.
  \<^item> \<open>Network\<close>: the same programs as asynchronous processes over bounded queues. \<open>inevitable\<close> holds when every execution ends, without
    deadlock, panic or message left over, in results that satisfy \<open>Q\<close>; \<open>all_finish\<close> implies it. These are the parties over \<open>ChannelConnection\<close>, whose
    queues count messages.
  \<^item> \<open>Sockets\<close>: the same programs over sockets that hold \<open>B\<close> bytes in each direction, as \<open>main.rs\<close> runs them over \<open>TcpConnection\<close>. A step writes some bytes of a frame
    to one peer, or reads some bytes of one; a broadcast is over when all is written to all peers. \<open>so_ends\<close> holds when every execution comes to an end in a state
    that satisfies a predicate, \<open>so_finished\<close> of a state in which all parties are done and no byte is left. The locale \<open>stuttering\<close> is the contract between detailed and
    abstract steps; its interpretation says that the sockets are the queues of \<open>Network\<close> with bytes in between.
  \<^item> \<open>Connection\<close> and \<open>Peers\<close> (\<open>prc/connection.rs\<close>): commands and their bytes, the message handler, then traffic counters, channels and
    TCP connections, the channel manager and the connection factory. The locale \<open>exchange_kind\<close> is the contract of one kind of message
    (send it, store it, drain the store), interpreted for triples, daBits and commitments; \<open>peer_link\<close> that of a connection (commands
    arrive in order), interpreted for both kinds of connection.
  \<^item> \<open>Layer\<close>, \<open>Layer_Machine\<close> (\<open>prc/layer.rs\<close>): a layer of AND gates and its life as a state machine with an invariant.
  \<^item> \<open>B2A_Conv\<close>, \<open>Mpc\<close>, \<open>Circuit\<close>, \<open>Ohe\<close> (\<open>prc/b2a_conv.rs\<close>, \<open>mpc.rs\<close>): the conversion of Boolean to arithmetic shares, the executor, the meaning of the
    circuits that the executors of all parties build together, and the circuit of the one-hot encoding.
  \<^item> \<open>Server\<close>, \<open>Run_Server\<close> (\<open>prc/server.rs\<close>, \<open>main.rs\<close>): the retrieval, the protocol, the set-up and the program of one party, with its timers,
    its traffic report and its measurement file.
  \<^item> \<open>Traffic\<close>: programs over connections that count their bytes. \<open>metered\<close> adds the 32-bit counters of \<open>TcpConnection\<close> to a program; \<open>talks\<close> gives the
    lengths of the messages a program sends, whatever it receives, and from them the exact bandwidth of a query.
  \<^item> \<open>Printing\<close>: what the program prints (decimal numbers, durations, counters, bit arrays, the lines of the measurement file) and \<open>get_cpu_time\<close>;
    reading functions give the meaning of a printed line.
  \<^item> \<open>Startup\<close> (\<open>listen\<close>, \<open>connect\<close> and \<open>wait_till_ready\<close> of \<open>prc/connection.rs\<close>): the start of all servers as a step relation, with an invariant
    that says who is connected to whom.
  \<^item> \<open>Privacy\<close> and \<open>Secrecy\<close>: what the servers learn. \<open>tape_rng\<close> is an ideal generator, a tape of which the client draws; \<open>query_view\<close> is what all servers but
    one are sent. \<open>transcript n ps T out\<close> holds when the programs \<open>ps\<close> exchange the messages \<open>T\<close>; \<open>alike\<close> compares two programs on the same arrivals.
  \<^item> \<open>Array_Tests\<close> and \<open>Unit_Tests\<close>: the unit tests of \<open>simd_array/\<close>, \<open>cor_rnd/\<close> and of \<open>commitment.rs\<close>, \<open>db.rs\<close> and \<open>layer.rs\<close>, one definition per test, with
    the seeded generator as an argument.

  \<^bold>\<open>What is shown.\<close> This theory has the properties of the whole: every execution of the program of all parties over sockets with room for the longest
  message, with any interleaving, ends with all queries answered and the measurements written, also from the start of the processes on; with less room every execution
  ends with all parties waiting for each other; when the preprocessing was dealt and no server holds seeds, no message of a query lets all servers but one
  exclude any index; the bytes of a query; its channels stay short; \<open>full_setup\<close> succeeds; one query
  yields a token for the record; and
  the steps of a query (one-hot encoding, AND gates, retrieval, conversion, the amount of preprocessing). The theories of
  the components show their contracts: bitwise meaning of register loops, round trips of sharing and of encodings, consistency
  of the preprocessing of all parties and its use at most once, phases of a layer and disjoint tickets, connections that refine a
  queue as long as their counters have room, a start of the servers that ends with all of them connected or with a panic because one of them was not listening yet, a measurement
  file that can be read back, and the panics of each operation at its bounds. The queries to all servers but one have the same distribution for all
  indices, and so has the commitment for all indices and records; these are stated as bijections on the randomness. The unit tests of the arrays pass for every
  generator, not only for the seeds they fix; of the others there is a lemma per test, with what it needs of the outside code (that the hashed generators of the
  group are not its identity, or differ, is needed by two tests and is what they check).

  \<^bold>\<open>Code outside the crate\<close> is an argument of the definitions, with what is used of it as a named hypothesis, each of which is shown to hold for a
  concrete instance: the generator ChaCha8 (\<open>rng_ok\<close>: it fills as many bytes as it is asked for), the scalars of curve25519 (a commutative
  ring, \<open>scalar_from_ok\<close>: \<open>Scalar::from\<close> is the ring's embedding), the group of points (an abelian group, \<open>group_ok\<close>: scalar multiplication is
  linear; \<open>generated\<close>: the base point generates it; \<open>codec_ok\<close>: a compressed point has 32 bytes and decompresses to itself), Ed25519 (\<open>sig_ok\<close>: a signature verifies under the key
  of its signer). The operating system's part is an argument too: connecting (\<open>os_connect\<close>), the accepted streams, the order of a hash map
  and the signing key, and for the program of a party the record \<open>os_env\<close>: clocks, \<open>getrusage\<close>, opening and writing the file (\<open>os_ok\<close>: files can be
  opened and written, CPU time does not run backwards). The arguments that clap parses and the presence of AVX2 are arguments of \<open>prc_main\<close>.

  \<^bold>\<open>Bounds.\<close> \<open>u8\<close>, \<open>u16\<close>, \<open>u32\<close> are words and keep their wrap-around or panic; \<open>usize\<close> is a natural number, with its shifts and subtractions
  checked: the sizes of the program are far below \<open>2^64\<close>, as memory holds them. \<open>2.5 * l2_dim as f64\<close> and its ceiling are exact below \<open>2^51\<close> and are
  written in integers. Loops of the code run over ranges, vectors or halving bit counts, so all definitions are total without fuel; that the parties do not
  wait for one another for ever is part of \<open>all_finish\<close>, \<open>inevitable\<close> and \<open>so_finished\<close>. Over sockets this needs \<open>longest_frame k1 k2 \<le> B\<close>, where \<open>B\<close> is what
  the operating system buffers on both ends of a connection, since a party writes a whole broadcast before it reads: more than \<open>2^(k1 - 2)\<close> bytes, at most \<open>query_traffic k1 k2\<close>
  (\<open>longest_frame_bounds\<close>). Buffers of operating systems have kilobytes to megabytes, so for large databases, from \<open>2^20\<close> to \<open>2^25\<close> columns on, the program
  does not come to an end (\<open>small_buffers_deadlock\<close>). A message of \<open>2^32\<close> bytes or more, whose length does not fit its prefix, does not occur in the range considered. The database dimensions are powers of two from \<open>2^3\<close> to \<open>2^31\<close>, the first at least
  the second, as the command line asks for, and their product is at most \<open>2^32\<close>, since indices are \<open>u32\<close>.

  \<^bold>\<open>Not modelled.\<close> Computational secrecy: the secrecy shown is that of ideal randomness, while ChaCha8 expands the seeds of the client
  and of the preprocessing, and the bijections are for one query; it is not that of the program's own set-up, where the configuration of each server holds the seeds of all and
  with them their preprocessing (\<open>seeds_reveal_preprocessing\<close>); connections that break; that a commitment binds, which rests on discrete logarithms; failure of allocations; errors of \<open>write_all\<close> and
  \<open>set_nodelay\<close> on a stream; the parsing of the command line by clap; the logger and its other messages, which nothing depends on; other
  processes that write to the same measurement file, of which only the text this party adds is kept. Of the unit tests, those are left out whose outcome depends on the bytes of
  ChaCha8 or on the address of a buffer, and one that makes a scalar from a \<open>u64\<close>; the integration tests run the same operations over channels and TCP, for
  which there are the properties of the whole. The rest of the crate are module declarations, accessors that are record selectors here (\<open>bit_len\<close>, \<open>value\<close>, \<open>get_id\<close>, \<open>bit_size\<close>, \<open>byte_size\<close>, \<open>l1_dim\<close>, \<open>l2_dim\<close>,
  \<open>db_record_size\<close>), and the identifiers and counters of \<open>TcpConnection\<close>, which are those of \<open>ChannelConnection\<close> (\<open>cn_set_peer_id\<close>,
  \<open>cn_get_peer_id\<close>, \<open>cn_get_stat\<close>, \<open>cn_reset_stat\<close>).
\<close>

section \<open>Concrete servers\<close>

text \<open>Two servers with a database of eight by two bits, for concrete runs.\<close>

definition sample_config :: system_config where
  "sample_config = cli_config 2 8000 3 1"

definition sample_handler :: "nat \<Rightarrow> 256 word message_handler" where
  "sample_handler p = foldl mh_add_peer (mh_new (of_nat p)) (others 2 p)"

lemma sample_handler_ready: "p < 2 \<Longrightarrow> mh_ready 2 p (sample_handler p)"
  unfolding sample_handler_def by (rule handler_ready) (rule length_others)

lemma sample_config_ok: "config_ok sample_config 3 1"
  unfolding sample_config_def by (rule cli_config_ok) simp_all

lemma sample_budget: "query_bytes 3 1 = 3" "beaver_per_q (sc_db_config sample_config) = 113"
  by (simp_all add: query_bytes_def ohe_bytes_small div_ceil_def beaver_per_q_def sample_config_def cli_config_def dbc_new_def)

lemma sample_traffic: "query_traffic 3 1 = 85"
  by (simp add: query_traffic_def sample_budget ohe_depth.simps div_ceil_def del: One_nat_def)

lemma sample_frame: "longest_frame 3 1 \<le> 85"
  using longest_frame_bounds(2) [of 3 1] by (simp add: sample_traffic del: One_nat_def)

text \<open>An operating system with constant times; party 0 writes a file.\<close>

definition sample_env :: os_env where
  "sample_env = \<lparr>os_open = (\<lambda>_. True), os_write = (\<lambda>_. True), os_elapsed = (\<lambda>_. \<lparr>du_secs = 0, du_nanos = 1500\<rparr>),
     os_usage = (\<lambda>_. Some (\<lparr>tv_sec = 0, tv_usec = 7\<rparr>, \<lparr>tv_sec = 0, tv_usec = 0\<rparr>))\<rparr>"

definition sample_out :: "nat \<Rightarrow> string" where
  "sample_out p = (if p = 0 then ''out.csv'' else [])"

lemma sample_env_ok: "os_ok sample_env args"
  by (simp add: os_ok_def sample_env_def du_wf_def tv_wf_def cpu_micros_def)

lemma sample_servers:
  obtains db and sv :: "nat \<Rightarrow> (256 word, 256 word, u8, u8) prc_server" where
    "db_dims db 3 1" "servers_ready 2 113 0 36 0 db sv" "sv_pk (sv 0) = sg_verifying_key toy_sigs (sv_sk (sv 0))"
proof -
  have n: "2 = length (sc_peers sample_config)" by (simp add: sample_config_def cli_config_def)
  obtain db and sv :: "nat \<Rightarrow> (256 word, 256 word, u8, u8) prc_server" where s: "db_dims db 3 1"
      "servers_ready 2 (1 * beaver_per_q (sc_db_config sample_config)) 0 (1 * 36) 0 db sv"
      "\<forall>p<2. sv_sk (sv p) = 7 \<and> sv_pk (sv p) = sg_verifying_key toy_sigs 7"
    using servers_of_config [OF rng_ok_counter scalar_from_ok_word sample_config_ok _ n sample_handler_ready, of 1 toy_sigs "\<lambda>_. 7"] by auto
  have "sv_sk (sv 0) = 7" "sv_pk (sv 0) = sg_verifying_key toy_sigs 7" using s(3) by simp_all
  then have "sv_pk (sv 0) = sg_verifying_key toy_sigs (sv_sk (sv 0))" by metis
  then show ?thesis using that [OF s(1)] s(2) by (simp add: sample_budget)
qed

lemma sample_shares: "bv_shares 2 3 (\<lambda>p. \<lparr>bv_bit_len = 3, bv_value = if p = 0 then 5 else 6\<rparr>) 3"
    "bv_shares 2 1 (\<lambda>p. \<lparr>bv_bit_len = 1, bv_value = if p = 0 then 1 else 0\<rparr>) 1"
  by (simp_all add: bv_shares_def xor_of_def upt_rec)

section \<open>The program of all parties\<close>

text \<open>C1. The system does what it is for. Let any number of parties from 2 to 256 start the program on machines with AVX2 and with the same
  arguments, on a database of \<open>2^k1\<close> by \<open>2^k2\<close> records, connected by sockets that hold \<open>B\<close> bytes in each direction, enough for the longest message of a query
  with its length (\<open>longest_frame\<close>). Then every execution, byte by byte, however the parties are interleaved, however the bytes are cut into pieces and in
  whatever order messages of different peers arrive, comes to an end with no party panicking or waiting and no byte left over. Each party has then done all \<open>Q\<close>
  repetitions; in each of them server 0 has a token that the client accepts for the value of the requested record in
  the database and that verifies, the others have none, and every party reports the preprocessing and the traffic of one
  query, the first report with the handshakes of the set-up on top. A party that was given a file has written one line per
  repetition, and reading the file gives the party, the configuration, the times and the bytes of each repetition. With overflow
  checks the traffic has to fit 32 bits.\<close>

theorem servers_answer_queries:
  fixes mh :: "nat \<Rightarrow> 'g::ab_group_add message_handler"
  assumes "rng_ok R" and "scalar_from_ok S" and "group_ok G" and "codec_ok G" and "sig_ok V"
    and "2 \<le> n" and "n \<le> 256" and "3 \<le> k1" and "k1 < 32" and "0 < k2" and "k2 \<le> k1" and "k1 + k2 \<le> 32" and "0 < Q"
    and "P = Release \<or> port + n \<le> 2 ^ 16" and "port < 2 ^ 16" and "\<And>p. p < n \<Longrightarrow> mh_ready n p (mh p)"
    and "\<And>p. p < n \<Longrightarrow> mset (cs p) = mset (counters_start n p)" and "P = Release \<or> (n - 1) * (query_traffic k1 k2 + 6) < 2 ^ 32"
    and "\<And>p. p < n \<Longrightarrow> os_ok (env p) (cli_for n k1 k2 Q port out_fs p)" and "longest_frame k1 k2 \<le> B"
  shows "\<exists>db. db_from_config R (sc_db_config (cli_config n (of_nat port) k1 k2)) = Inr db \<and> db_total_size db = 2 ^ (k1 + k2) \<and>
    so_ends n B
      (so_finished n (\<lambda>out. \<forall>p<n. reports_ok S G V (sg_verifying_key V (sk 0)) db n k1 k2 p Q (fst (out p)) \<and>
        file_ok (env p) n k1 k2 p (out_fs p) (fst (out p)) (snd (out p))))
      (so_init n (\<lambda>p. prc_main True P R S G V (sk p) (mh p) (cs p) (env p) (cli_for n k1 k2 Q port out_fs p)))"
  using run_server_sockets(1) [OF assms] unfolding prc_main_def by simp

theorem servers_answer_queries_witness:
  "\<exists>db. db_from_config counter_rng (sc_db_config (cli_config 2 (of_nat 8000) 3 1)) = Inr db \<and> db_total_size db = 2 ^ (3 + 1) \<and>
    so_ends 2 85
      (so_finished 2 (\<lambda>out. \<forall>p<2. reports_ok ring256_scalars ring256_group toy_sigs (sg_verifying_key toy_sigs 7) db 2 3 1 p 2 (fst (out p)) \<and>
        file_ok sample_env 2 3 1 p (sample_out p) (fst (out p)) (snd (out p))))
      (so_init 2 (\<lambda>p. prc_main True Dev counter_rng ring256_scalars ring256_group toy_sigs 7 (sample_handler p) (counters_start 2 p) sample_env (cli_for 2 3 1 2 8000 sample_out p)))"
  by (rule servers_answer_queries [OF rng_ok_counter scalar_from_ok_word group_ok_ring256 codec_ok_ring256 sig_ok_toy, where sk = "\<lambda>_. 7"])
    (simp_all add: sample_handler_ready sample_traffic sample_frame sample_env_ok del: One_nat_def)

text \<open>C16. What becomes of the program when the sockets are too small. A party writes its whole broadcast to all peers before it reads anything. When a socket
  holds less than the longest message of a query with its length, which has more than a quarter of \<open>2^k1\<close> bytes (\<open>longest_frame_bounds\<close>), then every execution comes to a standstill
  with all parties still in the middle of a broadcast or a receive: they wait for each other for ever, and no party finishes or panics.\<close>

theorem small_buffers_deadlock:
  fixes mh :: "nat \<Rightarrow> 'g::ab_group_add message_handler"
  assumes "rng_ok R" and "scalar_from_ok S" and "group_ok G" and "codec_ok G" and "sig_ok V"
    and "2 \<le> n" and "n \<le> 256" and "3 \<le> k1" and "k1 < 32" and "0 < k2" and "k2 \<le> k1" and "k1 + k2 \<le> 32" and "0 < Q"
    and "P = Release \<or> port + n \<le> 2 ^ 16" and "port < 2 ^ 16" and "\<And>p. p < n \<Longrightarrow> mh_ready n p (mh p)"
    and "\<And>p. p < n \<Longrightarrow> mset (cs p) = mset (counters_start n p)" and "P = Release \<or> (n - 1) * (query_traffic k1 k2 + 6) < 2 ^ 32"
    and "\<And>p. p < n \<Longrightarrow> os_ok (env p) (cli_for n k1 k2 Q port out_fs p)" and "B < longest_frame k1 k2"
  shows "so_ends n B (\<lambda>s. \<forall>p<n. (\<exists>m k. so_prog s p = Broadcast m k) \<or> (\<exists>k. so_prog s p = ReceiveAll k))
      (so_init n (\<lambda>p. prc_main True P R S G V (sk p) (mh p) (cs p) (env p) (cli_for n k1 k2 Q port out_fs p)))"
  using run_server_sockets(2) [OF assms] unfolding prc_main_def by simp

theorem small_buffers_deadlock_witness:
  "so_ends 2 (2 ^ 18) (\<lambda>s. \<forall>p<2. (\<exists>m k. so_prog s p = Broadcast m k) \<or> (\<exists>k. so_prog s p = ReceiveAll k))
      (so_init 2 (\<lambda>p. prc_main True Release counter_rng ring256_scalars ring256_group toy_sigs 7 (sample_handler p) (counters_start 2 p) sample_env (cli_for 2 20 10 2 8000 sample_out p)))"
  by (rule small_buffers_deadlock [OF rng_ok_counter scalar_from_ok_word group_ok_ring256 codec_ok_ring256 sig_ok_toy, where sk = "\<lambda>_. 7"])
    (use longest_frame_bounds(1) [of 20 10] in \<open>simp_all add: sample_handler_ready sample_env_ok del: One_nat_def\<close>)

text \<open>C2. From the start of the processes to the answers. Let the parties start in any interleaving and let the start be over without a refused
  connection, as it always is when they start in the order of their ids. Then every party serves; the connections it has made and those its
  listener has accepted, each of which begins with the handshake of its peer, give a message handler and traffic counters, whatever order the hash map
  has; and every execution of the program on these handlers and counters, over sockets that have room for the longest message, ends as it should, with all queries
  answered and all files written.\<close>

theorem started_servers_answer:
  fixes G :: "('s::comm_ring_1, 'g::ab_group_add) group_ops"
  assumes R: "rng_ok R" "scalar_from_ok S" "group_ok G" "codec_ok G" "sig_ok V" and n: "2 \<le> n" "n \<le> 256"
    and k: "3 \<le> k1" "k1 < 32" "0 < k2" "k2 \<le> k1" "k1 + k2 \<le> 32" "0 < Q" and port: "P = Release \<or> port + n \<le> 2 ^ 16" "port < 2 ^ 16"
    and T: "P = Release \<or> (n - 1) * (query_traffic k1 k2 + 6) < 2 ^ 32" and env: "\<And>p. p < n \<Longrightarrow> os_ok (env p) (cli_for n k1 k2 Q port out_fs p)"
    and B: "longest_frame k1 k2 \<le> B" and start: "(su_step in_order n)\<^sup>*\<^sup>* su_init s" "\<And>t. \<not> su_step in_order n s t" "\<And>p j. p < n \<Longrightarrow> su_phase s p \<noteq> Crashed j"
    and streams: "\<And>p q. p < n \<Longrightarrow> q < p \<Longrightarrow> os_connect p ''127.0.0.1'' (of_nat port + of_nat q) \<noteq> None" "\<And>p. p < n \<Longrightarrow> map fst (inc p) = su_accepted s p"
      "\<And>p. p < n \<Longrightarrow> \<forall>(pid, inp, out)\<in>set (inc p). \<exists>rest. ts_bytes inp = frame G (Handshake (of_nat pid)) @ rest" "\<And>p conns. mset (hash_order p conns) = mset conns"
  shows "\<exists>mh cs db. (\<forall>p<n. su_phase s p = Serving \<and> (\<exists>fac conns.
      tf_connect P G (os_connect p) (tf_new p n) (sc_peers (cli_config n (of_nat port) k1 k2)) = Inr fac \<and>
      tf_accept P G (map snd (inc p)) (tf_connections fac) = conns \<and> cs p = tf_counters conns \<and>
      tf_get_handler P (fac\<lparr>tf_connections := conns\<rparr>) (hash_order p conns) = Inr (Ready (mh p)))) \<and>
    db_from_config R (sc_db_config (cli_config n (of_nat port) k1 k2)) = Inr db \<and>
    so_ends n B
      (so_finished n (\<lambda>out. \<forall>p<n. reports_ok S G V (sg_verifying_key V (sk 0)) db n k1 k2 p Q (fst (out p)) \<and>
        file_ok (env p) n k1 k2 p (out_fs p) (fst (out p)) (snd (out p))))
      (so_init n (\<lambda>p. prc_main True P R S G V (sk p) (mh p) (cs p) (env p) (cli_for n k1 k2 Q port out_fs p)))"
proof -
  let ?c = "cli_config n (of_nat port) k1 k2"
  let ?up = "\<lambda>p (mh :: 'g message_handler, cs). \<exists>fac conns. tf_connect P G (os_connect p) (tf_new p n) (sc_peers ?c) = Inr fac \<and>
      tf_accept P G (map snd (inc p)) (tf_connections fac) = conns \<and> cs = tf_counters conns \<and>
      tf_get_handler P (fac\<lparr>tf_connections := conns\<rparr>) (hash_order p conns) = Inr (Ready mh)"
  have serving: "su_phase s p = Serving \<and> mset (su_accepted s p) = mset [Suc p..<n]" if "p < n" for p
    by (rule final_serving [OF su_inv_reached [OF start(1)] start(2) _ that]) (rule start(3))
  have "\<exists>hc. ?up p hc \<and> mh_ready n p (fst hc) \<and> mset (snd hc) = mset (counters_start n p)" if p: "p < n" for p
  proof -
    have "map pi_id (sc_peers ?c) = [0..<n]" "\<forall>i\<in>set (sc_peers ?c). pi_id i < p \<longrightarrow> os_connect p (pi_ip_addr i) (pi_port i) \<noteq> None"
      using streams(1) p by (auto simp: cli_config_def comp_def)
    moreover have "mset (map fst (inc p)) = mset [Suc p..<n]" using serving [OF p] streams(2) [OF p] by simp
    ultimately obtain fac conns where "tf_connect P G (os_connect p) (tf_new p n) (sc_peers ?c) = Inr fac"
      "tf_accept P G (map snd (inc p)) (tf_connections fac) = conns" "mset (tf_counters conns) = mset (counters_start n p)"
      "\<exists>h :: 'g message_handler. tf_get_handler P (fac\<lparr>tf_connections := conns\<rparr>) (hash_order p conns) = Inr (Ready h) \<and> mh_ready n p h"
      using tcp_setup_ready [OF R(4) n(2) p _ _ _ streams(3) [OF p], of "sc_peers ?c" "os_connect p" P] streams(4) by blast
    then show ?thesis by auto
  qed
  then have "\<forall>p\<in>{..<n}. \<exists>hc. ?up p hc \<and> mh_ready n p (fst hc) \<and> mset (snd hc) = mset (counters_start n p)" by simp
  then obtain hc where "\<forall>p\<in>{..<n}. ?up p (hc p) \<and> mh_ready n p (fst (hc p)) \<and> mset (snd (hc p)) = mset (counters_start n p)"
    by (rule bchoice [THEN exE]) (rule that)
  then have hc: "?up p (hc p)" "mh_ready n p (fst (hc p))" "mset (snd (hc p)) = mset (counters_start n p)" if "p < n" for p
    using that by (simp_all only: Ball_def lessThan_iff)
  obtain db where db: "db_from_config R (sc_db_config ?c) = Inr db" "so_ends n B
      (so_finished n (\<lambda>out. \<forall>p<n. reports_ok S G V (sg_verifying_key V (sk 0)) db n k1 k2 p Q (fst (out p)) \<and>
        file_ok (env p) n k1 k2 p (out_fs p) (fst (out p)) (snd (out p))))
      (so_init n (\<lambda>p. prc_main True P R S G V (sk p) (fst (hc p)) (snd (hc p)) (env p) (cli_for n k1 k2 Q port out_fs p)))"
    using run_server_sockets(1) [OF R n k port hc(2,3) T env B, of sk] unfolding prc_main_def by auto
  show ?thesis
    using hc(1) serving db by (intro exI [of _ "fst \<circ> hc"] exI [of _ "snd \<circ> hc"] exI [of _ db]) (auto simp: case_prod_unfold)
qed

theorem started_servers_answer_witness:
  "\<exists>s (mh :: nat \<Rightarrow> 256 word message_handler) cs db. (su_step True 2)\<^sup>*\<^sup>* su_init s \<and> (\<forall>p<2. su_phase s p = Serving \<and> (\<exists>fac conns.
      tf_connect Dev ring256_group (\<lambda>_ _. Some (stream_new, stream_new)) (tf_new p 2) (sc_peers (cli_config 2 (of_nat 8000) 3 1)) = Inr fac \<and>
      tf_accept Dev ring256_group (map snd (map (\<lambda>q. (q, \<lparr>ts_bytes = frame ring256_group (Handshake (of_nat q)), ts_open = True\<rparr>, stream_new)) (su_accepted s p)))
        (tf_connections fac) = conns \<and> cs p = tf_counters conns \<and>
      tf_get_handler Dev (fac\<lparr>tf_connections := conns\<rparr>) (rev conns) = Inr (Ready (mh p)))) \<and>
    db_from_config counter_rng (sc_db_config (cli_config 2 (of_nat 8000) 3 1)) = Inr db \<and>
    so_ends 2 85
      (so_finished 2 (\<lambda>out. \<forall>p<2. reports_ok ring256_scalars ring256_group toy_sigs (sg_verifying_key toy_sigs 7) db 2 3 1 p 2 (fst (out p)) \<and>
        file_ok sample_env 2 3 1 p (sample_out p) (fst (out p)) (snd (out p))))
      (so_init 2 (\<lambda>p. prc_main True Dev counter_rng ring256_scalars ring256_group toy_sigs 7 (mh p) (cs p) sample_env (cli_for 2 3 1 2 8000 sample_out p)))"
proof -
  obtain s where s: "(su_step True 2)\<^sup>*\<^sup>* su_init s" "\<And>t. \<not> su_step True 2 s t" using su_final by blast
  have alive: "su_phase s p \<noteq> Crashed j" if "p < 2" for p j using su_inv_reached [OF s(1)] that unfolding su_inv_def by blast
  have "\<exists>(mh :: nat \<Rightarrow> 256 word message_handler) cs db. (\<forall>p<2. su_phase s p = Serving \<and> (\<exists>fac conns.
      tf_connect Dev ring256_group (\<lambda>_ _. Some (stream_new, stream_new)) (tf_new p 2) (sc_peers (cli_config 2 (of_nat 8000) 3 1)) = Inr fac \<and>
      tf_accept Dev ring256_group (map snd (map (\<lambda>q. (q, \<lparr>ts_bytes = frame ring256_group (Handshake (of_nat q)), ts_open = True\<rparr>, stream_new)) (su_accepted s p)))
        (tf_connections fac) = conns \<and> cs p = tf_counters conns \<and>
      tf_get_handler Dev (fac\<lparr>tf_connections := conns\<rparr>) (rev conns) = Inr (Ready (mh p)))) \<and>
    db_from_config counter_rng (sc_db_config (cli_config 2 (of_nat 8000) 3 1)) = Inr db \<and>
    so_ends 2 85
      (so_finished 2 (\<lambda>out. \<forall>p<2. reports_ok ring256_scalars ring256_group toy_sigs (sg_verifying_key toy_sigs 7) db 2 3 1 p 2 (fst (out p)) \<and>
        file_ok sample_env 2 3 1 p (sample_out p) (fst (out p)) (snd (out p))))
      (so_init 2 (\<lambda>p. prc_main True Dev counter_rng ring256_scalars ring256_group toy_sigs 7 (mh p) (cs p) sample_env (cli_for 2 3 1 2 8000 sample_out p)))"
    by (rule started_servers_answer [OF rng_ok_counter scalar_from_ok_word group_ok_ring256 codec_ok_ring256 sig_ok_toy _ _ _ _ _ _ _ _ _ _ _ _ sample_frame s(1,2) alive,
        where sk = "\<lambda>_. 7" and os_connect = "\<lambda>_ _ _. Some (stream_new, stream_new)" and hash_order = "\<lambda>_. rev"])
      (auto simp: sample_traffic sample_env_ok comp_def simp del: One_nat_def)
  then show ?thesis using s(1) by blast
qed

text \<open>C17. Over channels, which count messages, along the way: in every state that an execution of the program over queues of capacity 100 reaches, no party
  has panicked and no connection holds more than two messages, so that a sender never waits for the capacity of 100.\<close>

theorem links_stay_short:
  fixes mh :: "nat \<Rightarrow> 'g::ab_group_add message_handler"
  assumes "rng_ok R" and "scalar_from_ok S" and "group_ok G" and "codec_ok G" and "sig_ok V"
    and "2 \<le> n" and "n \<le> 256" and "3 \<le> k1" and "k1 < 32" and "0 < k2" and "k2 \<le> k1" and "k1 + k2 \<le> 32" and "0 < Q"
    and "P = Release \<or> port + n \<le> 2 ^ 16" and "port < 2 ^ 16" and "\<And>p. p < n \<Longrightarrow> mh_ready n p (mh p)"
    and "\<And>p. p < n \<Longrightarrow> mset (cs p) = mset (counters_start n p)" and "P = Release \<or> (n - 1) * (query_traffic k1 k2 + 6) < 2 ^ 32"
    and "\<And>p. p < n \<Longrightarrow> os_ok (env p) (cli_for n k1 k2 Q port out_fs p)"
    and "(net_step n 100)\<^sup>*\<^sup>* (net_init n (\<lambda>p. run_server P R S G V (sk p) (mh p) (cs p) (env p) (cli_for n k1 k2 Q port out_fs p))) s"
    and "p < n" and "q < n" and "p \<noteq> q"
  shows "length (nt_link s q p) \<le> 2 \<and> (\<forall>e. nt_prog s p \<noteq> Fail e)"
proof -
  obtain db where "all_finish n (\<lambda>p. run_server P R S G V (sk p) (mh p) (cs p) (env p) (cli_for n k1 k2 Q port out_fs p))
      (\<lambda>out. \<forall>p<n. reports_ok S G V (sg_verifying_key V (sk 0)) db n k1 k2 p Q (fst (out p)) \<and>
        file_ok (env p) n k1 k2 p (out_fs p) (fst (out p)) (snd (out p)))"
    using run_server_reports [OF assms(1-19), of sk] by blast
  from reached_safe [OF assms(20) this assms(21-)] show ?thesis .
qed

theorem links_stay_short_witness:
  "\<exists>s. net_step 2 100 (net_init 2 (\<lambda>p. run_server Dev counter_rng ring256_scalars ring256_group toy_sigs 7 (sample_handler p) (counters_start 2 p) sample_env (cli_for 2 3 1 2 8000 sample_out p))) s \<and>
    length (nt_link s 0 1) \<le> 2 \<and> (\<forall>e. nt_prog s 1 \<noteq> Fail e)"
proof -
  let ?ps = "\<lambda>p. run_server Dev counter_rng ring256_scalars ring256_group toy_sigs 7 (sample_handler p) (counters_start 2 p) sample_env (cli_for 2 3 1 2 8000 sample_out p)"
  obtain Q where "all_finish 2 ?ps Q"
    using run_server_reports [OF rng_ok_counter scalar_from_ok_word group_ok_ring256 codec_ok_ring256 sig_ok_toy, where sk = "\<lambda>_. 7" and n = 2 and mh = sample_handler
        and cs = "counters_start 2" and env = "\<lambda>_. sample_env" and out_fs = sample_out and ?k1.0 = 3 and ?k2.0 = 1 and Q = 2 and P = Dev and port = 8000]
    by (auto simp: sample_handler_ready sample_traffic sample_env_ok simp del: One_nat_def)
  then have "inevitable 2 100 Q (net_init 2 ?ps)" by (rule all_executions_finish) simp_all
  moreover have start: "?ps 0 \<noteq> Done x" for x
    using talks_program [OF rng_ok_counter scalar_from_ok_word codec_ok_ring256, where sk = "\<lambda>_. 7" and n = 2 and mh = sample_handler and V = toy_sigs
        and cs = "counters_start 2 0" and env = "\<lambda>_. sample_env" and out_fs = sample_out and ?k1.0 = 3 and ?k2.0 = 1 and Q = 2 and P = Dev and port = 8000 and p = 0]
    by (auto simp: sample_handler_ready sample_env_ok query_msgs_def simp del: One_nat_def)
  ultimately obtain s where s: "net_step 2 100 (net_init 2 ?ps) s"
  proof (cases rule: inevitable.cases)
    case (ends xs)
    have "?ps 0 = Done (xs 0)" using ends(1) [of 0] by (simp add: net_init_def)
    with start show ?thesis by blast
  qed
  then show ?thesis
    using links_stay_short [OF rng_ok_counter scalar_from_ok_word group_ok_ring256 codec_ok_ring256 sig_ok_toy, where sk = "\<lambda>_. 7" and n = 2 and s = s
      and mh = sample_handler and cs = "counters_start 2" and env = "\<lambda>_. sample_env" and out_fs = sample_out and ?k1.0 = 3 and ?k2.0 = 1 and Q = 2 and P = Dev and port = 8000 and p = 1 and q = 0]
    by (intro exI [of _ s]) (auto simp: sample_handler_ready sample_traffic sample_env_ok simp del: One_nat_def)
qed

text \<open>C7. Running the parties round by round is no restriction: whenever all of them finish with results \<open>Q\<close> in rounds of
  broadcasts followed by receives, for every order of arrival, then every asynchronous execution over queues of any
  positive capacity ends, without deadlock and without a message left, with results \<open>Q\<close>.\<close>

theorem rounds_are_sound:
  assumes "all_finish n ps Q" and "0 < capacity" and "0 < n"
  shows "inevitable n capacity Q (net_init n ps)"
  by (rule all_executions_finish [OF assms])

theorem rounds_are_sound_witness:
  "inevitable 3 1 (\<lambda>out. \<forall>p<3. mset (out p) = mset (map (\<lambda>q. (q, Some q)) (others 3 p)))
     (net_init 3 (\<lambda>p. Broadcast p (ReceiveAll Done)))"
proof (rule rounds_are_sound)
  show "all_finish 3 (\<lambda>p. Broadcast p (ReceiveAll Done)) (\<lambda>out. \<forall>p<3. mset (out p) = mset (map (\<lambda>q. (q, Some q)) (others 3 p)))"
    by (rule all_finish.round [where ms = "\<lambda>p. p" and ks = "\<lambda>_. Done"]) (auto intro: all_finish_Done)
qed simp_all

section \<open>Set-up\<close>

text \<open>C19. \<open>full_setup\<close> on dimensions \<open>(2^k2, 2^k1)\<close>, the first dimension of the database last, gives a client and all servers of one system: the client
  shares among these servers and knows the dimensions, the servers hold one database of these dimensions and the triples and
  daBits for \<open>Q\<close> queries.\<close>

theorem full_setup_ready:
  fixes G :: "('s::comm_ring_1, 'g) group_ops" and sk :: "nat \<Rightarrow> 'sk"
  assumes "rng_ok R" and "scalar_from_ok S" and "codec_ok G"
    and "2 \<le> n" and "n \<le> 256" and "3 \<le> k1" and "k1 < 32" and "0 < k2" and "k2 \<le> k1" and "k1 + k2 \<le> 32" and "0 < Q"
    and "P = Release \<or> unat port + n \<le> 2 ^ 16" and "\<forall>p<n. \<forall>q<p. os_connect p ''127.0.0.1'' (port + of_nat q) \<noteq> None"
    and "\<forall>p<n. mset (map fst (inc p)) = mset [Suc p..<n]"
    and "\<forall>p<n. \<forall>(pid, inp, out)\<in>set (inc p). \<exists>rest. ts_bytes inp = frame G (Handshake (of_nat pid)) @ rest"
    and "\<forall>p conns. mset (hash_order p conns) = mset conns"
  shows "\<exists>cl sv db. full_setup P R S G V os_connect (\<lambda>p. map snd (inc p)) hash_order sk n port (2 ^ k2, 2 ^ k1) Q
      = Inr (Ready (cl, map sv [0..<n])) \<and> client_ok cl n k1 k2 \<and> db_dims db k1 k2 \<and>
    servers_ready n (Q * (div_ceil (5 * 2 ^ k2) 2 + div_ceil (3 * 2 ^ k1) 2 + 96)) 0 (Q * 36) 0 db sv"
proof -
  let ?c = "cli_config n port k1 k2"
  have c: "basic_system_config P n port (2 ^ k2, 2 ^ k1) = Inr ?c"
    using localhost_peers [of P port n] assms(5,12) by (simp add: basic_system_config_def cli_config_def dbc_new_def)
  have peers: "n = length (sc_peers ?c)" "map pi_id (sc_peers ?c) = [0..<n]" by (simp_all add: cli_config_def comp_def)
  have con: "\<forall>p<n. \<forall>i\<in>set (sc_peers ?c). pi_id i < p \<longrightarrow> os_connect p (pi_ip_addr i) (pi_port i) \<noteq> None"
    using assms(13) by (auto simp: cli_config_def)
  obtain db sv where s: "db_dims db k1 k2" "servers_ready n (Q * beaver_per_q (sc_db_config ?c)) 0 (Q * 36) 0 db sv"
      "\<And>p. p < n \<Longrightarrow> sv_new P R S G V (os_connect p) (map snd (inc p)) (hash_order p) (sk p) p ?c Q = Inr (Ready (sv p))"
    using servers_start [OF assms(1,2,3) cli_config_ok [OF assms(4-10)] assms(11) peers con assms(14-16), of P V sk] by blast
  have "rmap (\<lambda>p. sv_new P R S G V (os_connect p) (map snd (inc p)) (hash_order p) (sk p) p ?c Q) [0..<n] = Inr (map (\<lambda>p. Ready (sv p)) [0..<n])"
    using s(3) by (intro rmap_Ok) simp
  moreover have "client_ok (pc_new n (sc_db_config ?c) ?c) n k1 k2"
    using cli_client_ok [of n k1 k2 port] by (simp add: client_ok_def pc_new_def cli_config_def dbc_new_def)
  moreover have "beaver_per_q (sc_db_config ?c) = div_ceil (5 * 2 ^ k2) 2 + div_ceil (3 * 2 ^ k1) 2 + 96"
    by (simp add: beaver_per_q_def cli_config_def dbc_new_def)
  ultimately show ?thesis using s(1,2)
    by (intro exI [of _ "pc_new n (sc_db_config ?c) ?c"] exI [of _ sv] exI [of _ db]) (simp add: full_setup_def c)
qed

theorem full_setup_ready_witness:
  "\<exists>cl (sv :: nat \<Rightarrow> (256 word, 256 word, u8, u8) prc_server) db.
    full_setup Dev counter_rng ring256_scalars ring256_group toy_sigs (\<lambda>_ _ _. Some (stream_new, stream_new))
      (\<lambda>p. map snd (if p = 0 then [(1 :: nat, \<lparr>ts_bytes = frame ring256_group (Handshake (of_nat 1)), ts_open = True\<rparr>, stream_new)] else []))
      (\<lambda>_ conns. conns) (\<lambda>_. 7) 2 8000 (2 ^ 1, 2 ^ 3) 4 = Inr (Ready (cl, map sv [0..<2])) \<and> client_ok cl 2 3 1 \<and> db_dims db 3 1 \<and>
    servers_ready 2 (4 * (div_ceil (5 * 2 ^ 1) 2 + div_ceil (3 * 2 ^ 3) 2 + 96)) 0 (4 * 36) 0 db sv"
proof (rule full_setup_ready [OF rng_ok_counter scalar_from_ok_word codec_ok_ring256])
  show "\<forall>p<2. mset (map fst (if p = 0 then [(1 :: nat, \<lparr>ts_bytes = frame ring256_group (Handshake (of_nat 1)), ts_open = True\<rparr>, stream_new)] else []))
      = mset [Suc p..<2]" by (auto simp: less_2_cases_iff upt_rec)
qed auto

section \<open>One query\<close>

text \<open>C3. One query of a client to servers that are ready: every server gets its share, all of them finish \<open>prc_protocol\<close>, server 0
  alone has a token, and the client accepts this token for the value of the requested record in the database. The
  servers are ready again, with the triples and the daBits of one query spent, so that the next query can follow.\<close>

theorem protocol_certifies_record:
  fixes sv :: "nat \<Rightarrow> ('s::comm_ring_1, 'g::ab_group_add, 'sk, 'vk) prc_server"
  assumes "scalar_from_ok S" and "group_ok G" and "codec_ok G" and "sig_ok V" and "2 \<le> n"
    and "servers_ready n N u M d db sv" and "db_dims db k1 k2" and "sv_pk (sv 0) = sg_verifying_key V (sv_sk (sv 0))"
    and "client_ok c n k1 k2" and "0 < k1" and "k1 < 32" and "0 < k2" and "k1 + k2 \<le> 32" and "idx < 2 ^ k1 * 2 ^ k2"
    and "8 * query_bytes k1 k2 < 2 ^ 32" and "u + query_bytes k1 k2 \<le> div_ceil N 8" and "d + (k1 + k2 + 1) \<le> M"
  shows "\<exists>st q rng' b. (\<forall>p<n. query_single_server P R S c idx p rng = Inr ((st, q p), rng')) \<and> get_record_bit db idx 0 = Inr b \<and>
    all_finish n (\<lambda>p. prc_protocol P S G V (sv p) (q p)) (\<lambda>out. \<exists>tok sv'. (\<forall>p<n. out p = (if p = 0 then Some tok else None, sv' p)) \<and>
      fst (check_for_rec_val S G V tok st (of_bool b) (sv_pk (sv 0))) \<and>
      servers_ready n N (u + query_bytes k1 k2) M (d + (k1 + k2 + 1)) db sv')"
proof -
  obtain st q rng' where q: "\<And>p. p < n \<Longrightarrow> query_single_server P R S c idx p rng = Inr ((st, q p), rng')" and st: "st_idx st = of_nat idx"
    and fin: "all_finish n (\<lambda>p. prc_protocol P S G V (sv p) (q p)) (\<lambda>out. \<exists>sv'. served n sv (u + query_bytes k1 k2) (d + (k1 + k2 + 1)) sv' \<and>
      (\<forall>p<n. out p = (if p = 0 then Some (token_of G V (sv_sk (sv 0)) (commit G (opening_new (st_crnd st) (of_nat idx) (of_bool (rec_bit db 0 idx)))))
        else None, sv' p)))"
    by (rule query_answered [OF assms(1-3,5-7,9-17), of P R rng V]) (rule that, blast+)
  let ?b = "rec_bit db 0 idx"
  let ?tok = "token_of G V (sv_sk (sv 0)) (commit G (opening_new (st_crnd st) (of_nat idx) (of_bool ?b)))"
  have "get_record_bit db idx 0 = Inr ?b"
    using assms(7,14) by (intro get_record_bit_Ok) (simp_all add: db_dims_def db_total_size_def mult.commute)
  moreover have "fst (check_for_rec_val S G V ?tok st (of_bool ?b) (sv_pk (sv 0)))"
    using assms(1,4) st by (simp add: check_for_rec_val_def st_get_commitment_def token_of_def scalar_from_ok_def sig_ok_def assms(8) Let_def)
  then have "all_finish n (\<lambda>p. prc_protocol P S G V (sv p) (q p)) (\<lambda>out. \<exists>tok sv'. (\<forall>p<n. out p = (if p = 0 then Some tok else None, sv' p)) \<and>
      fst (check_for_rec_val S G V tok st (of_bool ?b) (sv_pk (sv 0))) \<and> servers_ready n N (u + query_bytes k1 k2) M (d + (k1 + k2 + 1)) db sv')"
    using servers_ready_served [OF assms(6)] by (intro all_finish_mono [OF fin]) blast
  ultimately show ?thesis using q by blast
qed

theorem protocol_certifies_record_witness:
  "\<exists>(sv :: nat \<Rightarrow> (256 word, 256 word, u8, u8) prc_server) db st q rng' b.
    (\<forall>p<2. query_single_server Dev counter_rng ring256_scalars (pc_new 2 (dbc_new 1 (2 ^ 3) (2 ^ 1) None) (cli_config 2 8000 3 1)) 13 p 5
       = Inr ((st, q p), rng')) \<and> get_record_bit db 13 0 = Inr b \<and>
    all_finish 2 (\<lambda>p. prc_protocol Dev ring256_scalars ring256_group toy_sigs (sv p) (q p))
      (\<lambda>out. \<exists>tok sv'. (\<forall>p<2. out p = (if p = 0 then Some tok else None, sv' p)) \<and>
        fst (check_for_rec_val ring256_scalars ring256_group toy_sigs tok st (of_bool b) (sv_pk (sv 0))) \<and>
        servers_ready 2 113 (0 + query_bytes 3 1) 36 (0 + (3 + 1 + 1)) db sv')"
proof -
  obtain db and sv :: "nat \<Rightarrow> (256 word, 256 word, u8, u8) prc_server" where s: "db_dims db 3 1" "servers_ready 2 113 0 36 0 db sv"
    "sv_pk (sv 0) = sg_verifying_key toy_sigs (sv_sk (sv 0))" by (rule sample_servers)
  show ?thesis
    by (intro exI [of _ sv] exI [of _ db], rule protocol_certifies_record [OF scalar_from_ok_word group_ok_ring256 codec_ok_ring256 sig_ok_toy _ s(2,1,3) cli_client_ok])
      (simp_all add: sample_budget div_ceil_def del: One_nat_def)
qed

text \<open>
  Where the preprocessing comes from matters for secrecy. With the set-up of the program (\<open>localhost_peer_config\<close>, \<open>init_seeded_correlated_randomness\<close>)
  the configuration of every server holds the seeds of all, from which it can compute the triples and the daBits of every other one; the README and a comment in
  \<open>src/prc/config.rs\<close> say so, and that this set-up is for benchmarks only. Secrecy is a property of servers whose preprocessing was dealt to
  them by somebody who is trusted, and who hold nothing of that of the others: no seeds.
\<close>

lemma seeds_reveal_preprocessing:
  assumes "sv_new_with_message_handler R S V sk p c mh Q = Inr sv" "sv_new_with_message_handler R S V sk' q c mh' Q = Inr sv'"
  shows "init_seeded_correlated_randomness R S (sv_config sv') (sv_id sv) Q
    = Inr (mp_beaver_provider (sv_mpc_provider sv), mp_dabit_provider (sv_mpc_provider sv))"
  using assms by (auto simp: sv_new_with_message_handler_def rbind_eq_Ok mp_new_def Let_def)

definition without_seeds :: "nat \<Rightarrow> (nat \<Rightarrow> ('s::comm_ring_1, 'g, 'sk, 'vk) prc_server) \<Rightarrow> bool" where
  "without_seeds n sv \<longleftrightarrow> (\<forall>p<n. \<forall>peer\<in>set (sc_peers (sv_config (sv p))). pi_seed peer = [])"

definition drop_seeds :: "('s::comm_ring_1, 'g, 'sk, 'vk) prc_server \<Rightarrow> ('s, 'g, 'sk, 'vk) prc_server" where
  "drop_seeds sv = sv\<lparr>sv_config := (sv_config sv)\<lparr>sc_peers := map (\<lambda>peer. peer\<lparr>pi_seed := []\<rparr>) (sc_peers (sv_config sv))\<rparr>\<rparr>"

lemma servers_without_seeds:
  "servers_ready n N u M d db (\<lambda>p. drop_seeds (sv p)) = servers_ready n N u M d db sv" "without_seeds n (\<lambda>p. drop_seeds (sv p))"
  by (auto simp: servers_ready_def without_seeds_def drop_seeds_def)

text \<open>C4. Secrecy of the index, for servers whose preprocessing was dealt to them and who hold no seeds (not the set-up of the program, where each
  server can compute the preprocessing of all). Let these servers send and receive any messages \<open>T\<close> in a query, in any order of arrival. Then for any server \<open>h\<close>
  and any other index there are a share of the query, triples and daBits of \<open>h\<close> that fit those of the other servers, with
  which \<open>h\<close> and the others send and receive the very same \<open>T\<close> and the others get the same results; nothing else changes, and the servers again hold no seeds.
  So all servers together without \<open>h\<close> cannot exclude any index from their shares, their preprocessing and the messages.\<close>

theorem transcript_hides_index:
  fixes sv :: "nat \<Rightarrow> ('s::comm_ring_1, 'g::ab_group_add, 'sk, 'vk) prc_server"
  assumes S: "scalar_from_ok S" and G: "group_ok G" "codec_ok G" "generated G" and n: "2 \<le> n"
    and sv: "servers_ready n N u M w db sv" "db_dims db k1 k2" and k: "0 < k1" "k1 < 32" "0 < k2" "k1 + k2 \<le> 32"
    and q: "bv_shares n k1 (\<lambda>p. q_l1_bss (q p)) x1" "bv_shares n k2 (\<lambda>p. q_l2_bss (q p)) x2"
    and N: "8 * query_bytes k1 k2 < 2 ^ 32" "u + query_bytes k1 k2 \<le> div_ceil N 8" and M: "w + (k1 + k2 + 1) \<le> M"
    and dealt: "without_seeds n sv" and h: "h < n" and y: "unat y1 < 2 ^ k1" "unat y2 < 2 ^ k2"
    and T: "transcript n (\<lambda>p. prc_protocol P S G V (sv p) (q p)) T out"
  shows "\<exists>mp r b1 b2 out'. let sv' = sv(h := (sv h)\<lparr>sv_mpc_provider := mp\<rparr>); q' = q(h := (q h)\<lparr>q_rnd_ass := r, q_l1_bss := b1, q_l2_bss := b2\<rparr>) in
    servers_ready n N u M w db sv' \<and> without_seeds n sv' \<and> bv_shares n k1 (\<lambda>p. q_l1_bss (q' p)) y1 \<and> bv_shares n k2 (\<lambda>p. q_l2_bss (q' p)) y2 \<and>
    transcript n (\<lambda>p. prc_protocol P S G V (sv' p) (q' p)) T out' \<and> (\<forall>p<n. p \<noteq> h \<longrightarrow> out' p = out p)"
proof -
  have k': "k1 < 64" "k2 < 64" "k1 \<le> 32" "k2 \<le> 32" using k by simp_all
  obtain b1 b2 where b: "bv_bit_len b1 = k1" "bv_bit_len b2 = k2" "bv_shares n k1 ((\<lambda>p. q_l1_bss (q p))(h := b1)) y1" "bv_shares n k2 ((\<lambda>p. q_l2_bss (q p))(h := b2)) y2"
    using reshare [OF q(1) h y(1) k'(3)] reshare [OF q(2) h y(2) k'(4)] by blast
  have "bv_bit_len (q_l1_bss (q h)) = k1" "bv_bit_len (q_l2_bss (q h)) = k2" using q h by (simp_all add: bv_shares_def)
  from server_alike [OF G(1,3) sv k'(1,2) this b(1,2) N(2) M h, of P S V "map (\<lambda>(ms, arr). arr h) T"] obtain mp r
    where mp: "servers_ready n N u M w db (sv(h := (sv h)\<lparr>sv_mpc_provider := mp\<rparr>))" and al: "alike (prc_protocol P S G V (sv h) (q h))
      (prc_protocol P S G V ((sv h)\<lparr>sv_mpc_provider := mp\<rparr>) ((q h)\<lparr>q_rnd_ass := r, q_l1_bss := b1, q_l2_bss := b2\<rparr>)) (map (\<lambda>(ms, arr). arr h) T) (\<lambda>_ _ _. True)"
    by blast
  define sv' where "sv' = sv(h := (sv h)\<lparr>sv_mpc_provider := mp\<rparr>)"
  define q' where "q' = q(h := (q h)\<lparr>q_rnd_ass := r, q_l1_bss := b1, q_l2_bss := b2\<rparr>)"
  have q': "bv_shares n k1 (\<lambda>p. q_l1_bss (q' p)) y1" "bv_shares n k2 (\<lambda>p. q_l2_bss (q' p)) y2"
    using b(3,4) by (auto simp: q'_def elim!: bv_shares_cong [rotated])
  have "all_finish n (\<lambda>p. prc_protocol P S G V (sv' p) (q' p)) (\<lambda>_. True)"
    by (rule all_finish_mono [OF prc_protocol_shares [OF S G(1,2) n mp [folded sv'_def] sv(2) k q' N M]]) simp
  from same_transcript [OF T this, of h] al h n obtain out' where
    "transcript n (\<lambda>p. prc_protocol P S G V (sv' p) (q' p)) T out'" "\<forall>p<n. p \<noteq> h \<longrightarrow> out' p = out p"
    by (auto simp: sv'_def q'_def)
  moreover have "without_seeds n sv'" using dealt by (simp add: sv'_def without_seeds_def)
  ultimately show ?thesis using mp q' unfolding sv'_def q'_def Let_def by blast
qed

theorem transcript_hides_index_witness:
  "\<exists>(sv :: nat \<Rightarrow> (256 word, 256 word, u8, u8) prc_server) db q T out mp r b1 b2 out'.
    without_seeds 2 sv \<and> transcript 2 (\<lambda>p. prc_protocol Dev ring256_scalars ring256_group toy_sigs (sv p) (q p)) T out \<and>
    (let sv' = sv(1 := (sv 1)\<lparr>sv_mpc_provider := mp\<rparr>); q' = q(1 := (q 1)\<lparr>q_rnd_ass := r, q_l1_bss := b1, q_l2_bss := b2\<rparr>) in
    servers_ready 2 113 0 36 0 db sv' \<and> without_seeds 2 sv' \<and> bv_shares 2 3 (\<lambda>p. q_l1_bss (q' p)) 6 \<and> bv_shares 2 1 (\<lambda>p. q_l2_bss (q' p)) 0 \<and>
    transcript 2 (\<lambda>p. prc_protocol Dev ring256_scalars ring256_group toy_sigs (sv' p) (q' p)) T out' \<and> (\<forall>p<2. p \<noteq> 1 \<longrightarrow> out' p = out p))"
proof -
  obtain db and sv0 :: "nat \<Rightarrow> (256 word, 256 word, u8, u8) prc_server" where s0: "db_dims db 3 1" "servers_ready 2 113 0 36 0 db sv0"
    "sv_pk (sv0 0) = sg_verifying_key toy_sigs (sv_sk (sv0 0))" by (rule sample_servers)
  define sv where "sv = (\<lambda>p. drop_seeds (sv0 p))"
  have s: "db_dims db 3 1" "servers_ready 2 113 0 36 0 db sv" "without_seeds 2 sv" using s0 by (simp_all add: sv_def servers_without_seeds)
  let ?q = "\<lambda>p. \<lparr>q_l1_bss = \<lparr>bv_bit_len = 3, bv_value = if p = (0 :: nat) then 5 else 6\<rparr>,
    q_l2_bss = \<lparr>bv_bit_len = 1, bv_value = if p = 0 then 1 else 0\<rparr>, q_rnd_ass = \<lparr>av_value = 9\<rparr>\<rparr> :: 256 word prc_query"
  have q: "bv_shares 2 3 (\<lambda>p. q_l1_bss (?q p)) 3" "bv_shares 2 1 (\<lambda>p. q_l2_bss (?q p)) 1" using sample_shares by simp_all
  have b: "8 * query_bytes 3 1 < 2 ^ 32" "0 + query_bytes 3 1 \<le> div_ceil 113 8" "0 + (3 + 1 + 1) \<le> (36 :: nat)"
    by (simp_all add: sample_budget div_ceil_def del: One_nat_def)
  obtain T out where T: "transcript 2 (\<lambda>p. prc_protocol Dev ring256_scalars ring256_group toy_sigs (sv p) (?q p)) T out"
    using transcript_exists [OF prc_protocol_shares [OF scalar_from_ok_word group_ok_ring256 codec_ok_ring256 _ s(2,1) _ _ _ _ q b, of Dev toy_sigs]] by auto
  show ?thesis
    by (intro exI [of _ sv] exI [of _ db] exI [of _ ?q] exI [of _ T] exI [of _ out]) (use T s(3)
      transcript_hides_index [OF scalar_from_ok_word group_ok_ring256 codec_ok_ring256 generated_ring256 _ s(2,1) _ _ _ _ q b s(3) _ _ _ T, of 1 6 0] in \<open>simp del: One_nat_def\<close>)
qed

text \<open>C13. The bandwidth of a query over TCP connections that have counted nothing yet: to every peer a server sends, and from
  every peer it receives, exactly \<open>10 (max (depth k1) (depth k2) + 1) + 2 query_bytes k1 k2 + 10 + \<lceil>(k1 + k2 + 1) / 8\<rceil> + 38\<close> bytes,
  where \<open>depth k\<close> is the number of halvings of \<open>k\<close>, whatever the index and the data. \<open>get_then_reset_netstat\<close> reports the sum
  over the peers and sets the counters back; when the sum needs more than 32 bits, it panics with overflow checks and is
  reported modulo \<open>2^32\<close> without.\<close>

theorem query_bandwidth:
  fixes sv :: "nat \<Rightarrow> ('s::comm_ring_1, 'g::ab_group_add, 'sk, 'vk) prc_server"
  assumes "scalar_from_ok S" and "group_ok G" and "codec_ok G" and "2 \<le> n" and "servers_ready n N u M d db sv" and "db_dims db k1 k2"
    and "0 < k1" and "k1 < 32" and "0 < k2" and "k1 + k2 \<le> 32"
    and "bv_shares n k1 (\<lambda>p. q_l1_bss (q p)) x1" and "bv_shares n k2 (\<lambda>p. q_l2_bss (q p)) x2"
    and "8 * query_bytes k1 k2 < 2 ^ 32" and "u + query_bytes k1 k2 \<le> div_ceil N 8" and "d + (k1 + k2 + 1) \<le> M"
    and "T = 10 * (max (ohe_depth k1) (ohe_depth k2) + 1) + 2 * query_bytes k1 k2 + (10 + div_ceil (k1 + k2 + 1) 8) + 38"
  shows "all_finish n (\<lambda>p. metered (prc_protocol P S G V (sv p) (q p)) P (counters_new (others n p))) (\<lambda>out. \<forall>p<n.
    snd (out p) = map (\<lambda>r. (r, \<lparr>ns_sent = of_nat T, ns_received = of_nat T\<rparr>)) (others n p) \<and>
    sv_get_then_reset_netstat P (snd (out p)) =
      (if P = Release \<or> (n - 1) * T < 2 ^ 32
       then Inr (\<lparr>ns_sent = of_nat ((n - 1) * T), ns_received = of_nat ((n - 1) * T)\<rparr>, counters_new (others n p))
       else Inl ArithOverflow))"
proof -
  have k: "0 < n" "k1 < 64" "k2 < 64" "k1 \<le> 32" "k2 \<le> 32" using assms(4,8,10) by simp_all
  have T: "query_traffic k1 k2 = T" "T < 2 ^ 32" using query_traffic_bound [OF k(4,5) assms(13)] by (simp_all add: query_traffic_def assms(16))
  have grown: "map (apsnd (grown T T)) (counters_new qs) = map (\<lambda>r. (r, \<lparr>ns_sent = of_nat T, ns_received = of_nat T\<rparr>)) qs" for qs
    by (simp add: counters_new_def grown_def ns_new_def)
  show ?thesis
  proof (rule all_finish_mono [OF protocol_metered [OF prc_protocol_shares [OF assms(1-15), of P V] k(1) assms(5,6,3) k(2,3), unfolded T(1)]])
    show "fits P T T stat" if "p < n" "(r, stat) \<in> set (counters_new (others n p))" for p r stat
      using that T(2) by (auto simp: counters_new_def fits_def ns_new_def)
  next
    fix out
    assume "\<exists>xs. (\<exists>sv'. served n sv (u + query_bytes k1 k2) (d + (k1 + k2 + 1)) sv' \<and> (\<forall>p<n. xs p = (if p = 0
        then Some (token_of G V (sv_sk (sv 0)) (joint_commit G n q (of_nat (unat x2 * 2 ^ k1 + unat x1))
          (of_bool (rec_bit db 0 (unat x2 * 2 ^ k1 + unat x1))))) else None, sv' p))) \<and>
      (\<forall>p<n. out p = (xs p, map (apsnd (grown T T)) (counters_new (others n p))))"
    then show "\<forall>p<n. snd (out p) = map (\<lambda>r. (r, \<lparr>ns_sent = of_nat T, ns_received = of_nat T\<rparr>)) (others n p) \<and>
      sv_get_then_reset_netstat P (snd (out p)) =
      (if P = Release \<or> (n - 1) * T < 2 ^ 32
       then Inr (\<lparr>ns_sent = of_nat ((n - 1) * T), ns_received = of_nat ((n - 1) * T)\<rparr>, counters_new (others n p))
       else Inl ArithOverflow)"
      using fresh_netstat [OF _ T(2), of _ n P] by (auto simp: bandwidth_def grown simp del: of_nat_mult)
  qed (use assms(11,12) in \<open>simp_all add: bv_shares_def counters_fst\<close>)
qed

theorem query_bandwidth_witness:
  "\<exists>(sv :: nat \<Rightarrow> (256 word, 256 word, u8, u8) prc_server) q. all_finish 2
     (\<lambda>p. metered (prc_protocol Dev ring256_scalars ring256_group toy_sigs (sv p) (q p)) Dev (counters_new (others 2 p)))
     (\<lambda>out. \<forall>p<2. snd (out p) = map (\<lambda>r. (r, \<lparr>ns_sent = of_nat 85, ns_received = of_nat 85\<rparr>)) (others 2 p) \<and>
       sv_get_then_reset_netstat Dev (snd (out p)) = Inr (\<lparr>ns_sent = 85, ns_received = 85\<rparr>, counters_new (others 2 p)))"
proof -
  obtain db and sv :: "nat \<Rightarrow> (256 word, 256 word, u8, u8) prc_server" where s: "db_dims db 3 1" "servers_ready 2 113 0 36 0 db sv"
    "sv_pk (sv 0) = sg_verifying_key toy_sigs (sv_sk (sv 0))" by (rule sample_servers)
  let ?q = "\<lambda>p. \<lparr>q_l1_bss = \<lparr>bv_bit_len = 3, bv_value = if p = (0 :: nat) then 5 else 6\<rparr>,
    q_l2_bss = \<lparr>bv_bit_len = 1, bv_value = if p = 0 then 1 else 0\<rparr>, q_rnd_ass = \<lparr>av_value = 9\<rparr>\<rparr> :: 256 word prc_query"
  have T: "85 = 10 * (max (ohe_depth 3) (ohe_depth 1) + 1) + 2 * query_bytes 3 1 + (10 + div_ceil (3 + 1 + 1) 8) + 38"
    using sample_traffic by (simp only: query_traffic_def)
  from query_bandwidth [OF scalar_from_ok_word group_ok_ring256 codec_ok_ring256 _ s(2,1), where q = ?q and T = 85 and P = Dev and V = toy_sigs]
  show ?thesis using sample_shares T by (intro exI [of _ sv] exI [of _ ?q]) (simp add: sample_budget div_ceil_def del: One_nat_def)
qed

text \<open>C6. The private retrieval: from shares of the two parts of an index, \<open>rec_retrieve\<close> gives every server one bit, and the
  exclusive-or of these bits is the record at that index. Exactly the triples of one retrieval are spent.\<close>

theorem retrieved_bits_reconstruct:
  fixes sv :: "nat \<Rightarrow> ('s::comm_ring_1, 'g, 'sk, 'vk) prc_server"
  assumes "codec_ok G" and "servers_ready n N u M d db sv" and "db_dims db k1 k2" and "0 < k1" and "k1 \<le> 32" and "0 < k2" and "k2 \<le> 32"
    and "bv_shares n k1 b1 x1" and "bv_shares n k2 b2 x2" and "8 * query_bytes k1 k2 < 2 ^ 32" and "u + query_bytes k1 k2 \<le> div_ceil N 8"
  shows "all_finish n (\<lambda>p. rec_retrieve P G (sv p) (b1 p) (b2 p)) (\<lambda>out.
    get_record_bit db (unat x2 * 2 ^ k1 + unat x1) 0 = Inr (xors (map (\<lambda>p. fst (out p)) [0..<n])) \<and>
    servers_ready n N (u + query_bytes k1 k2) M d db (\<lambda>p. snd (out p)))"
proof (rule all_finish_mono [OF rec_retrieve_shares [OF assms(1) _ assms(3) _ assms(4-11)]])
  let ?i = "unat x2 * 2 ^ k1 + unat x1"
  show ready: "parties_ready n N u [] (\<lambda>p. sv_mpc_provider (sv p))" and db: "\<And>p. p < n \<Longrightarrow> sv_db (sv p) = db"
    using assms(2) by (simp_all add: servers_ready_def)
  fix out
  assume "\<exists>bs mp'. (\<forall>p<n. out p = (bs p, (sv p)\<lparr>sv_mpc_provider := mp' p\<rparr>)) \<and> xors (map bs [0..<n]) = rec_bit db 0 ?i \<and>
    spent n (\<lambda>p. sv_mpc_provider (sv p)) (u + query_bytes k1 k2) mp'"
  then obtain bs mp' where o: "\<And>p. p < n \<Longrightarrow> out p = (bs p, (sv p)\<lparr>sv_mpc_provider := mp' p\<rparr>)" "xors (map bs [0..<n]) = rec_bit db 0 ?i"
      "spent n (\<lambda>p. sv_mpc_provider (sv p)) (u + query_bytes k1 k2) mp'" by blast
  have x: "unat x1 < 2 ^ k1" "unat x2 < 2 ^ k2"
    using assms(8,9) xor_of_bound [of n _ k1] xor_of_bound [of n _ k2] by (auto simp: bv_shares_def)
  then have "?i < 2 ^ k2 * 2 ^ k1" using mult_le_mono1 [of "Suc (unat x2)" "2 ^ k2" "2 ^ k1"] by simp
  moreover have eq: "map (\<lambda>p. fst (out p)) [0..<n] = map bs [0..<n]" using o(1) by simp
  ultimately have "get_record_bit db ?i 0 = Inr (rec_bit db 0 ?i)"
    using assms(3) by (intro get_record_bit_Ok) (simp_all add: db_dims_def db_total_size_def mult.commute)
  then have bits: "get_record_bit db ?i 0 = Inr (xors (map (\<lambda>p. fst (out p)) [0..<n]))"
    unfolding eq o(2) .
  have da: "mp_dabit_provider (mp' p) = mp_dabit_provider (sv_mpc_provider (sv p))" if "p < n" for p
    by (rule spentE [OF o(3) that]) simp
  then have "das_ok n M (\<lambda>p. mp_dabit_provider (mp' p)) d" using assms(2) by (auto simp: servers_ready_def das_ok_def)
  then have "servers_ready n N (u + query_bytes k1 k2) M d db (\<lambda>p. snd (out p))"
    using parties_ready_spent [OF ready o(3)] db o(1) by (auto simp: servers_ready_def parties_ready_def bps_ok_def das_ok_def cong: conj_cong)
  with bits show "get_record_bit db ?i 0 = Inr (xors (map (\<lambda>p. fst (out p)) [0..<n])) \<and>
      servers_ready n N (u + query_bytes k1 k2) M d db (\<lambda>p. snd (out p))" by blast
qed

theorem retrieved_bits_reconstruct_witness:
  "\<exists>(sv :: nat \<Rightarrow> (256 word, 256 word, u8, u8) prc_server) db.
    all_finish 2 (\<lambda>p. rec_retrieve Dev ring256_group (sv p) \<lparr>bv_bit_len = 3, bv_value = if p = 0 then 5 else 6\<rparr>
        \<lparr>bv_bit_len = 1, bv_value = if p = 0 then 1 else 0\<rparr>) (\<lambda>out.
      get_record_bit db (unat (1 :: u32) * 2 ^ 3 + unat (3 :: u32)) 0 = Inr (xors (map (\<lambda>p. fst (out p)) [0..<2])) \<and>
      servers_ready 2 113 (0 + query_bytes 3 1) 36 0 db (\<lambda>p. snd (out p)))"
proof -
  obtain db and sv :: "nat \<Rightarrow> (256 word, 256 word, u8, u8) prc_server" where s: "db_dims db 3 1" "servers_ready 2 113 0 36 0 db sv"
    "sv_pk (sv 0) = sg_verifying_key toy_sigs (sv_sk (sv 0))" by (rule sample_servers)
  show ?thesis
    by (intro exI [of _ sv] exI [of _ db], rule retrieved_bits_reconstruct [OF codec_ok_ring256 s(2,1) _ _ _ _ sample_shares])
      (simp_all add: sample_budget div_ceil_def del: One_nat_def)
qed

text \<open>C8. The one-hot encoding: from shares of \<open>x\<close> over \<open>k\<close> bits, \<open>ohe\<close> gives every server an array of \<open>2^k\<close> bits, and the
  exclusive-or of these arrays is set at position \<open>x\<close> and nowhere else. It takes \<open>ohe_bytes k\<close> bytes of triples.\<close>

theorem ohe_unit_vector:
  fixes sv :: "nat \<Rightarrow> ('s::comm_ring_1, 'g, 'sk, 'vk) prc_server"
  assumes "codec_ok G" and "servers_ready n N u M d db sv" and "0 < k" and "k \<le> 32" and "bv_shares n k b x"
    and "8 * ohe_bytes k < 2 ^ 32" and "u + ohe_bytes k \<le> div_ceil N 8"
  shows "all_finish n (\<lambda>p. sv_ohe P G (sv p) (b p)) (\<lambda>out.
    (\<forall>p<n. ba_bit_size (fst (out p)) = 2 ^ k) \<and>
    (\<forall>i<2 ^ k. \<exists>bits. (\<forall>p<n. ba_get (fst (out p)) i = Inr (bits p)) \<and> xors (map bits [0..<n]) = (i = unat x)) \<and>
    (\<forall>p<n. bp_used (mp_beaver_provider (sv_mpc_provider (snd (out p)))) = u + ohe_bytes k))"
proof (rule all_finish_mono [OF sv_ohe_shares [OF assms(1) _ assms(3-7)]])
  show "parties_ready n N u [] (\<lambda>p. sv_mpc_provider (sv p))" using assms(2) by (simp add: servers_ready_def)
  fix out
  assume "\<exists>a mp'. (\<forall>p<n. out p = (a p, (sv p)\<lparr>sv_mpc_provider := mp' p\<rparr>)) \<and> shared n a (2 ^ k) (\<lambda>i. i = unat x) \<and>
    spent n (\<lambda>p. sv_mpc_provider (sv p)) (u + ohe_bytes k) mp'"
  then obtain a mp' where o: "\<And>p. p < n \<Longrightarrow> out p = (a p, (sv p)\<lparr>sv_mpc_provider := mp' p\<rparr>)" and a: "shared n a (2 ^ k) (\<lambda>i. i = unat x)"
    and sp: "spent n (\<lambda>p. sv_mpc_provider (sv p)) (u + ohe_bytes k) mp'" by blast
  have "bp_used (mp_beaver_provider (sv_mpc_provider (snd (out p)))) = u + ohe_bytes k" if "p < n" for p
    using o [OF that] by (rule_tac spentE [OF sp that]) simp
  moreover have "ba_get (fst (out p)) i = Inr (mbit (a p) i)" if "p < n" "i < 2 ^ k" for p i
    using a o that by (simp add: shared_def ba_get_Ok)
  moreover have "xors (map (\<lambda>p. mbit (a p) i) [0..<n]) = (i = unat x)" if "i < 2 ^ k" for i
    using a that by (simp add: shared_def)
  ultimately show "(\<forall>p<n. ba_bit_size (fst (out p)) = 2 ^ k) \<and>
    (\<forall>i<2 ^ k. \<exists>bits. (\<forall>p<n. ba_get (fst (out p)) i = Inr (bits p)) \<and> xors (map bits [0..<n]) = (i = unat x)) \<and>
    (\<forall>p<n. bp_used (mp_beaver_provider (sv_mpc_provider (snd (out p)))) = u + ohe_bytes k)"
    using a o by (intro conjI allI impI) (auto simp: shared_def)
qed

theorem ohe_unit_vector_witness:
  "\<exists>sv :: nat \<Rightarrow> (256 word, 256 word, u8, u8) prc_server.
    all_finish 2 (\<lambda>p. sv_ohe Dev ring256_group (sv p) \<lparr>bv_bit_len = 3, bv_value = if p = 0 then 5 else 6\<rparr>) (\<lambda>out.
      (\<forall>p<2. ba_bit_size (fst (out p)) = 2 ^ 3) \<and>
      (\<forall>i<2 ^ 3. \<exists>bits. (\<forall>p<2. ba_get (fst (out p)) i = Inr (bits p)) \<and> xors (map bits [0..<2]) = (i = unat (3 :: u32))) \<and>
      (\<forall>p<2. bp_used (mp_beaver_provider (sv_mpc_provider (snd (out p)))) = 0 + ohe_bytes 3))"
proof -
  obtain db and sv :: "nat \<Rightarrow> (256 word, 256 word, u8, u8) prc_server" where s: "db_dims db 3 1" "servers_ready 2 113 0 36 0 db sv"
    "sv_pk (sv 0) = sg_verifying_key toy_sigs (sv_sk (sv 0))" by (rule sample_servers)
  show ?thesis
    by (intro exI [of _ sv], rule ohe_unit_vector [OF codec_ok_ring256 s(2) _ _ sample_shares(1)])
      (simp_all add: ohe_bytes_small div_ceil_def)
qed

text \<open>C9. The conversion from Boolean to arithmetic shares: \<open>conv_b2a\<close> on shares of the values \<open>xs\<close> of at most 32 bits gives every
  server one scalar per value, and the scalars of all servers add up to that value. One daBit per bit is spent.\<close>

theorem converted_values_add_up:
  fixes sv :: "nat \<Rightarrow> ('s::comm_ring_1, 'g, 'sk, 'vk) prc_server"
  assumes "scalar_from_ok S" and "codec_ok G" and "2 \<le> n" and "servers_ready n N u M d db sv" and "bvs_shares n ls bvs xs"
    and "\<forall>l\<in>set ls. l \<le> 32" and "0 < sum_list ls" and "sum_list ls < 2 ^ 32" and "d + sum_list ls \<le> M"
  shows "all_finish n (\<lambda>p. sv_conv_b2a S G (sv p) (bvs p)) (\<lambda>out.
    (\<forall>p<n. length (fst (out p)) = length xs) \<and>
    (\<forall>k<length xs. (\<Sum>p<n. av_as_scalar (fst (out p) ! k)) = of_nat (unat (xs ! k))) \<and>
    (\<forall>p<n. da_used (mp_dabit_provider (sv_mpc_provider (snd (out p)))) = d + sum_list ls))"
proof -
  let ?mp = "\<lambda>p. sv_mpc_provider (sv p)"
  have n: "n \<le> 256" and mp: "\<And>p. p < n \<Longrightarrow> mh_ready n p (mp_message_handler (?mp p)) \<and> mp_party_const (?mp p) = (p = 0)"
    and da: "das_ok n M (\<lambda>p. mp_dabit_provider (?mp p)) d"
    using assms(4) by (simp_all add: servers_ready_def parties_ready_def)
  have len: "length ls = length xs" using assms(5) by (simp add: bvs_shares_def)
  note conv = run_conv_shares [OF assms(1,2,3) n mp assms(5) bspec [OF assms(6)] refl assms(7,8) da assms(9)]
  show ?thesis
    unfolding sv_conv_b2a_def
  proof (rule all_finish_bind [OF all_finish_mono [OF conv]])
    fix out :: "nat \<Rightarrow> 's arith_value list \<times> ('s, 'g) mpc_provider"
    assume "\<exists>vals. (\<forall>p<n. out p = (vals p, (?mp p)\<lparr>mp_dabit_provider := (mp_dabit_provider (?mp p))\<lparr>da_used := d + sum_list ls\<rparr>\<rparr>) \<and>
        length (vals p) = length ls) \<and> (\<forall>k<length ls. (\<Sum>p<n. av_value (vals p ! k)) = of_nat (unat (xs ! k)))"
    then obtain vals where v: "\<And>p. p < n \<Longrightarrow> out p = (vals p, (?mp p)\<lparr>mp_dabit_provider := (mp_dabit_provider (?mp p))\<lparr>da_used := d + sum_list ls\<rparr>\<rparr>)"
        "\<And>p. p < n \<Longrightarrow> length (vals p) = length xs" "\<And>k. k < length xs \<Longrightarrow> (\<Sum>p<n. av_value (vals p ! k)) = of_nat (unat (xs ! k))"
      unfolding len by blast
    show "all_finish n (\<lambda>p. case out p of (arith, mp) \<Rightarrow> Done (arith, (sv p)\<lparr>sv_mpc_provider := mp\<rparr>)) (\<lambda>out.
      (\<forall>p<n. length (fst (out p)) = length xs) \<and>
      (\<forall>k<length xs. (\<Sum>p<n. av_as_scalar (fst (out p) ! k)) = of_nat (unat (xs ! k))) \<and>
      (\<forall>p<n. da_used (mp_dabit_provider (sv_mpc_provider (snd (out p)))) = d + sum_list ls))"
      unfolding case_prod_unfold by (rule all_finish_Done) (auto simp: v av_as_scalar_def)
  qed
qed

theorem converted_values_add_up_witness:
  "\<exists>sv :: nat \<Rightarrow> (256 word, 256 word, u8, u8) prc_server.
    all_finish 2 (\<lambda>p. sv_conv_b2a ring256_scalars ring256_group (sv p) [\<lparr>bv_bit_len = 3, bv_value = if p = 0 then 5 else 6\<rparr>]) (\<lambda>out.
      (\<forall>p<2. length (fst (out p)) = length [3 :: u32]) \<and>
      (\<forall>k<length [3 :: u32]. (\<Sum>p<2. av_as_scalar (fst (out p) ! k)) = of_nat (unat ([3 :: u32] ! k))) \<and>
      (\<forall>p<2. da_used (mp_dabit_provider (sv_mpc_provider (snd (out p)))) = 0 + sum_list [3]))"
proof -
  obtain db and sv :: "nat \<Rightarrow> (256 word, 256 word, u8, u8) prc_server" where s: "db_dims db 3 1" "servers_ready 2 113 0 36 0 db sv"
    "sv_pk (sv 0) = sg_verifying_key toy_sigs (sv_sk (sv 0))" by (rule sample_servers)
  have b: "bvs_shares 2 [3] (\<lambda>p. [\<lparr>bv_bit_len = 3, bv_value = if p = 0 then 5 else 6\<rparr>]) [3]"
    unfolding bvs_shares_def using sample_shares(1) by simp
  show ?thesis
    by (intro exI [of _ sv], rule converted_values_add_up [OF scalar_from_ok_word codec_ok_ring256 _ s(2) b]) simp_all
qed

text \<open>C10. The AND gate of the executor: \<open>and\<close> on shares of two vectors of \<open>m\<close> bits, \<open>run\<close> and \<open>get_output\<close> give every party an array
  of \<open>m\<close> bits, and these are shares of the bitwise conjunction. One byte of triples is spent per eight bits.\<close>

theorem and_gate_multiplies:
  fixes mp :: "nat \<Rightarrow> ('s, 'g) mpc_provider"
  assumes "codec_ok G" and "parties_ready n N u [] mp" and "shared n a m f" and "shared n b m g" and "0 < m"
    and "8 * div_ceil m 8 < 2 ^ 32" and "u + div_ceil m 8 \<le> div_ceil N 8"
  shows "all_finish n (\<lambda>p. pbind (lift_res (mp_and (mp p) m (Input (a p)) (Input (b p)))) (\<lambda>(src, mp).
      pbind (mp_run P G mp) (\<lambda>mp. pbind (lift_res (get_output P mp src)) (\<lambda>z. Done (z, mp)))))
    (\<lambda>out. shared n (\<lambda>p. fst (out p)) m (\<lambda>i. f i \<and> g i) \<and> spent n mp (u + div_ceil m 8) (\<lambda>p. snd (out p)))"
proof -
  obtain C srcs where C: "circuit_ok n C" "\<And>k. k < length C \<Longrightarrow> 0 < fst (C ! k)" "circuit_bytes C = div_ceil m 8"
      "src_ok n C 0 srcs m (\<lambda>i. f i \<and> g i)"
      "\<And>p. p < n \<Longrightarrow> mp_and (mp p) m (Input (a p)) (Input (b p)) = Inr (srcs p, (mp p)\<lparr>mp_layers := party_layers p C\<rparr>)"
    using mp_and_builds [OF assms(2-5)] by blast
  let ?mp = "\<lambda>p. (mp p)\<lparr>mp_layers := party_layers p C\<rparr>"
  let ?Q = "\<lambda>out. shared n (\<lambda>p. fst (out p)) m (\<lambda>i. f i \<and> g i) \<and> spent n mp (u + div_ceil m 8) (\<lambda>p. snd (out p))"
  have "all_finish n (\<lambda>p. pbind (mp_run P G (?mp p)) (\<lambda>mp. pbind (lift_res (get_output P mp (srcs p))) (\<lambda>z. Done (z, mp)))) ?Q"
  proof (rule all_finish_bind [OF all_finish_mono [OF run_sources [OF assms(1) parties_ready_layers [OF assms(2)] C(1,2)]]])
    fix mp' :: "nat \<Rightarrow> ('s, 'g) mpc_provider"
    assume run: "spent n ?mp (u + circuit_bytes C) mp' \<and>
      (\<forall>srcs m f. src_ok n C 0 srcs m f \<longrightarrow> (\<exists>a. (\<forall>p<n. get_output P (mp' p) (srcs p) = Inr (a p)) \<and> shared n a m f))"
    then obtain z where z: "\<And>p. p < n \<Longrightarrow> get_output P (mp' p) (srcs p) = Inr (z p)" "shared n z m (\<lambda>i. f i \<and> g i)"
      using C(4) by blast
    moreover have "spent n mp (u + div_ceil m 8) mp'" using run unfolding spent_layers C(3) by blast
    ultimately show "all_finish n (\<lambda>p. pbind (lift_res (get_output P (mp' p) (srcs p))) (\<lambda>z. Done (z, mp' p))) ?Q"
      by (intro all_finish.finish [where xs = "\<lambda>p. (z p, mp' p)"]) simp_all
  qed (use C(3) assms(6,7) in simp_all)
  then show ?thesis by (rule all_finish_cong) (simp add: C(5))
qed

theorem and_gate_multiplies_witness:
  "\<exists>mp :: nat \<Rightarrow> (256 word, 256 word) mpc_provider.
    all_finish 2 (\<lambda>p. pbind (lift_res (mp_and (mp p) 2 (Input (ba_make 2 (\<lambda>i. i = 0))) (Input (ba_make 2 (\<lambda>i. i < 2 \<and> p = 0))))) (\<lambda>(src, mp).
      pbind (mp_run Dev ring256_group mp) (\<lambda>mp. pbind (lift_res (get_output Dev mp src)) (\<lambda>z. Done (z, mp)))))
    (\<lambda>out. shared 2 (\<lambda>p. fst (out p)) 2 (\<lambda>i. False \<and> True) \<and> spent 2 mp (0 + div_ceil 2 8) (\<lambda>p. snd (out p)))"
proof -
  obtain db and sv :: "nat \<Rightarrow> (256 word, 256 word, u8, u8) prc_server" where s: "db_dims db 3 1" "servers_ready 2 113 0 36 0 db sv"
    "sv_pk (sv 0) = sg_verifying_key toy_sigs (sv_sk (sv 0))" by (rule sample_servers)
  have ab: "shared 2 (\<lambda>p. ba_make 2 (\<lambda>i. i = 0)) 2 (\<lambda>_. False)" "shared 2 (\<lambda>p. ba_make 2 (\<lambda>i. i < 2 \<and> p = 0)) 2 (\<lambda>_. True)"
    using cap_ge [of 2] by (auto simp: shared_def upt_rec)
  have mp: "parties_ready 2 113 0 [] (\<lambda>p. sv_mpc_provider (sv p))" using s(2) by (simp add: servers_ready_def)
  show ?thesis
    by (intro exI [of _ "\<lambda>p. sv_mpc_provider (sv p)"], rule and_gate_multiplies [OF codec_ok_ring256 mp ab])
      (simp_all add: div_ceil_def)
qed

text \<open>C21. \<open>ohe_vec\<close> terminates and builds the circuit: on an executor without layers and a value within its \<open>k\<close> bits, it panics
  for \<open>k = 0\<close>, and for \<open>k\<close> from 1 to 32 it returns a source, the new layers reserve \<open>ohe_bytes k\<close> bytes, none of
  them is empty and all of them still accept tickets.\<close>

theorem ohe_vec_terminates:
  fixes mp :: "('s, 'g) mpc_provider"
  assumes "mp_layers mp = []" and "bv_bit_len bv \<le> 32" and "unat (bv_value bv) < 2 ^ bv_bit_len bv"
  shows "if bv_bit_len bv = 0 then ohe_vec P mp bv = Inl ExplicitPanic
    else \<exists>src mp'. ohe_vec P mp bv = Inr (src, mp') \<and> sum_list (map ly_current_size (mp_layers mp')) = ohe_bytes (bv_bit_len bv) \<and>
      (\<forall>ly\<in>set (mp_layers mp'). 0 < ly_current_size ly \<and> ly_state ly = Ticketing)"
proof (cases "bv_bit_len bv = 0")
  case True
  then show ?thesis by (simp add: ohe_vec_def recursive_ohe_vec.simps)
next
  case False
  define p where "p = (if mp_party_const mp then 0 else 1 :: nat)"
  have p: "p < 2" "mp_party_const mp = (p = 0)" by (simp_all add: p_def)
  have "circuit_ok 2 []" by (simp add: circuit_ok_def)
  with False assms obtain C srcs where C: "ohe_built 2 [] 0 (bv_bit_len bv) (\<lambda>_. bv_value bv) C srcs"
      "recursive_ohe_vec P mp 0 (bv_bit_len bv) (bv_value bv) = Inr (srcs p, mp\<lparr>mp_layers := party_layers p C\<rparr>)"
    using ohe_builds [of "bv_bit_len bv" 2 "[]" "\<lambda>_. bv_value bv" 0 P] p by fastforce
  have "map ly_current_size (party_layers p C) = map fst C"
    by (intro nth_equalityI) (simp_all add: party_layers_def level_layer_def)
  then have "sum_list (map ly_current_size (party_layers p C)) = ohe_bytes (bv_bit_len bv)"
    using C(1) by (simp add: ohe_built_def circuit_bytes_def)
  moreover have "\<forall>ly\<in>set (party_layers p C). 0 < ly_current_size ly \<and> ly_state ly = Ticketing"
    using C(1) by (auto simp: ohe_built_def party_layers_def level_layer_def)
  ultimately show ?thesis using False C(2) by (simp add: ohe_vec_def)
qed

theorem ohe_vec_terminates_witness:
  "\<exists>(mp :: (256 word, 256 word) mpc_provider) src mp'. ohe_vec Dev mp \<lparr>bv_bit_len = 32, bv_value = 77\<rparr> = Inr (src, mp') \<and>
    sum_list (map ly_current_size (mp_layers mp')) = ohe_bytes 32 \<and> (\<forall>ly\<in>set (mp_layers mp'). 0 < ly_current_size ly \<and> ly_state ly = Ticketing)"
proof -
  obtain db and sv :: "nat \<Rightarrow> (256 word, 256 word, u8, u8) prc_server" where s: "db_dims db 3 1" "servers_ready 2 113 0 36 0 db sv"
    "sv_pk (sv 0) = sg_verifying_key toy_sigs (sv_sk (sv 0))" by (rule sample_servers)
  then have "mp_layers (sv_mpc_provider (sv 0)) = []" by (simp add: servers_ready_def parties_ready_def)
  then show ?thesis using ohe_vec_terminates [of "sv_mpc_provider (sv 0)" "\<lparr>bv_bit_len = 32, bv_value = 77\<rparr>" Dev]
    by (intro exI [of _ "sv_mpc_provider (sv 0)"]) simp
qed

text \<open>C18. The preprocessing is enough: for every configuration of 3 to 31 index bits in the first dimension and fewer or equally
  many in the second, \<open>init_seeded_correlated_randomness\<close> for \<open>Q\<close> expected queries gives every party a provider of triples and one of daBits; the triples
  and the daBits of all parties fit together, and each party can take from them what the circuits of \<open>Q\<close> queries take, \<open>query_bytes\<close> bytes of triples
  and a daBit for each bit of the index and of the record per query. No size of a query overflows 32 bits.\<close>

theorem query_budget_covers:
  fixes S :: "('s::comm_ring_1, 'r) scalar_ops"
  assumes "rng_ok R" and "scalar_from_ok S" and "config_ok c k1 k2" and "0 < Q" and "n = length (sc_peers c)"
  shows "\<exists>bp (da :: nat \<Rightarrow> 's dabit_provider) N M. (\<forall>p<n. init_seeded_correlated_randomness R S c p Q = Inr (bp p, da p)) \<and> bps_ok n N bp 0 \<and> das_ok n M da 0 \<and>
    (\<forall>p<n. \<exists>ts bp' ds da'. bp_take (bp p) (Q * query_bytes k1 k2) = Inr (ts, bp') \<and> da_take (da p) (Q * (k1 + k2 + 1)) = Inr (ds, da')) \<and>
    8 * query_bytes k1 k2 < 2 ^ 32"
proof -
  obtain bp and da :: "nat \<Rightarrow> 's dabit_provider" where pr: "\<And>p. p < n \<Longrightarrow> init_seeded_correlated_randomness R S c p Q = Inr (bp p, da p)"
    "bps_ok n (Q * beaver_per_q (sc_db_config c)) bp 0" "das_ok n (Q * 36) da 0" using providers_of_config [OF assms] by blast
  have "8 * (Q * query_bytes k1 k2) \<le> Q * beaver_per_q (sc_db_config c)" using query_budget(1) [OF assms(3)] by simp
  then have N: "Q * query_bytes k1 k2 \<le> div_ceil (Q * beaver_per_q (sc_db_config c)) 8" unfolding div_ceil_def by linarith
  have M: "Q * (k1 + k2 + 1) \<le> Q * 36" using assms(3) by (simp add: config_ok_def)
  have "\<exists>ts bp' ds da'. bp_take (bp p) (Q * query_bytes k1 k2) = Inr (ts, bp') \<and> da_take (da p) (Q * (k1 + k2 + 1)) = Inr (ds, da')" if p: "p < n" for p
  proof -
    obtain d where "bp_beaver_storage (bp p) = Some d" "d2_wf 3 (Q * beaver_per_q (sc_db_config c)) d" "bp_used (bp p) = 0"
      using pr(2) p unfolding bps_ok_def by blast
    from bp_take_next [OF this(1,2)] N this(3) have "\<exists>ts bp'. bp_take (bp p) (Q * query_bytes k1 k2) = Inr (ts, bp')" by simp
    moreover obtain ds where "da_bit_storage (da p) = Some ds" "length ds = Q * 36" "da_used (da p) = 0" using pr(3) p unfolding das_ok_def by blast
    then have "\<exists>ds da'. da_take (da p) (Q * (k1 + k2 + 1)) = Inr (ds, da')" using M by (simp add: da_take_def slice_def)
    ultimately show ?thesis by blast
  qed
  then show ?thesis using pr query_budget(2) [OF assms(3)] by blast
qed

theorem query_budget_covers_witness:
  "\<exists>bp (da :: nat \<Rightarrow> 256 word dabit_provider) N M. (\<forall>p<2. init_seeded_correlated_randomness counter_rng ring256_scalars sample_config p 4 = Inr (bp p, da p)) \<and>
    bps_ok 2 N bp 0 \<and> das_ok 2 M da 0 \<and>
    (\<forall>p<2. \<exists>ts bp' ds da'. bp_take (bp p) (4 * query_bytes 3 1) = Inr (ts, bp') \<and> da_take (da p) (4 * (3 + 1 + 1)) = Inr (ds, da')) \<and>
    8 * query_bytes 3 1 < 2 ^ 32"
  by (rule query_budget_covers [OF rng_ok_counter scalar_from_ok_word sample_config_ok]) (simp_all add: sample_config_def cli_config_def)

end
